(* ===== verification/Prelude.thy ===== *)
theory Prelude
  imports Main "HOL-Library.Word"
begin

text \<open>
  What every component shares: the names of the machine types of the kernel's headers, the
  status codes its routines return, and the lemmas on masks, lists and signed words that the
  component theories use.

  An \<^verbatim>\<open>ULONG\<close>, \<^verbatim>\<open>USHORT\<close> or \<^verbatim>\<open>UCHAR\<close> is a word of its width; a \<^verbatim>\<open>LONG\<close> is the same
  32-bit word read with \<^const>\<open>sint\<close>; an access mask is a \<^verbatim>\<open>ULONG\<close>; a \<^verbatim>\<open>BOOLEAN\<close> that only carries
  a truth value is a \<^typ>\<open>bool\<close>.
\<close>

unbundle bit_operations_syntax

section \<open>Machine types and status codes\<close>

type_synonym uchar = "8 word"
type_synonym ushort = "16 word"
type_synonym ulong = "32 word"
type_synonym long = "32 word"
type_synonym ulonglong = "64 word"
type_synonym ntstatus = "32 word"
type_synonym access_mask = "32 word"

datatype kprocessor_mode = KernelMode | UserMode

text \<open>The values of \<^verbatim>\<open>public/sdk/inc/ntstatus.h\<close>.\<close>

abbreviation STATUS_SUCCESS :: ntstatus where "STATUS_SUCCESS \<equiv> 0x00000000"
abbreviation STATUS_ABANDONED :: ntstatus where "STATUS_ABANDONED \<equiv> 0x00000080"
abbreviation STATUS_USER_APC :: ntstatus where "STATUS_USER_APC \<equiv> 0x000000C0"
abbreviation STATUS_KERNEL_APC :: ntstatus where "STATUS_KERNEL_APC \<equiv> 0x00000100"
abbreviation STATUS_ALERTED :: ntstatus where "STATUS_ALERTED \<equiv> 0x00000101"
abbreviation STATUS_TIMEOUT :: ntstatus where "STATUS_TIMEOUT \<equiv> 0x00000102"
abbreviation STATUS_BUFFER_OVERFLOW :: ntstatus where "STATUS_BUFFER_OVERFLOW \<equiv> 0x80000005"
abbreviation STATUS_NOT_IMPLEMENTED :: ntstatus where "STATUS_NOT_IMPLEMENTED \<equiv> 0xC0000002"
abbreviation STATUS_INVALID_PARAMETER :: ntstatus where "STATUS_INVALID_PARAMETER \<equiv> 0xC000000D"
abbreviation STATUS_NO_MEMORY :: ntstatus where "STATUS_NO_MEMORY \<equiv> 0xC0000017"
abbreviation STATUS_ACCESS_DENIED :: ntstatus where "STATUS_ACCESS_DENIED \<equiv> 0xC0000022"
abbreviation STATUS_BUFFER_TOO_SMALL :: ntstatus where "STATUS_BUFFER_TOO_SMALL \<equiv> 0xC0000023"
abbreviation STATUS_MUTANT_NOT_OWNED :: ntstatus where "STATUS_MUTANT_NOT_OWNED \<equiv> 0xC0000046"
abbreviation STATUS_PRIVILEGE_NOT_HELD :: ntstatus where "STATUS_PRIVILEGE_NOT_HELD \<equiv> 0xC0000061"
abbreviation STATUS_INSUFFICIENT_RESOURCES :: ntstatus
  where "STATUS_INSUFFICIENT_RESOURCES \<equiv> 0xC000009A"
abbreviation STATUS_BAD_IMPERSONATION_LEVEL :: ntstatus
  where "STATUS_BAD_IMPERSONATION_LEVEL \<equiv> 0xC00000A5"
abbreviation STATUS_SEMAPHORE_LIMIT_EXCEEDED :: ntstatus
  where "STATUS_SEMAPHORE_LIMIT_EXCEEDED \<equiv> 0xC0000047"
abbreviation STATUS_MUTANT_LIMIT_EXCEEDED :: ntstatus
  where "STATUS_MUTANT_LIMIT_EXCEEDED \<equiv> 0xC0000191"

text \<open>\<^verbatim>\<open>NT_SUCCESS(Status)\<close> is \<^verbatim>\<open>(NTSTATUS)(Status) >= 0\<close>, on the signed reading.\<close>

definition NT_SUCCESS :: "ntstatus \<Rightarrow> bool" where
  "NT_SUCCESS status \<longleftrightarrow> 0 \<le> sint status"

section \<open>Lemma collections\<close>

named_theorems mask_simps \<open>bitwise characterisations of tests on masks\<close>
named_theorems mask_defs \<open>the values of the named access rights\<close>

section \<open>Masks\<close>

lemma mask_disjoint_iff [mask_simps]:
  "(a AND b = 0) \<longleftrightarrow> (\<forall>n. bit a n \<longrightarrow> \<not> bit (b :: 'a::len word) n)"
  by (auto simp: bit_eq_iff bit_and_iff dest: bit_imp_le_length)

lemma mask_zero_iff: "((a :: 'a::len word) = 0) \<longleftrightarrow> (\<forall>n. \<not> bit a n)"
  by (auto simp: bit_eq_iff dest: bit_imp_le_length)

lemma mask_subset_iff: "(NOT a AND b = 0) \<longleftrightarrow> (\<forall>n. bit b n \<longrightarrow> bit (a :: 'a::len word) n)"
  by (auto simp: bit_eq_iff bit_and_iff bit_not_iff dest: bit_imp_le_length)

lemma mask_absorb_iff: "(a AND b = b) \<longleftrightarrow> (\<forall>n. bit b n \<longrightarrow> bit (a :: 'a::len word) n)"
  by (auto simp: bit_eq_iff bit_and_iff dest: bit_imp_le_length)

lemma bit_diff_mask [mask_simps]:
  "bit (a AND NOT b) n \<longleftrightarrow> bit a n \<and> \<not> bit (b :: 'a::len word) n"
  by (auto simp: bit_and_iff bit_not_iff dest: bit_imp_le_length)

lemma bit_diff_mask2:
  "bit (a AND NOT b AND NOT c) n \<longleftrightarrow> bit a n \<and> \<not> bit b n \<and> \<not> bit (c :: 'a::len word) n"
  by (auto simp: bit_and_iff bit_not_iff dest: bit_imp_le_length)

section \<open>Index ranges\<close>

text \<open>The first index of a range a loop runs over, split off the rest.\<close>

lemma range_all_Suc:
  assumes "i < n"
  shows "(\<forall>k. i \<le> k \<and> k < n \<longrightarrow> P k) \<longleftrightarrow> P i \<and> (\<forall>k. Suc i \<le> k \<and> k < n \<longrightarrow> P k)"
proof -
  have "i \<le> k \<longleftrightarrow> k = i \<or> Suc i \<le> k" for k by auto
  with assms show ?thesis by auto
qed

lemma range_ex_Suc:
  assumes "i < n"
  shows "(\<exists>k. i \<le> k \<and> k < n \<and> P k) \<longleftrightarrow> P i \<or> (\<exists>k. Suc i \<le> k \<and> k < n \<and> P k)"
proof -
  have "i \<le> k \<longleftrightarrow> k = i \<or> Suc i \<le> k" for k by auto
  with assms show ?thesis by auto
qed

text \<open>The operations of masks, right by right.\<close>

lemmas bit_mask_ops = bit_or_iff bit_diff_mask bit_diff_mask2

section \<open>Word arithmetic within range\<close>

lemma unat_plus_range: "unat a + unat b < 2 ^ LENGTH('a) \<Longrightarrow> unat (a + b :: 'a::len word) = unat a + unat b"
  by (simp add: unat_word_ariths)

lemma unat_times_range: "unat a * unat b < 2 ^ LENGTH('a) \<Longrightarrow> unat (a * b :: 'a::len word) = unat a * unat b"
  by (simp add: unat_word_ariths)

lemma unat_minus_range: "unat b \<le> unat a \<Longrightarrow> unat (a - b :: 'a::len word) = unat a - unat b"
  by (simp add: unat_sub word_le_nat_alt)

lemma unat_ucast_range:
  fixes w :: "'a::len word"
  assumes "unat w < 2 ^ LENGTH('b)"
  shows "unat (ucast w :: 'b::len word) = unat w"
  using assms by (simp add: unsigned_ucast_eq take_bit_nat_eq_self)

lemma unat_of_nat_range: "n < 2 ^ LENGTH('a) \<Longrightarrow> unat (word_of_nat n :: 'a::len word) = n"
  by (simp add: unsigned_of_nat take_bit_nat_eq_self)

lemma sint_nonneg:
  fixes w :: "'a::len word"
  assumes "0 \<le> sint w"
  shows "sint w = int (unat w)" and "unat w < 2 ^ (LENGTH('a) - 1)"
proof -
  obtain n where n: "LENGTH('a) = Suc n" using len_gt_0 [where 'a = 'a] gr0_implies_Suc by blast
  have s: "sint w = signed_take_bit n (uint w)" using n by (simp add: sint_uint)
  have "\<not> bit (uint w) n" using assms by (simp add: s)
  then have t: "sint w = take_bit n (uint w)" by (simp add: s signed_take_bit_eq_if_positive)
  have "uint w < 2 ^ Suc n" using uint_bounded [of w] n by simp
  then have "uint w = take_bit (Suc n) (uint w)" by (simp add: take_bit_int_eq_self)
  then have "uint w = take_bit n (uint w)" using \<open>\<not> bit (uint w) n\<close> by (simp add: take_bit_Suc_from_most)
  then have u: "sint w = uint w" using t by simp
  then show "sint w = int (unat w)" by simp
  have "int (unat w) < 2 ^ n" using t u by (metis take_bit_int_less_exp uint_nat)
  then have "unat w < 2 ^ n" by (metis of_nat_less_iff of_nat_numeral of_nat_power)
  then show "unat w < 2 ^ (LENGTH('a) - 1)" using n by simp
qed

lemma sint_small:
  fixes w :: "'a::len word"
  assumes "unat w < 2 ^ (LENGTH('a) - 1)"
  shows "sint w = int (unat w)"
proof -
  have "uint w < 2 ^ (LENGTH('a) - 1)" using assms by (metis of_nat_less_iff of_nat_numeral of_nat_power uint_nat)
  then have "\<not> bit (uint w) (LENGTH('a) - 1)" "take_bit (LENGTH('a) - 1) (uint w) = uint w"
    by (simp_all only: bit_iff_odd take_bit_int_eq_self uint_0_iff div_pos_pos_trivial
        unsigned_greater_eq even_zero not_not)
  then have "signed_take_bit (LENGTH('a) - 1) (uint w) = uint w"
    by (metis signed_take_bit_eq_if_positive)
  then show ?thesis by (simp add: sint_uint)
qed

lemma scast_small:
  fixes w :: "'a::len word"
  assumes "unat w < 2 ^ (LENGTH('a) - 1)" "LENGTH('a) \<le> LENGTH('b)"
  shows "unat (scast w :: 'b::len word) = unat w"
proof -
  have "unat w < 2 ^ LENGTH('b)"
    using assms by (meson diff_le_self le_trans less_le_trans one_le_numeral power_increasing)
  moreover have "(scast w :: 'b word) = word_of_nat (unat w)" using sint_small [OF assms(1)]
    by (metis scast_eq of_int_of_nat_eq)
  ultimately show ?thesis using unat_of_nat_range by metis
qed

lemma unat_ulong_less: "unat (w :: ulong) < 4294967296"
proof -
  have "unat w < 2 ^ LENGTH(32)" by (rule unsigned_less)
  then show ?thesis by simp
qed

end
