(* ===== verification/Security_Ids.thy ===== *)
theory Security_Ids
  imports Prelude
begin

text \<open>
  Security identifiers, locally unique identifiers, access masks and tokens:
  \<^verbatim>\<open>rtl/sertl.c\<close> (\<^verbatim>\<open>RtlEqualSid\<close>, \<^verbatim>\<open>RtlEqualPrefixSid\<close>, \<^verbatim>\<open>RtlMapGenericMask\<close>, ...),
  \<^verbatim>\<open>se/privileg.c\<close> and the single-privilege check of \<^verbatim>\<open>se/seaudit.c\<close>.

  A SID is its header and its array of sub-authorities; the array may be longer than the
  count says, as the memory behind a \<^verbatim>\<open>PSID\<close> may be. A token keeps the fields that the access
  checks read.
\<close>

unbundle bit_operations_syntax

section \<open>Security identifiers\<close>

record sid =
  Revision :: uchar
  SubAuthorityCount :: uchar
  IdentifierAuthority :: "uchar list"
  SubAuthority :: "ulong list"

definition SID_REVISION :: uchar where "SID_REVISION = 1"
definition SID_MAX_SUB_AUTHORITIES :: uchar where "SID_MAX_SUB_AUTHORITIES = 15"

text \<open>A null pointer is \<^const>\<open>None\<close>; reading through a valid pointer does not fault.\<close>

fun RtlValidSid :: "sid option \<Rightarrow> bool" where
  "RtlValidSid None = False"
| "RtlValidSid (Some isid) =
     (if Revision isid AND 0x0f = SID_REVISION
      then SubAuthorityCount isid \<le> SID_MAX_SUB_AUTHORITIES
      else False)"

text \<open>
  \<^verbatim>\<open>RtlEqualMemory(Sid1, Sid2, 8 + 4 * n)\<close>: revision, count, the six authority bytes and the
  first \<open>n\<close> sub-authorities.
\<close>

definition sid_memory_equal :: "nat \<Rightarrow> sid \<Rightarrow> sid \<Rightarrow> bool" where
  "sid_memory_equal n s1 s2 \<longleftrightarrow>
     Revision s1 = Revision s2 \<and> SubAuthorityCount s1 = SubAuthorityCount s2 \<and>
     IdentifierAuthority s1 = IdentifierAuthority s2 \<and>
     take n (SubAuthority s1) = take n (SubAuthority s2)"

definition RtlEqualSid :: "sid \<Rightarrow> sid \<Rightarrow> bool" where
  "RtlEqualSid sid1 sid2 =
     (if Revision sid1 = Revision sid2 \<and> SubAuthorityCount sid1 = SubAuthorityCount sid2
      then sid_memory_equal (unat (SubAuthorityCount sid1)) sid1 sid2
      else False)"

function RtlEqualPrefixSid_loop :: "sid \<Rightarrow> sid \<Rightarrow> nat \<Rightarrow> bool" where
  "RtlEqualPrefixSid_loop isid1 isid2 index =
     (if index < unat (SubAuthorityCount isid1) - 1
      then if SubAuthority isid1 ! index \<noteq> SubAuthority isid2 ! index then False
           else RtlEqualPrefixSid_loop isid1 isid2 (index + 1)
      else True)"
  by pat_completeness auto
termination
  by (relation "measure (\<lambda>(s1, s2, i). unat (SubAuthorityCount s1) - i)") auto

declare RtlEqualPrefixSid_loop.simps [simp del]

definition RtlEqualPrefixSid :: "sid \<Rightarrow> sid \<Rightarrow> bool" where
  "RtlEqualPrefixSid isid1 isid2 =
     (if Revision isid1 = Revision isid2 then
        if IdentifierAuthority isid1 = IdentifierAuthority isid2 then
          if SubAuthorityCount isid1 = SubAuthorityCount isid2 then
            if SubAuthorityCount isid1 = 0 then True
            else RtlEqualPrefixSid_loop isid1 isid2 0
          else False
        else False
      else False)"

definition RtlLengthRequiredSid :: "ulong \<Rightarrow> ulong" where
  "RtlLengthRequiredSid subAuthorityCount = 8 + 4 * subAuthorityCount"

definition RtlInitializeSid :: "sid \<Rightarrow> uchar list \<Rightarrow> uchar \<Rightarrow> ntstatus \<times> sid" where
  "RtlInitializeSid isid identifierAuthority subAuthorityCount =
     (if subAuthorityCount > SID_MAX_SUB_AUTHORITIES then (STATUS_INVALID_PARAMETER, isid)
      else (STATUS_SUCCESS,
            isid\<lparr>SubAuthorityCount := subAuthorityCount, Revision := 1,
                 IdentifierAuthority := identifierAuthority\<rparr>))"

text \<open>A SID whose arrays have the lengths its header states.\<close>

definition sid_wf :: "sid \<Rightarrow> bool" where
  "sid_wf s \<longleftrightarrow> length (IdentifierAuthority s) = 6 \<and>
     length (SubAuthority s) = unat (SubAuthorityCount s)"

lemma RtlEqualSid_refl [simp]: "RtlEqualSid s s"
  by (simp add: RtlEqualSid_def sid_memory_equal_def)

lemma RtlEqualSid_sym: "RtlEqualSid s t \<Longrightarrow> RtlEqualSid t s"
  by (auto simp: RtlEqualSid_def sid_memory_equal_def split: if_splits)

lemma RtlEqualSid_trans: "RtlEqualSid s t \<Longrightarrow> RtlEqualSid t u \<Longrightarrow> RtlEqualSid s u"
  by (auto simp: RtlEqualSid_def sid_memory_equal_def split: if_splits)

lemma RtlEqualSid_wf: "sid_wf s \<Longrightarrow> sid_wf t \<Longrightarrow> RtlEqualSid s t \<longleftrightarrow> s = t"
  by (auto simp: RtlEqualSid_def sid_memory_equal_def sid_wf_def)

lemma RtlEqualPrefixSid_loop_iff:
  "RtlEqualPrefixSid_loop s t i \<longleftrightarrow>
     (\<forall>k. i \<le> k \<and> k < unat (SubAuthorityCount s) - 1 \<longrightarrow> SubAuthority s ! k = SubAuthority t ! k)"
proof (induction s t i rule: RtlEqualPrefixSid_loop.induct)
  case (1 s t i)
  show ?case
  proof (cases "i < unat (SubAuthorityCount s) - 1 \<and> SubAuthority s ! i = SubAuthority t ! i")
    case True
    then have "RtlEqualPrefixSid_loop s t i = RtlEqualPrefixSid_loop s t (i + 1)"
      by (simp add: RtlEqualPrefixSid_loop.simps [of s t i])
    with True "1.IH" show ?thesis by (simp add: range_all_Suc)
  next
    case False
    then show ?thesis
      by (auto simp: RtlEqualPrefixSid_loop.simps [of s t i])
  qed
qed

text \<open>
  Two well-formed SIDs have the same prefix exactly when replacing the last sub-authority of
  both by the same value makes them equal.
\<close>

lemma RtlEqualPrefixSid_take:
  assumes "sid_wf s" "sid_wf t"
  shows "RtlEqualPrefixSid s t \<longleftrightarrow>
    Revision s = Revision t \<and> IdentifierAuthority s = IdentifierAuthority t \<and>
    SubAuthorityCount s = SubAuthorityCount t \<and>
    butlast (SubAuthority s) = butlast (SubAuthority t)"
proof (cases "Revision s = Revision t \<and> IdentifierAuthority s = IdentifierAuthority t \<and>
    SubAuthorityCount s = SubAuthorityCount t")
  case True
  let ?n = "unat (SubAuthorityCount s)"
  have len: "length (SubAuthority s) = ?n" "length (SubAuthority t) = ?n"
    using assms True by (simp_all add: sid_wf_def)
  have "butlast (SubAuthority s) = butlast (SubAuthority t) \<longleftrightarrow>
      (\<forall>k<?n - 1. SubAuthority s ! k = SubAuthority t ! k)"
    using len by (auto simp: list_eq_iff_nth_eq nth_butlast)
  then show ?thesis
    using True len
    by (auto simp: RtlEqualPrefixSid_def RtlEqualPrefixSid_loop_iff unat_eq_zero)
next
  case False
  then show ?thesis by (auto simp: RtlEqualPrefixSid_def)
qed

section \<open>Access masks\<close>

definition READ_CONTROL :: access_mask where [mask_defs]: "READ_CONTROL = 0x00020000"
definition WRITE_DAC :: access_mask where [mask_defs]: "WRITE_DAC = 0x00040000"
definition WRITE_OWNER :: access_mask where [mask_defs]: "WRITE_OWNER = 0x00080000"
definition ACCESS_SYSTEM_SECURITY :: access_mask where [mask_defs]: "ACCESS_SYSTEM_SECURITY = 0x01000000"
definition MAXIMUM_ALLOWED :: access_mask where [mask_defs]: "MAXIMUM_ALLOWED = 0x02000000"
definition GENERIC_READ :: access_mask where [mask_defs]: "GENERIC_READ = 0x80000000"
definition GENERIC_WRITE :: access_mask where [mask_defs]: "GENERIC_WRITE = 0x40000000"
definition GENERIC_EXECUTE :: access_mask where [mask_defs]: "GENERIC_EXECUTE = 0x20000000"
definition GENERIC_ALL :: access_mask where [mask_defs]: "GENERIC_ALL = 0x10000000"

record generic_mapping =
  GenericRead :: access_mask
  GenericWrite :: access_mask
  GenericExecute :: access_mask
  GenericAll :: access_mask

definition RtlAreAllAccessesGranted :: "access_mask \<Rightarrow> access_mask \<Rightarrow> bool" where
  "RtlAreAllAccessesGranted grantedAccess desiredAccess \<longleftrightarrow>
     NOT grantedAccess AND desiredAccess = 0"

definition RtlAreAnyAccessesGranted :: "access_mask \<Rightarrow> access_mask \<Rightarrow> bool" where
  "RtlAreAnyAccessesGranted grantedAccess desiredAccess \<longleftrightarrow>
     grantedAccess AND desiredAccess \<noteq> 0"

definition RtlMapGenericMask :: "access_mask \<Rightarrow> generic_mapping \<Rightarrow> access_mask" where
  "RtlMapGenericMask accessMask genericMapping =
     (let m1 = (if accessMask AND GENERIC_READ \<noteq> 0
                then accessMask OR GenericRead genericMapping else accessMask);
          m2 = (if m1 AND GENERIC_WRITE \<noteq> 0
                then m1 OR GenericWrite genericMapping else m1);
          m3 = (if m2 AND GENERIC_EXECUTE \<noteq> 0
                then m2 OR GenericExecute genericMapping else m2);
          m4 = (if m3 AND GENERIC_ALL \<noteq> 0
                then m3 OR GenericAll genericMapping else m3)
      in m4 AND NOT (GENERIC_READ OR GENERIC_WRITE OR GENERIC_EXECUTE OR GENERIC_ALL))"

lemma RtlAreAllAccessesGranted_iff:
  "RtlAreAllAccessesGranted g d \<longleftrightarrow> (\<forall>n. bit d n \<longrightarrow> bit g n)"
  by (simp add: RtlAreAllAccessesGranted_def mask_subset_iff)

lemma RtlAreAnyAccessesGranted_iff:
  "RtlAreAnyAccessesGranted g d \<longleftrightarrow> (\<exists>n. bit d n \<and> bit g n)"
  by (auto simp: RtlAreAnyAccessesGranted_def mask_disjoint_iff)

section \<open>Privileges and tokens\<close>

record luid =
  LowPart :: ulong
  HighPart :: long

record luid_and_attributes =
  Luid :: luid
  LaAttributes :: ulong

record sid_and_attributes =
  Sid :: sid
  SaAttributes :: ulong

datatype token_type = TokenPrimary | TokenImpersonation

datatype security_impersonation_level =
  SecurityAnonymous | SecurityIdentification | SecurityImpersonation | SecurityDelegation

text \<open>The levels compare as the enumeration's values do.\<close>

fun impersonation_level_value :: "security_impersonation_level \<Rightarrow> nat" where
  "impersonation_level_value SecurityAnonymous = 0"
| "impersonation_level_value SecurityIdentification = 1"
| "impersonation_level_value SecurityImpersonation = 2"
| "impersonation_level_value SecurityDelegation = 3"

lemma impersonation_level_value_inj:
  "impersonation_level_value x = impersonation_level_value y \<Longrightarrow> x = y"
  by (cases x; cases y) auto

instantiation security_impersonation_level :: linorder
begin

definition less_eq_security_impersonation_level ::
    "security_impersonation_level \<Rightarrow> security_impersonation_level \<Rightarrow> bool" where
  "x \<le> y \<longleftrightarrow> impersonation_level_value x \<le> impersonation_level_value y"

definition less_security_impersonation_level ::
    "security_impersonation_level \<Rightarrow> security_impersonation_level \<Rightarrow> bool" where
  "x < y \<longleftrightarrow> impersonation_level_value x < impersonation_level_value y"

instance
  by standard
    (auto simp: less_eq_security_impersonation_level_def less_security_impersonation_level_def
      dest: impersonation_level_value_inj)

end

record token =
  AuthenticationId :: luid
  OriginatingLogonSession :: luid
  UserAndGroups :: "sid_and_attributes list"
  RestrictedSids :: "sid_and_attributes list"
  Privileges :: "luid_and_attributes list"
  TokenType :: token_type
  TokenImpersonationLevel :: security_impersonation_level
  TokenFlags :: uchar

record security_subject_context =
  ClientToken :: "token option"
  ImpersonationLevel :: security_impersonation_level
  PrimaryToken :: token

record privilege_set =
  Control :: ulong
  Privilege :: "luid_and_attributes list"

abbreviation SE_GROUP_ENABLED :: ulong where "SE_GROUP_ENABLED \<equiv> 0x00000004"
abbreviation SE_GROUP_USE_FOR_DENY_ONLY :: ulong where "SE_GROUP_USE_FOR_DENY_ONLY \<equiv> 0x00000010"
abbreviation SE_PRIVILEGE_ENABLED :: ulong where "SE_PRIVILEGE_ENABLED \<equiv> 0x00000002"
abbreviation SE_PRIVILEGE_USED_FOR_ACCESS :: ulong
  where "SE_PRIVILEGE_USED_FOR_ACCESS \<equiv> 0x80000000"
abbreviation PRIVILEGE_SET_ALL_NECESSARY :: ulong where "PRIVILEGE_SET_ALL_NECESSARY \<equiv> 1"
abbreviation TOKEN_IS_RESTRICTED :: uchar where "TOKEN_IS_RESTRICTED \<equiv> 0x10"
abbreviation TOKEN_HAS_IMPERSONATE_PRIVILEGE :: uchar
  where "TOKEN_HAS_IMPERSONATE_PRIVILEGE \<equiv> 0x80"

text \<open>\<^verbatim>\<open>SE_SECURITY_PRIVILEGE\<close> is 8 and \<^verbatim>\<open>SE_TAKE_OWNERSHIP_PRIVILEGE\<close> is 9.\<close>

definition SeSecurityPrivilege :: luid where
  "SeSecurityPrivilege = \<lparr>LowPart = 8, HighPart = 0\<rparr>"

definition SeTakeOwnershipPrivilege :: luid where
  "SeTakeOwnershipPrivilege = \<lparr>LowPart = 9, HighPart = 0\<rparr>"

definition RtlEqualLuid :: "luid \<Rightarrow> luid \<Rightarrow> bool" where
  "RtlEqualLuid luid1 luid2 \<longleftrightarrow> HighPart luid1 = HighPart luid2 \<and> LowPart luid1 = LowPart luid2"

definition EffectiveToken :: "security_subject_context \<Rightarrow> token" where
  "EffectiveToken ctx = (case ClientToken ctx of Some t \<Rightarrow> t | None \<Rightarrow> PrimaryToken ctx)"

definition SeTokenIsRestricted :: "token \<Rightarrow> bool" where
  "SeTokenIsRestricted tok \<longleftrightarrow> TokenFlags tok AND TOKEN_IS_RESTRICTED \<noteq> 0"

text \<open>The inner loop of \<^verbatim>\<open>SepPrivilegeCheck\<close>: is there an enabled privilege with this LUID?\<close>

fun SepPrivilegeCheck_scan :: "luid_and_attributes list \<Rightarrow> luid_and_attributes \<Rightarrow> bool" where
  "SepPrivilegeCheck_scan [] required = False"
| "SepPrivilegeCheck_scan (current # rest) required =
     (if LaAttributes current AND SE_PRIVILEGE_ENABLED \<noteq> 0 \<and>
         RtlEqualLuid (Luid current) (Luid required)
      then True
      else SepPrivilegeCheck_scan rest required)"

text \<open>The outer loop: the required privileges with their \<^verbatim>\<open>USED_FOR_ACCESS\<close> bits, and the count.\<close>

fun SepPrivilegeCheck_loop ::
    "luid_and_attributes list \<Rightarrow> luid_and_attributes list \<Rightarrow> luid_and_attributes list \<times> nat" where
  "SepPrivilegeCheck_loop tokenPrivs [] = ([], 0)"
| "SepPrivilegeCheck_loop tokenPrivs (required # rest) =
     (let (rest', matchCount) = SepPrivilegeCheck_loop tokenPrivs rest
      in if SepPrivilegeCheck_scan tokenPrivs required
         then (required\<lparr>LaAttributes := LaAttributes required OR SE_PRIVILEGE_USED_FOR_ACCESS\<rparr> # rest',
               matchCount + 1)
         else (required # rest', matchCount))"

definition SepPrivilegeCheck ::
    "token \<Rightarrow> luid_and_attributes list \<Rightarrow> ulong \<Rightarrow> kprocessor_mode \<Rightarrow>
     bool \<times> luid_and_attributes list" where
  "SepPrivilegeCheck tok requiredPrivileges privilegeSetControl previousMode =
     (if previousMode = KernelMode then (True, requiredPrivileges)
      else
        let requiredAll = (privilegeSetControl AND PRIVILEGE_SET_ALL_NECESSARY \<noteq> 0);
            (required', matchCount) = SepPrivilegeCheck_loop (Privileges tok) requiredPrivileges
        in if \<not> requiredAll \<and> matchCount = 0 then (False, required')
           else if requiredAll \<and> matchCount \<noteq> length requiredPrivileges then (False, required')
           else (True, required'))"

definition SePrivilegeCheck ::
    "privilege_set \<Rightarrow> security_subject_context \<Rightarrow> kprocessor_mode \<Rightarrow> bool \<times> privilege_set" where
  "SePrivilegeCheck requiredPrivileges ctx accessMode =
     (if ClientToken ctx \<noteq> None \<and> ImpersonationLevel ctx < SecurityImpersonation
      then (False, requiredPrivileges)
      else
        let (status, privs) = SepPrivilegeCheck (EffectiveToken ctx) (Privilege requiredPrivileges)
              (Control requiredPrivileges) accessMode
        in (status, requiredPrivileges\<lparr>Privilege := privs\<rparr>))"

definition SepSinglePrivilegeCheck :: "luid \<Rightarrow> token \<Rightarrow> kprocessor_mode \<Rightarrow> bool" where
  "SepSinglePrivilegeCheck desiredPrivilege tok previousMode =
     fst (SepPrivilegeCheck tok [\<lparr>Luid = desiredPrivilege, LaAttributes = 0\<rparr>]
            PRIVILEGE_SET_ALL_NECESSARY previousMode)"

definition SeTokenCanImpersonate ::
    "luid \<Rightarrow> token \<Rightarrow> token \<Rightarrow> security_impersonation_level \<Rightarrow> ntstatus" where
  "SeTokenCanImpersonate seAnonymousAuthenticationId primaryToken impToken level =
     (if level < SecurityImpersonation then STATUS_SUCCESS
      else if RtlEqualLuid (AuthenticationId impToken) seAnonymousAuthenticationId
      then STATUS_SUCCESS
      else if TokenFlags primaryToken AND TOKEN_HAS_IMPERSONATE_PRIVILEGE \<noteq> 0
      then STATUS_SUCCESS
      else if RtlEqualLuid (AuthenticationId primaryToken) (OriginatingLogonSession impToken)
      then STATUS_SUCCESS
      else if RtlEqualSid (Sid (UserAndGroups primaryToken ! 0)) (Sid (UserAndGroups impToken ! 0))
      then if SeTokenIsRestricted primaryToken \<and> \<not> SeTokenIsRestricted impToken
           then STATUS_PRIVILEGE_NOT_HELD else STATUS_SUCCESS
      else STATUS_PRIVILEGE_NOT_HELD)"

subsection \<open>What a privilege check decides\<close>

text \<open>A token holds a privilege when it is listed and enabled.\<close>

definition holds_privilege :: "token \<Rightarrow> luid \<Rightarrow> bool" where
  "holds_privilege tok l \<longleftrightarrow>
     (\<exists>p \<in> set (Privileges tok). Luid p = l \<and> LaAttributes p AND SE_PRIVILEGE_ENABLED \<noteq> 0)"

lemma RtlEqualLuid_iff: "RtlEqualLuid a b \<longleftrightarrow> a = b"
  by (cases a; cases b) (auto simp: RtlEqualLuid_def)

lemma SepPrivilegeCheck_scan_iff:
  "SepPrivilegeCheck_scan ps r \<longleftrightarrow>
     (\<exists>p \<in> set ps. LaAttributes p AND SE_PRIVILEGE_ENABLED \<noteq> 0 \<and> Luid p = Luid r)"
  by (induction ps) (auto simp: RtlEqualLuid_iff)

lemma SepPrivilegeCheck_scan_holds:
  "SepPrivilegeCheck_scan (Privileges tok) r \<longleftrightarrow> holds_privilege tok (Luid r)"
  by (auto simp: SepPrivilegeCheck_scan_iff holds_privilege_def)

lemma SepPrivilegeCheck_loop_eq:
  "SepPrivilegeCheck_loop ps rs =
     (map (\<lambda>r. if SepPrivilegeCheck_scan ps r
               then r\<lparr>LaAttributes := LaAttributes r OR SE_PRIVILEGE_USED_FOR_ACCESS\<rparr> else r) rs,
      length (filter (SepPrivilegeCheck_scan ps) rs))"
  by (induction rs) auto

lemma length_filter_all: "length (filter P xs) = length xs \<longleftrightarrow> (\<forall>x \<in> set xs. P x)"
  by (metis filter_True filter_id_conv length_filter_less less_irrefl)

lemma SepPrivilegeCheck_user:
  "fst (SepPrivilegeCheck tok rs control UserMode) \<longleftrightarrow>
     (if control AND PRIVILEGE_SET_ALL_NECESSARY \<noteq> 0
      then \<forall>r \<in> set rs. holds_privilege tok (Luid r)
      else \<exists>r \<in> set rs. holds_privilege tok (Luid r))"
  by (auto simp: SepPrivilegeCheck_def SepPrivilegeCheck_loop_eq length_filter_all
      SepPrivilegeCheck_scan_holds filter_empty_conv)

lemma SepSinglePrivilegeCheck_iff:
  "SepSinglePrivilegeCheck l tok mode \<longleftrightarrow> mode = KernelMode \<or> holds_privilege tok l"
  by (cases mode) (simp_all add: SepSinglePrivilegeCheck_def SepPrivilegeCheck_user,
    simp add: SepPrivilegeCheck_def)

end
