(* ===== verification/Type_List.thy ===== *)
theory Type_List
  imports Security_Ids "HOL-Library.Monad_Syntax"
begin

text \<open>
  Object type lists of \<^verbatim>\<open>se/accessck.c\<close>: the capture of the caller's list into the internal form
  (\<^verbatim>\<open>SeCaptureObjectTypeList\<close>), the search for a type, and the propagation of an access mask to
  the children and the ancestors of an entry (\<^verbatim>\<open>SepUpdateParentTypeList\<close>,
  \<^verbatim>\<open>SepAddAccessTypeList\<close>).

  The list is the tree of an object, its property sets and its properties, in preorder; the
  level of an entry is its depth and \<^verbatim>\<open>ParentIndex\<close> names its parent (-1 at the root). The
  recursion of \<^verbatim>\<open>SepUpdateParentTypeList\<close> follows the parent indices, so it is an option-valued
  partial function, and its termination on captured lists is a theorem.
\<close>

unbundle bit_operations_syntax

section \<open>The list and its entries\<close>

datatype guid = GUID (guid0: ulong) (guid1: ulong) (guid2: ulong) (guid3: ulong)

definition RtlpIsEqualGuid :: "guid \<Rightarrow> guid \<Rightarrow> bool" where
  "RtlpIsEqualGuid g h \<longleftrightarrow>
     guid0 g = guid0 h \<and> guid1 g = guid1 h \<and> guid2 g = guid2 h \<and> guid3 g = guid3 h"

record object_type_list =
  OtLevel :: ushort
  OtObjectType :: guid

record iobject_type_list =
  Level :: ushort
  Flags :: ushort
  ObjectType :: guid
  ParentIndex :: int
  Remaining :: access_mask
  CurrentGranted :: access_mask
  CurrentDenied :: access_mask

type_synonym otl = "iobject_type_list list"

datatype access_mask_field_to_update =
  UpdateRemaining | UpdateCurrentGranted | UpdateCurrentDenied

abbreviation ACCESS_MAX_LEVEL :: ushort where "ACCESS_MAX_LEVEL \<equiv> 4"

section \<open>Capturing the caller's list\<close>

text \<open>
  One iteration of the capture loop on entry \<open>i\<close>: the level checks, the new entry and the
  update of \<^verbatim>\<open>Levels\<close>, the last index seen at each level. \<open>levels\<close> starts with whatever the
  stack holds.
\<close>

definition capture_entry ::
    "nat \<Rightarrow> object_type_list \<Rightarrow> otl \<Rightarrow> int list \<Rightarrow> ntstatus + (iobject_type_list \<times> int list)" where
  "capture_entry i entry captured levels =
     (let currentLevel = OtLevel entry in
      if currentLevel > ACCESS_MAX_LEVEL then Inl STATUS_INVALID_PARAMETER
      else if i = 0 \<and> currentLevel \<noteq> 0 then Inl STATUS_INVALID_PARAMETER
      else if i \<noteq> 0 \<and> unat currentLevel > unat (Level (captured ! (i - 1))) + 1
      then Inl STATUS_INVALID_PARAMETER
      else if i \<noteq> 0 \<and> currentLevel = 0 then Inl STATUS_INVALID_PARAMETER
      else
        let parent = (if currentLevel = 0 then -1 else levels ! (unat currentLevel - 1));
            new = \<lparr>Level = currentLevel, Flags = 0, ObjectType = OtObjectType entry,
                   ParentIndex = parent, Remaining = 0, CurrentGranted = 0, CurrentDenied = 0\<rparr>
        in Inr (new, levels[unat currentLevel := int i]))"

fun capture_loop ::
    "object_type_list list \<Rightarrow> otl \<Rightarrow> int list \<Rightarrow> ntstatus + otl" where
  "capture_loop [] captured levels = Inr captured"
| "capture_loop (entry # rest) captured levels =
     (case capture_entry (length captured) entry captured levels of
        Inl status \<Rightarrow> Inl status
      | Inr (new, levels') \<Rightarrow> capture_loop rest (captured @ [new]) levels')"

text \<open>
  \<open>list\<close> is the caller's array (\<^const>\<open>None\<close> for a null pointer), \<open>count\<close> its length argument,
  \<open>maxCount\<close> the bound of \<^verbatim>\<open>IsValidElementCount\<close>, \<open>allocated\<close> whether the pool allocation
  succeeds. The result is the status and the captured list, \<^const>\<open>None\<close> for a null pointer.
\<close>

definition SeCaptureObjectTypeList ::
    "object_type_list list option \<Rightarrow> kprocessor_mode \<Rightarrow> nat \<Rightarrow> bool \<Rightarrow> int list \<Rightarrow> nat \<Rightarrow>
     ntstatus \<times> otl option" where
  "SeCaptureObjectTypeList list requestorMode maxCount allocated levels count =
     (if requestorMode \<noteq> UserMode then (STATUS_NOT_IMPLEMENTED, None)
      else if count = 0 then (STATUS_SUCCESS, None)
      else case list of
        None \<Rightarrow> (STATUS_INVALID_PARAMETER, None)
      | Some entries \<Rightarrow>
          if \<not> count < maxCount then (STATUS_INVALID_PARAMETER, None)
          else if \<not> allocated then (STATUS_INSUFFICIENT_RESOURCES, None)
          else (case capture_loop (take count entries) [] levels of
                  Inl status \<Rightarrow> (status, None)
                | Inr captured \<Rightarrow> (STATUS_SUCCESS, Some captured)))"

section \<open>Searching and updating\<close>

fun SepObjectInTypeList_from :: "guid \<Rightarrow> otl \<Rightarrow> nat \<Rightarrow> nat option" where
  "SepObjectInTypeList_from objectType [] index = None"
| "SepObjectInTypeList_from objectType (o1 # rest) index =
     (if RtlpIsEqualGuid objectType (ObjectType o1) then Some index
      else SepObjectInTypeList_from objectType rest (index + 1))"

definition SepObjectInTypeList :: "guid \<Rightarrow> otl \<Rightarrow> nat option" where
  "SepObjectInTypeList objectType typeList = SepObjectInTypeList_from objectType typeList 0"

text \<open>The loop over the children of the parent, from \<open>index\<close> on, with the three accumulators.\<close>

function SepUpdateParentTypeList_loop ::
    "otl \<Rightarrow> nat \<Rightarrow> ushort \<Rightarrow> nat \<Rightarrow> access_mask \<times> access_mask \<times> access_mask \<Rightarrow>
     access_mask \<times> access_mask \<times> access_mask" where
  "SepUpdateParentTypeList_loop l parentIndex level index acc =
     (if index < length l then
        if Level (l ! index) \<le> Level (l ! parentIndex) then acc
        else if Level (l ! index) \<noteq> level
        then SepUpdateParentTypeList_loop l parentIndex level (index + 1) acc
        else (case acc of (newRemaining, newCurrentGranted, newCurrentDenied) \<Rightarrow>
          SepUpdateParentTypeList_loop l parentIndex level (index + 1)
            (newRemaining OR Remaining (l ! index),
             newCurrentGranted AND CurrentGranted (l ! index),
             newCurrentDenied OR CurrentDenied (l ! index)))
      else acc)"
  by pat_completeness auto
termination
  by (relation "measure (\<lambda>(l, p, lv, i, acc). length l - i)") auto

declare SepUpdateParentTypeList_loop.simps [simp del]

partial_function (option) SepUpdateParentTypeList :: "otl \<Rightarrow> nat \<Rightarrow> otl option" where
  "SepUpdateParentTypeList l startIndex =
     (if ParentIndex (l ! startIndex) = -1 then Some l
      else
        let parentIndex = nat (ParentIndex (l ! startIndex));
            level = Level (l ! startIndex);
            (newRemaining, newCurrentGranted, newCurrentDenied) =
              SepUpdateParentTypeList_loop l parentIndex level (parentIndex + 1)
                (0, 0xFFFFFFFF, 0)
        in if newRemaining = Remaining (l ! parentIndex) \<and>
              newCurrentGranted = CurrentGranted (l ! parentIndex) \<and>
              newCurrentDenied = CurrentDenied (l ! parentIndex)
           then Some l
           else SepUpdateParentTypeList
             (l[parentIndex := (l ! parentIndex)\<lparr>Remaining := newRemaining,
                  CurrentGranted := newCurrentGranted, CurrentDenied := newCurrentDenied\<rparr>])
             parentIndex)"

declare SepUpdateParentTypeList.simps [code]

text \<open>What an update does to one entry: the bodies of the two \<^verbatim>\<open>switch\<close> statements.\<close>

fun update_entry ::
    "access_mask_field_to_update \<Rightarrow> access_mask \<Rightarrow> iobject_type_list \<Rightarrow> iobject_type_list" where
  "update_entry UpdateRemaining accessMask e =
     e\<lparr>Remaining := Remaining e AND NOT accessMask\<rparr>"
| "update_entry UpdateCurrentGranted accessMask e =
     e\<lparr>CurrentGranted := CurrentGranted e OR (accessMask AND NOT (CurrentDenied e))\<rparr>"
| "update_entry UpdateCurrentDenied accessMask e =
     e\<lparr>CurrentDenied := CurrentDenied e OR (accessMask AND NOT (CurrentGranted e))\<rparr>"

text \<open>The loop over the entries that follow the target and lie deeper than it.\<close>

function SepAddAccessTypeList_loop ::
    "otl \<Rightarrow> nat \<Rightarrow> access_mask \<Rightarrow> access_mask_field_to_update \<Rightarrow> nat \<Rightarrow> otl" where
  "SepAddAccessTypeList_loop l startIndex accessMask field index =
     (if index < length l then
        if Level (l ! index) \<le> Level (l ! startIndex) then l
        else SepAddAccessTypeList_loop (l[index := update_entry field accessMask (l ! index)])
               startIndex accessMask field (index + 1)
      else l)"
  by pat_completeness auto
termination
  by (relation "measure (\<lambda>(l, s, m, f, i). length l - i)") auto

declare SepAddAccessTypeList_loop.simps [simp del]

definition SepAddAccessTypeList ::
    "otl \<Rightarrow> nat \<Rightarrow> access_mask \<Rightarrow> access_mask_field_to_update \<Rightarrow> otl option" where
  "SepAddAccessTypeList l startIndex accessMask field =
     (let old = l ! startIndex;
          new = update_entry field accessMask old;
          l1 = l[startIndex := new]
      in if field = UpdateRemaining \<and> Remaining new = Remaining old then Some l1
         else
           let avoidParent =
                 (field = UpdateCurrentGranted \<and> CurrentGranted new = CurrentGranted old \<or>
                  field = UpdateCurrentDenied \<and> CurrentDenied new = CurrentDenied old)
           in do {
             l2 \<leftarrow> (if avoidParent then Some l1 else SepUpdateParentTypeList l1 startIndex);
             Some (SepAddAccessTypeList_loop l2 startIndex accessMask field (startIndex + 1))
           })"

end
