(* ===== verification/Type_List_Facts.thy ===== *)
theory Type_List_Facts
  imports Type_List
begin

text \<open>
  The tree that an object type list represents. Captured lists are well formed, the propagation
  of a mask terminates on them, and it keeps the summary that every inner node carries of its
  children: an access remains if it remains on some child, is granted if it is granted on all of
  them and denied if it is denied on one.
\<close>

unbundle bit_operations_syntax

section \<open>The tree\<close>

text \<open>
  Every entry but the first has its parent before it, one level up, with only deeper entries in
  between.
\<close>

definition parent_ok :: "otl \<Rightarrow> nat \<Rightarrow> nat \<Rightarrow> bool" where
  "parent_ok l i p \<longleftrightarrow> p < i \<and> ParentIndex (l ! i) = int p \<and>
     unat (Level (l ! i)) = Suc (unat (Level (l ! p))) \<and>
     (\<forall>k. p < k \<and> k \<le> i \<longrightarrow> Level (l ! p) < Level (l ! k))"

definition otl_wf :: "otl \<Rightarrow> bool" where
  "otl_wf l \<longleftrightarrow> (\<forall>i < length l. unat (Level (l ! i)) \<le> 4 \<and>
     (if i = 0 then Level (l ! 0) = 0 \<and> ParentIndex (l ! 0) = -1 else \<exists>p. parent_ok l i p))"

definition same_shape :: "otl \<Rightarrow> otl \<Rightarrow> bool" where
  "same_shape l l' \<longleftrightarrow> length l' = length l \<and>
     (\<forall>i < length l. Level (l' ! i) = Level (l ! i) \<and> ParentIndex (l' ! i) = ParentIndex (l ! i) \<and>
        ObjectType (l' ! i) = ObjectType (l ! i))"

definition is_child :: "otl \<Rightarrow> nat \<Rightarrow> nat \<Rightarrow> bool" where
  "is_child l p c \<longleftrightarrow> c < length l \<and> ParentIndex (l ! c) = int p"

definition in_subtree :: "otl \<Rightarrow> nat \<Rightarrow> nat \<Rightarrow> bool" where
  "in_subtree l s k \<longleftrightarrow> s \<le> k \<and> k < length l \<and> (\<forall>j. s < j \<and> j \<le> k \<longrightarrow> Level (l ! s) < Level (l ! j))"

lemma same_shape_refl [simp]: "same_shape l l"
  by (simp add: same_shape_def)

lemma same_shape_trans: "same_shape l l' \<Longrightarrow> same_shape l' l'' \<Longrightarrow> same_shape l l''"
  by (simp add: same_shape_def)

lemma same_shape_length: "same_shape l l' \<Longrightarrow> length l' = length l"
  by (simp add: same_shape_def)

lemma same_shape_update:
  assumes "Level e = Level (l ! i)" "ParentIndex e = ParentIndex (l ! i)"
    "ObjectType e = ObjectType (l ! i)"
  shows "same_shape l (l[i := e])"
proof -
  have "Level (l[i := e] ! k) = Level (l ! k) \<and> ParentIndex (l[i := e] ! k) = ParentIndex (l ! k) \<and>
      ObjectType (l[i := e] ! k) = ObjectType (l ! k)" if "k < length l" for k
    using assms that by (cases "k = i") simp_all
  then show ?thesis by (simp add: same_shape_def)
qed

lemma same_shape_wf:
  assumes s: "same_shape l l'" and wf: "otl_wf l"
  shows "otl_wf l'"
proof -
  have "parent_ok l' i p" if "i < length l" "parent_ok l i p" for i p
    using that s by (auto simp: parent_ok_def same_shape_def)
  with s wf show ?thesis
    unfolding otl_wf_def same_shape_def by (metis less_nat_zero_code neq0_conv)
qed

lemma same_shape_child: "same_shape l l' \<Longrightarrow> is_child l' p c = is_child l p c"
  by (auto simp: same_shape_def is_child_def)

lemma same_shape_subtree: "same_shape l l' \<Longrightarrow> in_subtree l' s k = in_subtree l s k"
  by (auto simp: same_shape_def in_subtree_def)

lemma update_entry_shape [simp]:
  "Level (update_entry f m e) = Level e"
  "ParentIndex (update_entry f m e) = ParentIndex e"
  "ObjectType (update_entry f m e) = ObjectType e"
  by (cases f; simp)+

lemma wf_root:
  assumes "otl_wf l" "0 < length l"
  shows "Level (l ! 0) = 0 \<and> ParentIndex (l ! 0) = -1"
  using assms by (metis otl_wf_def)

lemma wf_level: "otl_wf l \<Longrightarrow> i < length l \<Longrightarrow> unat (Level (l ! i)) \<le> 4"
  by (metis otl_wf_def)

lemma otl_wfI:
  assumes "\<And>i. i < length l \<Longrightarrow> unat (Level (l ! i)) \<le> 4"
    and "0 < length l \<Longrightarrow> Level (l ! 0) = 0 \<and> ParentIndex (l ! 0) = -1"
    and "\<And>i. i < length l \<Longrightarrow> i \<noteq> 0 \<Longrightarrow> \<exists>p. parent_ok l i p"
  shows "otl_wf l"
  using assms by (simp add: otl_wf_def)

lemma wf_parent:
  assumes "otl_wf l" "i < length l" "i \<noteq> 0"
  obtains p where "parent_ok l i p"
  using assms unfolding otl_wf_def by meson

lemma wf_child:
  assumes "otl_wf l" "is_child l p c"
  shows "parent_ok l c p"
proof -
  have "c \<noteq> 0" using assms wf_root [of l] by (cases c) (auto simp: is_child_def)
  with assms obtain q where "parent_ok l c q" by (auto simp: is_child_def elim: wf_parent)
  moreover have "q = p" using assms(2) calculation by (simp add: is_child_def parent_ok_def)
  ultimately show ?thesis by simp
qed

lemma child_in_subtree:
  assumes "otl_wf l" "is_child l q c" "in_subtree l s q"
  shows "in_subtree l s c"
proof -
  have p: "parent_ok l c q" by (rule wf_child [OF assms(1,2)])
  have "Level (l ! s) < Level (l ! j)" if "s < j" "j \<le> c" for j
  proof (cases "j \<le> q")
    case True then show ?thesis using assms(3) that by (auto simp: in_subtree_def)
  next
    case False
    then have "Level (l ! q) < Level (l ! j)" using p that by (auto simp: parent_ok_def)
    moreover have "Level (l ! s) \<le> Level (l ! q)"
      using assms(3) by (cases "s = q") (auto simp: in_subtree_def intro: less_imp_le)
    ultimately show ?thesis by simp
  qed
  then show ?thesis using p assms by (auto simp: in_subtree_def is_child_def parent_ok_def)
qed

lemma parent_in_subtree:
  assumes "otl_wf l" "is_child l q c" "in_subtree l s c" "c \<noteq> s"
  shows "in_subtree l s q"
proof -
  have p: "parent_ok l c q" by (rule wf_child [OF assms(1,2)])
  have lt: "Level (l ! s) < Level (l ! c)" using assms(3,4) by (auto simp: in_subtree_def)
  have "s \<le> q"
  proof (rule ccontr)
    assume "\<not> s \<le> q"
    then have "Level (l ! q) < Level (l ! s)" using p assms(3) by (auto simp: parent_ok_def in_subtree_def)
    with lt p show False by (auto simp: parent_ok_def word_less_nat_alt)
  qed
  then show ?thesis using assms(2,3) p by (auto simp: in_subtree_def is_child_def parent_ok_def)
qed

section \<open>Capturing\<close>

text \<open>
  The invariant of the capture loop: what was captured is well formed, and at every level up to
  that of the last entry \<open>levels\<close> holds the last entry of that level with only deeper entries
  after it.
\<close>

definition levels_ok :: "otl \<Rightarrow> int list \<Rightarrow> bool" where
  "levels_ok l levels \<longleftrightarrow> length levels = 5 \<and>
     (l \<noteq> [] \<longrightarrow> (\<forall>v \<le> unat (Level (last l)). \<exists>p < length l. levels ! v = int p \<and>
        unat (Level (l ! p)) = v \<and> (\<forall>k. p < k \<and> k < length l \<longrightarrow> Level (l ! p) < Level (l ! k))))"

lemma capture_entry_ok:
  assumes "otl_wf l" "levels_ok l levels"
    and c: "capture_entry (length l) e l levels = Inr (new, levels')"
  shows "otl_wf (l @ [new]) \<and> levels_ok (l @ [new]) levels' \<and> Level new = OtLevel e \<and>
    ObjectType new = OtObjectType e \<and> Remaining new = 0 \<and> CurrentGranted new = 0 \<and> CurrentDenied new = 0"
proof (cases "l = []")
  case True
  then have "OtLevel e = 0" "new = \<lparr>Level = 0, Flags = 0, ObjectType = OtObjectType e, ParentIndex = -1,
      Remaining = 0, CurrentGranted = 0, CurrentDenied = 0\<rparr>" "levels' = levels[0 := 0]"
    using c by (auto simp: capture_entry_def Let_def split: if_splits)
  then show ?thesis using True assms(2) by (auto simp: otl_wf_def levels_ok_def)
next
  case False
  let ?lv = "unat (OtLevel e)"
  have last: "l ! (length l - 1) = last l" using False by (simp add: last_conv_nth)
  have lv: "?lv \<le> 4" "?lv \<noteq> 0" "?lv \<le> unat (Level (last l)) + 1"
    and new: "new = \<lparr>Level = OtLevel e, Flags = 0, ObjectType = OtObjectType e,
      ParentIndex = levels ! (?lv - 1), Remaining = 0, CurrentGranted = 0, CurrentDenied = 0\<rparr>"
    and levels': "levels' = levels[?lv := int (length l)]"
    using c False last by (auto simp: capture_entry_def Let_def not_less word_le_nat_alt unat_eq_zero
        split: if_splits)
  have five: "length levels = 5" using assms(2) by (simp add: levels_ok_def)
  have at: "\<exists>p < length l. levels ! v = int p \<and> unat (Level (l ! p)) = v \<and>
      (\<forall>k. p < k \<and> k < length l \<longrightarrow> Level (l ! p) < Level (l ! k))" if "v \<le> unat (Level (last l))" for v
    using that assms(2) False by (auto simp: levels_ok_def)
  obtain p where p: "p < length l" "levels ! (?lv - 1) = int p" "unat (Level (l ! p)) = ?lv - 1"
    "\<forall>k. p < k \<and> k < length l \<longrightarrow> Level (l ! p) < Level (l ! k)"
    using at [of "?lv - 1"] lv by (metis One_nat_def Suc_eq_plus1 Suc_pred bot_nat_0.not_eq_extremum not_less_eq_eq)
  have nth: "(l @ [new]) ! k = (if k < length l then l ! k else new)" if "k \<le> length l" for k
    using that by (auto simp: nth_append)
  have lt: "Level (l ! q) < Level new" if "unat (Level (l ! q)) < ?lv" for q
    using that by (simp add: new word_less_nat_alt)
  have "parent_ok (l @ [new]) (length l) p"
    using p lv lt [of p] by (auto simp: parent_ok_def nth_append new)
  moreover have "parent_ok (l @ [new]) i q" if "i < length l" "parent_ok l i q" for i q
    using that by (auto simp: parent_ok_def nth)
  ultimately have par: "\<exists>q. parent_ok (l @ [new]) i q" if "i < length (l @ [new])" "i \<noteq> 0" for i
    using that wf_parent [OF assms(1)] by (metis length_append_singleton less_SucE)
  have wf: "otl_wf (l @ [new])"
  proof (rule otl_wfI [OF _ _ par])
    show "unat (Level ((l @ [new]) ! i)) \<le> 4" if "i < length (l @ [new])" for i
      using that wf_level [OF assms(1)] lv(1) by (auto simp: nth_append new)
    show "Level ((l @ [new]) ! 0) = 0 \<and> ParentIndex ((l @ [new]) ! 0) = -1"
      using False wf_root [OF assms(1)] by (simp add: nth_append)
  qed
  have "\<exists>p < length (l @ [new]). levels' ! v = int p \<and> unat (Level ((l @ [new]) ! p)) = v \<and>
      (\<forall>k. p < k \<and> k < length (l @ [new]) \<longrightarrow> Level ((l @ [new]) ! p) < Level ((l @ [new]) ! k))"
    if v: "v \<le> ?lv" for v
  proof (cases "v = ?lv")
    case True
    then show ?thesis using lv five by (intro exI [of _ "length l"]) (auto simp: levels' new nth)
  next
    case False
    with v lv obtain q where "q < length l" "levels ! v = int q" "unat (Level (l ! q)) = v"
      "\<forall>k. q < k \<and> k < length l \<longrightarrow> Level (l ! q) < Level (l ! k)"
      using at [of v] by auto
    with False v show ?thesis
      using lt [of q] by (intro exI [of _ q]) (auto simp: levels' nth less_Suc_eq)
  qed
  then have "levels_ok (l @ [new]) levels'"
    using five by (simp add: levels_ok_def levels' new)
  with wf new show ?thesis by simp
qed

lemma capture_loop_ok:
  assumes "otl_wf l" "levels_ok l levels" "capture_loop es l levels = Inr l'"
  shows "otl_wf l' \<and> length l' = length l + length es \<and> take (length l) l' = l \<and>
    (\<forall>k < length es. OtLevel (es ! k) = Level (l' ! (length l + k)) \<and>
       OtObjectType (es ! k) = ObjectType (l' ! (length l + k)) \<and>
       Remaining (l' ! (length l + k)) = 0 \<and> CurrentGranted (l' ! (length l + k)) = 0 \<and>
       CurrentDenied (l' ! (length l + k)) = 0)"
  using assms
proof (induction es arbitrary: l levels)
  case Nil
  then show ?case by simp
next
  case (Cons e es)
  obtain new levels' where c: "capture_entry (length l) e l levels = Inr (new, levels')"
    using Cons.prems(3) by (auto split: sum.splits)
  note new = capture_entry_ok [OF Cons.prems(1,2) c]
  have rest: "capture_loop es (l @ [new]) levels' = Inr l'" using Cons.prems(3) c by simp
  note IH = Cons.IH [OF conjunct1 [OF new] conjunct1 [OF conjunct2 [OF new]] rest]
  then have "l' ! length l = new"
    by (metis (no_types) length_append_singleton lessI nth_append_length nth_take)
  moreover have "take (length l) l' = l"
    using IH by (metis append_eq_conv_conj length_append_singleton lessI less_imp_le min.absorb1 take_take)
  ultimately show ?case using IH new by (auto simp: nth_Cons split: nat.splits)
qed

section \<open>The summaries of the inner nodes\<close>

text \<open>An inner node agrees with its children, right by right.\<close>

definition node_ok :: "otl \<Rightarrow> nat \<Rightarrow> bool" where
  "node_ok l p \<longleftrightarrow> (\<exists>c. is_child l p c) \<longrightarrow>
     (\<forall>n. (bit (Remaining (l ! p)) n \<longleftrightarrow> (\<exists>c. is_child l p c \<and> bit (Remaining (l ! c)) n)) \<and>
          (bit (CurrentGranted (l ! p)) n \<longleftrightarrow> (\<forall>c. is_child l p c \<longrightarrow> bit (CurrentGranted (l ! c)) n)) \<and>
          (bit (CurrentDenied (l ! p)) n \<longleftrightarrow> (\<exists>c. is_child l p c \<and> bit (CurrentDenied (l ! c)) n)))"

text \<open>No right is both granted and denied on an entry.\<close>

definition entry_ok :: "iobject_type_list \<Rightarrow> bool" where
  "entry_ok e \<longleftrightarrow> (\<forall>n. \<not> (bit (CurrentGranted e) n \<and> bit (CurrentDenied e) n))"

definition otl_consistent :: "otl \<Rightarrow> bool" where
  "otl_consistent l \<longleftrightarrow> (\<forall>p < length l. node_ok l p) \<and> (\<forall>p < length l. entry_ok (l ! p))"

lemma bit_update_entry:
  "bit (Remaining (update_entry f m e)) n \<longleftrightarrow>
     bit (Remaining e) n \<and> \<not> (f = UpdateRemaining \<and> bit m n)"
  "bit (CurrentGranted (update_entry f m e)) n \<longleftrightarrow>
     bit (CurrentGranted e) n \<or> f = UpdateCurrentGranted \<and> bit m n \<and> \<not> bit (CurrentDenied e) n"
  "bit (CurrentDenied (update_entry f m e)) n \<longleftrightarrow>
     bit (CurrentDenied e) n \<or> f = UpdateCurrentDenied \<and> bit m n \<and> \<not> bit (CurrentGranted e) n"
  by (cases f; auto simp: bit_mask_ops)+

declare update_entry.simps [simp del]

lemma update_entry_ok: "entry_ok e \<Longrightarrow> entry_ok (update_entry f m e)"
  by (auto simp: entry_ok_def bit_update_entry)

text \<open>Updating all children of a node is what updating the node itself gives.\<close>

lemma node_ok_update:
  assumes ok: "node_ok l q" and e: "\<forall>c. is_child l q c \<longrightarrow> entry_ok (l ! c)"
    and sh: "same_shape l l'" and q: "l' ! q = update_entry f m (l ! q)"
    and c: "\<And>c. is_child l q c \<Longrightarrow> l' ! c = update_entry f m (l ! c)"
  shows "node_ok l' q"
proof -
  have ch: "is_child l' q c = is_child l q c" for c by (rule same_shape_child [OF sh])
  have g: "\<not> (bit (CurrentGranted (l ! c)) n \<and> bit (CurrentDenied (l ! c)) n)" if "is_child l q c" for c n
    using e that by (simp add: entry_ok_def)
  show ?thesis
    unfolding node_ok_def ch
  proof (intro impI allI conjI)
    fix n
    assume ex: "\<exists>c. is_child l q c"
    show "bit (Remaining (l' ! q)) n \<longleftrightarrow> (\<exists>c. is_child l q c \<and> bit (Remaining (l' ! c)) n)"
      using ok ex c by (auto simp: node_ok_def q bit_update_entry)
    show "bit (CurrentGranted (l' ! q)) n \<longleftrightarrow> (\<forall>c. is_child l q c \<longrightarrow> bit (CurrentGranted (l' ! c)) n)"
      using ok ex c g [of _ n] by (auto simp: node_ok_def q bit_update_entry)
    show "bit (CurrentDenied (l' ! q)) n \<longleftrightarrow> (\<exists>c. is_child l q c \<and> bit (CurrentDenied (l' ! c)) n)"
      using ok ex c g [of _ n] by (auto simp: node_ok_def q bit_update_entry)
  qed
qed

lemma node_ok_cong:
  assumes "node_ok l q" "same_shape l l'" "l' ! q = l ! q"
    and "\<And>c. is_child l q c \<Longrightarrow> l' ! c = l ! c"
  shows "node_ok l' q"
  using assms by (simp add: node_ok_def same_shape_child) (metis (no_types, lifting))

section \<open>Recomputing a parent\<close>

lemma parent_scan:
  assumes "otl_wf l" "p < length l" "p < index" "index \<le> length l"
    and "\<forall>k. p < k \<and> k < index \<longrightarrow> Level (l ! p) < Level (l ! k)"
    and "unat level = Suc (unat (Level (l ! p)))"
    and "SepUpdateParentTypeList_loop l p level index (r, g, d) = (r', g', d')"
  shows "(bit r' n \<longleftrightarrow> bit r n \<or> (\<exists>c \<ge> index. is_child l p c \<and> bit (Remaining (l ! c)) n)) \<and>
    (bit g' n \<longleftrightarrow> bit g n \<and> (\<forall>c \<ge> index. is_child l p c \<longrightarrow> bit (CurrentGranted (l ! c)) n)) \<and>
    (bit d' n \<longleftrightarrow> bit d n \<or> (\<exists>c \<ge> index. is_child l p c \<and> bit (CurrentDenied (l ! c)) n))"
  using assms
proof (induction "length l - index" arbitrary: index r g d)
  case 0
  then have "index = length l" by simp
  with 0 show ?case by (auto simp: SepUpdateParentTypeList_loop.simps [of l] is_child_def)
next
  case (Suc x)
  then have i: "index < length l" by simp
  have step: "(\<exists>c \<ge> index. is_child l p c \<and> P c) \<longleftrightarrow>
      is_child l p index \<and> P index \<or> (\<exists>c \<ge> Suc index. is_child l p c \<and> P c)" for P
    by (metis Suc_leD not_less_eq_eq order_antisym_conv order_refl)
  have step': "(\<forall>c \<ge> index. is_child l p c \<longrightarrow> P c) \<longleftrightarrow>
      (is_child l p index \<longrightarrow> P index) \<and> (\<forall>c \<ge> Suc index. is_child l p c \<longrightarrow> P c)" for P
    by (metis Suc_leD not_less_eq_eq order_antisym_conv order_refl)
  show ?case
  proof (cases "Level (l ! index) \<le> Level (l ! p)")
    case True
    then have "(r', g', d') = (r, g, d)"
      using Suc.prems(7) i by (simp add: SepUpdateParentTypeList_loop.simps [of l])
    moreover have "\<not> is_child l p c" if "index \<le> c" for c
    proof
      assume "is_child l p c"
      then have "parent_ok l c p" by (rule wf_child [OF Suc.prems(1)])
      then have "Level (l ! p) < Level (l ! index)"
        using that Suc.prems(3) by (auto simp: parent_ok_def)
      with True show False by simp
    qed
    ultimately show ?thesis by auto
  next
    case False
    then have up: "\<forall>k. p < k \<and> k < Suc index \<longrightarrow> Level (l ! p) < Level (l ! k)"
      using Suc.prems(5) by (auto simp: less_Suc_eq not_le)
    obtain q where q: "parent_ok l index q"
      using wf_parent [OF Suc.prems(1) i] Suc.prems(3) by auto
    have child: "is_child l p index \<longleftrightarrow> Level (l ! index) = level"
    proof
      assume "is_child l p index"
      then have "parent_ok l index p" by (rule wf_child [OF Suc.prems(1)])
      then show "Level (l ! index) = level"
        using Suc.prems(6) by (simp add: parent_ok_def word_unat_eq_iff)
    next
      assume "Level (l ! index) = level"
      then have lv: "Level (l ! q) = Level (l ! p)"
        using q Suc.prems(6) by (auto simp: parent_ok_def word_unat_eq_iff)
      have "\<not> p < q" using up q lv by (auto simp: parent_ok_def)
      moreover have "\<not> q < p" using q lv Suc.prems(3) by (auto simp: parent_ok_def)
      ultimately show "is_child l p index" using q i by (auto simp: is_child_def parent_ok_def)
    qed
    show ?thesis
    proof (cases "Level (l ! index) = level")
      case True
      have eq: "SepUpdateParentTypeList_loop l p level (Suc index)
          (r OR Remaining (l ! index), g AND CurrentGranted (l ! index), d OR CurrentDenied (l ! index)) =
          (r', g', d')"
        using Suc.prems(7) i False True by (simp add: SepUpdateParentTypeList_loop.simps [of l p level index])
      have "is_child l p index" using child True by simp
      then show ?thesis
        using Suc.hyps(1) [OF _ Suc.prems(1,2) _ _ up Suc.prems(6) eq] Suc.hyps(2) Suc.prems(3) i
        by (simp add: step step' bit_or_iff bit_and_iff)
    next
      case neq: False
      have eq: "SepUpdateParentTypeList_loop l p level (Suc index) (r, g, d) = (r', g', d')"
        using Suc.prems(7) i False neq by (simp add: SepUpdateParentTypeList_loop.simps [of l p level index])
      have "\<not> is_child l p index" using child neq by simp
      then show ?thesis
        using Suc.hyps(1) [OF _ Suc.prems(1,2) _ _ up Suc.prems(6) eq] Suc.hyps(2) Suc.prems(3) i
        by (simp add: step step')
    qed
  qed
qed

text \<open>The new values of a parent make it agree with its children.\<close>

lemma parent_recompute:
  assumes wf: "otl_wf l" and c: "parent_ok l c p" "c < length l"
    and s: "SepUpdateParentTypeList_loop l p (Level (l ! c)) (p + 1) (0, 0xFFFFFFFF, 0) = (r, g, d)"
    and l': "l' = l[p := (l ! p)\<lparr>Remaining := r, CurrentGranted := g, CurrentDenied := d\<rparr>]"
  shows "node_ok l' p" and "(\<forall>k. is_child l p k \<longrightarrow> entry_ok (l ! k)) \<Longrightarrow> entry_ok (l' ! p)"
proof -
  have p: "p < length l" using c by (simp add: parent_ok_def)
  have sh: "same_shape l l'" unfolding l' by (rule same_shape_update) simp_all
  obtain full :: access_mask where full: "full = 0xFFFFFFFF" by simp
  have all: "bit full n \<longleftrightarrow> n < 32" for n
  proof -
    have "full = -1" by (simp add: full)
    then show ?thesis by (simp only: bit_minus_1_iff possible_bit_word) simp
  qed
  have gt: "p < k" if "is_child l p k" for k
    using wf_child [OF wf that] by (simp add: parent_ok_def)
  have scan: "(bit r n \<longleftrightarrow> (\<exists>k. is_child l p k \<and> bit (Remaining (l ! k)) n)) \<and>
    (bit g n \<longleftrightarrow> n < 32 \<and> (\<forall>k. is_child l p k \<longrightarrow> bit (CurrentGranted (l ! k)) n)) \<and>
    (bit d n \<longleftrightarrow> (\<exists>k. is_child l p k \<and> bit (CurrentDenied (l ! k)) n))" for n
    using parent_scan [OF wf p _ _ _ _ s [folded full], of n] c gt
    by (auto simp: parent_ok_def all Suc_le_eq)
  have same: "is_child l p k \<Longrightarrow> l' ! k = l ! k" for k using gt [of k] by (simp add: l')
  have ch: "is_child l p c" using c by (simp add: parent_ok_def is_child_def)
  have lt: "n < 32" if "\<forall>k. is_child l p k \<longrightarrow> bit (CurrentGranted (l ! k)) n" for n
    using that ch bit_imp_le_length [of "CurrentGranted (l ! c)" n] by auto
  show "node_ok l' p"
    unfolding node_ok_def same_shape_child [OF sh]
    using scan same lt p by (auto simp: l')
  show "entry_ok (l' ! p)" if "\<forall>k. is_child l p k \<longrightarrow> entry_ok (l ! k)"
    using that scan p by (auto simp: entry_ok_def l')
qed

lemma SepUpdateParentTypeList_ok:
  assumes "otl_wf l" "i < length l" "i \<le> s0"
    and "\<forall>q. q \<noteq> s0 \<and> ParentIndex (l ! i) \<noteq> int q \<longrightarrow> node_ok l q"
    and "\<forall>q < length l. entry_ok (l ! q)"
  shows "\<exists>l'. SepUpdateParentTypeList l i = Some l' \<and> same_shape l l' \<and>
    (\<forall>q \<ge> i. l' ! q = l ! q) \<and> (\<forall>q. q \<noteq> s0 \<longrightarrow> node_ok l' q) \<and> (\<forall>q < length l. entry_ok (l' ! q)) \<and>
    (\<forall>q. \<not> in_subtree l q i \<longrightarrow> l' ! q = l ! q)"
  using assms
proof (induction i arbitrary: l rule: less_induct)
  case (less i)
  note eq = SepUpdateParentTypeList.simps [of l i]
  show ?case
  proof (cases "i = 0")
    case True
    then have root: "ParentIndex (l ! i) = -1" using wf_root [OF less.prems(1)] less.prems(2) by simp
    then have "SepUpdateParentTypeList l i = Some l" by (simp add: eq)
    then show ?thesis using less.prems root by (intro exI [of _ l]) auto
  next
    case False
    obtain p where p: "parent_ok l i p" using wf_parent [OF less.prems(1,2) False] .
    then have pi: "ParentIndex (l ! i) = int p" and lt: "p < i" by (simp_all add: parent_ok_def)
    have up: "in_subtree l q p \<Longrightarrow> in_subtree l q i" for q
      by (rule child_in_subtree [OF less.prems(1), of p]) (use pi less.prems(2) in \<open>simp_all add: is_child_def\<close>)
    have "in_subtree l p p" using lt less.prems(2) by (auto simp: in_subtree_def)
    then have below: "in_subtree l p i" by (rule up)
    obtain r g d where s: "SepUpdateParentTypeList_loop l p (Level (l ! i)) (p + 1) (0, 0xFFFFFFFF, 0) =
        (r, g, d)" by (metis prod_cases3)
    define l1 where "l1 = l[p := (l ! p)\<lparr>Remaining := r, CurrentGranted := g, CurrentDenied := d\<rparr>]"
    have sh: "same_shape l l1" unfolding l1_def by (rule same_shape_update) simp_all
    note p_ok = parent_recompute(1) [OF less.prems(1) p less.prems(2) s l1_def]
    have "entry_ok (l1 ! p)"
      using parent_recompute(2) [OF less.prems(1) p less.prems(2) s l1_def] less.prems(5)
      by (simp add: is_child_def)
    then have e: "\<forall>q < length l. entry_ok (l1 ! q)"
      using less.prems(5) by (metis l1_def nth_list_update_neq)
    have other: "node_ok l1 q" if "q \<noteq> s0" "ParentIndex (l ! p) \<noteq> int q" for q
    proof (cases "q = p")
      case False
      have "node_ok l q" using that less.prems(4) False pi by simp
      then show ?thesis
        by (rule node_ok_cong [OF _ sh]) (use False that in \<open>simp_all add: l1_def is_child_def\<close>,
          metis nth_list_update_neq)
    qed (simp add: p_ok)
    show ?thesis
    proof (cases "r = Remaining (l ! p) \<and> g = CurrentGranted (l ! p) \<and> d = CurrentDenied (l ! p)")
      case True
      then have "l1 = l" by (simp add: l1_def)
      moreover have "SepUpdateParentTypeList l i = Some l"
        using True s pi by (simp add: eq)
      ultimately show ?thesis using less.prems p_ok pi by (intro exI [of _ l]) auto
    next
      case False
      have rec: "SepUpdateParentTypeList l i = SepUpdateParentTypeList l1 p"
        using False s pi by (auto simp: eq l1_def)
      have "\<exists>l'. SepUpdateParentTypeList l1 p = Some l' \<and> same_shape l1 l' \<and>
          (\<forall>q \<ge> p. l' ! q = l1 ! q) \<and> (\<forall>q. q \<noteq> s0 \<longrightarrow> node_ok l' q) \<and>
          (\<forall>q < length l1. entry_ok (l' ! q)) \<and> (\<forall>q. \<not> in_subtree l1 q p \<longrightarrow> l' ! q = l1 ! q)"
      proof (rule less.IH [OF lt same_shape_wf [OF sh less.prems(1)]])
        show "p < length l1" "p \<le> s0" using lt less.prems(2,3) by (simp_all add: l1_def)
        show "\<forall>q. q \<noteq> s0 \<and> ParentIndex (l1 ! p) \<noteq> int q \<longrightarrow> node_ok l1 q"
          using other lt less.prems(2) by (simp add: l1_def)
        show "\<forall>q < length l1. entry_ok (l1 ! q)" using e by (simp add: l1_def)
      qed
      then obtain l' where l': "SepUpdateParentTypeList l1 p = Some l'" "same_shape l1 l'"
        "\<forall>q \<ge> p. l' ! q = l1 ! q" "\<forall>q. q \<noteq> s0 \<longrightarrow> node_ok l' q" "\<forall>q < length l1. entry_ok (l' ! q)"
        "\<forall>q. \<not> in_subtree l1 q p \<longrightarrow> l' ! q = l1 ! q"
        by blast
      have "l' ! q = l ! q" if "i \<le> q" for q
        using l'(3) lt that by (simp add: l1_def)
      moreover have "l' ! q = l ! q" if out: "\<not> in_subtree l q i" for q
      proof -
        have "\<not> in_subtree l1 q p" using out up by (auto simp: same_shape_subtree [OF sh])
        moreover have "q \<noteq> p" using out below by auto
        ultimately show ?thesis using l'(6) by (simp add: l1_def)
      qed
      ultimately show ?thesis
        using l' rec same_shape_trans [OF sh l'(2)] by (simp add: l1_def)
    qed
  qed
qed

section \<open>The whole update\<close>

lemma SepAddAccessTypeList_loop_nth:
  assumes "s < index" "index \<le> length l" "\<forall>j. s < j \<and> j < index \<longrightarrow> Level (l ! s) < Level (l ! j)"
    and "l' = SepAddAccessTypeList_loop l s m f index"
  shows "length l' = length l \<and>
    (\<forall>k < length l. l' ! k = (if index \<le> k \<and> in_subtree l s k then update_entry f m (l ! k) else l ! k))"
  using assms
proof (induction "length l - index" arbitrary: index l)
  case 0
  then show ?case by (simp add: SepAddAccessTypeList_loop.simps [of l])
next
  case (Suc x)
  then have i: "index < length l" by simp
  show ?case
  proof (cases "Level (l ! index) \<le> Level (l ! s)")
    case True
    then have "l' = l" using Suc.prems(4) i by (simp add: SepAddAccessTypeList_loop.simps [of l])
    moreover have "\<not> in_subtree l s k" if "index \<le> k" for k
      using that True Suc.prems(1) unfolding in_subtree_def by (metis not_le)
    ultimately show ?thesis by auto
  next
    case False
    let ?l1 = "l[index := update_entry f m (l ! index)]"
    have sh: "same_shape l ?l1" by (rule same_shape_update) simp_all
    have up: "Level (l ! s) < Level (l ! j)" if "s < j" "j < Suc index" for j
      using that Suc.prems(3) False by (cases "j = index") auto
    then have sub: "in_subtree l s index" using Suc.prems(1) i by (simp add: in_subtree_def)
    have lev: "Level (?l1 ! j) = Level (l ! j)" for j
      by (metis list_update_beyond not_le nth_list_update_eq nth_list_update_neq update_entry_shape(1))
    have "l' = SepAddAccessTypeList_loop ?l1 s m f (Suc index)"
      using Suc.prems(4) i False by (simp add: SepAddAccessTypeList_loop.simps [of l])
    then have IH: "length l' = length ?l1 \<and> (\<forall>k < length ?l1. l' ! k =
        (if Suc index \<le> k \<and> in_subtree ?l1 s k then update_entry f m (?l1 ! k) else ?l1 ! k))"
      using Suc.hyps(2) Suc.prems(1) i up by (intro Suc.hyps(1)) (auto simp: lev)
    show ?thesis
    proof (intro conjI allI impI)
      show "length l' = length l" using IH by simp
      fix k
      assume "k < length l"
      then show "l' ! k = (if index \<le> k \<and> in_subtree l s k then update_entry f m (l ! k) else l ! k)"
        using IH sub i by (cases "k = index") (auto simp: same_shape_subtree [OF sh])
    qed
  qed
qed

lemma remaining_below:
  assumes "otl_wf l" "\<forall>q < length l. node_ok l q" "in_subtree l s k" "bit (Remaining (l ! k)) n"
  shows "bit (Remaining (l ! s)) n"
  using assms(3,4)
proof (induction k rule: less_induct)
  case (less k)
  show ?case
  proof (cases "k = s")
    case False
    with less.prems have k: "k < length l" "k \<noteq> 0" by (auto simp: in_subtree_def)
    obtain p where p: "parent_ok l k p" using wf_parent [OF assms(1) k] .
    then have c: "is_child l p k" "p < k" using k by (simp_all add: parent_ok_def is_child_def)
    then have "node_ok l p" using assms(2) k by simp
    then have "bit (Remaining (l ! p)) n" using c less.prems(2) unfolding node_ok_def by blast
    then show ?thesis using less.IH parent_in_subtree [OF assms(1) c(1) less.prems(1) False] c by blast
  qed (use less in simp)
qed

lemma ancestors_untouched:
  assumes wf: "otl_wf l" and q: "q < length l" "\<not> in_subtree l s q" and ok: "node_ok l2 q"
    and sh: "same_shape l l2" "same_shape l2 l3"
    and out: "\<And>k. k < length l \<Longrightarrow> \<not> (s < k \<and> in_subtree l s k) \<Longrightarrow> l3 ! k = l2 ! k"
  shows "node_ok l3 q"
proof (rule node_ok_cong [OF ok sh(2)])
  show "l3 ! q = l2 ! q" using out q by auto
  fix c
  assume c: "is_child l2 q c"
  then have lc: "is_child l q c" by (simp add: same_shape_child [OF sh(1)])
  have "\<not> (s < c \<and> in_subtree l s c)"
    using parent_in_subtree [OF wf lc, of s] q(2) by auto
  then show "l3 ! c = l2 ! c" using out lc by (simp add: is_child_def)
qed

theorem SepAddAccessTypeList_ok:
  assumes wf: "otl_wf l" and con: "otl_consistent l" and s: "s < length l"
  shows "\<exists>l'. SepAddAccessTypeList l s m f = Some l' \<and> same_shape l l' \<and> otl_consistent l' \<and>
    (\<forall>k. in_subtree l s k \<longrightarrow> l' ! k = update_entry f m (l ! k)) \<and>
    (\<forall>k < length l. \<not> in_subtree l s k \<and> \<not> in_subtree l k s \<longrightarrow> l' ! k = l ! k)"
proof -
  let ?new = "update_entry f m (l ! s)" and ?l1 = "l[s := update_entry f m (l ! s)]"
  have node: "\<forall>q < length l. node_ok l q" and ent: "\<forall>q < length l. entry_ok (l ! q)"
    using con by (simp_all add: otl_consistent_def)
  have node': "node_ok l q" for q
  proof (cases "q < length l")
    case False
    then have "\<not> is_child l q c" for c using wf_child [OF wf, of q c] by (auto simp: is_child_def parent_ok_def)
    then show ?thesis by (simp add: node_ok_def)
  qed (use node in simp)
  have sh1: "same_shape l ?l1" by (rule same_shape_update) simp_all
  have ent1: "\<forall>q < length l. entry_ok (?l1 ! q)"
    using ent s update_entry_ok by (metis nth_list_update_eq nth_list_update_neq)
  have keep1: "node_ok ?l1 q" if "q \<noteq> s" "ParentIndex (l ! s) \<noteq> int q" for q
    by (rule node_ok_cong [OF node' sh1]) (use that in \<open>simp_all add: is_child_def\<close>, metis nth_list_update_neq)
  show ?thesis
  proof (cases "f = UpdateRemaining \<and> Remaining ?new = Remaining (l ! s)")
    case True
    then have r: "SepAddAccessTypeList l s m f = Some ?l1" by (auto simp: SepAddAccessTypeList_def Let_def)
    have no: "\<not> (bit (Remaining (l ! s)) n \<and> bit m n)" for n
      using True bit_update_entry(1) [of f m "l ! s" n] by auto
    have same: "update_entry f m (l ! k) = l ! k" if "in_subtree l s k" for k
    proof -
      have "Remaining (l ! k) AND NOT m = Remaining (l ! k)"
        using no remaining_below [OF wf node that] by (auto simp: bit_eq_iff bit_diff_mask)
      then show ?thesis using True by (simp add: update_entry.simps)
    qed
    have "in_subtree l s s" using s by (auto simp: in_subtree_def)
    then have "?l1 = l" using same by simp
    then show ?thesis using r same con by simp
  next
    case False
    define avoid where "avoid \<longleftrightarrow> f = UpdateCurrentGranted \<and> CurrentGranted ?new = CurrentGranted (l ! s) \<or>
      f = UpdateCurrentDenied \<and> CurrentDenied ?new = CurrentDenied (l ! s)"
    have "\<exists>l2. (if avoid then Some ?l1 else SepUpdateParentTypeList ?l1 s) = Some l2 \<and> same_shape ?l1 l2 \<and>
        (\<forall>q \<ge> s. l2 ! q = ?l1 ! q) \<and> (\<forall>q. q \<noteq> s \<longrightarrow> node_ok l2 q) \<and> (\<forall>q < length ?l1. entry_ok (l2 ! q)) \<and>
        (\<forall>q. \<not> in_subtree l q s \<longrightarrow> l2 ! q = ?l1 ! q)"
    proof (cases avoid)
      case True
      then have "?new = l ! s" by (cases f) (auto simp: avoid_def update_entry.simps)
      then have "?l1 = l" by simp
      then show ?thesis using True node' ent by simp
    next
      case False
      then show ?thesis
        using SepUpdateParentTypeList_ok [OF same_shape_wf [OF sh1 wf], of s s] keep1 ent1 s
        by (simp add: same_shape_subtree [OF sh1])
    qed
    then obtain l2 where l2: "(if avoid then Some ?l1 else SepUpdateParentTypeList ?l1 s) = Some l2"
      and sh2: "same_shape ?l1 l2" and above: "\<forall>q \<ge> s. l2 ! q = ?l1 ! q"
      and node2: "\<forall>q. q \<noteq> s \<longrightarrow> node_ok l2 q" and ent2: "\<forall>q < length l. entry_ok (l2 ! q)"
      and frame: "\<forall>q. \<not> in_subtree l q s \<longrightarrow> l2 ! q = ?l1 ! q" by auto
    define l3 where "l3 = SepAddAccessTypeList_loop l2 s m f (s + 1)"
    have r: "SepAddAccessTypeList l s m f = Some l3"
      using l2 False by (auto simp: SepAddAccessTypeList_def Let_def l3_def avoid_def split: if_splits)
    have sh: "same_shape l l2" by (rule same_shape_trans [OF sh1 sh2])
    have len: "length l2 = length l" by (rule same_shape_length [OF sh])
    have l3: "length l3 = length l2 \<and> (\<forall>k < length l2. l3 ! k =
        (if s + 1 \<le> k \<and> in_subtree l2 s k then update_entry f m (l2 ! k) else l2 ! k))"
      by (rule SepAddAccessTypeList_loop_nth [OF _ _ _ l3_def]) (use s len in auto)
    have nth: "l3 ! k = (if s < k \<and> in_subtree l s k then update_entry f m (l2 ! k) else l2 ! k)"
      if "k < length l" for k
      using l3 that len by (simp add: same_shape_subtree [OF sh] Suc_le_eq)
    have sh3: "same_shape l2 l3"
      using l3 by (simp add: same_shape_def)
    have shl: "same_shape l l3" by (rule same_shape_trans [OF sh sh3])
    have sub: "l3 ! k = update_entry f m (l ! k)" if "in_subtree l s k" for k
      using that nth [of k] above by (cases "k = s") (auto simp: in_subtree_def)
    have keep: "l3 ! k = l ! k" if "k < length l" "\<not> in_subtree l s k" "\<not> in_subtree l k s" for k
    proof -
      have "in_subtree l s s" using s by (auto simp: in_subtree_def)
      then have "k \<noteq> s" using that(2) by auto
      with that nth [of k] frame show ?thesis by simp
    qed
    have "node_ok l3 q" if q: "q < length l" for q
    proof (cases "in_subtree l s q")
      case True
      show ?thesis
        by (rule node_ok_update [OF node' _ shl sub [OF True]])
          (use ent child_in_subtree [OF wf _ True] sub in \<open>auto simp: is_child_def\<close>)
    next
      case False
      then have "q \<noteq> s" using s by (auto simp: in_subtree_def)
      then show ?thesis
        using node2 nth by (intro ancestors_untouched [OF wf q False _ sh sh3]) auto
    qed
    moreover have "entry_ok (l3 ! q)" if "q < length l" for q
      using that nth [of q] ent2 update_entry_ok by auto
    ultimately have "otl_consistent l3" using l3 len by (simp add: otl_consistent_def)
    with r shl sub keep show ?thesis by blast
  qed
qed

end
