(* ===== verification/Access_Check.thy ===== *)
theory Access_Check
  imports Type_List
begin

text \<open>
  The access check of the security reference monitor, \<^verbatim>\<open>se/accessck.c\<close>: the search for a SID in a
  token, the two walks over a discretionary ACL (\<^verbatim>\<open>SepNormalAccessCheck\<close> for a set of desired
  rights, \<^verbatim>\<open>SepMaximumAccessCheck\<close> for everything that can be granted), the worker
  \<^verbatim>\<open>SepAccessCheck\<close> and the entry points \<^verbatim>\<open>SeAccessCheck\<close>, \<^verbatim>\<open>SePrivilegePolicyCheck\<close> and
  \<^verbatim>\<open>SeFastTraverseCheck\<close>.

  An ACL is the list of its entries: the byte layout that \<^verbatim>\<open>FirstAce\<close> and \<^verbatim>\<open>NextAce\<close> step over is
  not modelled, the entry types are the constructors of \<open>ace\<close>. Locks on tokens and subject
  contexts do not appear; a pool allocation that may fail is a Boolean argument.
\<close>

unbundle bit_operations_syntax

section \<open>Access control entries, ACLs and security descriptors\<close>

text \<open>
  An object ACE carries its object type when \<^verbatim>\<open>ACE_OBJECT_TYPE_PRESENT\<close> is set. An entry of any
  other type is \<open>OTHER_ACE\<close> with its type byte.
\<close>

datatype ace =
  ACCESS_ALLOWED_ACE (AceFlags: uchar) access_mask sid
| ACCESS_DENIED_ACE (AceFlags: uchar) access_mask sid
| SYSTEM_AUDIT_ACE (AceFlags: uchar) access_mask sid
| COMPOUND_ACCESS_ALLOWED_ACE (AceFlags: uchar) access_mask (ServerSid: sid) (ClientSid: sid)
| ACCESS_ALLOWED_OBJECT_ACE (AceFlags: uchar) access_mask (AceObjectType: "guid option") sid
| ACCESS_DENIED_OBJECT_ACE (AceFlags: uchar) access_mask (AceObjectType: "guid option") sid
| OTHER_ACE (AceFlags: uchar) uchar

type_synonym acl = "ace list"

record security_descriptor =
  SdControl :: ushort
  Owner :: "sid option"
  Group :: "sid option"
  Sacl :: "acl option"
  Dacl :: "acl option"

abbreviation INHERIT_ONLY_ACE :: uchar where "INHERIT_ONLY_ACE \<equiv> 0x8"
abbreviation SUCCESSFUL_ACCESS_ACE_FLAG :: uchar where "SUCCESSFUL_ACCESS_ACE_FLAG \<equiv> 0x40"
abbreviation SE_DACL_PRESENT :: ushort where "SE_DACL_PRESENT \<equiv> 0x0004"

definition RtlpDaclAddrSecurityDescriptor :: "security_descriptor \<Rightarrow> acl option" where
  "RtlpDaclAddrSecurityDescriptor sd =
     (if SdControl sd AND SE_DACL_PRESENT = 0 then None else Dacl sd)"

text \<open>\<^verbatim>\<open>S-1-5-10\<close>, the SID that stands for the object's own principal.\<close>

definition SePrincipalSelfSid :: sid where
  "SePrincipalSelfSid = \<lparr>Revision = 1, SubAuthorityCount = 1,
     IdentifierAuthority = [0, 0, 0, 0, 0, 5], SubAuthority = [10]\<rparr>"

text \<open>\<^verbatim>\<open>S-1-1-0\<close>, everyone.\<close>

definition SeWorldSid :: sid where
  "SeWorldSid = \<lparr>Revision = 1, SubAuthorityCount = 1,
     IdentifierAuthority = [0, 0, 0, 0, 0, 1], SubAuthority = [0]\<rparr>"

section \<open>A SID in a token\<close>

definition replace_principal_self :: "sid option \<Rightarrow> sid \<Rightarrow> sid" where
  "replace_principal_self principalSelfSid sid =
     (case principalSelfSid of
        Some self \<Rightarrow> if RtlEqualSid SePrincipalSelfSid sid then self else sid
      | None \<Rightarrow> sid)"

text \<open>
  Revision and count are compared as one \<^verbatim>\<open>USHORT\<close>, then the memory of the searched SID's length.
\<close>

definition token_sid_match :: "sid \<Rightarrow> sid \<Rightarrow> bool" where
  "token_sid_match sid matchSid \<longleftrightarrow>
     Revision matchSid = Revision sid \<and> SubAuthorityCount matchSid = SubAuthorityCount sid \<and>
     sid_memory_equal (unat (SubAuthorityCount sid)) sid matchSid"

fun SepSidInToken_scan :: "nat \<Rightarrow> sid_and_attributes list \<Rightarrow> sid \<Rightarrow> bool \<Rightarrow> bool" where
  "SepSidInToken_scan i [] sid denyAce = False"
| "SepSidInToken_scan i (tokenSid # rest) sid denyAce =
     (if token_sid_match sid (Sid tokenSid)
      then i = 0 \<or> SaAttributes tokenSid AND SE_GROUP_ENABLED \<noteq> 0 \<or>
           denyAce \<and> SaAttributes tokenSid AND SE_GROUP_USE_FOR_DENY_ONLY \<noteq> 0
      else SepSidInToken_scan (i + 1) rest sid denyAce)"

definition SepSidInToken :: "token \<Rightarrow> sid option \<Rightarrow> sid \<Rightarrow> bool \<Rightarrow> bool" where
  "SepSidInToken tok principalSelfSid sid denyAce =
     SepSidInToken_scan 0 (UserAndGroups tok) (replace_principal_self principalSelfSid sid) denyAce"

fun SepSidInTokenEx_scan ::
    "nat \<Rightarrow> sid_and_attributes list \<Rightarrow> sid \<Rightarrow> bool \<Rightarrow> bool \<Rightarrow> bool" where
  "SepSidInTokenEx_scan i [] sid denyAce restricted = False"
| "SepSidInTokenEx_scan i (tokenSid # rest) sid denyAce restricted =
     (if token_sid_match sid (Sid tokenSid)
      then \<not> restricted \<and> i = 0 \<and> SaAttributes tokenSid AND SE_GROUP_USE_FOR_DENY_ONLY = 0 \<or>
           SaAttributes tokenSid AND SE_GROUP_ENABLED \<noteq> 0 \<or>
           denyAce \<and> SaAttributes tokenSid AND SE_GROUP_USE_FOR_DENY_ONLY \<noteq> 0
      else SepSidInTokenEx_scan (i + 1) rest sid denyAce restricted)"

definition SepSidInTokenEx :: "token \<Rightarrow> sid option \<Rightarrow> sid \<Rightarrow> bool \<Rightarrow> bool \<Rightarrow> bool" where
  "SepSidInTokenEx tok principalSelfSid sid denyAce restricted =
     SepSidInTokenEx_scan 0 (if restricted then RestrictedSids tok else UserAndGroups tok)
       (replace_principal_self principalSelfSid sid) denyAce restricted"

section \<open>The walk for everything that can be granted\<close>

text \<open>
  The updates of the whole object: directly on the only entry of the list, or through
  \<^verbatim>\<open>SepAddAccessTypeList\<close> at entry 0.
\<close>

definition max_allow_object :: "access_mask \<Rightarrow> otl \<Rightarrow> otl option" where
  "max_allow_object aceMask l =
     (if length l = 1
      then Some (l[0 := (l ! 0)\<lparr>CurrentGranted :=
                   CurrentGranted (l ! 0) OR (aceMask AND NOT (CurrentDenied (l ! 0)))\<rparr>])
      else SepAddAccessTypeList l 0 aceMask UpdateCurrentGranted)"

definition max_deny_root :: "access_mask \<Rightarrow> otl \<Rightarrow> otl" where
  "max_deny_root aceMask l =
     l[0 := (l ! 0)\<lparr>CurrentDenied :=
              CurrentDenied (l ! 0) OR (aceMask AND NOT (CurrentGranted (l ! 0)))\<rparr>]"

definition max_deny_object :: "access_mask \<Rightarrow> otl \<Rightarrow> otl option" where
  "max_deny_object aceMask l =
     (if length l = 1 then Some (max_deny_root aceMask l)
      else SepAddAccessTypeList l 0 aceMask UpdateCurrentDenied)"

text \<open>One entry of the ACL that is not inherit-only.\<close>

fun SepMaximumAccessCheck_ace ::
    "token \<Rightarrow> token \<Rightarrow> sid option \<Rightarrow> nat \<Rightarrow> bool \<Rightarrow> ace \<Rightarrow> otl \<Rightarrow> otl option" where
  "SepMaximumAccessCheck_ace eToken primaryToken self objectTypeListLength restricted
     (ACCESS_ALLOWED_ACE flags aceMask sid) l =
       (if SepSidInTokenEx eToken self sid False restricted then max_allow_object aceMask l else Some l)"
| "SepMaximumAccessCheck_ace eToken primaryToken self objectTypeListLength restricted
     (ACCESS_ALLOWED_OBJECT_ACE flags aceMask objectType sid) l =
       (case objectType of
          None \<Rightarrow>
            if SepSidInTokenEx eToken self sid False restricted
            then max_allow_object aceMask l else Some l
        | Some typ \<Rightarrow>
            if objectTypeListLength = 0 then Some l
            else if SepSidInTokenEx eToken self sid False restricted
            then (case SepObjectInTypeList typ l of
                    Some index \<Rightarrow> SepAddAccessTypeList l index aceMask UpdateCurrentGranted
                  | None \<Rightarrow> Some l)
            else Some l)"
| "SepMaximumAccessCheck_ace eToken primaryToken self objectTypeListLength restricted
     (COMPOUND_ACCESS_ALLOWED_ACE flags aceMask serverSid clientSid) l =
       (if SepSidInTokenEx eToken self clientSid False restricted \<and>
           SepSidInTokenEx primaryToken None serverSid False False
        then max_allow_object aceMask l else Some l)"
| "SepMaximumAccessCheck_ace eToken primaryToken self objectTypeListLength restricted
     (ACCESS_DENIED_ACE flags aceMask sid) l =
       (if SepSidInTokenEx eToken self sid True restricted then max_deny_object aceMask l else Some l)"
| "SepMaximumAccessCheck_ace eToken primaryToken self objectTypeListLength restricted
     (ACCESS_DENIED_OBJECT_ACE flags aceMask objectType sid) l =
       (if SepSidInTokenEx eToken self sid True restricted
        then (case objectType of
                None \<Rightarrow> max_deny_object aceMask l
              | Some typ \<Rightarrow>
                  if objectTypeListLength = 0 then Some (max_deny_root aceMask l)
                  else (case SepObjectInTypeList typ l of
                          Some index \<Rightarrow> SepAddAccessTypeList l index aceMask UpdateCurrentDenied
                        | None \<Rightarrow> Some l))
        else Some l)"
| "SepMaximumAccessCheck_ace eToken primaryToken self objectTypeListLength restricted ace1 l = Some l"

fun SepMaximumAccessCheck_loop ::
    "token \<Rightarrow> token \<Rightarrow> sid option \<Rightarrow> nat \<Rightarrow> bool \<Rightarrow> acl \<Rightarrow> otl \<Rightarrow> otl option" where
  "SepMaximumAccessCheck_loop eToken primaryToken self objectTypeListLength restricted [] l = Some l"
| "SepMaximumAccessCheck_loop eToken primaryToken self objectTypeListLength restricted (ace1 # rest) l =
     (if AceFlags ace1 AND INHERIT_ONLY_ACE = 0
      then do {
        l' \<leftarrow> SepMaximumAccessCheck_ace eToken primaryToken self objectTypeListLength restricted ace1 l;
        SepMaximumAccessCheck_loop eToken primaryToken self objectTypeListLength restricted rest l'
      }
      else SepMaximumAccessCheck_loop eToken primaryToken self objectTypeListLength restricted rest l)"

definition SepMaximumAccessCheck ::
    "token \<Rightarrow> token \<Rightarrow> acl \<Rightarrow> sid option \<Rightarrow> otl \<Rightarrow> nat \<Rightarrow> bool \<Rightarrow> otl option" where
  "SepMaximumAccessCheck eToken primaryToken dacl self l objectTypeListLength restricted = do {
     let l0 = (if restricted
               then map (\<lambda>e. e\<lparr>Remaining := CurrentGranted e, CurrentGranted := 0\<rparr>) l else l);
     l1 \<leftarrow> SepMaximumAccessCheck_loop eToken primaryToken self objectTypeListLength restricted dacl l0;
     Some (if restricted
           then map (\<lambda>e. e\<lparr>CurrentGranted := CurrentGranted e AND Remaining e\<rparr>) l1 else l1)
   }"

section \<open>The walk for the desired rights\<close>

definition normal_allow_object :: "access_mask \<Rightarrow> otl \<Rightarrow> otl option" where
  "normal_allow_object aceMask l =
     (if length l = 1
      then Some (l[0 := (l ! 0)\<lparr>Remaining := Remaining (l ! 0) AND NOT aceMask\<rparr>])
      else SepAddAccessTypeList l 0 aceMask UpdateRemaining)"

text \<open>One entry: the new list, and whether the loop breaks.\<close>

fun SepNormalAccessCheck_ace ::
    "token \<Rightarrow> token \<Rightarrow> sid option \<Rightarrow> nat \<Rightarrow> bool \<Rightarrow> ace \<Rightarrow> otl \<Rightarrow> (otl \<times> bool) option" where
  "SepNormalAccessCheck_ace eToken primaryToken self objectTypeListLength restricted
     (ACCESS_ALLOWED_ACE flags aceMask sid) l =
       (if SepSidInTokenEx eToken self sid False restricted
        then map_option (\<lambda>l'. (l', False)) (normal_allow_object aceMask l) else Some (l, False))"
| "SepNormalAccessCheck_ace eToken primaryToken self objectTypeListLength restricted
     (ACCESS_ALLOWED_OBJECT_ACE flags aceMask objectType sid) l =
       (case objectType of
          None \<Rightarrow>
            if SepSidInTokenEx eToken self sid False restricted
            then map_option (\<lambda>l'. (l', False)) (normal_allow_object aceMask l) else Some (l, False)
        | Some typ \<Rightarrow>
            if objectTypeListLength = 0 then Some (l, False)
            else if SepSidInTokenEx eToken self sid False restricted
            then (case SepObjectInTypeList typ l of
                    Some index \<Rightarrow>
                      map_option (\<lambda>l'. (l', False)) (SepAddAccessTypeList l index aceMask UpdateRemaining)
                  | None \<Rightarrow> Some (l, False))
            else Some (l, False))"
| "SepNormalAccessCheck_ace eToken primaryToken self objectTypeListLength restricted
     (COMPOUND_ACCESS_ALLOWED_ACE flags aceMask serverSid clientSid) l =
       (if SepSidInTokenEx eToken self clientSid False restricted \<and>
           SepSidInTokenEx primaryToken None serverSid False restricted
        then map_option (\<lambda>l'. (l', False)) (normal_allow_object aceMask l) else Some (l, False))"
| "SepNormalAccessCheck_ace eToken primaryToken self objectTypeListLength restricted
     (ACCESS_DENIED_ACE flags aceMask sid) l =
       (if SepSidInTokenEx eToken self sid True restricted
        then Some (l, Remaining (l ! 0) AND aceMask \<noteq> 0) else Some (l, False))"
| "SepNormalAccessCheck_ace eToken primaryToken self objectTypeListLength restricted
     (ACCESS_DENIED_OBJECT_ACE flags aceMask objectType sid) l =
       (if SepSidInTokenEx eToken self sid True restricted
        then if objectType = None \<or> objectTypeListLength = 0
             then Some (l, Remaining (l ! 0) AND aceMask \<noteq> 0)
             else (case SepObjectInTypeList (the objectType) l of
                     Some index \<Rightarrow> Some (l, Remaining (l ! index) AND aceMask \<noteq> 0)
                   | None \<Rightarrow> Some (l, False))
        else Some (l, False))"
| "SepNormalAccessCheck_ace eToken primaryToken self objectTypeListLength restricted ace1 l =
     Some (l, False)"

fun SepNormalAccessCheck_loop ::
    "token \<Rightarrow> token \<Rightarrow> sid option \<Rightarrow> nat \<Rightarrow> bool \<Rightarrow> acl \<Rightarrow> otl \<Rightarrow> otl option" where
  "SepNormalAccessCheck_loop eToken primaryToken self objectTypeListLength restricted [] l = Some l"
| "SepNormalAccessCheck_loop eToken primaryToken self objectTypeListLength restricted (ace1 # rest) l =
     (if Remaining (l ! 0) = 0 then Some l
      else if AceFlags ace1 AND INHERIT_ONLY_ACE = 0
      then do {
        (l', stop) \<leftarrow>
          SepNormalAccessCheck_ace eToken primaryToken self objectTypeListLength restricted ace1 l;
        if stop then Some l'
        else SepNormalAccessCheck_loop eToken primaryToken self objectTypeListLength restricted rest l'
      }
      else SepNormalAccessCheck_loop eToken primaryToken self objectTypeListLength restricted rest l)"

definition SepNormalAccessCheck ::
    "access_mask \<Rightarrow> token \<Rightarrow> token \<Rightarrow> acl \<Rightarrow> sid option \<Rightarrow> otl \<Rightarrow> nat \<Rightarrow> bool \<Rightarrow> otl option" where
  "SepNormalAccessCheck remaining eToken primaryToken dacl self l objectTypeListLength restricted =
     SepNormalAccessCheck_loop eToken primaryToken self objectTypeListLength restricted dacl
       (map (\<lambda>e. e\<lparr>Remaining := remaining\<rparr>) l)"

section \<open>The worker\<close>

text \<open>
  The locals that the stages of \<^verbatim>\<open>SepAccessCheck\<close> update. A stage either jumps to
  \<^verbatim>\<open>ReturnOneStatus\<close> (\<^const>\<open>Inl\<close>, with the status) or goes on (\<^const>\<open>Inr\<close>).
\<close>

record access_locals =
  AlRemaining :: access_mask
  AlGranted :: access_mask
  AlPrivilegeCount :: nat
  AlSystemSecurity :: bool
  AlWriteOwner :: bool

record access_result =
  RetVal :: bool
  GrantedAccess :: "access_mask list"
  AccessStatus :: "ntstatus list"
  ReturnedPrivileges :: "privilege_set option"
  SomeAccessGranted :: bool
  SomeAccessDenied :: bool
  ResultTypeList :: otl

definition used_privilege :: "luid \<Rightarrow> luid_and_attributes" where
  "used_privilege l = \<lparr>Luid = l, LaAttributes = SE_PRIVILEGE_USED_FOR_ACCESS\<rparr>"

definition SepSystemSecurityPrivilegeSet :: privilege_set where
  "SepSystemSecurityPrivilegeSet =
     \<lparr>Control = 0, Privilege = [used_privilege SeSecurityPrivilege]\<rparr>"

definition SepTakeOwnershipPrivilegeSet :: privilege_set where
  "SepTakeOwnershipPrivilegeSet =
     \<lparr>Control = 0, Privilege = [used_privilege SeTakeOwnershipPrivilege]\<rparr>"

definition SepDoublePrivilegeSet :: privilege_set where
  "SepDoublePrivilegeSet =
     \<lparr>Control = 0, Privilege = [used_privilege SeSecurityPrivilege, used_privilege SeTakeOwnershipPrivilege]\<rparr>"

text \<open>
  \<open>wanted\<close>: the caller passed a pointer; \<open>allocated\<close>: the pool allocation succeeds. \<^const>\<open>None\<close>
  is a null privilege set.
\<close>

definition SepAssemblePrivileges ::
    "nat \<Rightarrow> bool \<Rightarrow> bool \<Rightarrow> bool \<Rightarrow> privilege_set option" where
  "SepAssemblePrivileges privilegeCount systemSecurity wanted allocated =
     (if \<not> wanted \<or> \<not> allocated then None
      else if privilegeCount = 1
      then Some (if systemSecurity then SepSystemSecurityPrivilegeSet
                 else SepTakeOwnershipPrivilegeSet)
      else Some SepDoublePrivilegeSet)"

definition access_system_security_stage ::
    "token \<Rightarrow> access_mask \<Rightarrow> access_mask \<Rightarrow> kprocessor_mode \<Rightarrow>
     (ntstatus \<times> access_locals) + access_locals" where
  "access_system_security_stage eToken desiredAccess previouslyGranted previousMode =
     (let s = \<lparr>AlRemaining = desiredAccess, AlGranted = previouslyGranted, AlPrivilegeCount = 0,
              AlSystemSecurity = False, AlWriteOwner = False\<rparr> in
      if desiredAccess AND ACCESS_SYSTEM_SECURITY \<noteq> 0 then
        if \<not> SepSinglePrivilegeCheck SeSecurityPrivilege eToken previousMode
        then Inl (STATUS_PRIVILEGE_NOT_HELD, s\<lparr>AlGranted := 0\<rparr>)
        else
          let s1 = s\<lparr>AlRemaining := AlRemaining s AND NOT ACCESS_SYSTEM_SECURITY,
                     AlGranted := AlGranted s OR ACCESS_SYSTEM_SECURITY,
                     AlPrivilegeCount := AlPrivilegeCount s + 1, AlSystemSecurity := True\<rparr>
          in if AlRemaining s1 = 0 then Inl (STATUS_SUCCESS, s1) else Inr s1
      else Inr s)"

text \<open>\<^verbatim>\<open>SECURE_NULL_DACLS\<close> is not defined in the build, so a missing DACL grants everything.\<close>

definition null_dacl_stage ::
    "security_descriptor \<Rightarrow> access_mask \<Rightarrow> generic_mapping \<Rightarrow> access_locals \<Rightarrow>
     (ntstatus \<times> access_locals) + access_locals" where
  "null_dacl_stage sd desiredAccess genericMapping s =
     (if SdControl sd AND SE_DACL_PRESENT = 0 \<or> RtlpDaclAddrSecurityDescriptor sd = None
      then Inl (STATUS_SUCCESS,
             if desiredAccess AND MAXIMUM_ALLOWED \<noteq> 0
             then s\<lparr>AlGranted := GenericAll genericMapping OR
                     ((desiredAccess OR AlGranted s) AND NOT MAXIMUM_ALLOWED)\<rparr>
             else s\<lparr>AlGranted := AlGranted s OR desiredAccess\<rparr>)
      else Inr s)"

definition write_owner_stage ::
    "token \<Rightarrow> kprocessor_mode \<Rightarrow> bool \<Rightarrow> access_locals \<Rightarrow>
     (ntstatus \<times> access_locals) + access_locals" where
  "write_owner_stage eToken previousMode wantPrivileges s =
     (if AlRemaining s AND WRITE_OWNER \<noteq> 0 \<and> wantPrivileges \<and>
         SepSinglePrivilegeCheck SeTakeOwnershipPrivilege eToken previousMode
      then
        let s1 = s\<lparr>AlRemaining := AlRemaining s AND NOT WRITE_OWNER,
                   AlGranted := AlGranted s OR WRITE_OWNER,
                   AlPrivilegeCount := AlPrivilegeCount s + 1, AlWriteOwner := True\<rparr>
        in if AlRemaining s1 = 0 then Inl (STATUS_SUCCESS, s1) else Inr s1
      else Inr s)"

definition empty_dacl_stage ::
    "acl \<Rightarrow> access_locals \<Rightarrow> (ntstatus \<times> access_locals) + access_locals" where
  "empty_dacl_stage dacl s =
     (if length dacl = 0
      then if AlRemaining s = MAXIMUM_ALLOWED \<and> AlGranted s \<noteq> 0
           then Inl (STATUS_SUCCESS, s)
           else Inl (STATUS_ACCESS_DENIED, s\<lparr>AlGranted := 0\<rparr>)
      else Inr s)"

text \<open>The list the walks run on: the caller's, or one zeroed entry.\<close>

definition FixedTypeList :: iobject_type_list where
  "FixedTypeList = \<lparr>Level = 0, Flags = 0, ObjectType = GUID 0 0 0 0, ParentIndex = -1,
     Remaining = 0, CurrentGranted = 0, CurrentDenied = 0\<rparr>"

definition local_type_list :: "otl \<Rightarrow> otl" where
  "local_type_list objectTypeList =
     (if length objectTypeList = 0 then [FixedTypeList] else objectTypeList)"

text \<open>The maximum walk, and the second one over the restricted SIDs of a restricted token.\<close>

definition maximum_walk ::
    "token \<Rightarrow> token \<Rightarrow> acl \<Rightarrow> sid option \<Rightarrow> otl \<Rightarrow> nat \<Rightarrow> otl option" where
  "maximum_walk eToken primaryToken dacl self l objectTypeListLength = do {
     l1 \<leftarrow> SepMaximumAccessCheck eToken primaryToken dacl self l objectTypeListLength False;
     if SeTokenIsRestricted eToken
     then SepMaximumAccessCheck eToken primaryToken dacl self l1 objectTypeListLength True
     else Some l1
   }"

text \<open>The granted mask and the status of one entry of a result list.\<close>

definition result_list_entry ::
    "access_mask \<Rightarrow> access_mask \<Rightarrow> iobject_type_list \<Rightarrow> access_mask \<times> ntstatus" where
  "result_list_entry desiredAccess previouslyGranted e =
     (let grantedAccessMask =
            (if desiredAccess AND MAXIMUM_ALLOWED \<noteq> 0 then NOT MAXIMUM_ALLOWED
             else desiredAccess OR previouslyGranted);
          requiredAccessMask =
            (if desiredAccess AND MAXIMUM_ALLOWED \<noteq> 0
             then (desiredAccess OR previouslyGranted) AND NOT MAXIMUM_ALLOWED
             else desiredAccess OR previouslyGranted);
          granted = (CurrentGranted e OR previouslyGranted) AND grantedAccessMask
      in (granted,
          if granted = 0 then STATUS_ACCESS_DENIED
          else if NOT granted AND requiredAccessMask \<noteq> 0 then STATUS_ACCESS_DENIED
          else STATUS_SUCCESS))"

definition return_result_list ::
    "access_mask \<Rightarrow> bool \<Rightarrow> bool \<Rightarrow> access_locals \<Rightarrow> otl \<Rightarrow> access_result" where
  "return_result_list desiredAccess wantPrivileges allocated s l =
     (let entries = map (result_list_entry desiredAccess (AlGranted s)) l;
          someGranted = (STATUS_SUCCESS \<in> set (map snd entries));
          someDenied = (STATUS_ACCESS_DENIED \<in> set (map snd entries));
          assemble = (someGranted \<and> AlPrivilegeCount s \<noteq> 0);
          privs = (if assemble
                   then SepAssemblePrivileges (AlPrivilegeCount s) (AlSystemSecurity s)
                          wantPrivileges allocated
                   else None)
      in if assemble \<and> wantPrivileges \<and> privs = None
         then \<lparr>RetVal = False, GrantedAccess = map (\<lambda>_. 0) l,
               AccessStatus = map (\<lambda>_. STATUS_NO_MEMORY) l, ReturnedPrivileges = None,
               SomeAccessGranted = False, SomeAccessDenied = True, ResultTypeList = l\<rparr>
         else \<lparr>RetVal = True, GrantedAccess = map fst entries, AccessStatus = map snd entries,
               ReturnedPrivileges = privs, SomeAccessGranted = someGranted,
               SomeAccessDenied = someDenied, ResultTypeList = l\<rparr>)"

text \<open>The summary of a maximum walk for a caller interested in the object itself.\<close>

definition maximum_summary :: "access_locals \<Rightarrow> otl \<Rightarrow> ntstatus \<times> access_locals" where
  "maximum_summary s l =
     (let remaining = AlRemaining s AND NOT (MAXIMUM_ALLOWED OR CurrentGranted (l ! 0))
      in if remaining \<noteq> 0
         then (STATUS_ACCESS_DENIED, s\<lparr>AlRemaining := remaining, AlGranted := 0\<rparr>)
         else (STATUS_SUCCESS,
               s\<lparr>AlRemaining := remaining, AlGranted := AlGranted s OR CurrentGranted (l ! 0)\<rparr>))"

text \<open>The walk for the desired rights, and the second one of a restricted token.\<close>

definition normal_walk ::
    "token \<Rightarrow> token \<Rightarrow> acl \<Rightarrow> sid option \<Rightarrow> otl \<Rightarrow> nat \<Rightarrow> access_mask \<Rightarrow> access_locals \<Rightarrow>
     ((ntstatus \<times> access_locals) \<times> otl) option" where
  "normal_walk eToken primaryToken dacl self l objectTypeListLength desiredAccess s = do {
     l1 \<leftarrow> SepNormalAccessCheck (AlRemaining s) eToken primaryToken dacl self l
             objectTypeListLength False;
     if Remaining (l1 ! 0) \<noteq> 0
     then Some ((STATUS_ACCESS_DENIED, s\<lparr>AlGranted := 0\<rparr>), l1)
     else do {
       l2 \<leftarrow> (if SeTokenIsRestricted eToken
              then SepNormalAccessCheck (AlRemaining s) eToken primaryToken dacl self l1
                     objectTypeListLength True
              else Some l1);
       if Remaining (l2 ! 0) \<noteq> 0
       then Some ((STATUS_ACCESS_DENIED, s\<lparr>AlGranted := 0\<rparr>), l2)
       else Some ((STATUS_SUCCESS, s\<lparr>AlGranted := AlGranted s OR desiredAccess\<rparr>), l2)
     }
   }"

text \<open>The code at \<^verbatim>\<open>ReturnOneStatus\<close>.\<close>

definition return_one_status ::
    "bool \<Rightarrow> bool \<Rightarrow> bool \<Rightarrow> nat \<Rightarrow> ntstatus \<times> access_locals \<Rightarrow> otl \<Rightarrow> access_result" where
  "return_one_status returnResultList wantPrivileges allocated objectTypeListLength outcome l =
     (let (status0, s) = outcome;
          status1 = (if status0 = STATUS_SUCCESS \<and> AlGranted s = 0
                     then STATUS_ACCESS_DENIED else status0);
          assemble = (NT_SUCCESS status1 \<and> AlPrivilegeCount s > 0);
          privs = (if assemble
                   then SepAssemblePrivileges (AlPrivilegeCount s) (AlSystemSecurity s)
                          wantPrivileges allocated
                   else None);
          noMemory = (assemble \<and> wantPrivileges \<and> privs = None);
          status = (if noMemory then STATUS_NO_MEMORY else status1);
          granted = (if noMemory then 0 else AlGranted s);
          n = (if returnResultList then objectTypeListLength else 1)
      in \<lparr>RetVal = (\<not> noMemory), GrantedAccess = replicate n granted,
          AccessStatus = replicate n status, ReturnedPrivileges = privs,
          SomeAccessGranted = NT_SUCCESS status, SomeAccessDenied = (\<not> NT_SUCCESS status),
          ResultTypeList = l\<rparr>)"

text \<open>The walks, once the DACL is known to exist and to have entries.\<close>

definition dacl_stage ::
    "token \<Rightarrow> token \<Rightarrow> acl \<Rightarrow> sid option \<Rightarrow> access_mask \<Rightarrow> otl \<Rightarrow> bool \<Rightarrow> bool \<Rightarrow> bool \<Rightarrow>
     access_locals \<Rightarrow> access_result option" where
  "dacl_stage eToken primaryToken dacl self desiredAccess objectTypeList wantPrivileges
     returnResultList allocated s =
     (let l = local_type_list objectTypeList; n = length objectTypeList in
      if desiredAccess AND MAXIMUM_ALLOWED \<noteq> 0 \<or> returnResultList
      then do {
        l1 \<leftarrow> maximum_walk eToken primaryToken dacl self l n;
        Some (if returnResultList
              then return_result_list desiredAccess wantPrivileges allocated s l1
              else return_one_status returnResultList wantPrivileges allocated n
                     (maximum_summary s l1) l1)
      }
      else do {
        (outcome, l1) \<leftarrow> normal_walk eToken primaryToken dacl self l n desiredAccess s;
        Some (return_one_status returnResultList wantPrivileges allocated n outcome l1)
      })"

definition SepAccessCheck ::
    "security_descriptor \<Rightarrow> sid option \<Rightarrow> token \<Rightarrow> token option \<Rightarrow> access_mask \<Rightarrow> otl \<Rightarrow>
     generic_mapping \<Rightarrow> access_mask \<Rightarrow> kprocessor_mode \<Rightarrow> bool \<Rightarrow> bool \<Rightarrow> bool \<Rightarrow>
     access_result option" where
  "SepAccessCheck sd self primaryToken clientToken desiredAccess objectTypeList genericMapping
     previouslyGranted previousMode wantPrivileges returnResultList allocated =
     (let eToken = (case clientToken of Some t \<Rightarrow> t | None \<Rightarrow> primaryToken);
          finish = (\<lambda>outcome. Some (return_one_status returnResultList wantPrivileges allocated
                      (length objectTypeList) outcome objectTypeList))
      in case access_system_security_stage eToken desiredAccess previouslyGranted previousMode of
           Inl outcome \<Rightarrow> finish outcome
         | Inr s1 \<Rightarrow>
      (case null_dacl_stage sd desiredAccess genericMapping s1 of
           Inl outcome \<Rightarrow> finish outcome
         | Inr s2 \<Rightarrow>
      (case write_owner_stage eToken previousMode wantPrivileges s2 of
           Inl outcome \<Rightarrow> finish outcome
         | Inr s3 \<Rightarrow>
      (let dacl = the (RtlpDaclAddrSecurityDescriptor sd) in
       case empty_dacl_stage dacl s3 of
           Inl outcome \<Rightarrow> finish outcome
         | Inr s4 \<Rightarrow> dacl_stage eToken primaryToken dacl self desiredAccess objectTypeList
                      wantPrivileges returnResultList allocated s4))))"

section \<open>The entry points\<close>

definition SepTokenIsOwner :: "token \<Rightarrow> security_descriptor \<Rightarrow> bool" where
  "SepTokenIsOwner tok sd =
     (let owner = the (Owner sd);
          rc = SepSidInToken tok None owner False
      in if rc \<and> TokenFlags tok AND TOKEN_IS_RESTRICTED \<noteq> 0
         then SepSidInTokenEx tok None owner False True
         else rc)"

text \<open>
  What \<^verbatim>\<open>SeAccessCheck\<close> writes through its pointers: \<^const>\<open>None\<close> is an output it does not
  write.
\<close>

record se_access_result =
  SeReturn :: bool
  SeGrantedAccess :: "access_mask option"
  SeAccessStatus :: ntstatus
  SePrivileges :: "privilege_set option"

text \<open>The rights an owner gets without asking the DACL, and what is left to ask for.\<close>

definition owner_rights ::
    "token \<Rightarrow> security_descriptor \<Rightarrow> access_mask \<Rightarrow> access_mask \<Rightarrow> access_mask \<times> access_mask" where
  "owner_rights tok sd desiredAccess previouslyGranted =
     (if desiredAccess AND (WRITE_DAC OR READ_CONTROL OR MAXIMUM_ALLOWED) \<noteq> 0 \<and>
         SepTokenIsOwner tok sd
      then (desiredAccess AND NOT (WRITE_DAC OR READ_CONTROL),
            if desiredAccess AND MAXIMUM_ALLOWED \<noteq> 0
            then previouslyGranted OR (WRITE_DAC OR READ_CONTROL)
            else previouslyGranted OR (desiredAccess AND (WRITE_DAC OR READ_CONTROL)))
      else (desiredAccess, previouslyGranted))"

text \<open>
  \<open>wantPrivileges\<close> says that the caller passed a pointer for the privileges. The result \<^const>\<open>None\<close> is
  a call that does not return: a store through that pointer when it is null (with nothing desired
  and rights granted before, the code clears \<^verbatim>\<open>*Privileges\<close> without a test), or a walk that does not end.
\<close>

definition SeAccessCheck ::
    "security_descriptor option \<Rightarrow> security_subject_context \<Rightarrow> access_mask \<Rightarrow> access_mask \<Rightarrow>
     generic_mapping \<Rightarrow> kprocessor_mode \<Rightarrow> bool \<Rightarrow> bool \<Rightarrow> se_access_result option" where
  "SeAccessCheck securityDescriptor ctx desiredAccess previouslyGranted genericMapping accessMode
     wantPrivileges allocated =
     (if accessMode = KernelMode then
        Some \<lparr>SeReturn = True,
              SeGrantedAccess = Some
                (if desiredAccess AND MAXIMUM_ALLOWED \<noteq> 0
                 then (GenericAll genericMapping OR (desiredAccess AND NOT MAXIMUM_ALLOWED))
                        OR previouslyGranted
                 else desiredAccess OR previouslyGranted),
              SeAccessStatus = STATUS_SUCCESS, SePrivileges = None\<rparr>
      else case securityDescriptor of
        None \<Rightarrow> Some \<lparr>SeReturn = False, SeGrantedAccess = None, SeAccessStatus = STATUS_ACCESS_DENIED,
              SePrivileges = None\<rparr>
      | Some sd \<Rightarrow>
      if ClientToken ctx \<noteq> None \<and> ImpersonationLevel ctx < SecurityImpersonation then
        Some \<lparr>SeReturn = False, SeGrantedAccess = None,
              SeAccessStatus = STATUS_BAD_IMPERSONATION_LEVEL, SePrivileges = None\<rparr>
      else if desiredAccess = 0 then
        if previouslyGranted = 0 then
          Some \<lparr>SeReturn = False, SeGrantedAccess = None, SeAccessStatus = STATUS_ACCESS_DENIED,
              SePrivileges = None\<rparr>
        else if \<not> wantPrivileges then None
        else
          Some \<lparr>SeReturn = True, SeGrantedAccess = Some previouslyGranted,
                SeAccessStatus = STATUS_SUCCESS, SePrivileges = None\<rparr>
      else
        let (desired', granted') = owner_rights (EffectiveToken ctx) sd desiredAccess previouslyGranted
        in if desired' = 0 then
             Some \<lparr>SeReturn = True, SeGrantedAccess = Some granted', SeAccessStatus = STATUS_SUCCESS, SePrivileges = None\<rparr>
           else do {
             r \<leftarrow> SepAccessCheck sd None (PrimaryToken ctx) (ClientToken ctx) desired' []
                    genericMapping granted' accessMode wantPrivileges False allocated;
             Some \<lparr>SeReturn = (RetVal r \<and> SomeAccessGranted r),
                   SeGrantedAccess = Some (hd (GrantedAccess r)),
                   SeAccessStatus = hd (AccessStatus r),
                   SePrivileges = ReturnedPrivileges r\<rparr>
           })"

text \<open>
  The remaining desired access, the granted access and the privilege set (\<^const>\<open>None\<close>: not
  written) of \<^verbatim>\<open>SePrivilegePolicyCheck\<close>.
\<close>

definition SePrivilegePolicyCheck ::
    "access_mask \<Rightarrow> access_mask \<Rightarrow> token \<Rightarrow> kprocessor_mode \<Rightarrow> bool \<Rightarrow>
     ntstatus \<times> access_mask \<times> access_mask \<times> privilege_set option" where
  "SePrivilegePolicyCheck remaining granted tok previousMode allocated =
     (if remaining AND ACCESS_SYSTEM_SECURITY \<noteq> 0 \<and>
         \<not> SepSinglePrivilegeCheck SeSecurityPrivilege tok previousMode
      then (STATUS_PRIVILEGE_NOT_HELD, remaining, granted, None)
      else
        let systemSecurity = (remaining AND ACCESS_SYSTEM_SECURITY \<noteq> 0);
            remaining1 = (if systemSecurity then remaining AND NOT ACCESS_SYSTEM_SECURITY else remaining);
            granted1 = (if systemSecurity then granted OR ACCESS_SYSTEM_SECURITY else granted);
            writeOwner = (remaining1 AND WRITE_OWNER \<noteq> 0 \<and>
              SepSinglePrivilegeCheck SeTakeOwnershipPrivilege tok previousMode);
            remaining2 = (if writeOwner then remaining1 AND NOT WRITE_OWNER else remaining1);
            granted2 = (if writeOwner then granted1 OR WRITE_OWNER else granted1)
        in if systemSecurity \<or> writeOwner
           then if \<not> allocated then (STATUS_INSUFFICIENT_RESOURCES, remaining2, granted2, None)
                else (STATUS_SUCCESS, remaining2, granted2,
                      Some \<lparr>Control = 0,
                            Privilege =
                              (if writeOwner then [used_privilege SeTakeOwnershipPrivilege] else []) @
                              (if systemSecurity then [used_privilege SeSecurityPrivilege] else [])\<rparr>)
           else (STATUS_SUCCESS, remaining2, granted2, None))"

text \<open>\<open>flags\<close> is \<^verbatim>\<open>AccessState->Flags\<close>; the caller has excluded kernel mode.\<close>

fun SeFastTraverseCheck_loop :: "access_mask \<Rightarrow> acl \<Rightarrow> bool" where
  "SeFastTraverseCheck_loop traverseAccess [] = False"
| "SeFastTraverseCheck_loop traverseAccess (ace1 # rest) =
     (if AceFlags ace1 AND INHERIT_ONLY_ACE \<noteq> 0 then SeFastTraverseCheck_loop traverseAccess rest
      else case ace1 of
        ACCESS_ALLOWED_ACE flags aceMask sid \<Rightarrow>
          if traverseAccess AND aceMask \<noteq> 0 \<and> RtlEqualSid SeWorldSid sid then True
          else SeFastTraverseCheck_loop traverseAccess rest
      | ACCESS_DENIED_ACE flags aceMask sid \<Rightarrow>
          if traverseAccess AND aceMask \<noteq> 0 then False
          else SeFastTraverseCheck_loop traverseAccess rest
      | _ \<Rightarrow> SeFastTraverseCheck_loop traverseAccess rest)"

definition SeFastTraverseCheck ::
    "security_descriptor option \<Rightarrow> ulong \<Rightarrow> access_mask \<Rightarrow> bool" where
  "SeFastTraverseCheck securityDescriptor flags traverseAccess =
     (case securityDescriptor of
        None \<Rightarrow> False
      | Some sd \<Rightarrow>
          (case RtlpDaclAddrSecurityDescriptor sd of
             None \<Rightarrow> True
           | Some dacl \<Rightarrow>
               if length dacl = 0 then False
               else if flags AND ucast TOKEN_IS_RESTRICTED \<noteq> 0 then False
               else SeFastTraverseCheck_loop traverseAccess dacl))"

fun SeMaximumAuditMask_loop :: "acl \<Rightarrow> access_mask \<Rightarrow> token \<Rightarrow> access_mask \<Rightarrow> access_mask" where
  "SeMaximumAuditMask_loop [] grantedAccess tok auditMask = auditMask"
| "SeMaximumAuditMask_loop (ace1 # rest) grantedAccess tok auditMask =
     (case ace1 of
        SYSTEM_AUDIT_ACE flags aceMask sid \<Rightarrow>
          if flags AND INHERIT_ONLY_ACE = 0 \<and> aceMask AND grantedAccess \<noteq> 0 \<and>
             flags AND SUCCESSFUL_ACCESS_ACE_FLAG \<noteq> 0 \<and> SepSidInToken tok None sid False
          then SeMaximumAuditMask_loop rest grantedAccess tok
                 (auditMask OR (aceMask AND grantedAccess))
          else SeMaximumAuditMask_loop rest grantedAccess tok auditMask
      | _ \<Rightarrow> SeMaximumAuditMask_loop rest grantedAccess tok auditMask)"

definition SeMaximumAuditMask :: "acl \<Rightarrow> access_mask \<Rightarrow> token \<Rightarrow> access_mask" where
  "SeMaximumAuditMask sacl grantedAccess tok = SeMaximumAuditMask_loop sacl grantedAccess tok 0"

end
