(* ===== verification/Access_Check_Facts.thy ===== *)
theory Access_Check_Facts
  imports Access_Check
begin

text \<open>
  What the access check decides. The specification is \<open>dacl_grants\<close>: going through the entries
  of a DACL in order, the first entry that names a right and applies to the token decides it.
  The two walks, restricted tokens, privileges and ownership are related to it, right by right.
\<close>

unbundle bit_operations_syntax

section \<open>The specification: the first matching entry decides\<close>

text \<open>
  The rights an entry grants or denies on the object itself, for a caller that passed no object
  types. \<open>restricted\<close> selects the SIDs of the client, \<open>serverRestricted\<close> those of the server of
  a compound entry.
\<close>

fun ace_grants :: "token \<Rightarrow> token \<Rightarrow> sid option \<Rightarrow> bool \<Rightarrow> bool \<Rightarrow> ace \<Rightarrow> access_mask" where
  "ace_grants eToken primaryToken self restricted serverRestricted (ACCESS_ALLOWED_ACE f m sid) =
     (if SepSidInTokenEx eToken self sid False restricted then m else 0)"
| "ace_grants eToken primaryToken self restricted serverRestricted
     (ACCESS_ALLOWED_OBJECT_ACE f m typ sid) =
     (if typ = None \<and> SepSidInTokenEx eToken self sid False restricted then m else 0)"
| "ace_grants eToken primaryToken self restricted serverRestricted
     (COMPOUND_ACCESS_ALLOWED_ACE f m server client) =
     (if SepSidInTokenEx eToken self client False restricted \<and>
         SepSidInTokenEx primaryToken None server False serverRestricted then m else 0)"
| "ace_grants eToken primaryToken self restricted serverRestricted a = 0"

fun ace_denies :: "token \<Rightarrow> sid option \<Rightarrow> bool \<Rightarrow> ace \<Rightarrow> access_mask" where
  "ace_denies eToken self restricted (ACCESS_DENIED_ACE f m sid) =
     (if SepSidInTokenEx eToken self sid True restricted then m else 0)"
| "ace_denies eToken self restricted (ACCESS_DENIED_OBJECT_ACE f m typ sid) =
     (if SepSidInTokenEx eToken self sid True restricted then m else 0)"
| "ace_denies eToken self restricted a = 0"

fun dacl_grants ::
    "token \<Rightarrow> token \<Rightarrow> sid option \<Rightarrow> bool \<Rightarrow> bool \<Rightarrow> acl \<Rightarrow> nat \<Rightarrow> bool" where
  "dacl_grants eToken primaryToken self restricted serverRestricted [] n = False"
| "dacl_grants eToken primaryToken self restricted serverRestricted (a # rest) n =
     (if AceFlags a AND INHERIT_ONLY_ACE = 0 then
        if bit (ace_grants eToken primaryToken self restricted serverRestricted a) n then True
        else if bit (ace_denies eToken self restricted a) n then False
        else dacl_grants eToken primaryToken self restricted serverRestricted rest n
      else dacl_grants eToken primaryToken self restricted serverRestricted rest n)"

section \<open>The walks on a single entry\<close>

lemma normal_ace_single:
  "SepNormalAccessCheck_ace eT pT self 0 r a [e] =
     Some ([e\<lparr>Remaining := Remaining e AND NOT (ace_grants eT pT self r r a)\<rparr>],
           Remaining e AND ace_denies eT self r a \<noteq> 0)"
  by (cases a) (auto simp: normal_allow_object_def split: option.splits)

lemma max_ace_single:
  "SepMaximumAccessCheck_ace eT pT self 0 r a [e] =
     Some [e\<lparr>CurrentGranted := CurrentGranted e OR
               (ace_grants eT pT self r False a AND NOT (CurrentDenied e)),
             CurrentDenied := CurrentDenied e OR
               (ace_denies eT self r a AND NOT (CurrentGranted e))\<rparr>]"
  by (cases a) (auto simp: max_allow_object_def max_deny_object_def max_deny_root_def
      split: option.splits)

lemma ace_grants_denies_disjoint:
  "bit (ace_grants eT pT self r s a) n \<Longrightarrow> \<not> bit (ace_denies eT self r a) n"
  by (cases a) (auto split: if_splits)

lemma normal_loop_single:
  "\<exists>e'. SepNormalAccessCheck_loop eT pT self 0 r dacl [e] = Some [e'] \<and>
     (Remaining e' = 0 \<longleftrightarrow>
        (\<forall>n. bit (Remaining e) n \<longrightarrow> dacl_grants eT pT self r r dacl n))"
proof (induction dacl arbitrary: e)
  case Nil
  then show ?case by (auto simp: mask_zero_iff)
next
  case (Cons a rest)
  let ?e = "e\<lparr>Remaining := Remaining e AND NOT (ace_grants eT pT self r r a)\<rparr>"
  consider "Remaining e = 0"
    | "Remaining e \<noteq> 0" "AceFlags a AND INHERIT_ONLY_ACE \<noteq> 0"
    | "Remaining e \<noteq> 0" "AceFlags a AND INHERIT_ONLY_ACE = 0"
        "Remaining e AND ace_denies eT self r a \<noteq> 0"
    | "Remaining e \<noteq> 0" "AceFlags a AND INHERIT_ONLY_ACE = 0"
        "Remaining e AND ace_denies eT self r a = 0"
    by blast
  then show ?case
  proof cases
    case 1
    then show ?thesis by simp
  next
    case 2
    with Cons.IH [of e] show ?thesis by simp
  next
    case 3
    then obtain n where n: "bit (Remaining e) n" "bit (ace_denies eT self r a) n"
      by (auto simp: mask_disjoint_iff)
    then have "\<not> bit (ace_grants eT pT self r r a) n"
      using ace_grants_denies_disjoint by blast
    then have "bit (Remaining ?e) n"
      using n by (simp add: bit_mask_ops)
    then have "Remaining ?e \<noteq> 0" by fastforce
    moreover have "\<not> dacl_grants eT pT self r r (a # rest) n"
      using 3 n \<open>\<not> bit (ace_grants eT pT self r r a) n\<close> by simp
    ultimately show ?thesis using 3 n(1)
      by (auto simp: normal_ace_single simp del: dacl_grants.simps)
  next
    case 4
    from Cons.IH [of ?e] obtain e' where e':
      "SepNormalAccessCheck_loop eT pT self 0 r rest [?e] = Some [e']"
      "Remaining e' = 0 \<longleftrightarrow> (\<forall>n. bit (Remaining ?e) n \<longrightarrow> dacl_grants eT pT self r r rest n)"
      by blast
    have "(\<forall>n. bit (Remaining ?e) n \<longrightarrow> dacl_grants eT pT self r r rest n) \<longleftrightarrow>
        (\<forall>n. bit (Remaining e) n \<longrightarrow> dacl_grants eT pT self r r (a # rest) n)"
      using 4 by (auto simp: bit_mask_ops mask_disjoint_iff dest: bit_imp_le_length)
    with 4 e' show ?thesis by (simp add: normal_ace_single)
  qed
qed

lemma max_loop_single:
  assumes "CurrentGranted e AND CurrentDenied e = 0"
  shows "\<exists>e'. SepMaximumAccessCheck_loop eT pT self 0 r dacl [e] = Some [e'] \<and>
     Remaining e' = Remaining e \<and> CurrentGranted e' AND CurrentDenied e' = 0 \<and>
     (\<forall>n. bit (CurrentGranted e') n \<longleftrightarrow> bit (CurrentGranted e) n \<or>
        \<not> bit (CurrentDenied e) n \<and> dacl_grants eT pT self r False dacl n)"
  using assms
proof (induction dacl arbitrary: e)
  case Nil
  then show ?case by simp
next
  case (Cons a rest)
  let ?g = "ace_grants eT pT self r False a" and ?d = "ace_denies eT self r a"
  let ?e = "e\<lparr>CurrentGranted := CurrentGranted e OR (?g AND NOT (CurrentDenied e)),
              CurrentDenied := CurrentDenied e OR (?d AND NOT (CurrentGranted e))\<rparr>"
  show ?case
  proof (cases "AceFlags a AND INHERIT_ONLY_ACE = 0")
    case False
    with Cons show ?thesis by simp
  next
    case True
    have "CurrentGranted ?e AND CurrentDenied ?e = 0"
      using Cons.prems ace_grants_denies_disjoint [of eT pT self r False a]
      by (auto simp: mask_disjoint_iff bit_mask_ops)
    from Cons.IH [OF this] obtain e' where e':
      "SepMaximumAccessCheck_loop eT pT self 0 r rest [?e] = Some [e']"
      "Remaining e' = Remaining e" "CurrentGranted e' AND CurrentDenied e' = 0"
      "\<And>n. bit (CurrentGranted e') n \<longleftrightarrow> bit (CurrentGranted ?e) n \<or>
          \<not> bit (CurrentDenied ?e) n \<and> dacl_grants eT pT self r False rest n"
      by auto
    have "bit (CurrentGranted e') n \<longleftrightarrow> bit (CurrentGranted e) n \<or>
        \<not> bit (CurrentDenied e) n \<and> dacl_grants eT pT self r False (a # rest) n" for n
      using True ace_grants_denies_disjoint [of eT pT self r False a n]
      by (auto simp: e'(4) bit_mask_ops dest: bit_imp_le_length)
    with True e'(1,2,3) show ?thesis by (auto simp: max_ace_single)
  qed
qed

section \<open>Single rights of the special masks\<close>

lemma bit_pow_mask: "k < 32 \<Longrightarrow> bit (2 ^ k :: access_mask) n \<longleftrightarrow> n = k"
  by (auto simp: bit_exp_iff possible_bit_def)

lemma test_pow_mask: "(m :: access_mask) AND 2 ^ k = 0 \<longleftrightarrow> \<not> bit m k"
  by (simp add: and_exp_eq_0_iff_not_bit)

lemma special_masks_pow:
  "READ_CONTROL = (2 ^ 17 :: access_mask)" "WRITE_DAC = (2 ^ 18 :: access_mask)"
  "WRITE_OWNER = (2 ^ 19 :: access_mask)" "ACCESS_SYSTEM_SECURITY = (2 ^ 24 :: access_mask)"
  "MAXIMUM_ALLOWED = (2 ^ 25 :: access_mask)"
  by (simp_all add: mask_defs)

lemma bit_special_masks [simp]:
  "bit READ_CONTROL n \<longleftrightarrow> n = 17"
  "bit WRITE_DAC n \<longleftrightarrow> n = 18"
  "bit WRITE_OWNER n \<longleftrightarrow> n = 19"
  "bit ACCESS_SYSTEM_SECURITY n \<longleftrightarrow> n = 24"
  "bit MAXIMUM_ALLOWED n \<longleftrightarrow> n = 25"
  unfolding special_masks_pow by (rule bit_pow_mask; simp)+

lemma test_special_masks [simp]:
  "m AND WRITE_OWNER = 0 \<longleftrightarrow> \<not> bit m 19"
  "m AND ACCESS_SYSTEM_SECURITY = 0 \<longleftrightarrow> \<not> bit m 24"
  "m AND MAXIMUM_ALLOWED = 0 \<longleftrightarrow> \<not> bit m 25"
  unfolding special_masks_pow by (rule test_pow_mask)+

lemma test_owner_mask [simp]:
  "m AND (WRITE_DAC OR READ_CONTROL OR MAXIMUM_ALLOWED) = 0 \<longleftrightarrow>
     \<not> bit m 17 \<and> \<not> bit m 18 \<and> \<not> bit m 25"
  by (auto simp: mask_disjoint_iff bit_or_iff)

section \<open>The walks on an object without types\<close>

text \<open>What the DACL grants to a token, the second list of a restricted token included.\<close>

definition normal_grants :: "token \<Rightarrow> token \<Rightarrow> sid option \<Rightarrow> acl \<Rightarrow> nat \<Rightarrow> bool" where
  "normal_grants eT pT self dacl n \<longleftrightarrow>
     dacl_grants eT pT self False False dacl n \<and>
     (SeTokenIsRestricted eT \<longrightarrow> dacl_grants eT pT self True True dacl n)"

definition maximum_grants :: "token \<Rightarrow> token \<Rightarrow> sid option \<Rightarrow> acl \<Rightarrow> nat \<Rightarrow> bool" where
  "maximum_grants eT pT self dacl n \<longleftrightarrow>
     dacl_grants eT pT self False False dacl n \<and>
     (SeTokenIsRestricted eT \<longrightarrow> dacl_grants eT pT self True False dacl n)"

lemma SepNormalAccessCheck_single:
  "\<exists>e'. SepNormalAccessCheck d eT pT dacl self [e] 0 r = Some [e'] \<and>
     (Remaining e' = 0 \<longleftrightarrow> (\<forall>n. bit d n \<longrightarrow> dacl_grants eT pT self r r dacl n))"
  using normal_loop_single [of eT pT self r dacl "e\<lparr>Remaining := d\<rparr>"]
  by (simp add: SepNormalAccessCheck_def)

lemma normal_walk_single:
  "\<exists>e'. normal_walk eT pT dacl self [e] 0 desired s =
     Some (if \<forall>n. bit (AlRemaining s) n \<longrightarrow> normal_grants eT pT self dacl n
           then (STATUS_SUCCESS, s\<lparr>AlGranted := AlGranted s OR desired\<rparr>)
           else (STATUS_ACCESS_DENIED, s\<lparr>AlGranted := 0\<rparr>), [e'])"
proof -
  obtain e1 where e1: "SepNormalAccessCheck (AlRemaining s) eT pT dacl self [e] 0 False = Some [e1]"
    "Remaining e1 = 0 \<longleftrightarrow>
      (\<forall>n. bit (AlRemaining s) n \<longrightarrow> dacl_grants eT pT self False False dacl n)"
    using SepNormalAccessCheck_single by blast
  obtain e2 where e2: "SepNormalAccessCheck (AlRemaining s) eT pT dacl self [e1] 0 True = Some [e2]"
    "Remaining e2 = 0 \<longleftrightarrow>
      (\<forall>n. bit (AlRemaining s) n \<longrightarrow> dacl_grants eT pT self True True dacl n)"
    using SepNormalAccessCheck_single by blast
  consider "Remaining e1 \<noteq> 0" | "Remaining e1 = 0" "\<not> SeTokenIsRestricted eT"
    | "Remaining e1 = 0" "SeTokenIsRestricted eT" by blast
  then show ?thesis
  proof cases
    case 1
    then have "\<not> (\<forall>n. bit (AlRemaining s) n \<longrightarrow> normal_grants eT pT self dacl n)"
      using e1(2) by (auto simp: normal_grants_def)
    with 1 e1(1) show ?thesis by (simp add: normal_walk_def)
  next
    case 2
    then have "\<forall>n. bit (AlRemaining s) n \<longrightarrow> normal_grants eT pT self dacl n"
      using e1(2) by (auto simp: normal_grants_def)
    with 2 e1(1) show ?thesis by (simp add: normal_walk_def)
  next
    case 3
    then have "(\<forall>n. bit (AlRemaining s) n \<longrightarrow> normal_grants eT pT self dacl n) \<longleftrightarrow>
        Remaining e2 = 0"
      using e1(2) e2(2) by (auto simp: normal_grants_def)
    with 3 e1(1) e2(1) show ?thesis by (simp add: normal_walk_def)
  qed
qed

lemma maximum_walk_single:
  assumes "CurrentGranted e = 0" "CurrentDenied e = 0"
  shows "\<exists>e'. maximum_walk eT pT dacl self [e] 0 = Some [e'] \<and>
     (\<forall>n. bit (CurrentGranted e') n \<longleftrightarrow> maximum_grants eT pT self dacl n)"
proof -
  obtain e1 where e1:
    "SepMaximumAccessCheck_loop eT pT self 0 False dacl [e] = Some [e1]"
    "CurrentGranted e1 AND CurrentDenied e1 = 0"
    "\<And>n. bit (CurrentGranted e1) n \<longleftrightarrow> dacl_grants eT pT self False False dacl n"
    using max_loop_single [of e eT pT self False dacl] assms by auto
  let ?e = "e1\<lparr>Remaining := CurrentGranted e1, CurrentGranted := 0\<rparr>"
  obtain e2 where e2:
    "SepMaximumAccessCheck_loop eT pT self 0 True dacl [?e] = Some [e2]"
    "Remaining e2 = CurrentGranted e1"
    "\<And>n. bit (CurrentGranted e2) n \<longleftrightarrow>
        \<not> bit (CurrentDenied e1) n \<and> dacl_grants eT pT self True False dacl n"
    using max_loop_single [of ?e eT pT self True dacl] by auto
  show ?thesis
  proof (cases "SeTokenIsRestricted eT")
    case True
    have "bit (CurrentGranted e2 AND Remaining e2) n \<longleftrightarrow> maximum_grants eT pT self dacl n" for n
      using e1(2) True by (auto simp: bit_and_iff e1(3) e2(2,3) maximum_grants_def mask_disjoint_iff)
    with True e1(1) e2(1) show ?thesis
      by (simp add: maximum_walk_def SepMaximumAccessCheck_def)
  next
    case False
    with e1(1,3) show ?thesis
      by (simp add: maximum_walk_def SepMaximumAccessCheck_def maximum_grants_def)
  qed
qed

section \<open>Ownership\<close>

lemma owner_rights_desired:
  "bit (fst (owner_rights tok sd desired granted)) n \<longleftrightarrow>
     bit desired n \<and> \<not> (SepTokenIsOwner tok sd \<and> (n = 17 \<or> n = 18))"
  by (auto simp: owner_rights_def bit_mask_ops)

lemma owner_rights_granted:
  "bit (snd (owner_rights tok sd desired granted)) n \<longleftrightarrow>
     bit granted n \<or>
     SepTokenIsOwner tok sd \<and> (n = 17 \<or> n = 18) \<and> (bit desired n \<or> bit desired 25)"
  by (auto simp: owner_rights_def bit_or_iff bit_and_iff)

section \<open>The worker on an object without types\<close>

text \<open>
  Why a right may be granted by the worker, in user mode. With \<^verbatim>\<open>MAXIMUM_ALLOWED\<close> a missing
  DACL also grants \<^verbatim>\<open>GenericAll\<close>, and the maximum walk is the one that counts.
\<close>

definition sep_entitled ::
    "security_descriptor \<Rightarrow> token \<Rightarrow> token \<Rightarrow> sid option \<Rightarrow> bool \<Rightarrow> nat \<Rightarrow> bool" where
  "sep_entitled sd eT pT self wantPrivileges n \<longleftrightarrow>
     (if n = 24 then holds_privilege eT SeSecurityPrivilege
      else case RtlpDaclAddrSecurityDescriptor sd of
        None \<Rightarrow> True
      | Some dacl \<Rightarrow>
          n = 19 \<and> wantPrivileges \<and> holds_privilege eT SeTakeOwnershipPrivilege \<or>
          normal_grants eT pT self dacl n)"

definition sep_justified ::
    "security_descriptor \<Rightarrow> token \<Rightarrow> token \<Rightarrow> sid option \<Rightarrow> access_mask \<Rightarrow> generic_mapping \<Rightarrow> bool \<Rightarrow>
     nat \<Rightarrow> bool" where
  "sep_justified sd eT pT self desired gm wantPrivileges n \<longleftrightarrow>
     bit desired n \<and> sep_entitled sd eT pT self wantPrivileges n \<or>
     n = 24 \<and> holds_privilege eT SeSecurityPrivilege \<or>
     n = 19 \<and> wantPrivileges \<and> holds_privilege eT SeTakeOwnershipPrivilege \<or>
     bit desired 25 \<and>
       (case RtlpDaclAddrSecurityDescriptor sd of
          None \<Rightarrow> bit (GenericAll gm) n
        | Some dacl \<Rightarrow> maximum_grants eT pT self dacl n)"

text \<open>An outcome of the stages before \<^verbatim>\<open>ReturnOneStatus\<close>.\<close>

definition outcome_ok ::
    "access_mask \<Rightarrow> access_mask \<Rightarrow> (nat \<Rightarrow> bool) \<Rightarrow> (nat \<Rightarrow> bool) \<Rightarrow> ntstatus \<times> access_locals \<Rightarrow> bool" where
  "outcome_ok desired previous entitled justified outcome \<longleftrightarrow>
     (fst outcome = STATUS_SUCCESS \<and>
        (\<forall>n. bit desired n \<and> n \<noteq> 25 \<longrightarrow> bit (AlGranted (snd outcome)) n) \<and>
        (\<forall>n. bit (AlGranted (snd outcome)) n \<longrightarrow> bit previous n \<or> justified n) \<and>
        (\<forall>n. bit previous n \<and> n \<noteq> 25 \<longrightarrow> bit (AlGranted (snd outcome)) n) \<or>
      \<not> NT_SUCCESS (fst outcome) \<and> AlGranted (snd outcome) = 0) \<and>
     (\<not> bit desired 25 \<longrightarrow>
        (fst outcome = STATUS_SUCCESS \<longleftrightarrow> (\<forall>n. bit desired n \<longrightarrow> entitled n)))"

lemma NT_SUCCESS_values [simp]:
  "NT_SUCCESS STATUS_SUCCESS" "\<not> NT_SUCCESS STATUS_ACCESS_DENIED"
  "\<not> NT_SUCCESS STATUS_PRIVILEGE_NOT_HELD" "\<not> NT_SUCCESS STATUS_NO_MEMORY"
  by (simp_all add: NT_SUCCESS_def)

text \<open>Each stage either ends with an acceptable outcome or goes on with an intermediate state.\<close>

definition locals_ok ::
    "access_mask \<Rightarrow> access_mask \<Rightarrow> (nat \<Rightarrow> bool) \<Rightarrow> (nat \<Rightarrow> bool) \<Rightarrow> access_locals \<Rightarrow> bool" where
  "locals_ok desired previous entitled justified s \<longleftrightarrow>
     AlRemaining s \<noteq> 0 \<and>
     (\<forall>n. bit (AlRemaining s) n \<longrightarrow> bit desired n) \<and>
     (\<forall>n. bit desired n \<longrightarrow> bit (AlRemaining s) n \<or> bit (AlGranted s) n \<and> entitled n) \<and>
     (\<forall>n. bit (AlGranted s) n \<longrightarrow> bit previous n \<or> justified n) \<and>
     (\<forall>n. bit previous n \<longrightarrow> bit (AlGranted s) n)"

lemma security_stage_ok:
  assumes "desired \<noteq> 0"
    and ent: "entitled 24 \<longleftrightarrow> holds_privilege eT SeSecurityPrivilege"
    and just: "entitled 24 \<Longrightarrow> justified 24"
  shows "case access_system_security_stage eT desired previous UserMode of
       Inl outcome \<Rightarrow> outcome_ok desired previous entitled justified outcome
     | Inr s \<Rightarrow> locals_ok desired previous entitled justified s \<and> \<not> bit (AlRemaining s) 24"
proof (cases "bit desired 24")
  case False
  with assms(1) show ?thesis
    by (auto simp: access_system_security_stage_def locals_ok_def)
next
  case True
  show ?thesis
  proof (cases "holds_privilege eT SeSecurityPrivilege")
    case False
    with True ent show ?thesis
      by (auto simp: access_system_security_stage_def SepSinglePrivilegeCheck_iff outcome_ok_def)
  next
    case privilege: True
    show ?thesis
    proof (cases "desired AND NOT ACCESS_SYSTEM_SECURITY = 0")
      case only: True
      then have n24: "bit desired n \<longleftrightarrow> n = 24" for n
        using bit_diff_mask [of desired ACCESS_SYSTEM_SECURITY n] True by auto
      have "access_system_security_stage eT desired previous UserMode = Inl (STATUS_SUCCESS,
          \<lparr>AlRemaining = 0, AlGranted = previous OR ACCESS_SYSTEM_SECURITY,
           AlPrivilegeCount = 1, AlSystemSecurity = True, AlWriteOwner = False\<rparr>)"
        using True privilege only
        by (simp add: access_system_security_stage_def SepSinglePrivilegeCheck_iff)
      moreover have "entitled 24" "justified 24" using ent just privilege by auto
      ultimately show ?thesis by (simp add: outcome_ok_def bit_or_iff n24)
    next
      case False
      with True privilege ent just show ?thesis
        by (auto simp: access_system_security_stage_def SepSinglePrivilegeCheck_iff locals_ok_def
            bit_mask_ops)
    qed
  qed
qed

lemma write_owner_stage_ok:
  assumes s: "locals_ok desired previous entitled justified s"
    and ent: "want \<Longrightarrow> holds_privilege eT SeTakeOwnershipPrivilege \<Longrightarrow> entitled 19 \<and> justified 19"
  shows "case write_owner_stage eT UserMode want s of
       Inl outcome \<Rightarrow> outcome_ok desired previous entitled justified outcome
     | Inr s' \<Rightarrow> locals_ok desired previous entitled justified s' \<and>
         (\<forall>n. bit (AlRemaining s') n \<longrightarrow> bit (AlRemaining s) n) \<and>
         \<not> (bit (AlRemaining s') 19 \<and> want \<and> holds_privilege eT SeTakeOwnershipPrivilege)"
proof (cases "bit (AlRemaining s) 19 \<and> want \<and> holds_privilege eT SeTakeOwnershipPrivilege")
  case False
  with s show ?thesis by (auto simp: write_owner_stage_def SepSinglePrivilegeCheck_iff)
next
  case True
  show ?thesis
  proof (cases "AlRemaining s AND NOT WRITE_OWNER = 0")
    case only: True
    then have n19: "bit (AlRemaining s) n \<Longrightarrow> n = 19" for n
      using bit_diff_mask [of "AlRemaining s" WRITE_OWNER n] by auto
    have ej: "entitled 19" "justified 19" using ent True by auto
    have "bit desired n \<Longrightarrow> entitled n \<and> bit (AlGranted s OR WRITE_OWNER) n" for n
      using s n19 [of n] ej by (auto simp: locals_ok_def bit_or_iff)
    moreover have "bit (AlGranted s OR WRITE_OWNER) n \<Longrightarrow> bit previous n \<or> justified n" for n
      using s ej by (auto simp: locals_ok_def bit_or_iff)
    moreover have "write_owner_stage eT UserMode want s = Inl (STATUS_SUCCESS,
        s\<lparr>AlRemaining := 0, AlGranted := AlGranted s OR WRITE_OWNER,
          AlPrivilegeCount := AlPrivilegeCount s + 1, AlWriteOwner := True\<rparr>)"
      using True only by (simp add: write_owner_stage_def SepSinglePrivilegeCheck_iff)
    moreover have "bit previous n \<Longrightarrow> bit (AlGranted s OR WRITE_OWNER) n" for n
      using s by (auto simp: locals_ok_def bit_or_iff)
    ultimately show ?thesis by (simp add: outcome_ok_def)
  next
    case False
    with True ent s show ?thesis
      by (auto simp: write_owner_stage_def SepSinglePrivilegeCheck_iff locals_ok_def bit_mask_ops)
  qed
qed

lemma null_dacl_stage_ok:
  assumes s: "locals_ok desired previous entitled justified s" and n24: "\<not> bit (AlRemaining s) 24"
    and just: "\<And>n. bit desired n \<Longrightarrow> entitled n \<Longrightarrow> justified n"
    and all: "\<And>n. RtlpDaclAddrSecurityDescriptor sd = None \<Longrightarrow> bit desired 25 \<Longrightarrow>
      bit (GenericAll gm) n \<Longrightarrow> justified n"
    and none_all: "\<And>n. RtlpDaclAddrSecurityDescriptor sd = None \<Longrightarrow> n \<noteq> 24 \<Longrightarrow> entitled n"
  shows "case null_dacl_stage sd desired gm s of
       Inl outcome \<Rightarrow> outcome_ok desired previous entitled justified outcome
     | Inr s' \<Rightarrow> s' = s \<and> RtlpDaclAddrSecurityDescriptor sd \<noteq> None"
proof (cases "RtlpDaclAddrSecurityDescriptor sd = None")
  case False
  then show ?thesis
    by (auto simp: null_dacl_stage_def RtlpDaclAddrSecurityDescriptor_def split: if_splits)
next
  case True
  have ent: "bit desired n \<Longrightarrow> entitled n" for n
    using s n24 none_all [OF True, of n] by (cases "n = 24") (auto simp: locals_ok_def)
  have granted: "bit (AlGranted s) n \<Longrightarrow> bit previous n \<or> justified n" for n
    using s by (auto simp: locals_ok_def)
  have kept: "bit previous n \<Longrightarrow> bit (AlGranted s) n" for n
    using s by (auto simp: locals_ok_def)
  show ?thesis
  proof (cases "bit desired 25")
    case max: True
    then have "null_dacl_stage sd desired gm s = Inl (STATUS_SUCCESS,
        s\<lparr>AlGranted := GenericAll gm OR ((desired OR AlGranted s) AND NOT MAXIMUM_ALLOWED)\<rparr>)"
      using True by (simp add: null_dacl_stage_def)
    with max ent granted kept just all [OF True] show ?thesis
      by (auto simp: outcome_ok_def bit_mask_ops)
  next
    case False
    then have "null_dacl_stage sd desired gm s =
        Inl (STATUS_SUCCESS, s\<lparr>AlGranted := AlGranted s OR desired\<rparr>)"
      using True by (simp add: null_dacl_stage_def)
    with False ent granted kept just show ?thesis by (auto simp: outcome_ok_def bit_mask_ops)
  qed
qed

lemma empty_dacl_stage_ok:
  assumes s: "locals_ok desired previous entitled justified s"
    and ent: "\<And>n. dacl = [] \<Longrightarrow> bit (AlRemaining s) n \<Longrightarrow> \<not> entitled n"
  shows "case empty_dacl_stage dacl s of
       Inl outcome \<Rightarrow> outcome_ok desired previous entitled justified outcome
     | Inr s' \<Rightarrow> s' = s \<and> dacl \<noteq> []"
proof (cases "dacl = []")
  case False
  then show ?thesis by (simp add: empty_dacl_stage_def)
next
  case True
  from s obtain k where k: "bit (AlRemaining s) k" "bit desired k"
    by (auto simp: locals_ok_def mask_zero_iff)
  with ent True have "\<not> (\<forall>n. bit desired n \<longrightarrow> entitled n)" by auto
  moreover have "AlRemaining s = MAXIMUM_ALLOWED \<Longrightarrow> bit desired n \<Longrightarrow> n \<noteq> 25 \<Longrightarrow> bit (AlGranted s) n"
    for n using s by (auto simp: locals_ok_def)
  moreover have "AlRemaining s = MAXIMUM_ALLOWED \<Longrightarrow> bit desired 25"
    using k by auto
  ultimately show ?thesis
    using True s by (auto simp: empty_dacl_stage_def outcome_ok_def locals_ok_def)
qed

lemma dacl_stage_ok:
  assumes s: "locals_ok desired previous entitled justified s"
    and ent: "\<And>n. bit (AlRemaining s) n \<Longrightarrow> entitled n \<longleftrightarrow> normal_grants eT pT self dacl n"
    and just: "\<And>n. bit desired n \<Longrightarrow> entitled n \<Longrightarrow> justified n"
    and max: "\<And>n. bit desired 25 \<Longrightarrow> maximum_grants eT pT self dacl n \<Longrightarrow> justified n"
  shows "\<exists>outcome l. dacl_stage eT pT dacl self desired [] want False allocated s =
       Some (return_one_status False want allocated 0 outcome l) \<and>
       outcome_ok desired previous entitled justified outcome"
proof (cases "bit desired 25")
  case True
  obtain e where e: "maximum_walk eT pT dacl self [FixedTypeList] 0 = Some [e]"
    "\<And>n. bit (CurrentGranted e) n \<longleftrightarrow> maximum_grants eT pT self dacl n"
    using maximum_walk_single [of FixedTypeList eT pT dacl self] by (auto simp: FixedTypeList_def)
  have "outcome_ok desired previous entitled justified (maximum_summary s [e])"
  proof (cases "AlRemaining s AND NOT (MAXIMUM_ALLOWED OR CurrentGranted e) = 0")
    case all: True
    have "bit (AlRemaining s) n \<Longrightarrow> n \<noteq> 25 \<Longrightarrow> bit (CurrentGranted e) n" for n
      using bit_diff_mask [of "AlRemaining s" "MAXIMUM_ALLOWED OR CurrentGranted e" n] all
      by (auto simp: bit_or_iff simp del: bit.de_Morgan_disj)
    with s all True max e(2) show ?thesis
      by (auto simp: maximum_summary_def outcome_ok_def locals_ok_def bit_or_iff
          simp del: bit.de_Morgan_disj)
  next
    case False
    with True show ?thesis
      by (simp add: maximum_summary_def outcome_ok_def del: bit.de_Morgan_disj)
  qed
  moreover have "dacl_stage eT pT dacl self desired [] want False allocated s =
      Some (return_one_status False want allocated 0 (maximum_summary s [e]) [e])"
    using True e(1) by (simp add: dacl_stage_def local_type_list_def)
  ultimately show ?thesis by blast
next
  case False
  obtain e where e: "normal_walk eT pT dacl self [FixedTypeList] 0 desired s =
     Some (if \<forall>n. bit (AlRemaining s) n \<longrightarrow> normal_grants eT pT self dacl n
           then (STATUS_SUCCESS, s\<lparr>AlGranted := AlGranted s OR desired\<rparr>)
           else (STATUS_ACCESS_DENIED, s\<lparr>AlGranted := 0\<rparr>), [e])"
    using normal_walk_single by blast
  show ?thesis
  proof (cases "\<forall>n. bit (AlRemaining s) n \<longrightarrow> normal_grants eT pT self dacl n")
    case True
    have "bit desired n \<Longrightarrow> entitled n" for n
      using s True ent [of n] by (auto simp: locals_ok_def)
    then have "outcome_ok desired previous entitled justified
        (STATUS_SUCCESS, s\<lparr>AlGranted := AlGranted s OR desired\<rparr>)"
      using s just by (auto simp: outcome_ok_def locals_ok_def bit_or_iff)
    with False True e show ?thesis
      by (auto simp: dacl_stage_def local_type_list_def)
  next
    case denied: False
    then have "\<not> (\<forall>n. bit desired n \<longrightarrow> entitled n)"
      using s ent by (auto simp: locals_ok_def)
    then have "outcome_ok desired previous entitled justified
        (STATUS_ACCESS_DENIED, s\<lparr>AlGranted := 0\<rparr>)"
      by (simp add: outcome_ok_def)
    with False denied e show ?thesis
      by (auto simp: dacl_stage_def local_type_list_def)
  qed
qed

lemma SepAccessCheck_outcome:
  assumes "desired \<noteq> 0" and eT: "eT = (case clientToken of Some t \<Rightarrow> t | None \<Rightarrow> pT)"
  shows "\<exists>outcome l. SepAccessCheck sd self pT clientToken desired [] gm previous UserMode want
       False allocated = Some (return_one_status False want allocated 0 outcome l) \<and>
     outcome_ok desired previous (sep_entitled sd eT pT self want)
       (sep_justified sd eT pT self desired gm want) outcome"
proof -
  let ?ent = "sep_entitled sd eT pT self want"
  let ?just = "sep_justified sd eT pT self desired gm want"
  let ?ok = "outcome_ok desired previous ?ent ?just"
  let ?lok = "locals_ok desired previous ?ent ?just"
  have just: "bit desired n \<Longrightarrow> ?ent n \<Longrightarrow> ?just n" for n by (simp add: sep_justified_def)
  have finish: ?thesis
    if "?ok outcome" "SepAccessCheck sd self pT clientToken desired [] gm previous UserMode want
       False allocated = Some (return_one_status False want allocated 0 outcome [])" for outcome
    using that by blast
  have security: "case access_system_security_stage eT desired previous UserMode of
      Inl outcome \<Rightarrow> ?ok outcome | Inr s \<Rightarrow> ?lok s \<and> \<not> bit (AlRemaining s) 24"
    by (rule security_stage_ok) (auto simp: assms(1) sep_entitled_def sep_justified_def)
  show ?thesis
  proof (cases "access_system_security_stage eT desired previous UserMode")
    case (Inl outcome)
    with security show ?thesis
      by (intro finish [of outcome]) (auto simp: SepAccessCheck_def eT [symmetric])
  next
    case s1: (Inr s)
    have null: "case null_dacl_stage sd desired gm s of
        Inl outcome \<Rightarrow> ?ok outcome
      | Inr s' \<Rightarrow> s' = s \<and> RtlpDaclAddrSecurityDescriptor sd \<noteq> None"
      by (rule null_dacl_stage_ok)
        (use security s1 just in \<open>auto simp: sep_entitled_def sep_justified_def\<close>)
    show ?thesis
    proof (cases "null_dacl_stage sd desired gm s")
      case (Inl outcome)
      with null s1 show ?thesis
        by (intro finish [of outcome]) (auto simp: SepAccessCheck_def eT [symmetric])
    next
      case (Inr s')
      with null obtain d where s2: "null_dacl_stage sd desired gm s = Inr s"
        and dacl: "RtlpDaclAddrSecurityDescriptor sd = Some d" by auto
      have owner: "case write_owner_stage eT UserMode want s of
          Inl outcome \<Rightarrow> ?ok outcome
        | Inr s' \<Rightarrow> ?lok s' \<and> (\<forall>n. bit (AlRemaining s') n \<longrightarrow> bit (AlRemaining s) n) \<and>
            \<not> (bit (AlRemaining s') 19 \<and> want \<and> holds_privilege eT SeTakeOwnershipPrivilege)"
        by (rule write_owner_stage_ok)
          (use security s1 dacl in \<open>auto simp: sep_entitled_def sep_justified_def\<close>)
      show ?thesis
      proof (cases "write_owner_stage eT UserMode want s")
        case (Inl outcome)
        with owner s1 s2 show ?thesis
          by (intro finish [of outcome]) (auto simp: SepAccessCheck_def eT [symmetric] dacl)
      next
        case s3: (Inr t)
        have t: "?lok t" and ent: "bit (AlRemaining t) n \<Longrightarrow>
            ?ent n \<longleftrightarrow> normal_grants eT pT self d n" for n
          using owner s3 security s1 dacl by (auto simp: sep_entitled_def)
        have empty: "case empty_dacl_stage d t of
            Inl outcome \<Rightarrow> ?ok outcome | Inr s' \<Rightarrow> s' = t \<and> d \<noteq> []"
          by (rule empty_dacl_stage_ok [OF t]) (auto simp: ent normal_grants_def)
        show ?thesis
        proof (cases "empty_dacl_stage d t")
          case (Inl outcome)
          with empty s1 s2 s3 show ?thesis
            by (intro finish [of outcome]) (auto simp: SepAccessCheck_def eT [symmetric] dacl)
        next
          case (Inr s'')
          with empty have s4: "empty_dacl_stage d t = Inr t" by simp
          have "\<exists>outcome l. dacl_stage eT pT d self desired [] want False allocated t =
              Some (return_one_status False want allocated 0 outcome l) \<and> ?ok outcome"
            by (rule dacl_stage_ok [OF t ent just]) (use dacl in \<open>auto simp: sep_justified_def\<close>)
          with s1 s2 s3 s4 show ?thesis by (simp add: SepAccessCheck_def eT [symmetric] dacl)
        qed
      qed
    qed
  qed
qed

end
