(* ===== verification/Access_Check_Properties.thy ===== *)
theory Access_Check_Properties
  imports Access_Check_Facts
begin

text \<open>The properties of the access check, each with a witness on a concrete token and DACL.\<close>

unbundle bit_operations_syntax

section \<open>From the worker to the entry point\<close>

definition se_entitled :: "security_descriptor \<Rightarrow> security_subject_context \<Rightarrow> bool \<Rightarrow> nat \<Rightarrow> bool" where
  "se_entitled sd ctx wantPrivileges n \<longleftrightarrow>
     SepTokenIsOwner (EffectiveToken ctx) sd \<and> (n = 17 \<or> n = 18) \<or>
     sep_entitled sd (EffectiveToken ctx) (PrimaryToken ctx) None wantPrivileges n"

definition se_justified ::
    "security_descriptor \<Rightarrow> security_subject_context \<Rightarrow> access_mask \<Rightarrow> access_mask \<Rightarrow> generic_mapping \<Rightarrow>
     bool \<Rightarrow> nat \<Rightarrow> bool" where
  "se_justified sd ctx desired previous gm wantPrivileges n \<longleftrightarrow>
     bit previous n \<or>
     SepTokenIsOwner (EffectiveToken ctx) sd \<and> (n = 17 \<or> n = 18) \<and> (bit desired n \<or> bit desired 25) \<or>
     sep_justified sd (EffectiveToken ctx) (PrimaryToken ctx) None desired gm wantPrivileges n"

text \<open>The impersonation level allows the client token to be used.\<close>

definition may_impersonate :: "security_subject_context \<Rightarrow> bool" where
  "may_impersonate ctx \<longleftrightarrow> ClientToken ctx = None \<or> SecurityImpersonation \<le> ImpersonationLevel ctx"

lemma return_one_status_single:
  assumes "outcome_ok desired previous entitled justified (st, s)"
    and r: "r = return_one_status False want allocated 0 (st, s) l"
  shows "RetVal r \<and> SomeAccessGranted r \<Longrightarrow>
      st = STATUS_SUCCESS \<and> hd (GrantedAccess r) = AlGranted s \<and> hd (AccessStatus r) = STATUS_SUCCESS"
    and "\<not> (RetVal r \<and> SomeAccessGranted r) \<Longrightarrow>
      hd (GrantedAccess r) = 0 \<and> \<not> NT_SUCCESS (hd (AccessStatus r))"
    and "allocated \<Longrightarrow> AlGranted s \<noteq> 0 \<Longrightarrow> RetVal r \<and> SomeAccessGranted r \<longleftrightarrow> st = STATUS_SUCCESS"
  using assms(1)
  by (auto simp: r return_one_status_def Let_def outcome_ok_def SepAssemblePrivileges_def
      split: if_splits)

lemma SeAccessCheck_user:
  assumes "may_impersonate ctx" "desired \<noteq> 0"
    and own: "owner_rights (EffectiveToken ctx) sd desired previous = (desired', granted')"
  shows "SeAccessCheck (Some sd) ctx desired previous gm UserMode want allocated =
     (if desired' = 0 then
        Some \<lparr>SeReturn = True, SeGrantedAccess = Some granted', SeAccessStatus = STATUS_SUCCESS,
              SePrivileges = None\<rparr>
      else do {
        r \<leftarrow> SepAccessCheck sd None (PrimaryToken ctx) (ClientToken ctx) desired' [] gm granted'
               UserMode want False allocated;
        Some \<lparr>SeReturn = (RetVal r \<and> SomeAccessGranted r),
              SeGrantedAccess = Some (hd (GrantedAccess r)),
              SeAccessStatus = hd (AccessStatus r), SePrivileges = ReturnedPrivileges r\<rparr>
      })"
  using assms by (auto simp: SeAccessCheck_def may_impersonate_def)

lemma SeAccessCheck_refused:
  "\<not> may_impersonate ctx \<Longrightarrow>
   SeAccessCheck (Some sd) ctx desired previous gm UserMode want allocated =
     Some \<lparr>SeReturn = False, SeGrantedAccess = None,
           SeAccessStatus = STATUS_BAD_IMPERSONATION_LEVEL, SePrivileges = None\<rparr>"
  by (auto simp: SeAccessCheck_def may_impersonate_def)

lemma SeAccessCheck_nothing:
  "may_impersonate ctx \<Longrightarrow>
   SeAccessCheck (Some sd) ctx 0 previous gm UserMode want allocated =
     (if previous = 0
      then Some \<lparr>SeReturn = False, SeGrantedAccess = None, SeAccessStatus = STATUS_ACCESS_DENIED,
                 SePrivileges = None\<rparr>
      else if \<not> want then None
      else Some \<lparr>SeReturn = True, SeGrantedAccess = Some previous, SeAccessStatus = STATUS_SUCCESS,
                 SePrivileges = None\<rparr>)"
  by (auto simp: SeAccessCheck_def may_impersonate_def)

lemma SeAccessCheck_outcome:
  assumes "may_impersonate ctx" "desired \<noteq> 0"
    and own: "owner_rights (EffectiveToken ctx) sd desired previous = (desired', granted')"
    and left: "desired' \<noteq> 0"
  shows "\<exists>st s l. outcome_ok desired' granted'
       (sep_entitled sd (EffectiveToken ctx) (PrimaryToken ctx) None want)
       (sep_justified sd (EffectiveToken ctx) (PrimaryToken ctx) None desired' gm want) (st, s) \<and>
     SeAccessCheck (Some sd) ctx desired previous gm UserMode want allocated =
       (let r = return_one_status False want allocated 0 (st, s) l in
        Some \<lparr>SeReturn = (RetVal r \<and> SomeAccessGranted r),
              SeGrantedAccess = Some (hd (GrantedAccess r)),
              SeAccessStatus = hd (AccessStatus r), SePrivileges = ReturnedPrivileges r\<rparr>)"
proof -
  let ?ent = "sep_entitled sd (EffectiveToken ctx) (PrimaryToken ctx) None want"
  let ?just = "sep_justified sd (EffectiveToken ctx) (PrimaryToken ctx) None desired' gm want"
  obtain outcome l where o: "SepAccessCheck sd None (PrimaryToken ctx) (ClientToken ctx) desired' []
        gm granted' UserMode want False allocated =
      Some (return_one_status False want allocated 0 outcome l)"
    "outcome_ok desired' granted' ?ent ?just outcome"
    using SepAccessCheck_outcome [where eT = "EffectiveToken ctx" and clientToken = "ClientToken ctx"
        and pT = "PrimaryToken ctx", OF left] EffectiveToken_def by metis
  obtain st s where "outcome = (st, s)" by (cases outcome)
  with o SeAccessCheck_user [OF assms(1-3), of gm want allocated] left show ?thesis
    by (auto simp: Let_def)
qed

text \<open>A request without \<^verbatim>\<open>MAXIMUM_ALLOWED\<close> by a subject that may use its token.\<close>

lemma SeAccessCheck_entitled:
  assumes "desired \<noteq> 0" and "\<not> bit desired 25" and "may_impersonate ctx"
  shows "\<exists>r. SeAccessCheck (Some sd) ctx desired previous gm UserMode want True = Some r \<and>
     (SeReturn r \<longleftrightarrow> (\<forall>n. bit desired n \<longrightarrow> se_entitled sd ctx want n))"
proof -
  obtain desired' granted' where own:
    "owner_rights (EffectiveToken ctx) sd desired previous = (desired', granted')" by fastforce
  have d': "bit desired' n \<longleftrightarrow>
      bit desired n \<and> \<not> (SepTokenIsOwner (EffectiveToken ctx) sd \<and> (n = 17 \<or> n = 18))" for n
    using owner_rights_desired [of "EffectiveToken ctx" sd desired previous n] own by simp
  have ent: "(\<forall>n. bit desired' n \<longrightarrow>
      sep_entitled sd (EffectiveToken ctx) (PrimaryToken ctx) None want n) \<longleftrightarrow>
    (\<forall>n. bit desired n \<longrightarrow> se_entitled sd ctx want n)"
    by (auto simp: d' se_entitled_def)
  show ?thesis
  proof (cases "desired' = 0")
    case True
    have "\<forall>n. bit desired n \<longrightarrow> se_entitled sd ctx want n"
      using ent True by simp
    then show ?thesis using True SeAccessCheck_user [OF assms(3,1) own] by simp
  next
    case False
    obtain st s l where ok: "outcome_ok desired' granted'
        (sep_entitled sd (EffectiveToken ctx) (PrimaryToken ctx) None want)
        (sep_justified sd (EffectiveToken ctx) (PrimaryToken ctx) None desired' gm want) (st, s)"
      and r: "SeAccessCheck (Some sd) ctx desired previous gm UserMode want True =
       (let r = return_one_status False want True 0 (st, s) l in
        Some \<lparr>SeReturn = (RetVal r \<and> SomeAccessGranted r),
              SeGrantedAccess = Some (hd (GrantedAccess r)),
              SeAccessStatus = hd (AccessStatus r), SePrivileges = ReturnedPrivileges r\<rparr>)"
      using SeAccessCheck_outcome [OF assms(3,1) own False] by blast
    let ?r = "return_one_status False want True 0 (st, s) l"
    have no_max: "\<not> bit desired' 25" using d' assms(2) by simp
    then have "st = STATUS_SUCCESS \<longleftrightarrow> (\<forall>n. bit desired n \<longrightarrow> se_entitled sd ctx want n)"
      using ok ent by (simp add: outcome_ok_def)
    moreover have "RetVal ?r \<and> SomeAccessGranted ?r \<longleftrightarrow> st = STATUS_SUCCESS"
    proof (cases "st = STATUS_SUCCESS")
      case True
      from False obtain n where "bit desired' n" by (auto simp: mask_zero_iff)
      with True ok no_max have "bit (AlGranted s) n" by (auto simp: outcome_ok_def)
      then have "AlGranted s \<noteq> 0" by auto
      with return_one_status_single(3) [OF ok refl] show ?thesis by simp
    next
      case False
      with return_one_status_single(1) [OF ok refl] show ?thesis by metis
    qed
    ultimately show ?thesis using r by (simp add: Let_def)
  qed
qed

section \<open>A concrete subject and object\<close>

text \<open>
  A user with the security privilege, not restricted, and an object it owns whose DACL denies
  right 1 to somebody else and allows rights 0 and 1 to everyone.
\<close>

definition user_sid :: "ulong \<Rightarrow> sid" where
  "user_sid rid = \<lparr>Revision = 1, SubAuthorityCount = 2,
     IdentifierAuthority = [0, 0, 0, 0, 0, 5], SubAuthority = [21, rid]\<rparr>"

definition example_token :: "uchar \<Rightarrow> token" where
  "example_token flags = \<lparr>AuthenticationId = \<lparr>LowPart = 1, HighPart = 0\<rparr>,
     OriginatingLogonSession = \<lparr>LowPart = 0, HighPart = 0\<rparr>,
     UserAndGroups = [\<lparr>Sid = user_sid 1000, SaAttributes = 0\<rparr>,
                      \<lparr>Sid = SeWorldSid, SaAttributes = SE_GROUP_ENABLED\<rparr>],
     RestrictedSids = [\<lparr>Sid = user_sid 1000, SaAttributes = SE_GROUP_ENABLED\<rparr>],
     Privileges = [\<lparr>Luid = SeSecurityPrivilege, LaAttributes = SE_PRIVILEGE_ENABLED\<rparr>],
     TokenType = TokenPrimary, TokenImpersonationLevel = SecurityAnonymous, TokenFlags = flags\<rparr>"

definition example_ctx :: security_subject_context where
  "example_ctx = \<lparr>ClientToken = None, ImpersonationLevel = SecurityAnonymous,
     PrimaryToken = example_token 0\<rparr>"

definition example_dacl :: acl where
  "example_dacl = [ACCESS_DENIED_ACE 0 2 (user_sid 1001), ACCESS_ALLOWED_ACE 0 3 SeWorldSid]"

definition example_sd :: security_descriptor where
  "example_sd = \<lparr>SdControl = SE_DACL_PRESENT, Owner = Some (user_sid 1000), Group = None, Sacl = None,
     Dacl = Some example_dacl\<rparr>"

definition example_gm :: generic_mapping where
  "example_gm = \<lparr>GenericRead = 1, GenericWrite = 2, GenericExecute = 4, GenericAll = 7\<rparr>"

definition example_locals :: "access_mask \<Rightarrow> access_locals" where
  "example_locals m = \<lparr>AlRemaining = m, AlGranted = 0, AlPrivilegeCount = 0,
     AlSystemSecurity = False, AlWriteOwner = False\<rparr>"

lemma example_request:
  "SeAccessCheck (Some example_sd) example_ctx 0x01020003 0 example_gm UserMode True True =
  Some \<lparr>SeReturn = True, SeGrantedAccess = Some 0x01020003, SeAccessStatus = 0,
        SePrivileges = Some SepSystemSecurityPrivilegeSet\<rparr>"
  by code_simp

lemma example_refusal:
  "SeAccessCheck (Some example_sd) example_ctx 0x00000007 0 example_gm UserMode True True =
  Some \<lparr>SeReturn = False, SeGrantedAccess = Some 0, SeAccessStatus = STATUS_ACCESS_DENIED,
        SePrivileges = None\<rparr>"
  by code_simp

section \<open>Properties\<close>

text \<open>
  C1: In user mode, for an object with a security descriptor, a request that does not contain
  \<^verbatim>\<open>MAXIMUM_ALLOWED\<close> (and passes a place for the privileges if it desires nothing), memory being
  available: \<^verbatim>\<open>SeAccessCheck\<close> returns, and returns TRUE exactly when the impersonation level lets the
  client token be used and, nothing being desired, something was granted before, or, otherwise,
  the subject is entitled to every desired right: as the owner for \<^verbatim>\<open>READ_CONTROL\<close> and \<^verbatim>\<open>WRITE_DAC\<close>,
  by the security privilege for \<^verbatim>\<open>ACCESS_SYSTEM_SECURITY\<close>, by the take-ownership privilege for
  \<^verbatim>\<open>WRITE_OWNER\<close> (if a place for the privileges is passed), because there is no DACL, or because the
  first entry of the DACL that applies to the token and names the right allows it (in both SID
  lists of a restricted token). The owner is the subject whose token has the owner SID enabled,
  and has it in both lists if it is restricted; the description of \<^verbatim>\<open>SepTokenIsOwner\<close> says that a
  restricted token cannot be the owner, which the code does not do.
\<close>

theorem SeAccessCheck_decides:
  assumes "\<not> bit desired 25" and "desired \<noteq> 0 \<or> want"
  shows "\<exists>r. SeAccessCheck (Some sd) ctx desired previous gm UserMode want True = Some r \<and>
     (SeReturn r \<longleftrightarrow> may_impersonate ctx \<and>
        (if desired = 0 then previous \<noteq> 0 else \<forall>n. bit desired n \<longrightarrow> se_entitled sd ctx want n))"
proof (cases "may_impersonate ctx")
  case False
  then show ?thesis by (simp add: SeAccessCheck_refused)
next
  case True
  with assms show ?thesis
    using SeAccessCheck_entitled [of desired ctx sd previous gm want]
    by (cases "desired = 0") (auto simp: SeAccessCheck_nothing)
qed

lemma SeAccessCheck_decides_witness:
  "se_entitled example_sd example_ctx True 0 \<and> se_entitled example_sd example_ctx True 24"
  using SeAccessCheck_decides [of "0x01020003" True example_sd example_ctx 0 example_gm] example_request
  by (simp add: may_impersonate_def example_ctx_def)

text \<open>
  C2: In user mode and for an object with a security descriptor, whatever is requested: when
  \<^verbatim>\<open>SeAccessCheck\<close> returns TRUE the granted mask contains every desired right other than
  \<^verbatim>\<open>MAXIMUM_ALLOWED\<close>, and each right of it is justified: it was granted before, it belongs to the
  owner (a restricted token is the owner when both of its lists have the owner SID), a held
  privilege gives it, or the DACL (or its absence) grants it to the token. In kernel mode the code
  grants what is asked without looking at the descriptor.
\<close>

theorem SeAccessCheck_sound:
  assumes "SeAccessCheck (Some sd) ctx desired previous gm UserMode want allocated = Some r"
    and "SeReturn r"
  shows "\<exists>g. SeGrantedAccess r = Some g \<and> SeAccessStatus r = STATUS_SUCCESS \<and>
     (\<forall>n. bit desired n \<and> n \<noteq> 25 \<longrightarrow> bit g n) \<and>
     (\<forall>n. bit g n \<longrightarrow> se_justified sd ctx desired previous gm want n)"
proof (cases "desired = 0 \<or> \<not> may_impersonate ctx")
  case True
  then show ?thesis
    using assms SeAccessCheck_refused [of ctx sd desired previous gm want allocated]
      SeAccessCheck_nothing [of ctx sd previous gm want allocated]
    by (cases "may_impersonate ctx"; cases "previous = 0"; cases want) (auto simp: se_justified_def)
next
  case False
  then have pre: "may_impersonate ctx" "desired \<noteq> 0" by auto
  obtain desired' granted' where own:
    "owner_rights (EffectiveToken ctx) sd desired previous = (desired', granted')" by fastforce
  have d': "bit desired' n \<longleftrightarrow>
      bit desired n \<and> \<not> (SepTokenIsOwner (EffectiveToken ctx) sd \<and> (n = 17 \<or> n = 18))"
    and g': "bit granted' n \<longleftrightarrow> bit previous n \<or>
      SepTokenIsOwner (EffectiveToken ctx) sd \<and> (n = 17 \<or> n = 18) \<and> (bit desired n \<or> bit desired 25)"
    for n
    using owner_rights_desired [of "EffectiveToken ctx" sd desired previous n]
      owner_rights_granted [of "EffectiveToken ctx" sd desired previous n] own by simp_all
  have just: "sep_justified sd (EffectiveToken ctx) (PrimaryToken ctx) None desired' gm want n \<Longrightarrow>
      se_justified sd ctx desired previous gm want n" for n
    using d' by (auto simp: se_justified_def sep_justified_def)
  have granted: "bit granted' n \<Longrightarrow> se_justified sd ctx desired previous gm want n" for n
    using g' by (auto simp: se_justified_def)
  show ?thesis
  proof (cases "desired' = 0")
    case True
    then have "bit desired n \<Longrightarrow> bit granted' n" for n
      using d' [of n] g' [of n] by auto
    with True granted assms(1) SeAccessCheck_user [OF pre own, of gm want allocated]
    show ?thesis by auto
  next
    case False
    obtain st s l where ok: "outcome_ok desired' granted'
        (sep_entitled sd (EffectiveToken ctx) (PrimaryToken ctx) None want)
        (sep_justified sd (EffectiveToken ctx) (PrimaryToken ctx) None desired' gm want) (st, s)"
      and "SeAccessCheck (Some sd) ctx desired previous gm UserMode want allocated =
       (let r = return_one_status False want allocated 0 (st, s) l in
        Some \<lparr>SeReturn = (RetVal r \<and> SomeAccessGranted r),
              SeGrantedAccess = Some (hd (GrantedAccess r)),
              SeAccessStatus = hd (AccessStatus r), SePrivileges = ReturnedPrivileges r\<rparr>)"
      using SeAccessCheck_outcome [OF pre own False] by blast
    with assms return_one_status_single(1) [OF ok refl]
    have st: "st = STATUS_SUCCESS" "SeGrantedAccess r = Some (AlGranted s)"
      "SeAccessStatus r = STATUS_SUCCESS" by (auto simp: Let_def)
    have "bit desired n \<Longrightarrow> n \<noteq> 25 \<Longrightarrow> bit (AlGranted s) n" for n
      using ok st(1) d' [of n] g' [of n] by (auto simp: outcome_ok_def)
    with st ok just granted show ?thesis by (auto simp: outcome_ok_def)
  qed
qed

lemma SeAccessCheck_sound_witness:
  "se_justified example_sd example_ctx 0x01020003 0 example_gm True 17"
  using SeAccessCheck_sound [OF example_request] by simp

text \<open>
  C3: When \<^verbatim>\<open>SeAccessCheck\<close> returns FALSE in user mode for an object with a security descriptor, it reports an error status and never
  leaves a granted right behind: the granted mask is zero or was not written.
\<close>

theorem SeAccessCheck_denied:
  assumes "SeAccessCheck (Some sd) ctx desired previous gm UserMode want allocated = Some r"
    and "\<not> SeReturn r"
  shows "\<not> NT_SUCCESS (SeAccessStatus r) \<and> (SeGrantedAccess r = None \<or> SeGrantedAccess r = Some 0)"
proof (cases "desired = 0 \<or> \<not> may_impersonate ctx")
  case True
  then show ?thesis
    using assms SeAccessCheck_refused [of ctx sd desired previous gm want allocated]
      SeAccessCheck_nothing [of ctx sd previous gm want allocated]
    by (cases "may_impersonate ctx"; cases "previous = 0"; cases want) (auto simp: NT_SUCCESS_def)
next
  case False
  then have pre: "may_impersonate ctx" "desired \<noteq> 0" by auto
  obtain desired' granted' where own:
    "owner_rights (EffectiveToken ctx) sd desired previous = (desired', granted')" by fastforce
  have left: "desired' \<noteq> 0"
    using assms SeAccessCheck_user [OF pre own, of gm want allocated] by auto
  obtain st s l where ok: "outcome_ok desired' granted'
        (sep_entitled sd (EffectiveToken ctx) (PrimaryToken ctx) None want)
        (sep_justified sd (EffectiveToken ctx) (PrimaryToken ctx) None desired' gm want) (st, s)"
    and "SeAccessCheck (Some sd) ctx desired previous gm UserMode want allocated =
       (let r = return_one_status False want allocated 0 (st, s) l in
        Some \<lparr>SeReturn = (RetVal r \<and> SomeAccessGranted r),
              SeGrantedAccess = Some (hd (GrantedAccess r)),
              SeAccessStatus = hd (AccessStatus r), SePrivileges = ReturnedPrivileges r\<rparr>)"
    using SeAccessCheck_outcome [OF pre own left] by blast
  with assms return_one_status_single(2) [OF ok refl] show ?thesis by (auto simp: Let_def)
qed

lemma SeAccessCheck_denied_witness: "\<not> NT_SUCCESS STATUS_ACCESS_DENIED"
  using SeAccessCheck_denied [OF example_refusal] by simp

text \<open>An ACL without compound entries, on which the two walks use the same server SIDs.\<close>

definition no_compound :: "acl \<Rightarrow> bool" where
  "no_compound dacl \<longleftrightarrow>
     (\<forall>a \<in> set dacl. case a of COMPOUND_ACCESS_ALLOWED_ACE _ _ _ _ \<Rightarrow> False | _ \<Rightarrow> True)"

lemma dacl_grants_no_compound:
  "no_compound dacl \<Longrightarrow> dacl_grants eT pT self r s dacl n = dacl_grants eT pT self r s' dacl n"
proof (induction dacl)
  case Nil
  show ?case by simp
next
  case (Cons a rest)
  then have "ace_grants eT pT self r s a = ace_grants eT pT self r s' a"
    by (cases a) (auto simp: no_compound_def)
  with Cons show ?case by (simp add: no_compound_def)
qed

lemma grants_agree:
  assumes "no_compound dacl \<or> \<not> SeTokenIsRestricted eT"
  shows "maximum_grants eT pT self dacl n \<longleftrightarrow> normal_grants eT pT self dacl n"
  using assms dacl_grants_no_compound [of dacl eT pT self True True n False]
  by (auto simp: normal_grants_def maximum_grants_def)

lemma owner_rights_maximum:
  "owner_rights tok sd MAXIMUM_ALLOWED 0 =
     (MAXIMUM_ALLOWED, if SepTokenIsOwner tok sd then WRITE_DAC OR READ_CONTROL else 0)"
  by (simp add: owner_rights_def mask_defs)

lemma max_nonzero: "MAXIMUM_ALLOWED \<noteq> (0 :: access_mask)"
  by (simp add: mask_defs)

text \<open>The worker asked for everything that can be granted, on an object with a DACL.\<close>

lemma SepAccessCheck_maximum:
  assumes eT: "eT = (case clientToken of Some t \<Rightarrow> t | None \<Rightarrow> pT)"
    and dacl: "RtlpDaclAddrSecurityDescriptor sd = Some dacl"
  shows "\<exists>r. SepAccessCheck sd None pT clientToken MAXIMUM_ALLOWED [] gm previous UserMode want
       False allocated = Some r \<and>
     (\<forall>n. bit (hd (GrantedAccess r)) n \<longleftrightarrow>
        maximum_grants eT pT None dacl n \<or> bit previous n)"
proof -
  let ?s = "\<lparr>AlRemaining = MAXIMUM_ALLOWED, AlGranted = previous, AlPrivilegeCount = 0,
     AlSystemSecurity = False, AlWriteOwner = False\<rparr>"
  have security: "access_system_security_stage eT MAXIMUM_ALLOWED previous UserMode = Inr ?s"
    by (simp add: access_system_security_stage_def)
  have null: "null_dacl_stage sd MAXIMUM_ALLOWED gm ?s = Inr ?s"
    using dacl by (auto simp: null_dacl_stage_def RtlpDaclAddrSecurityDescriptor_def split: if_splits)
  have owner: "write_owner_stage eT UserMode want ?s = Inr ?s"
    by (simp add: write_owner_stage_def)
  show ?thesis
  proof (cases "dacl = []")
    case True
    then show ?thesis
      by (auto simp: SepAccessCheck_def eT [symmetric] security null owner dacl empty_dacl_stage_def
          return_one_status_def Let_def maximum_grants_def)
  next
    case False
    obtain e where e: "maximum_walk eT pT dacl None [FixedTypeList] 0 = Some [e]"
      "\<And>n. bit (CurrentGranted e) n \<longleftrightarrow> maximum_grants eT pT None dacl n"
      using maximum_walk_single [of FixedTypeList eT pT dacl None] by (auto simp: FixedTypeList_def)
    have empty: "empty_dacl_stage dacl ?s = Inr ?s" using False by (simp add: empty_dacl_stage_def)
    have "MAXIMUM_ALLOWED AND NOT (MAXIMUM_ALLOWED OR CurrentGranted e) = 0"
      by (simp add: and.assoc [symmetric])
    then have summary: "maximum_summary ?s [e] = (STATUS_SUCCESS,
        ?s\<lparr>AlRemaining := 0, AlGranted := previous OR CurrentGranted e\<rparr>)"
      by (simp add: maximum_summary_def del: bit.de_Morgan_disj)
    have "dacl_stage eT pT dacl None MAXIMUM_ALLOWED [] want False allocated ?s =
        Some (return_one_status False want allocated 0 (maximum_summary ?s [e]) [e])"
      using e(1) max_nonzero by (simp add: dacl_stage_def local_type_list_def)
    then show ?thesis
      by (auto simp: SepAccessCheck_def eT [symmetric] security null owner dacl empty summary
          return_one_status_def Let_def bit_or_iff e(2))
  qed
qed

lemma SeAccessCheck_maximum:
  assumes "may_impersonate ctx" and "RtlpDaclAddrSecurityDescriptor sd = Some dacl"
  shows "\<exists>r g. SeAccessCheck (Some sd) ctx MAXIMUM_ALLOWED 0 gm UserMode want allocated = Some r \<and>
     SeGrantedAccess r = Some g \<and>
     (\<forall>n. bit g n \<longleftrightarrow> maximum_grants (EffectiveToken ctx) (PrimaryToken ctx) None dacl n \<or>
        SepTokenIsOwner (EffectiveToken ctx) sd \<and> (n = 17 \<or> n = 18))"
proof -
  let ?g = "if SepTokenIsOwner (EffectiveToken ctx) sd then WRITE_DAC OR READ_CONTROL else 0"
  obtain r where "SepAccessCheck sd None (PrimaryToken ctx) (ClientToken ctx) MAXIMUM_ALLOWED [] gm
       ?g UserMode want False allocated = Some r"
    "\<And>n. bit (hd (GrantedAccess r)) n \<longleftrightarrow>
       maximum_grants (EffectiveToken ctx) (PrimaryToken ctx) None dacl n \<or> bit ?g n"
    using SepAccessCheck_maximum [OF EffectiveToken_def assms(2)] by blast
  moreover have "bit ?g n \<longleftrightarrow> SepTokenIsOwner (EffectiveToken ctx) sd \<and> (n = 17 \<or> n = 18)" for n
    by (auto simp: bit_or_iff)
  moreover have "MAXIMUM_ALLOWED \<noteq> (0 :: access_mask)" by (simp add: mask_defs)
  ultimately show ?thesis
    using SeAccessCheck_user [OF assms(1) _ owner_rights_maximum, of sd gm want allocated]
    by simp
qed

text \<open>
  C4: \<^verbatim>\<open>MAXIMUM_ALLOWED\<close> yields all and only the rights that could be asked for one by one. In user
  mode, for a subject whose impersonation level lets its token be used and an object with a DACL
  (no object types are passed by \<^verbatim>\<open>SeAccessCheck\<close>), with nothing granted before, memory being
  available, on a DACL without compound entries or for a token that is not restricted: both
  requests return, and the mask granted for \<^verbatim>\<open>MAXIMUM_ALLOWED\<close> has a right exactly when the
  request for that right alone returns TRUE. Left out are the two bits that are no rights of the
  DACL (\<^verbatim>\<open>ACCESS_SYSTEM_SECURITY\<close>, which the security privilege gives, and \<^verbatim>\<open>MAXIMUM_ALLOWED\<close> itself)
  and \<^verbatim>\<open>WRITE_OWNER\<close> for a holder of the take-ownership privilege, which \<^verbatim>\<open>MAXIMUM_ALLOWED\<close> does not
  use. Without a DACL \<^verbatim>\<open>MAXIMUM_ALLOWED\<close> yields the generic mapping's \<^verbatim>\<open>GenericAll\<close>.
\<close>

theorem maximum_agrees_with_normal:
  assumes "may_impersonate ctx" and dacl: "RtlpDaclAddrSecurityDescriptor sd = Some dacl"
    and agree: "no_compound dacl \<or> \<not> SeTokenIsRestricted (EffectiveToken ctx)"
    and n: "n < 32" "n \<noteq> 24" "n \<noteq> 25"
      "\<not> (n = 19 \<and> want \<and> holds_privilege (EffectiveToken ctx) SeTakeOwnershipPrivilege)"
  shows "\<exists>r g r'.
     SeAccessCheck (Some sd) ctx MAXIMUM_ALLOWED 0 gm UserMode want True = Some r \<and>
     SeAccessCheck (Some sd) ctx (2 ^ n) 0 gm UserMode want True = Some r' \<and>
     SeGrantedAccess r = Some g \<and> (bit g n \<longleftrightarrow> SeReturn r')"
proof -
  have one: "bit (2 ^ n :: access_mask) k \<longleftrightarrow> k = n" for k using n(1) by (simp add: bit_pow_mask)
  then have "(2 ^ n :: access_mask) \<noteq> 0" by (auto simp: mask_zero_iff)
  with SeAccessCheck_entitled [of "2 ^ n" ctx sd 0 gm want] assms(1) n(3)
  obtain r' where "SeAccessCheck (Some sd) ctx (2 ^ n) 0 gm UserMode want True = Some r'"
    "SeReturn r' \<longleftrightarrow> se_entitled sd ctx want n" by (auto simp: one)
  then show ?thesis
    using SeAccessCheck_maximum [OF assms(1) dacl, of gm want True] grants_agree [OF agree] n(2,4) dacl
    by (auto simp: se_entitled_def sep_entitled_def)
qed

lemma maximum_agrees_with_normal_witness:
  "\<exists>r g r'.
     SeAccessCheck (Some example_sd) example_ctx MAXIMUM_ALLOWED 0 example_gm UserMode True True = Some r \<and>
     SeAccessCheck (Some example_sd) example_ctx 2 0 example_gm UserMode True True = Some r' \<and>
     SeGrantedAccess r = Some g \<and> (bit g 1 \<longleftrightarrow> SeReturn r')"
  using maximum_agrees_with_normal [of example_ctx example_sd example_dacl 1 True example_gm]
  by (simp add: no_compound_def example_dacl_def example_sd_def may_impersonate_def example_ctx_def
      RtlpDaclAddrSecurityDescriptor_def)

section \<open>Traverse access\<close>

lemma token_sid_match_cong:
  "RtlEqualSid s t \<Longrightarrow> token_sid_match t m = token_sid_match s m"
  by (auto simp: RtlEqualSid_def sid_memory_equal_def token_sid_match_def split: if_splits)

lemma SepSidInTokenEx_scan_cong:
  "RtlEqualSid s t \<Longrightarrow> SepSidInTokenEx_scan i ts t deny r = SepSidInTokenEx_scan i ts s deny r"
  by (induction ts arbitrary: i) (auto simp: token_sid_match_cong)

lemma SepSidInTokenEx_cong:
  "RtlEqualSid s t \<Longrightarrow> SepSidInTokenEx tok None t deny r = SepSidInTokenEx tok None s deny r"
  by (simp add: SepSidInTokenEx_def replace_principal_self_def SepSidInTokenEx_scan_cong)

definition no_denied_object :: "acl \<Rightarrow> bool" where
  "no_denied_object dacl \<longleftrightarrow>
     (\<forall>a \<in> set dacl. case a of ACCESS_DENIED_OBJECT_ACE _ _ _ _ \<Rightarrow> False | _ \<Rightarrow> True)"

lemma fast_traverse_loop_grants:
  assumes "SeFastTraverseCheck_loop (2 ^ k) dacl" and "no_denied_object dacl"
    and world: "SepSidInTokenEx eT None SeWorldSid False False"
  shows "dacl_grants eT pT None False s dacl k"
  using assms(1,2)
proof (induction dacl)
  case Nil
  then show ?case by simp
next
  case (Cons a rest)
  have mask: "(2 ^ k :: access_mask) AND m = 0 \<longleftrightarrow> \<not> bit m k" for m
    using test_pow_mask [of m k] by (simp add: and.commute)
  show ?case
  proof (cases "AceFlags a AND INHERIT_ONLY_ACE = 0")
    case False
    with Cons show ?thesis by (simp add: no_denied_object_def)
  next
    case True
    with Cons world mask show ?thesis
      by (cases a) (auto simp: no_denied_object_def SepSidInTokenEx_cong split: if_splits)
  qed
qed

text \<open>
  C5: The fast traverse check says yes only where the full check does. When it returns TRUE for a
  single right (not one of the two special bits \<^verbatim>\<open>ACCESS_SYSTEM_SECURITY\<close> and \<^verbatim>\<open>MAXIMUM_ALLOWED\<close>), then
  \<^verbatim>\<open>SeAccessCheck\<close> for that right returns TRUE in user mode, whether the object has a DACL or not, for
  every subject whose impersonation level lets its token be used, whose token has the world SID
  enabled and, if restricted, is flagged as restricted in the access state. The DACL must hold no
  object-specific deny entry: the fast check passes over those (\<open>fast_traverse_ignores_object_deny\<close>).
\<close>

theorem SeFastTraverseCheck_sound:
  assumes fast: "SeFastTraverseCheck (Some sd) flags (2 ^ k)" and k: "k < 32" "k \<noteq> 24" "k \<noteq> 25"
    and deny: "\<And>dacl. RtlpDaclAddrSecurityDescriptor sd = Some dacl \<Longrightarrow> no_denied_object dacl"
    and world: "SepSidInTokenEx (EffectiveToken ctx) None SeWorldSid False False"
    and flag: "SeTokenIsRestricted (EffectiveToken ctx) \<Longrightarrow> flags AND ucast TOKEN_IS_RESTRICTED \<noteq> 0"
    and level: "may_impersonate ctx"
  shows "\<exists>r. SeAccessCheck (Some sd) ctx (2 ^ k) previous gm UserMode want True = Some r \<and> SeReturn r"
proof -
  have "se_entitled sd ctx want k"
  proof (cases "RtlpDaclAddrSecurityDescriptor sd")
    case None
    with k(2) show ?thesis by (simp add: se_entitled_def sep_entitled_def)
  next
    case (Some dacl)
    with fast have "SeFastTraverseCheck_loop (2 ^ k) dacl"
      and "flags AND ucast TOKEN_IS_RESTRICTED = 0"
      by (auto simp: SeFastTraverseCheck_def split: if_splits)
    with fast_traverse_loop_grants [OF _ deny [OF Some] world] flag
    have "normal_grants (EffectiveToken ctx) (PrimaryToken ctx) None dacl k"
      by (auto simp: normal_grants_def)
    with Some k(2) show ?thesis by (simp add: se_entitled_def sep_entitled_def)
  qed
  moreover have one: "bit (2 ^ k :: access_mask) n \<longleftrightarrow> n = k" for n using k(1) by (simp add: bit_pow_mask)
  moreover have "(2 ^ k :: access_mask) \<noteq> 0" using one by (auto simp: mask_zero_iff)
  ultimately show ?thesis
    using SeAccessCheck_entitled [of "2 ^ k" ctx sd previous gm want] level k(3) by auto
qed

lemma SeFastTraverseCheck_sound_witness:
  "\<exists>r. SeAccessCheck (Some example_sd) example_ctx 1 0 example_gm UserMode True True = Some r \<and> SeReturn r"
proof -
  have "SeFastTraverseCheck (Some example_sd) 0 1" by code_simp
  moreover have "SepSidInTokenEx (EffectiveToken example_ctx) None SeWorldSid False False" by code_simp
  moreover have "\<not> SeTokenIsRestricted (EffectiveToken example_ctx)" by code_simp
  moreover have "may_impersonate example_ctx" by (simp add: may_impersonate_def example_ctx_def)
  ultimately show ?thesis
    using SeFastTraverseCheck_sound [of example_sd 0 0 example_ctx 0 example_gm True]
    by (simp add: example_sd_def no_denied_object_def example_dacl_def
        RtlpDaclAddrSecurityDescriptor_def)
qed

text \<open>
  The fast check looks at entries of type \<^verbatim>\<open>ACCESS_DENIED_ACE_TYPE\<close> only. On a DACL that first denies
  the traverse right to the user by an object entry and then allows it to everyone, it says yes
  and the full check says no.
\<close>

definition object_deny_sd :: security_descriptor where
  "object_deny_sd = example_sd\<lparr>Dacl :=
     Some [ACCESS_DENIED_OBJECT_ACE 0 1 None (user_sid 1000), ACCESS_ALLOWED_ACE 0 1 SeWorldSid]\<rparr>"

lemma fast_traverse_ignores_object_deny:
  "SeFastTraverseCheck (Some object_deny_sd) 0 1 \<and>
   map_option SeReturn (SeAccessCheck (Some object_deny_sd) example_ctx 1 0 example_gm UserMode True True)
     = Some False"
  by code_simp

section \<open>Where the two walks differ\<close>

text \<open>
  For a compound entry the normal walk looks the server up with the caller's \<^verbatim>\<open>Restricted\<close>
  argument, the maximum walk with FALSE. On a restricted token whose restricted SIDs lack the
  server, \<^verbatim>\<open>MAXIMUM_ALLOWED\<close> reports a right that asking for it alone does not give.
\<close>

definition compound_dacl :: acl where
  "compound_dacl = [COMPOUND_ACCESS_ALLOWED_ACE 0 1 SeWorldSid (user_sid 1000)]"

lemma compound_disagree:
  "map_option (\<lambda>l. CurrentGranted (l ! 0))
     (maximum_walk (example_token 0x10) (example_token 0x10) compound_dacl None [FixedTypeList] 0) = Some 1 \<and>
   map_option (fst \<circ> fst)
     (normal_walk (example_token 0x10) (example_token 0x10) compound_dacl None [FixedTypeList] 0 1
       (example_locals 1)) = Some STATUS_ACCESS_DENIED"
  by code_simp

end
