(* ===== verification/Access_Check_Lists.thy ===== *)
theory Access_Check_Lists
  imports Type_List_Facts Access_Check_Properties
begin

text \<open>
  The access check on object type lists: both walks return on every captured list, the walk for
  the desired rights and the first maximum walk keep the summaries of the tree, so that access to
  the object itself is access to every property below it.
\<close>

unbundle bit_operations_syntax

section \<open>Single updates\<close>

lemma SepObjectInTypeList_from_bound:
  "SepObjectInTypeList_from g l i = Some k \<Longrightarrow> i \<le> k \<and> k < i + length l"
  by (induction l arbitrary: i) (fastforce split: if_splits)+

lemma SepObjectInTypeList_bound: "SepObjectInTypeList g l = Some k \<Longrightarrow> k < length l"
  using SepObjectInTypeList_from_bound by (fastforce simp: SepObjectInTypeList_def)

lemma SepUpdateParentTypeList_total:
  "otl_wf l \<Longrightarrow> i < length l \<Longrightarrow> \<exists>l'. SepUpdateParentTypeList l i = Some l' \<and> same_shape l l'"
proof (induction i arbitrary: l rule: less_induct)
  case (less i)
  note eq = SepUpdateParentTypeList.simps [of l i]
  show ?case
  proof (cases "i = 0")
    case True
    then show ?thesis
      using wf_root [OF less.prems(1)] less.prems(2) by (simp add: SepUpdateParentTypeList.simps [of l 0])
  next
    case False
    obtain p where p: "parent_ok l i p" using wf_parent [OF less.prems False] .
    obtain r g d where s: "SepUpdateParentTypeList_loop l p (Level (l ! i)) (p + 1) (0, 0xFFFFFFFF, 0) =
        (r, g, d)" by (metis prod_cases3)
    define l1 where "l1 = l[p := (l ! p)\<lparr>Remaining := r, CurrentGranted := g, CurrentDenied := d\<rparr>]"
    have sh: "same_shape l l1" unfolding l1_def by (rule same_shape_update) simp_all
    have "SepUpdateParentTypeList l i = Some l \<or>
        SepUpdateParentTypeList l i = SepUpdateParentTypeList l1 p"
      using s p by (auto simp: eq l1_def parent_ok_def)
    moreover obtain l' where "SepUpdateParentTypeList l1 p = Some l'" "same_shape l1 l'"
      using less.IH [of p l1] same_shape_wf [OF sh less.prems(1)] p less.prems(2)
      by (auto simp: parent_ok_def l1_def)
    ultimately show ?thesis using same_shape_trans [OF sh] by auto
  qed
qed

lemma SepAddAccessTypeList_loop_shape: "same_shape l (SepAddAccessTypeList_loop l s m f i)"
proof (induction l s m f i rule: SepAddAccessTypeList_loop.induct)
  case (1 l s m f i)
  have "same_shape l (l[i := update_entry f m (l ! i)])" by (rule same_shape_update) simp_all
  with 1 show ?case
    by (auto simp: SepAddAccessTypeList_loop.simps [of l] intro: same_shape_trans)
qed

lemma SepAddAccessTypeList_total:
  assumes "otl_wf l" "i < length l"
  shows "\<exists>l'. SepAddAccessTypeList l i m f = Some l' \<and> same_shape l l'"
proof -
  have sh: "same_shape l (l[i := update_entry f m (l ! i)])" by (rule same_shape_update) simp_all
  obtain l2 where "SepUpdateParentTypeList (l[i := update_entry f m (l ! i)]) i = Some l2"
    "same_shape (l[i := update_entry f m (l ! i)]) l2"
    using SepUpdateParentTypeList_total [OF same_shape_wf [OF sh assms(1)], of i] assms(2) by auto
  with sh show ?thesis
    using same_shape_trans [OF same_shape_trans [OF sh] SepAddAccessTypeList_loop_shape]
      same_shape_trans [OF sh SepAddAccessTypeList_loop_shape]
    by (auto simp: SepAddAccessTypeList_def Let_def)
qed

text \<open>On a list of one entry the update of the object is \<^verbatim>\<open>SepAddAccessTypeList\<close> as well.\<close>

lemma SepAddAccessTypeList_single:
  assumes "otl_wf l" "length l = 1"
  shows "SepAddAccessTypeList l 0 m f = Some (l[0 := update_entry f m (l ! 0)])"
proof -
  obtain e where l: "l = [e]" using assms(2) by (cases l) auto
  have "ParentIndex e = -1" using wf_root [OF assms(1)] l by simp
  then have "SepUpdateParentTypeList [update_entry f m e] 0 = Some [update_entry f m e]"
    by (simp add: SepUpdateParentTypeList.simps)
  then show ?thesis
    by (auto simp: l SepAddAccessTypeList_def Let_def SepAddAccessTypeList_loop.simps)
qed

lemma object_updates:
  assumes "otl_wf l"
  shows "max_allow_object m l = SepAddAccessTypeList l 0 m UpdateCurrentGranted"
    and "max_deny_object m l = SepAddAccessTypeList l 0 m UpdateCurrentDenied"
    and "normal_allow_object m l = SepAddAccessTypeList l 0 m UpdateRemaining"
    and "length l = 1 \<Longrightarrow> Some (max_deny_root m l) = SepAddAccessTypeList l 0 m UpdateCurrentDenied"
  using SepAddAccessTypeList_single [OF assms, of m]
  by (auto simp: max_allow_object_def max_deny_object_def normal_allow_object_def max_deny_root_def
      update_entry.simps)

text \<open>Every step of a walk leaves the list alone or is one update of it.\<close>

definition one_update :: "access_mask_field_to_update set \<Rightarrow> otl \<Rightarrow> otl option \<Rightarrow> bool" where
  "one_update fs l r \<longleftrightarrow> r = Some l \<or> (\<exists>k m. \<exists>f \<in> fs. k < length l \<and> r = SepAddAccessTypeList l k m f)"

lemma max_ace_update:
  assumes "otl_wf l" "l \<noteq> []" "n = 0 \<longrightarrow> length l = 1"
  shows "one_update {UpdateCurrentGranted, UpdateCurrentDenied} l
     (SepMaximumAccessCheck_ace eT pT self n r a l)"
  using assms by (cases a)
    (auto simp: one_update_def object_updates dest: SepObjectInTypeList_bound split: option.splits)

lemma normal_ace_cases:
  assumes "otl_wf l" "l \<noteq> []"
  shows "(\<exists>stop. SepNormalAccessCheck_ace eT pT self n r a l = Some (l, stop)) \<or>
     (\<exists>k m. k < length l \<and> SepNormalAccessCheck_ace eT pT self n r a l =
        map_option (\<lambda>l'. (l', False)) (SepAddAccessTypeList l k m UpdateRemaining))"
  using assms by (cases a) (auto simp: object_updates dest: SepObjectInTypeList_bound split: option.splits)

lemma normal_ace_update:
  assumes "otl_wf l" "l \<noteq> []"
  shows "\<exists>r' stop. SepNormalAccessCheck_ace eT pT self n r a l = map_option (\<lambda>l'. (l', stop)) r' \<and>
     one_update {UpdateRemaining} l r'"
proof -
  consider stop where "SepNormalAccessCheck_ace eT pT self n r a l = Some (l, stop)"
    | k m where "k < length l" "SepNormalAccessCheck_ace eT pT self n r a l =
        map_option (\<lambda>l'. (l', False)) (SepAddAccessTypeList l k m UpdateRemaining)"
    using normal_ace_cases [OF assms] by blast
  then show ?thesis
  proof cases
    case 1
    then show ?thesis by (intro exI [of _ "Some l"] exI [of _ stop]) (simp add: one_update_def)
  next
    case 2
    then show ?thesis
      by (intro exI [of _ "SepAddAccessTypeList l k m UpdateRemaining"] exI [of _ False])
        (auto simp: one_update_def)
  qed
qed

section \<open>The walks return\<close>

lemma one_update_total:
  assumes "one_update fs l r" "otl_wf l"
  obtains l' where "r = Some l'" "same_shape l l'" "otl_consistent l \<Longrightarrow> otl_consistent l'"
proof -
  consider "r = Some l" | k m f where "k < length l" "r = SepAddAccessTypeList l k m f"
    using assms(1) unfolding one_update_def by blast
  then show thesis
  proof cases
    case 1
    then show thesis using that by simp
  next
    case 2
    obtain l' where "r = Some l'" "same_shape l l'"
      using SepAddAccessTypeList_total [OF assms(2) 2(1)] 2(2) by auto
    moreover have "otl_consistent l'" if "otl_consistent l"
      using SepAddAccessTypeList_ok [OF assms(2) that 2(1), of m f] 2(2) calculation by auto
    ultimately show thesis using that by blast
  qed
qed

lemma same_shape_nonempty: "same_shape l l' \<Longrightarrow> l \<noteq> [] \<Longrightarrow> l' \<noteq> []"
  by (auto simp: same_shape_def)

lemma max_loop_total:
  assumes "otl_wf l" "l \<noteq> []" "n = 0 \<longrightarrow> length l = 1"
  shows "\<exists>l'. SepMaximumAccessCheck_loop eT pT self n r dacl l = Some l' \<and> same_shape l l' \<and>
    (otl_consistent l \<longrightarrow> otl_consistent l')"
  using assms
proof (induction dacl arbitrary: l)
  case Nil
  then show ?case by simp
next
  case (Cons a rest)
  obtain l1 where l1: "SepMaximumAccessCheck_ace eT pT self n r a l = Some l1" "same_shape l l1"
    "otl_consistent l \<Longrightarrow> otl_consistent l1"
    using one_update_total [OF max_ace_update [OF Cons.prems] Cons.prems(1)] by blast
  have "n = 0 \<longrightarrow> length l1 = 1" using Cons.prems(3) same_shape_length [OF l1(2)] by simp
  then obtain l2 where "SepMaximumAccessCheck_loop eT pT self n r rest l1 = Some l2" "same_shape l1 l2"
    "otl_consistent l1 \<longrightarrow> otl_consistent l2"
    using Cons.IH [OF same_shape_wf [OF l1(2) Cons.prems(1)] same_shape_nonempty [OF l1(2) Cons.prems(2)]]
    by blast
  then show ?case
    using Cons.IH [OF Cons.prems] l1 same_shape_trans [OF l1(2)] by auto
qed

lemma normal_loop_total:
  assumes "otl_wf l" "l \<noteq> []"
  shows "\<exists>l'. SepNormalAccessCheck_loop eT pT self n r dacl l = Some l' \<and> same_shape l l' \<and>
    (otl_consistent l \<longrightarrow> otl_consistent l')"
  using assms
proof (induction dacl arbitrary: l)
  case Nil
  then show ?case by simp
next
  case (Cons a rest)
  obtain r' stop where ace: "SepNormalAccessCheck_ace eT pT self n r a l = map_option (\<lambda>l'. (l', stop)) r'"
    "one_update {UpdateRemaining} l r'"
    using normal_ace_update [OF Cons.prems] by blast
  then obtain l1 where l1: "r' = Some l1" "same_shape l l1" "otl_consistent l \<Longrightarrow> otl_consistent l1"
    using one_update_total [OF ace(2) Cons.prems(1)] by blast
  obtain l2 where "SepNormalAccessCheck_loop eT pT self n r rest l1 = Some l2" "same_shape l1 l2"
    "otl_consistent l1 \<longrightarrow> otl_consistent l2"
    using Cons.IH [OF same_shape_wf [OF l1(2) Cons.prems(1)] same_shape_nonempty [OF l1(2) Cons.prems(2)]]
    by blast
  then show ?case
    using Cons.IH [OF Cons.prems] Cons.prems l1 ace(1) same_shape_trans [OF l1(2)] by auto
qed

section \<open>The root and the rest of the tree\<close>

lemma root_subtree:
  assumes "otl_wf l" "k < length l"
  shows "in_subtree l 0 k"
proof -
  have "Level (l ! 0) < Level (l ! j)" if "0 < j" "j \<le> k" for j
  proof -
    have "j < length l" "j \<noteq> 0" using assms(2) that by auto
    then obtain p where "parent_ok l j p" using wf_parent [OF assms(1)] by blast
    moreover have "Level (l ! 0) = 0" using wf_root [OF assms(1)] assms(2) by fastforce
    ultimately show ?thesis by (simp add: parent_ok_def word_less_nat_alt)
  qed
  with assms show ?thesis by (simp add: in_subtree_def)
qed

lemma granted_above:
  assumes "otl_wf l" "otl_consistent l" "k < length l" "bit (CurrentGranted (l ! 0)) n"
  shows "bit (CurrentGranted (l ! k)) n"
  using assms(3)
proof (induction k rule: less_induct)
  case (less k)
  show ?case
  proof (cases "k = 0")
    case False
    obtain p where p: "parent_ok l k p" using wf_parent [OF assms(1) less.prems False] .
    then have c: "is_child l p k" "p < k" using less.prems by (simp_all add: parent_ok_def is_child_def)
    then have "node_ok l p" "bit (CurrentGranted (l ! p)) n"
      using assms(2) less by (auto simp: otl_consistent_def)
    with c show ?thesis unfolding node_ok_def by blast
  qed (use assms in simp)
qed

lemma consistent_remaining:
  assumes "otl_wf l" "otl_consistent l"
  shows "otl_consistent (map (\<lambda>e. e\<lparr>Remaining := m\<rparr>) l)" and "same_shape l (map (\<lambda>e. e\<lparr>Remaining := m\<rparr>) l)"
proof -
  let ?l = "map (\<lambda>e. e\<lparr>Remaining := m\<rparr>) l"
  show sh: "same_shape l ?l" by (simp add: same_shape_def)
  have nth: "k < length l \<Longrightarrow> ?l ! k = (l ! k)\<lparr>Remaining := m\<rparr>" for k by simp
  have lt: "is_child l p c \<Longrightarrow> c < length l" for p c by (simp add: is_child_def)
  have "node_ok ?l p" if "p < length l" for p
    unfolding node_ok_def same_shape_child [OF sh]
  proof (intro impI allI conjI)
    fix n
    assume ex: "\<exists>c. is_child l p c"
    have ok: "node_ok l p" using that assms(2) by (simp add: otl_consistent_def)
    show "bit (Remaining (?l ! p)) n \<longleftrightarrow> (\<exists>c. is_child l p c \<and> bit (Remaining (?l ! c)) n)"
      using ex that lt by (auto simp: nth)
    show "bit (CurrentGranted (?l ! p)) n \<longleftrightarrow> (\<forall>c. is_child l p c \<longrightarrow> bit (CurrentGranted (?l ! c)) n)"
      using ok ex that lt by (simp add: node_ok_def nth)
    show "bit (CurrentDenied (?l ! p)) n \<longleftrightarrow> (\<exists>c. is_child l p c \<and> bit (CurrentDenied (?l ! c)) n)"
      using ok ex that lt by (auto simp: node_ok_def nth)
  qed
  with assms show "otl_consistent ?l" by (simp add: otl_consistent_def entry_ok_def)
qed

lemma SepNormalAccessCheck_lists:
  assumes "otl_wf l" "l \<noteq> []"
  shows "\<exists>l'. SepNormalAccessCheck rem eT pT dacl self l n r = Some l' \<and> same_shape l l' \<and>
    (otl_consistent l \<longrightarrow> otl_consistent l')"
proof -
  let ?l = "map (\<lambda>e. e\<lparr>Remaining := rem\<rparr>) l"
  have sh: "same_shape l ?l" by (simp add: same_shape_def)
  have "otl_consistent l \<Longrightarrow> otl_consistent ?l" using consistent_remaining [OF assms(1)] by blast
  then show ?thesis
    using normal_loop_total [OF same_shape_wf [OF sh assms(1)] same_shape_nonempty [OF sh assms(2)]]
      same_shape_trans [OF sh] unfolding SepNormalAccessCheck_def by meson
qed

lemma SepMaximumAccessCheck_lists:
  assumes "otl_wf l" "l \<noteq> []" "n = 0 \<longrightarrow> length l = 1"
  shows "\<exists>l'. SepMaximumAccessCheck eT pT dacl self l n r = Some l' \<and> same_shape l l' \<and>
    (otl_consistent l \<and> \<not> r \<longrightarrow> otl_consistent l')"
proof (cases r)
  case False
  then show ?thesis using max_loop_total [OF assms, of eT pT self r dacl]
    by (auto simp: SepMaximumAccessCheck_def)
next
  case True
  let ?l = "map (\<lambda>e. e\<lparr>Remaining := CurrentGranted e, CurrentGranted := 0\<rparr>) l"
  have sh: "same_shape l ?l" by (simp add: same_shape_def)
  have "n = 0 \<longrightarrow> length ?l = 1" using assms(3) by simp
  then obtain l1 where "SepMaximumAccessCheck_loop eT pT self n True dacl ?l = Some l1" "same_shape ?l l1"
    using max_loop_total [OF same_shape_wf [OF sh assms(1)] same_shape_nonempty [OF sh assms(2)], of n]
    by blast
  moreover have "same_shape l1 (map (\<lambda>e. e\<lparr>CurrentGranted := CurrentGranted e AND Remaining e\<rparr>) l1)"
    by (simp add: same_shape_def)
  ultimately show ?thesis
    using True same_shape_trans [OF same_shape_trans [OF sh]]
    by (simp add: SepMaximumAccessCheck_def)
qed

lemma normal_walk_lists:
  assumes "otl_wf l" "l \<noteq> []"
  shows "\<exists>outcome l'. normal_walk eT pT dacl self l n desired s = Some (outcome, l') \<and>
    same_shape l l' \<and> (otl_consistent l \<longrightarrow> otl_consistent l') \<and>
    (fst outcome = STATUS_SUCCESS \<longrightarrow> Remaining (l' ! 0) = 0)"
proof -
  obtain l1 where l1: "SepNormalAccessCheck (AlRemaining s) eT pT dacl self l n False = Some l1"
    "same_shape l l1" "otl_consistent l \<longrightarrow> otl_consistent l1"
    using SepNormalAccessCheck_lists [OF assms] by blast
  obtain l2 where l2: "SepNormalAccessCheck (AlRemaining s) eT pT dacl self l1 n True = Some l2"
    "same_shape l1 l2" "otl_consistent l1 \<longrightarrow> otl_consistent l2"
    using SepNormalAccessCheck_lists [OF same_shape_wf [OF l1(2) assms(1)] same_shape_nonempty [OF l1(2) assms(2)]]
    by blast
  show ?thesis
    using l1 l2 same_shape_trans [OF l1(2) l2(2)]
    by (cases "SeTokenIsRestricted eT") (auto simp: normal_walk_def)
qed

lemma maximum_walk_lists:
  assumes "otl_wf l" "l \<noteq> []" "n = 0 \<longrightarrow> length l = 1"
  shows "\<exists>l'. maximum_walk eT pT dacl self l n = Some l' \<and> same_shape l l' \<and>
    (otl_consistent l \<and> \<not> SeTokenIsRestricted eT \<longrightarrow> otl_consistent l')"
proof -
  obtain l1 where l1: "SepMaximumAccessCheck eT pT dacl self l n False = Some l1"
    "same_shape l l1" "otl_consistent l \<longrightarrow> otl_consistent l1"
    using SepMaximumAccessCheck_lists [OF assms, of eT pT dacl self False] by blast
  have "n = 0 \<longrightarrow> length l1 = 1" using assms(3) same_shape_length [OF l1(2)] by simp
  then obtain l2 where l2: "SepMaximumAccessCheck eT pT dacl self l1 n True = Some l2" "same_shape l1 l2"
    using SepMaximumAccessCheck_lists [OF same_shape_wf [OF l1(2) assms(1)]
        same_shape_nonempty [OF l1(2) assms(2)], of n eT pT dacl self True] by auto
  show ?thesis
  proof (cases "SeTokenIsRestricted eT")
    case True
    then have "maximum_walk eT pT dacl self l n = Some l2"
      using l1(1) l2(1) by (simp add: maximum_walk_def)
    with True same_shape_trans [OF l1(2) l2(2)] show ?thesis by simp
  next
    case False
    then have "maximum_walk eT pT dacl self l n = Some l1"
      using l1(1) by (simp add: maximum_walk_def)
    with l1(2,3) show ?thesis by simp
  qed
qed

section \<open>Properties\<close>

text \<open>A caller's list of an object with two property sets of one property each.\<close>

definition example_types :: "object_type_list list" where
  "example_types = map (\<lambda>(lv, i). \<lparr>OtLevel = lv, OtObjectType = GUID i 0 0 0\<rparr>)
     [(0, 0), (1, 1), (2, 2), (1, 3), (2, 4)]"

definition example_list :: otl where
  "example_list = the (snd (SeCaptureObjectTypeList (Some example_types) UserMode 1000 True
     [0, 0, 0, 0, 0] 5))"

lemma captured_consistent:
  assumes "capture_loop es [] levels = Inr l" "length levels = 5"
  shows "otl_wf l \<and> otl_consistent l \<and> length l = length es" and "\<forall>e \<in> set l. Remaining e = 0 \<and>
    CurrentGranted e = 0 \<and> CurrentDenied e = 0"
proof -
  have c: "otl_wf l \<and> length l = length es \<and> (\<forall>k < length es. Remaining (l ! k) = 0 \<and>
      CurrentGranted (l ! k) = 0 \<and> CurrentDenied (l ! k) = 0)"
  proof -
    have "otl_wf []" "levels_ok [] levels" using assms(2) by (simp_all add: otl_wf_def levels_ok_def)
    from capture_loop_ok [OF this assms(1)] show ?thesis by simp
  qed
  then have "node_ok l p" if "p < length l" for p
    using that by (auto simp: node_ok_def is_child_def)
  with c show "otl_wf l \<and> otl_consistent l \<and> length l = length es"
    by (simp add: otl_consistent_def entry_ok_def)
  from c show "\<forall>e \<in> set l. Remaining e = 0 \<and> CurrentGranted e = 0 \<and> CurrentDenied e = 0"
    by (simp add: all_set_conv_all_nth)
qed

text \<open>
  C6: The kernel only works on well-formed type lists. Whatever array a caller passes, when
  \<^verbatim>\<open>SeCaptureObjectTypeList\<close> succeeds with a list, that list represents a tree of at most five
  levels in preorder with correct parent indices, whose entries are the caller's, and the three masks
  of every entry (remaining, granted, denied) are zero. The caller is in user mode and its count below
  the bound.
\<close>

theorem SeCaptureObjectTypeList_wf:
  assumes "SeCaptureObjectTypeList list mode maxCount allocated levels count = (STATUS_SUCCESS, Some l)"
    and "length levels = 5"
  shows "otl_wf l \<and> otl_consistent l \<and> mode = UserMode \<and> count < maxCount \<and>
    map ObjectType l = map OtObjectType (take count (the list)) \<and>
    map Level l = map OtLevel (take count (the list)) \<and>
    (\<forall>e \<in> set l. Remaining e = 0 \<and> CurrentGranted e = 0 \<and> CurrentDenied e = 0)"
proof -
  obtain es where es: "list = Some es" "capture_loop (take count es) [] levels = Inr l" "mode = UserMode"
    "count < maxCount"
    using assms(1) by (auto simp: SeCaptureObjectTypeList_def split: if_splits option.splits sum.splits)
  have nil: "otl_wf []" "levels_ok [] levels"
    using assms(2) by (simp_all add: otl_wf_def levels_ok_def)
  have "\<forall>k < length (take count es). OtLevel (take count es ! k) = Level (l ! k) \<and>
      OtObjectType (take count es ! k) = ObjectType (l ! k)"
    using capture_loop_ok [OF nil es(2)] by simp
  with es captured_consistent [OF es(2) assms(2)] show ?thesis
    by (auto simp: list_eq_iff_nth_eq)
qed

lemma SeCaptureObjectTypeList_wf_witness:
  "otl_wf example_list \<and> map Level example_list = [0, 1, 2, 1, 2] \<and> CurrentGranted (example_list ! 4) = 0"
proof -
  have "SeCaptureObjectTypeList (Some example_types) UserMode 1000 True [0, 0, 0, 0, 0] 5 =
      (STATUS_SUCCESS, Some example_list)" by code_simp
  from SeCaptureObjectTypeList_wf [OF this]
  have wf: "otl_wf example_list" "map Level example_list = [0, 1, 2, 1, 2]"
    "\<forall>e \<in> set example_list. CurrentGranted e = 0" by (simp_all add: example_types_def)
  have "length example_list = 5" using arg_cong [OF wf(2), of length] by simp
  then show ?thesis using wf by simp
qed

text \<open>
  C7: Adding a mask at an entry of a captured list returns, applies the mask to every entry of
  that entry's subtree, leaves every other entry as it was except the ancestors of that entry, and
  keeps the summaries, which determine the masks of the ancestors: an inner node has a right
  remaining (denied) exactly when some child has, and granted exactly when all have, and nothing is
  both granted and denied.
\<close>

theorem SepAddAccessTypeList_consistent:
  assumes "otl_wf l" and "otl_consistent l" and "s < length l"
  shows "\<exists>l'. SepAddAccessTypeList l s m f = Some l' \<and> otl_consistent l' \<and> same_shape l l' \<and>
    (\<forall>k. in_subtree l s k \<longrightarrow> l' ! k = update_entry f m (l ! k)) \<and>
    (\<forall>k < length l. \<not> in_subtree l s k \<and> \<not> in_subtree l k s \<longrightarrow> l' ! k = l ! k)"
  using SepAddAccessTypeList_ok [OF assms] by blast

lemma example_list_captured: "capture_loop example_types [] [0, 0, 0, 0, 0] = Inr example_list"
  by code_simp

lemma example_list_ok: "otl_wf example_list \<and> otl_consistent example_list \<and> length example_list = 5"
  using captured_consistent(1) [OF example_list_captured] by (simp add: example_types_def)

lemma SepAddAccessTypeList_consistent_witness:
  "\<exists>l'. SepAddAccessTypeList example_list 3 1 UpdateCurrentGranted = Some l' \<and> otl_consistent l' \<and>
     CurrentGranted (l' ! 4) = 1 \<and> CurrentGranted (l' ! 1) = 0"
proof -
  have lev: "Level (example_list ! 1) = 1" "Level (example_list ! 3) = 1" "Level (example_list ! 4) = 2"
    by code_simp+
  have "j = 4" if "3 < j" "j \<le> 4" for j :: nat using that by simp
  then have "Level (example_list ! 3) < Level (example_list ! j)" if "3 < j" "j \<le> 4" for j
    using that lev by fastforce
  then have sub: "in_subtree example_list 3 4" using example_list_ok by (simp add: in_subtree_def)
  have off: "\<not> in_subtree example_list 3 1" by (simp add: in_subtree_def)
  have "\<not> in_subtree example_list 1 3"
  proof
    assume "in_subtree example_list 1 3"
    then have "Level (example_list ! 1) < Level (example_list ! 3)" unfolding in_subtree_def by simp
    then show False unfolding lev by simp
  qed
  moreover have "CurrentGranted (update_entry UpdateCurrentGranted 1 (example_list ! 4)) = 1"
    "CurrentGranted (example_list ! 1) = 0" by code_simp+
  ultimately show ?thesis
    using SepAddAccessTypeList_consistent [of example_list 3 1 UpdateCurrentGranted] example_list_ok sub off
    by force
qed

lemma return_one_status_lengths:
  "length (GrantedAccess (return_one_status b want alloc n outcome l)) = (if b then n else 1) \<and>
   length (AccessStatus (return_one_status b want alloc n outcome l)) = (if b then n else 1)"
  by (simp add: return_one_status_def Let_def split: prod.splits)

lemma return_result_list_lengths:
  "length (GrantedAccess (return_result_list desired want alloc s l)) = length l \<and>
   length (AccessStatus (return_result_list desired want alloc s l)) = length l"
  by (simp add: return_result_list_def Let_def)

lemma SepAccessCheck_delivers:
  fixes r :: access_result
  assumes "\<And>outcome l. R (return_one_status returnResultList want allocated (length list) outcome l)"
    and "\<And>s l. returnResultList \<Longrightarrow> length l = length (local_type_list list) \<Longrightarrow>
      R (return_result_list desired want allocated s l)"
    and "list \<noteq> [] \<Longrightarrow> otl_wf list"
  shows "\<exists>r. SepAccessCheck sd self pT cT desired list gm previous mode want returnResultList allocated = Some r \<and> R r"
proof -
  let ?l = "local_type_list list"
  have "otl_wf [FixedTypeList]" by (simp add: otl_wf_def FixedTypeList_def)
  then have wf: "otl_wf ?l" using assms(3) by (simp add: local_type_list_def)
  have ne: "?l \<noteq> []" and one: "length list = 0 \<longrightarrow> length ?l = 1"
    by (simp_all add: local_type_list_def)
  have "\<exists>r. dacl_stage eT pT dacl self desired list want returnResultList allocated s = Some r \<and> R r"
    for eT dacl s
  proof -
    obtain l1 where m: "maximum_walk eT pT dacl self ?l (length list) = Some l1" "same_shape ?l l1"
      using maximum_walk_lists [OF wf ne one] by blast
    obtain outcome l2 where n: "normal_walk eT pT dacl self ?l (length list) desired s = Some (outcome, l2)"
      using normal_walk_lists [OF wf ne] by blast
    show ?thesis
      using m n assms(1,2) same_shape_length [OF m(2)]
      by (cases returnResultList; simp add: dacl_stage_def Let_def)
  qed
  then show ?thesis
    using assms(1) by (auto simp: SepAccessCheck_def Let_def split: sum.splits)
qed

text \<open>
  C8: The access check always returns: on every captured object type list, or none, and whatever
  the DACL, the tokens and the request are, the recursion over the parents ends and
  \<^verbatim>\<open>SepAccessCheck\<close> delivers a result, with one mask and one status per entry when a result list
  was asked for and one of each otherwise.
\<close>

theorem SepAccessCheck_returns:
  assumes "list \<noteq> [] \<Longrightarrow> otl_wf list" and "returnResultList \<Longrightarrow> list \<noteq> []"
  shows "\<exists>r. SepAccessCheck sd self pT cT desired list gm previous mode want returnResultList allocated = Some r \<and>
    length (GrantedAccess r) = (if returnResultList then length list else 1) \<and>
    length (AccessStatus r) = length (GrantedAccess r)"
  by (rule SepAccessCheck_delivers)
    (use assms in \<open>auto simp: return_one_status_lengths return_result_list_lengths local_type_list_def\<close>)

lemma SepAccessCheck_returns_witness:
  "\<exists>r. SepAccessCheck example_sd None (example_token 0) None MAXIMUM_ALLOWED example_list example_gm 0
     UserMode False True True = Some r \<and> length (GrantedAccess r) = 5"
  using SepAccessCheck_returns [of example_list True example_sd None "example_token 0" None] example_list_ok
  by (metis list.size(3) zero_neq_numeral)

text \<open>
  C9: Access to the object is access to everything in it. When the walk for the desired rights
  succeeds on a captured type list, no desired right remains on any entry of the list, for
  restricted tokens as well.
\<close>

theorem normal_walk_covers_tree:
  assumes "otl_wf l" and "otl_consistent l" and "l \<noteq> []"
    and "normal_walk eT pT dacl self l n desired s = Some ((STATUS_SUCCESS, s'), l')"
  shows "\<forall>e \<in> set l'. Remaining e = 0"
proof -
  have l': "same_shape l l'" "otl_consistent l'" "Remaining (l' ! 0) = 0"
    using normal_walk_lists [OF assms(1,3), of eT pT dacl self n desired s] assms(2,4) by auto
  have "Remaining (l' ! k) = 0" if "k < length l'" for k
    using remaining_below [OF same_shape_wf [OF l'(1) assms(1)] _ root_subtree [OF same_shape_wf [OF l'(1) assms(1)] that]]
      l'(2,3) by (auto simp: mask_zero_iff otl_consistent_def)
  then show ?thesis by (auto simp: in_set_conv_nth)
qed

definition object_dacl :: acl where
  "object_dacl = [ACCESS_ALLOWED_OBJECT_ACE 0 1 (Some (GUID 1 0 0 0)) SeWorldSid,
     ACCESS_ALLOWED_OBJECT_ACE 0 1 (Some (GUID 3 0 0 0)) (user_sid 1000)]"

lemma normal_walk_covers_tree_witness:
  "\<exists>l'. map_option snd (normal_walk (example_token 0) (example_token 0) object_dacl None example_list 5 1
     (example_locals 1)) = Some l' \<and> Remaining (l' ! 4) = 0"
proof -
  obtain l' where w: "normal_walk (example_token 0) (example_token 0) object_dacl None example_list 5 1
     (example_locals 1) = Some ((STATUS_SUCCESS, (example_locals 1)\<lparr>AlGranted := 1\<rparr>), l')" "length l' = 5"
  proof -
    have "case normal_walk (example_token 0) (example_token 0) object_dacl None example_list 5 1
       (example_locals 1) of Some (outcome, l') \<Rightarrow> outcome = (STATUS_SUCCESS, (example_locals 1)\<lparr>AlGranted := 1\<rparr>) \<and>
         length l' = 5 | None \<Rightarrow> False" by code_simp
    then show thesis using that by (auto split: option.splits prod.splits)
  qed
  have "example_list \<noteq> []" using example_list_ok by auto
  from normal_walk_covers_tree [OF _ _ this w(1)] example_list_ok w(2)
  have "Remaining (l' ! 4) = 0" by simp
  with w(1) show ?thesis by simp
qed

text \<open>
  C10: The same for \<^verbatim>\<open>MAXIMUM_ALLOWED\<close> and result lists: for a token that is not restricted, what
  the maximum walk grants on the object is granted on every entry, and nothing is granted and
  denied at once.
\<close>

theorem maximum_walk_covers_tree:
  assumes "otl_wf l" and "otl_consistent l" and "l \<noteq> []" and "n = 0 \<Longrightarrow> length l = 1"
    and "\<not> SeTokenIsRestricted eT"
  shows "\<exists>l'. maximum_walk eT pT dacl self l n = Some l' \<and>
    (\<forall>e \<in> set l'. NOT (CurrentGranted e) AND CurrentGranted (l' ! 0) = 0 \<and>
       CurrentGranted e AND CurrentDenied e = 0)"
proof -
  obtain l' where l': "maximum_walk eT pT dacl self l n = Some l'" "same_shape l l'" "otl_consistent l'"
    using maximum_walk_lists [OF assms(1,3), of n eT pT dacl self] assms(2,4,5) by auto
  have "\<forall>i. bit (CurrentGranted (l' ! 0)) i \<longrightarrow> bit (CurrentGranted (l' ! k)) i" if "k < length l'" for k
    using granted_above [OF same_shape_wf [OF l'(2) assms(1)] l'(3) that] by simp
  then have "\<forall>e \<in> set l'. NOT (CurrentGranted e) AND CurrentGranted (l' ! 0) = 0"
    unfolding mask_subset_iff all_set_conv_all_nth by metis
  moreover have "\<forall>e \<in> set l'. CurrentGranted e AND CurrentDenied e = 0"
    using l'(3) unfolding otl_consistent_def entry_ok_def mask_disjoint_iff all_set_conv_all_nth by metis
  ultimately show ?thesis using l'(1) by blast
qed

lemma maximum_walk_covers_tree_witness:
  "\<exists>l'. maximum_walk (example_token 0) (example_token 0) object_dacl None example_list 5 = Some l'"
proof -
  have "\<not> SeTokenIsRestricted (example_token 0)" by code_simp
  moreover have "example_list \<noteq> []" using example_list_ok by auto
  ultimately show ?thesis
    using maximum_walk_covers_tree [of example_list 5 "example_token 0" "example_token 0" object_dacl None]
      example_list_ok by auto
qed

section \<open>The second pass of a restricted token\<close>

text \<open>
  The second pass keeps the masks that the first one granted in \<^verbatim>\<open>Remaining\<close>, a field that
  \<^verbatim>\<open>SepUpdateParentTypeList\<close> recomputes as the union of the children. The saved mask of an inner
  node is then no longer what the first pass granted on it.
\<close>

definition restricted_token :: token where
  "restricted_token = (example_token TOKEN_IS_RESTRICTED)\<lparr>RestrictedSids :=
     [\<lparr>Sid = user_sid 1000, SaAttributes = SE_GROUP_ENABLED\<rparr>,
      \<lparr>Sid = user_sid 2000, SaAttributes = SE_GROUP_ENABLED\<rparr>]\<rparr>"

definition split_sd :: security_descriptor where
  "split_sd = example_sd\<lparr>Dacl := Some
     [ACCESS_ALLOWED_OBJECT_ACE 0 1 (Some (GUID 1 0 0 0)) (user_sid 1000),
      ACCESS_ALLOWED_OBJECT_ACE 0 1 (Some (GUID 3 0 0 0)) (user_sid 2000)]\<rparr>"

definition split_check :: "access_mask \<Rightarrow> bool \<Rightarrow> access_result option" where
  "split_check desired resultList = SepAccessCheck split_sd None restricted_token None desired example_list
     example_gm 0 UserMode False resultList True"

text \<open>
  For a restricted token \<^verbatim>\<open>MAXIMUM_ALLOWED\<close> on an object type list can grant, on the object
  itself, a right that the same check denies when it is asked for alone, and that the result list
  shows as denied on one of the object's property sets: a captured list, a DACL and a restricted
  token exist for which \<^verbatim>\<open>SepAccessCheck\<close> answers so.
\<close>

lemma restricted_maximum_overgrants:
  "\<exists>list sd tok maximal single each.
     SeTokenIsRestricted tok \<and> otl_wf list \<and> otl_consistent list \<and>
     SepAccessCheck sd None tok None (MAXIMUM_ALLOWED OR 1) list example_gm 0 UserMode False False True = Some maximal \<and>
     AccessStatus maximal = [STATUS_SUCCESS] \<and> GrantedAccess maximal = [1] \<and>
     SepAccessCheck sd None tok None 1 list example_gm 0 UserMode False False True = Some single \<and>
     AccessStatus single = [STATUS_ACCESS_DENIED] \<and> GrantedAccess single = [0] \<and>
     SepAccessCheck sd None tok None 1 list example_gm 0 UserMode False True True = Some each \<and>
     GrantedAccess each = [1, 1, 1, 0, 0]"
proof -
  have "case split_check (MAXIMUM_ALLOWED OR 1) False of
      Some r \<Rightarrow> AccessStatus r = [STATUS_SUCCESS] \<and> GrantedAccess r = [1] | None \<Rightarrow> False"
    by code_simp
  moreover have "case split_check 1 False of
      Some r \<Rightarrow> AccessStatus r = [STATUS_ACCESS_DENIED] \<and> GrantedAccess r = [0] | None \<Rightarrow> False"
    by code_simp
  moreover have "case split_check 1 True of Some r \<Rightarrow> GrantedAccess r = [1, 1, 1, 0, 0] | None \<Rightarrow> False"
    by code_simp
  ultimately obtain a b c where "split_check (MAXIMUM_ALLOWED OR 1) False = Some a"
    "AccessStatus a = [STATUS_SUCCESS] \<and> GrantedAccess a = [1]" "split_check 1 False = Some b"
    "AccessStatus b = [STATUS_ACCESS_DENIED] \<and> GrantedAccess b = [0]" "split_check 1 True = Some c"
    "GrantedAccess c = [1, 1, 1, 0, 0]" by (auto split: option.splits)
  moreover have "SeTokenIsRestricted restricted_token" by code_simp
  ultimately show ?thesis
    using example_list_ok unfolding split_check_def by blast
qed

end
