(* ===== verification/Dispatcher.thy ===== *)
theory Dispatcher
  imports Prelude
begin

text \<open>
  Kernel dispatcher objects: events, semaphores, mutants and the waits on them
  (\<^verbatim>\<open>ke/eventobj.c\<close>, \<^verbatim>\<open>ke/semphobj.c\<close>, \<^verbatim>\<open>ke/mutntobj.c\<close>, \<^verbatim>\<open>ke/waitsup.c\<close>, \<^verbatim>\<open>ke/wait.c\<close>, the wait
  macros of \<^verbatim>\<open>ke/ki.h\<close> and the alerts of \<^verbatim>\<open>ke/thredobj.c\<close>).

  Every operation runs under the dispatcher database lock, so each is one function on the state:
  objects and threads by their address. A circular list of wait blocks is the list of its
  entries. A wait is the function of one turn of the wait loop; the thread that blocks is
  continued by the function of what follows \<^verbatim>\<open>KiSwapThread\<close>. The timer queue, kernel queues,
  stack swapping and processor scheduling are not part of the state: a timeout is whether the
  due time has passed, and a readied thread is on the deferred ready list.
\<close>

unbundle bit_operations_syntax

section \<open>Objects and threads\<close>

datatype kobject =
  EventNotificationObject | EventSynchronizationObject | MutantObject | ProcessObject
| SemaphoreObject | ThreadObject | TimerNotificationObject | TimerSynchronizationObject

datatype wait_type = WaitAll | WaitAny

record kwait_block =
  WbThread :: nat
  WbObject :: nat
  WbWaitKey :: ntstatus
  WbWaitType :: wait_type

text \<open>
  The dispatcher header, the limit of a semaphore and the fields of a mutant, in one record.
  \<open>OwnerThread\<close> is \<^const>\<open>None\<close> for a null pointer.
\<close>

record dispatcher_object =
  ObType :: kobject
  SignalState :: long
  WaitListHead :: "kwait_block list"
  Limit :: long
  OwnerThread :: "nat option"
  Abandoned :: bool
  ApcDisable :: uchar

datatype kthread_state = Running | Waiting | DeferredReady

datatype adjust_reason = AdjustNone | AdjustUnwait | AdjustBoost

record kthread =
  ThState :: kthread_state
  WaitStatus :: ntstatus
  WaitBlockList :: "kwait_block list"
  TimerInserted :: bool
  Alertable :: bool
  WaitMode :: kprocessor_mode
  WaitNext :: bool
  WaitIrql :: uchar
  Alerted :: "kprocessor_mode \<Rightarrow> bool"
  UserApcPending :: bool
  UserApcQueued :: bool
  KernelApcPending :: bool
  SpecialApcDisable :: ushort
  KernelApcDisable :: ushort
  MutantListHead :: "nat list"
  Priority :: uchar
  BasePriority :: uchar
  PriorityDecrement :: uchar
  AdjustIncrement :: uchar
  AdjustReason :: adjust_reason

record dispatcher =
  Objects :: "nat \<Rightarrow> dispatcher_object"
  Threads :: "nat \<Rightarrow> kthread"
  DeferredReadyList :: "nat list"

definition update_object ::
    "nat \<Rightarrow> (dispatcher_object \<Rightarrow> dispatcher_object) \<Rightarrow> dispatcher \<Rightarrow> dispatcher" where
  "update_object ob f s = s\<lparr>Objects := (Objects s)(ob := f (Objects s ob))\<rparr>"

definition update_thread :: "nat \<Rightarrow> (kthread \<Rightarrow> kthread) \<Rightarrow> dispatcher \<Rightarrow> dispatcher" where
  "update_thread t f s = s\<lparr>Threads := (Threads s)(t := f (Threads s t))\<rparr>"

definition signaled :: "dispatcher_object \<Rightarrow> bool" where
  "signaled ob \<longleftrightarrow> 0 < sint (SignalState ob)"

definition set_signal :: "nat \<Rightarrow> long \<Rightarrow> dispatcher \<Rightarrow> dispatcher" where
  "set_signal ob v = update_object ob (\<lambda>x. x\<lparr>SignalState := v\<rparr>)"

abbreviation MINLONG :: long where "MINLONG \<equiv> 0x80000000"
abbreviation APC_LEVEL :: uchar where "APC_LEVEL \<equiv> 1"
abbreviation LOW_REALTIME_PRIORITY :: uchar where "LOW_REALTIME_PRIORITY \<equiv> 16"
abbreviation EVENT_INCREMENT :: uchar where "EVENT_INCREMENT \<equiv> 1"
abbreviation MUTANT_INCREMENT :: uchar where "MUTANT_INCREMENT \<equiv> 1"
abbreviation ALERT_INCREMENT :: uchar where "ALERT_INCREMENT \<equiv> 2"

section \<open>Ending a wait\<close>

text \<open>
  The wait blocks leave the lists of their objects; the timer wait block is only the flag that
  the thread's timer is active.
\<close>

definition remove_wait_block :: "kwait_block \<Rightarrow> dispatcher \<Rightarrow> dispatcher" where
  "remove_wait_block wb =
     update_object (WbObject wb) (\<lambda>x. x\<lparr>WaitListHead := remove1 wb (WaitListHead x)\<rparr>)"

definition KiUnlinkThread :: "nat \<Rightarrow> ntstatus \<Rightarrow> dispatcher \<Rightarrow> dispatcher" where
  "KiUnlinkThread t status s =
     update_thread t (\<lambda>th. th\<lparr>WaitStatus := WaitStatus th OR status, TimerInserted := False\<rparr>)
       (fold remove_wait_block (WaitBlockList (Threads s t)) s)"

text \<open>
  The branch of a thread in memory: it goes to the deferred ready list. Swapping is not modelled.
\<close>

definition KiReadyThread :: "nat \<Rightarrow> dispatcher \<Rightarrow> dispatcher" where
  "KiReadyThread t s =
     (update_thread t (\<lambda>th. th\<lparr>ThState := DeferredReady\<rparr>) s)
       \<lparr>DeferredReadyList := t # DeferredReadyList s\<rparr>"

definition KiUnwaitThread :: "nat \<Rightarrow> ntstatus \<Rightarrow> uchar \<Rightarrow> dispatcher \<Rightarrow> dispatcher" where
  "KiUnwaitThread t status increment s =
     KiReadyThread t
       (update_thread t (\<lambda>th. th\<lparr>AdjustIncrement := increment, AdjustReason := AdjustUnwait\<rparr>)
         (KiUnlinkThread t status s))"

section \<open>Satisfying a wait\<close>

text \<open>The type of a synchronization timer masks to that of a synchronization event.\<close>

definition synchronization_type :: "kobject \<Rightarrow> bool" where
  "synchronization_type k \<longleftrightarrow> k = EventSynchronizationObject \<or> k = TimerSynchronizationObject"

definition KiWaitSatisfyMutant :: "nat \<Rightarrow> nat \<Rightarrow> dispatcher \<Rightarrow> dispatcher" where
  "KiWaitSatisfyMutant ob t s =
     (let s1 = update_object ob (\<lambda>x. x\<lparr>SignalState := SignalState x - 1\<rparr>) s in
      if SignalState (Objects s1 ob) = 0 then
        let x = Objects s1 ob;
            s2 = update_thread t (\<lambda>th. th\<lparr>KernelApcDisable := KernelApcDisable th - ucast (ApcDisable x)\<rparr>) s1;
            s3 = update_object ob (\<lambda>y. y\<lparr>OwnerThread := Some t\<rparr>) s2;
            s4 = (if Abandoned x
                  then update_thread t (\<lambda>th. th\<lparr>WaitStatus := STATUS_ABANDONED\<rparr>)
                         (update_object ob (\<lambda>y. y\<lparr>Abandoned := False\<rparr>) s3)
                  else s3)
        in update_thread t (\<lambda>th. th\<lparr>MutantListHead := MutantListHead th @ [ob]\<rparr>) s4
      else s1)"

definition KiWaitSatisfyOther :: "nat \<Rightarrow> dispatcher \<Rightarrow> dispatcher" where
  "KiWaitSatisfyOther ob s =
     (if synchronization_type (ObType (Objects s ob)) then set_signal ob 0 s
      else if ObType (Objects s ob) = SemaphoreObject
      then update_object ob (\<lambda>x. x\<lparr>SignalState := SignalState x - 1\<rparr>) s
      else s)"

definition KiWaitSatisfyAny :: "nat \<Rightarrow> nat \<Rightarrow> dispatcher \<Rightarrow> dispatcher" where
  "KiWaitSatisfyAny ob t s =
     (if synchronization_type (ObType (Objects s ob)) then set_signal ob 0 s
      else if ObType (Objects s ob) = SemaphoreObject
      then update_object ob (\<lambda>x. x\<lparr>SignalState := SignalState x - 1\<rparr>) s
      else if ObType (Objects s ob) = MutantObject then KiWaitSatisfyMutant ob t s
      else s)"

section \<open>Testing waits on a signaled object\<close>

text \<open>
  The loops end because every turn unlinks the thread it unwaits; they are option-valued because
  that holds of well-formed states only.
\<close>

partial_function (option) KiWaitTest :: "nat \<Rightarrow> uchar \<Rightarrow> dispatcher \<Rightarrow> dispatcher option" where
  "KiWaitTest ob increment s =
     (if signaled (Objects s ob) \<and> WaitListHead (Objects s ob) \<noteq> [] then
        let wb = hd (WaitListHead (Objects s ob)); t = WbThread wb in
        if WbWaitType wb = WaitAny
        then KiWaitTest ob increment
               (KiUnwaitThread t (WbWaitKey wb) increment (KiWaitSatisfyAny ob t s))
        else KiWaitTest ob increment (KiUnwaitThread t STATUS_KERNEL_APC increment s)
      else Some s)"

partial_function (option) KiWaitTestSynchronizationObject ::
    "nat \<Rightarrow> uchar \<Rightarrow> dispatcher \<Rightarrow> dispatcher option" where
  "KiWaitTestSynchronizationObject ob increment s =
     (let wb = hd (WaitListHead (Objects s ob)); t = WbThread wb in
      if WbWaitType wb = WaitAny
      then Some (KiUnwaitThread t (WbWaitKey wb) increment (set_signal ob 0 s))
      else
        let s1 = KiUnwaitThread t STATUS_KERNEL_APC increment s
        in if WaitListHead (Objects s1 ob) \<noteq> []
           then KiWaitTestSynchronizationObject ob increment s1 else Some s1)"

partial_function (option) KiWaitTestWithoutSideEffects ::
    "nat \<Rightarrow> uchar \<Rightarrow> dispatcher \<Rightarrow> dispatcher option" where
  "KiWaitTestWithoutSideEffects ob increment s =
     (let wb = hd (WaitListHead (Objects s ob)); t = WbThread wb;
          s1 = (if WbWaitType wb = WaitAny then KiUnwaitThread t (WbWaitKey wb) increment s
                else KiUnwaitThread t STATUS_KERNEL_APC increment s)
      in if WaitListHead (Objects s1 ob) \<noteq> []
         then KiWaitTestWithoutSideEffects ob increment s1 else Some s1)"

declare KiWaitTest.simps [code] KiWaitTestSynchronizationObject.simps [code]
  KiWaitTestWithoutSideEffects.simps [code]

end
