(* ===== verification/Dispatcher_Ops.thy ===== *)
theory Dispatcher_Ops
  imports Dispatcher "HOL-Library.Monad_Syntax"
begin

text \<open>
  The operations on dispatcher objects. The current thread is the argument \<open>t\<close>; an operation
  that raises a status returns it on the left. \<open>irql\<close> is the IRQL at which the dispatcher lock was
  taken.
\<close>

unbundle bit_operations_syntax

text \<open>
  The end of the setting operations: with \<^verbatim>\<open>Wait\<close> the thread keeps the lock for the wait that
  follows.
\<close>

definition set_wait_next :: "bool \<Rightarrow> nat \<Rightarrow> uchar \<Rightarrow> dispatcher \<Rightarrow> dispatcher" where
  "set_wait_next wait t irql s =
     (if wait then update_thread t (\<lambda>th. th\<lparr>WaitNext := True, WaitIrql := irql\<rparr>) s else s)"

section \<open>Events\<close>

definition KeInitializeEvent :: "nat \<Rightarrow> kobject \<Rightarrow> bool \<Rightarrow> dispatcher \<Rightarrow> dispatcher" where
  "KeInitializeEvent ev type state =
     update_object ev (\<lambda>x. x\<lparr>ObType := type, SignalState := of_bool state, WaitListHead := []\<rparr>)"

definition KeInitializeEventPair :: "nat \<Rightarrow> nat \<Rightarrow> dispatcher \<Rightarrow> dispatcher" where
  "KeInitializeEventPair eventLow eventHigh s =
     KeInitializeEvent eventHigh EventSynchronizationObject False
       (KeInitializeEvent eventLow EventSynchronizationObject False s)"

definition KeClearEvent :: "nat \<Rightarrow> dispatcher \<Rightarrow> dispatcher" where
  "KeClearEvent ev = set_signal ev 0"

definition KePulseEvent ::
    "nat \<Rightarrow> nat \<Rightarrow> uchar \<Rightarrow> bool \<Rightarrow> uchar \<Rightarrow> dispatcher \<Rightarrow> (long \<times> dispatcher) option" where
  "KePulseEvent t ev increment wait irql s =
     (let oldState = SignalState (Objects s ev) in do {
        s1 \<leftarrow> (if oldState = 0 \<and> WaitListHead (Objects s ev) \<noteq> []
               then KiWaitTest ev increment (set_signal ev 1 s) else Some s);
        Some (oldState, set_wait_next wait t irql (set_signal ev 0 s1))
      })"

definition KeReadStateEvent :: "nat \<Rightarrow> dispatcher \<Rightarrow> long" where
  "KeReadStateEvent ev s = SignalState (Objects s ev)"

definition KeResetEvent :: "nat \<Rightarrow> dispatcher \<Rightarrow> long \<times> dispatcher" where
  "KeResetEvent ev s = (SignalState (Objects s ev), set_signal ev 0 s)"

definition KeSetEvent ::
    "nat \<Rightarrow> nat \<Rightarrow> uchar \<Rightarrow> bool \<Rightarrow> uchar \<Rightarrow> dispatcher \<Rightarrow> (long \<times> dispatcher) option" where
  "KeSetEvent t ev increment wait irql s =
     (let x = Objects s ev in
      if ObType x = EventNotificationObject \<and> SignalState x = 1 \<and> \<not> wait then Some (1, s)
      else
        let oldState = SignalState x; s1 = set_signal ev 1 s in do {
          s2 \<leftarrow> (if oldState = 0 \<and> WaitListHead x \<noteq> []
                 then if ObType x = EventNotificationObject
                      then KiWaitTestWithoutSideEffects ev increment s1
                      else KiWaitTestSynchronizationObject ev increment s1
                 else Some s1);
          Some (oldState, set_wait_next wait t irql s2)
        })"

definition KiComputeNewPriority :: "kthread \<Rightarrow> uchar \<Rightarrow> uchar \<times> kthread" where
  "KiComputeNewPriority th adjustment =
     (if Priority th <s LOW_REALTIME_PRIORITY then
        let p = Priority th - PriorityDecrement th - adjustment
        in (if p <s BasePriority th then BasePriority th else p, th\<lparr>PriorityDecrement := 0\<rparr>)
      else (Priority th, th))"

text \<open>The second result is what is stored through \<^verbatim>\<open>Thread\<close>, \<^const>\<open>None\<close> if nothing is.\<close>

definition KeSetEventBoostPriority ::
    "nat \<Rightarrow> nat \<Rightarrow> dispatcher \<Rightarrow> (nat option \<times> dispatcher) option" where
  "KeSetEventBoostPriority t ev s =
     (case WaitListHead (Objects s ev) of
        [] \<Rightarrow> Some (None, set_signal ev 1 s)
      | wb # rest \<Rightarrow>
          if WbWaitType wb = WaitAll
          then map_option (Pair None) (KiWaitTestSynchronizationObject ev EVENT_INCREMENT (set_signal ev 1 s))
          else
            let waitThread = WbThread wb;
                (priority, th) = KiComputeNewPriority (Threads s t) 0;
                s1 = update_thread t (\<lambda>_. th\<lparr>Priority := priority\<rparr>) s;
                s2 = KiUnlinkThread waitThread STATUS_SUCCESS s1;
                s3 = update_thread waitThread
                       (\<lambda>w. w\<lparr>AdjustIncrement := priority, AdjustReason := AdjustBoost\<rparr>) s2
            in Some (Some waitThread, KiReadyThread waitThread s3))"

section \<open>Semaphores\<close>

definition KeInitializeSemaphore :: "nat \<Rightarrow> long \<Rightarrow> long \<Rightarrow> dispatcher \<Rightarrow> dispatcher" where
  "KeInitializeSemaphore sem count limit =
     update_object sem (\<lambda>x. x\<lparr>ObType := SemaphoreObject, SignalState := count, WaitListHead := [],
       Limit := limit\<rparr>)"

definition KeReadStateSemaphore :: "nat \<Rightarrow> dispatcher \<Rightarrow> long" where
  "KeReadStateSemaphore sem s = SignalState (Objects s sem)"

definition KeReleaseSemaphore ::
    "nat \<Rightarrow> nat \<Rightarrow> uchar \<Rightarrow> long \<Rightarrow> bool \<Rightarrow> uchar \<Rightarrow> dispatcher \<Rightarrow>
     (ntstatus + long \<times> dispatcher) option" where
  "KeReleaseSemaphore t sem increment adjustment wait irql s =
     (let oldState = SignalState (Objects s sem); newState = oldState + adjustment in
      if Limit (Objects s sem) <s newState \<or> newState <s oldState
      then Some (Inl STATUS_SEMAPHORE_LIMIT_EXCEEDED)
      else
        let s1 = set_signal sem newState s in do {
          s2 \<leftarrow> (if oldState = 0 \<and> WaitListHead (Objects s1 sem) \<noteq> []
                 then KiWaitTest sem increment s1 else Some s1);
          Some (Inr (oldState, set_wait_next wait t irql s2))
        })"

section \<open>Mutants\<close>

definition KeInitializeMutant :: "nat \<Rightarrow> nat \<Rightarrow> bool \<Rightarrow> dispatcher \<Rightarrow> dispatcher" where
  "KeInitializeMutant t mut initialOwner s =
     (let s1 = (if initialOwner
                then update_thread t (\<lambda>th. th\<lparr>MutantListHead := MutantListHead th @ [mut]\<rparr>)
                       (update_object mut (\<lambda>x. x\<lparr>SignalState := 0, OwnerThread := Some t\<rparr>) s)
                else update_object mut (\<lambda>x. x\<lparr>SignalState := 1, OwnerThread := None\<rparr>) s)
      in update_object mut (\<lambda>x. x\<lparr>ObType := MutantObject, WaitListHead := [], Abandoned := False,
           ApcDisable := 0\<rparr>) s1)"

definition KeInitializeMutex :: "nat \<Rightarrow> dispatcher \<Rightarrow> dispatcher" where
  "KeInitializeMutex mut =
     update_object mut (\<lambda>x. x\<lparr>ObType := MutantObject, SignalState := 1, WaitListHead := [],
       OwnerThread := None, Abandoned := False, ApcDisable := 1\<rparr>)"

definition KeReadStateMutant :: "nat \<Rightarrow> dispatcher \<Rightarrow> long" where
  "KeReadStateMutant mut s = SignalState (Objects s mut)"

text \<open>\<^verbatim>\<open>RemoveEntryList(&Mutant->MutantListEntry)\<close>: the entry leaves the list of its owner.\<close>

definition remove_mutant_entry :: "nat \<Rightarrow> dispatcher \<Rightarrow> dispatcher" where
  "remove_mutant_entry mut s =
     (case OwnerThread (Objects s mut) of
        Some o1 \<Rightarrow> update_thread o1 (\<lambda>th. th\<lparr>MutantListHead := remove1 mut (MutantListHead th)\<rparr>) s
      | None \<Rightarrow> s)"

text \<open>The deliverable kernel APC that ends a critical region is not modelled.\<close>

definition KeLeaveCriticalRegionThread :: "nat \<Rightarrow> dispatcher \<Rightarrow> dispatcher" where
  "KeLeaveCriticalRegionThread t =
     update_thread t (\<lambda>th. th\<lparr>KernelApcDisable := KernelApcDisable th + 1\<rparr>)"

definition KeReleaseMutant ::
    "nat \<Rightarrow> nat \<Rightarrow> uchar \<Rightarrow> bool \<Rightarrow> bool \<Rightarrow> uchar \<Rightarrow> dispatcher \<Rightarrow>
     (ntstatus + long \<times> dispatcher) option" where
  "KeReleaseMutant t mut increment abandoned wait irql s =
     (let x = Objects s mut; oldState = SignalState x in
      if \<not> abandoned \<and> OwnerThread x \<noteq> Some t
      then Some (Inl (if Abandoned x then STATUS_ABANDONED else STATUS_MUTANT_NOT_OWNED))
      else
        let s1 = (if abandoned then update_object mut (\<lambda>y. y\<lparr>SignalState := 1, Abandoned := True\<rparr>) s
                  else set_signal mut (oldState + 1) s)
        in if SignalState (Objects s1 mut) = 1 then
             let s2 = (if sint oldState \<le> 0 then remove_mutant_entry mut s1 else s1);
                 leave = sint oldState \<le> 0 \<and> ApcDisable x \<noteq> 0;
                 s3 = update_object mut (\<lambda>y. y\<lparr>OwnerThread := None\<rparr>) s2
             in do {
               s4 \<leftarrow> (if WaitListHead (Objects s3 mut) \<noteq> [] then KiWaitTest mut increment s3 else Some s3);
               let s5 = set_wait_next wait t irql s4;
               Some (Inr (oldState, if leave then KeLeaveCriticalRegionThread t s5 else s5))
             }
           else Some (Inr (oldState, set_wait_next wait t irql s1)))"

definition KeReleaseMutex ::
    "nat \<Rightarrow> nat \<Rightarrow> bool \<Rightarrow> uchar \<Rightarrow> dispatcher \<Rightarrow> (ntstatus + long \<times> dispatcher) option" where
  "KeReleaseMutex t mut wait irql s = KeReleaseMutant t mut 1 False wait irql s"

text \<open>
  \<^verbatim>\<open>KeRundownThread\<close>, for the mutants the current thread still owns. \<^const>\<open>Inl\<close> is the bugcheck on
  a kernel mutex.
\<close>

abbreviation THREAD_TERMINATE_HELD_MUTEX :: ntstatus where "THREAD_TERMINATE_HELD_MUTEX \<equiv> 0x4000008A"

partial_function (option) KeRundownThread :: "nat \<Rightarrow> dispatcher \<Rightarrow> (ntstatus + dispatcher) option" where
  "KeRundownThread t s =
     (case MutantListHead (Threads s t) of
        [] \<Rightarrow> Some (Inr s)
      | mut # rest \<Rightarrow>
          if ApcDisable (Objects s mut) \<noteq> 0 then Some (Inl THREAD_TERMINATE_HELD_MUTEX)
          else
            let s1 = update_thread t (\<lambda>th. th\<lparr>MutantListHead := rest\<rparr>) s;
                s2 = update_object mut (\<lambda>x. x\<lparr>SignalState := 1, Abandoned := True, OwnerThread := None\<rparr>) s1
            in do {
              s3 \<leftarrow> (if WaitListHead (Objects s2 mut) \<noteq> [] then KiWaitTest mut MUTANT_INCREMENT s2
                     else Some s2);
              KeRundownThread t s3
            })"

declare KeRundownThread.simps [code]

section \<open>Alerts\<close>

text \<open>The order of the processor modes as numbers: \<^verbatim>\<open>KernelMode\<close> is 0.\<close>

definition mode_le :: "kprocessor_mode \<Rightarrow> kprocessor_mode \<Rightarrow> bool" where
  "mode_le m n \<longleftrightarrow> m = KernelMode \<or> n = UserMode"

definition KeAlertThread :: "nat \<Rightarrow> kprocessor_mode \<Rightarrow> dispatcher \<Rightarrow> bool \<times> dispatcher" where
  "KeAlertThread t alertMode s =
     (let th = Threads s t; alerted = Alerted th alertMode in
      (alerted,
       if \<not> alerted then
         if ThState th = Waiting \<and> Alertable th \<and> mode_le alertMode (WaitMode th)
         then KiUnwaitThread t STATUS_ALERTED ALERT_INCREMENT s
         else update_thread t (\<lambda>th. th\<lparr>Alerted := (Alerted th)(alertMode := True)\<rparr>) s
       else s))"

definition KeTestAlertThread :: "nat \<Rightarrow> kprocessor_mode \<Rightarrow> dispatcher \<Rightarrow> bool \<times> dispatcher" where
  "KeTestAlertThread t alertMode s =
     (let th = Threads s t; alerted = Alerted th alertMode in
      (alerted,
       if alerted then update_thread t (\<lambda>th. th\<lparr>Alerted := (Alerted th)(alertMode := False)\<rparr>) s
       else if alertMode = UserMode \<and> UserApcQueued th
       then update_thread t (\<lambda>th. th\<lparr>UserApcPending := True\<rparr>) s
       else s))"

text \<open>The macro \<^verbatim>\<open>TestForAlertPending\<close>: the status that ends the wait, if there is one.\<close>

definition TestForAlertPending ::
    "nat \<Rightarrow> bool \<Rightarrow> kprocessor_mode \<Rightarrow> dispatcher \<Rightarrow> ntstatus option \<times> dispatcher" where
  "TestForAlertPending t alertable waitMode s =
     (let th = Threads s t in
      if alertable then
        if Alerted th waitMode
        then (Some STATUS_ALERTED,
              update_thread t (\<lambda>th. th\<lparr>Alerted := (Alerted th)(waitMode := False)\<rparr>) s)
        else if waitMode \<noteq> KernelMode \<and> UserApcQueued th
        then (Some STATUS_USER_APC, update_thread t (\<lambda>th. th\<lparr>UserApcPending := True\<rparr>) s)
        else if Alerted th KernelMode
        then (Some STATUS_ALERTED,
              update_thread t (\<lambda>th. th\<lparr>Alerted := (Alerted th)(KernelMode := False)\<rparr>) s)
        else (None, s)
      else if UserApcPending th \<and> waitMode = UserMode then (Some STATUS_USER_APC, s)
      else (None, s))"

end
