(* ===== verification/Dispatcher_Wait.thy ===== *)
theory Dispatcher_Wait
  imports Dispatcher_Ops
begin

text \<open>
  \<^verbatim>\<open>KeWaitForSingleObject\<close> and \<^verbatim>\<open>KeWaitForMultipleObjects\<close>: one turn of the wait loop, from the
  initialisation of the thread's wait fields to the return, the exception or the switch to another
  thread, and what follows the switch when the thread runs again.

  \<open>timeout\<close> is \<^const>\<open>None\<close> without a timeout; otherwise it is the result of \<^verbatim>\<open>KiCheckDueTime\<close>: TRUE
  while the due time has not passed. The activation of a kernel queue's next thread and the
  balance set manager's list are not modelled.
\<close>

unbundle bit_operations_syntax

text \<open>
  How a turn ends. \<open>WaitApc\<close>: a kernel APC is pending, the lock is released and the turn is
  repeated. \<open>WaitBlocked\<close>: the thread waits.
\<close>

datatype wait_outcome =
  WaitReturns ntstatus | WaitRaises ntstatus | WaitApc | WaitBlocked | WaitBugCheck

abbreviation MAXIMUM_WAIT_OBJECTS :: nat where "MAXIMUM_WAIT_OBJECTS \<equiv> 64"
abbreviation THREAD_WAIT_OBJECTS :: nat where "THREAD_WAIT_OBJECTS \<equiv> 3"

text \<open>The wait blocks that \<^verbatim>\<open>InitializeWaitSingle\<close> and \<^verbatim>\<open>InitializeWaitMultiple\<close> set up.\<close>

definition single_wait_block :: "nat \<Rightarrow> nat \<Rightarrow> kwait_block" where
  "single_wait_block t ob =
     \<lparr>WbThread = t, WbObject = ob, WbWaitKey = STATUS_SUCCESS, WbWaitType = WaitAny\<rparr>"

definition multiple_wait_block :: "nat \<Rightarrow> wait_type \<Rightarrow> nat \<Rightarrow> nat \<Rightarrow> kwait_block" where
  "multiple_wait_block t waitType index ob =
     \<lparr>WbThread = t, WbObject = ob, WbWaitKey = of_nat index, WbWaitType = waitType\<rparr>"

definition multiple_wait_blocks :: "nat \<Rightarrow> wait_type \<Rightarrow> nat list \<Rightarrow> kwait_block list" where
  "multiple_wait_blocks t waitType obs =
     map (\<lambda>i. multiple_wait_block t waitType i (obs ! i)) [0..<length obs]"

definition initialize_wait ::
    "nat \<Rightarrow> kwait_block list \<Rightarrow> bool \<Rightarrow> kprocessor_mode \<Rightarrow> uchar \<Rightarrow> dispatcher \<Rightarrow> dispatcher" where
  "initialize_wait t blocks alertable waitMode irql =
     update_thread t (\<lambda>th. th\<lparr>WaitBlockList := blocks, WaitStatus := 0, Alertable := alertable,
       WaitMode := waitMode, WaitIrql := irql, WaitNext := False\<rparr>)"

definition kernel_apc_deliverable :: "kthread \<Rightarrow> bool" where
  "kernel_apc_deliverable th \<longleftrightarrow>
     KernelApcPending th \<and> SpecialApcDisable th = 0 \<and> WaitIrql th < APC_LEVEL"

text \<open>
  The end of both waits once nothing satisfies them: the alert test, the timeout test, and the
  insertion of the wait blocks in the lists of their objects.
\<close>

definition insert_wait_block :: "kwait_block \<Rightarrow> dispatcher \<Rightarrow> dispatcher" where
  "insert_wait_block wb =
     update_object (WbObject wb) (\<lambda>x. x\<lparr>WaitListHead := WaitListHead x @ [wb]\<rparr>)"

definition block_thread :: "nat \<Rightarrow> bool \<Rightarrow> dispatcher \<Rightarrow> dispatcher" where
  "block_thread t timer s =
     update_thread t (\<lambda>th. th\<lparr>ThState := Waiting, TimerInserted := timer\<rparr>)
       (fold insert_wait_block (WaitBlockList (Threads s t)) s)"

definition wait_not_satisfied ::
    "nat \<Rightarrow> bool \<Rightarrow> kprocessor_mode \<Rightarrow> bool option \<Rightarrow> dispatcher \<Rightarrow> wait_outcome \<times> dispatcher" where
  "wait_not_satisfied t alertable waitMode timeout s =
     (case TestForAlertPending t alertable waitMode s of
        (Some status, s1) \<Rightarrow> (WaitReturns status, s1)
      | (None, s1) \<Rightarrow>
          if timeout = Some False then (WaitReturns STATUS_TIMEOUT, s1)
          else (WaitBlocked, block_thread t (timeout \<noteq> None) s1))"

section \<open>Waiting for one object\<close>

definition KeWaitForSingleObject ::
    "nat \<Rightarrow> nat \<Rightarrow> kprocessor_mode \<Rightarrow> bool \<Rightarrow> bool option \<Rightarrow> uchar \<Rightarrow> dispatcher \<Rightarrow>
     wait_outcome \<times> dispatcher" where
  "KeWaitForSingleObject t ob waitMode alertable timeout irql s0 =
     (let s = initialize_wait t [single_wait_block t ob] alertable waitMode irql s0;
          x = Objects s ob in
      if kernel_apc_deliverable (Threads s t) then (WaitApc, s)
      else if ObType x = MutantObject then
        if signaled x \<or> OwnerThread x = Some t then
          if SignalState x \<noteq> MINLONG then
            let s1 = KiWaitSatisfyMutant ob t s in (WaitReturns (WaitStatus (Threads s1 t)), s1)
          else (WaitRaises STATUS_MUTANT_LIMIT_EXCEEDED, s)
        else wait_not_satisfied t alertable waitMode timeout s
      else if signaled x then (WaitReturns 0, KiWaitSatisfyOther ob s)
      else wait_not_satisfied t alertable waitMode timeout s)"

section \<open>Waiting for several objects\<close>

text \<open>
  The scan of a wait for any object from an index on: the first object that satisfies the wait
  (on the right), or the recursion limit of a mutant (on the left).
\<close>

fun wait_any_scan :: "nat \<Rightarrow> dispatcher \<Rightarrow> nat \<Rightarrow> nat list \<Rightarrow> (ntstatus + nat) option" where
  "wait_any_scan t s index [] = None"
| "wait_any_scan t s index (ob # rest) =
     (let x = Objects s ob in
      if ObType x = MutantObject then
        if signaled x \<or> OwnerThread x = Some t then
          if SignalState x \<noteq> MINLONG then Some (Inr index)
          else Some (Inl STATUS_MUTANT_LIMIT_EXCEEDED)
        else wait_any_scan t s (index + 1) rest
      else if signaled x then Some (Inr index)
      else wait_any_scan t s (index + 1) rest)"

text \<open>The scan of a wait for all objects: can all be satisfied now?\<close>

fun wait_all_scan :: "nat \<Rightarrow> dispatcher \<Rightarrow> nat list \<Rightarrow> ntstatus + bool" where
  "wait_all_scan t s [] = Inr True"
| "wait_all_scan t s (ob # rest) =
     (let x = Objects s ob in
      if ObType x = MutantObject then
        if OwnerThread x = Some t \<and> SignalState x = MINLONG then Inl STATUS_MUTANT_LIMIT_EXCEEDED
        else if \<not> signaled x \<and> OwnerThread x \<noteq> Some t then Inr False
        else wait_all_scan t s rest
      else if \<not> signaled x then Inr False
      else wait_all_scan t s rest)"

text \<open>\<open>builtin\<close>: no wait block array was passed, the thread's own blocks are used.\<close>

definition KeWaitForMultipleObjects ::
    "nat \<Rightarrow> nat list \<Rightarrow> wait_type \<Rightarrow> kprocessor_mode \<Rightarrow> bool \<Rightarrow> bool option \<Rightarrow> bool \<Rightarrow> uchar \<Rightarrow>
     dispatcher \<Rightarrow> wait_outcome \<times> dispatcher" where
  "KeWaitForMultipleObjects t obs waitType waitMode alertable timeout builtin irql s0 =
     (if length obs > (if builtin then THREAD_WAIT_OBJECTS else MAXIMUM_WAIT_OBJECTS)
      then (WaitBugCheck, s0)
      else
        let s = initialize_wait t (multiple_wait_blocks t waitType obs) alertable waitMode irql s0 in
        if kernel_apc_deliverable (Threads s t) then (WaitApc, s)
        else if waitType = WaitAny then
          (case wait_any_scan t s 0 obs of
             Some (Inl status) \<Rightarrow> (WaitRaises status, s)
           | Some (Inr index) \<Rightarrow>
               if ObType (Objects s (obs ! index)) = MutantObject then
                 let s1 = KiWaitSatisfyMutant (obs ! index) t s
                 in (WaitReturns (of_nat index OR WaitStatus (Threads s1 t)), s1)
               else (WaitReturns (of_nat index), KiWaitSatisfyOther (obs ! index) s)
           | None \<Rightarrow> wait_not_satisfied t alertable waitMode timeout s)
        else
          (case wait_all_scan t s obs of
             Inl status \<Rightarrow> (WaitRaises status, s)
           | Inr True \<Rightarrow>
               let s1 = fold (\<lambda>ob. KiWaitSatisfyAny ob t) obs s
               in (WaitReturns (WaitStatus (Threads s1 t)), s1)
           | Inr False \<Rightarrow> wait_not_satisfied t alertable waitMode timeout s))"

text \<open>
  After \<^verbatim>\<open>KiSwapThread\<close>: the wait status ends the wait unless the thread was woken for a kernel
  APC, which repeats the turn.
\<close>

definition wait_resumed :: "nat \<Rightarrow> dispatcher \<Rightarrow> wait_outcome" where
  "wait_resumed t s =
     (if WaitStatus (Threads s t) \<noteq> STATUS_KERNEL_APC
      then WaitReturns (WaitStatus (Threads s t)) else WaitApc)"

end
