(* ===== verification/Dispatcher_Facts.thy ===== *)
theory Dispatcher_Facts
  imports Dispatcher_Wait
begin

text \<open>
  The invariant of the dispatcher: the wait lists of the objects and the wait blocks of the
  threads describe the same waits, signal states and ownership are in range, and nobody waits for
  what is available (no wakeup is lost). The loops that test waits establish it.
\<close>

unbundle bit_operations_syntax

section \<open>The invariant\<close>

definition waits :: "dispatcher \<Rightarrow> nat \<Rightarrow> bool" where
  "waits s t \<longleftrightarrow> ThState (Threads s t) = Waiting"

definition lists_ok :: "dispatcher \<Rightarrow> bool" where
  "lists_ok s \<longleftrightarrow>
     (\<forall>ob wb. wb \<in> set (WaitListHead (Objects s ob)) \<longrightarrow>
        WbObject wb = ob \<and> waits s (WbThread wb) \<and> wb \<in> set (WaitBlockList (Threads s (WbThread wb)))) \<and>
     (\<forall>t. waits s t \<longrightarrow> (\<forall>wb \<in> set (WaitBlockList (Threads s t)).
        WbThread wb = t \<and> wb \<in> set (WaitListHead (Objects s (WbObject wb))))) \<and>
     (\<forall>ob. distinct (WaitListHead (Objects s ob)))"

text \<open>
  A mutant's signal state is 1 when it is free and at most 0, down to the recursion limit, when
  it is owned; a semaphore's is its count; the others are 0 or 1.
\<close>

definition object_ok :: "dispatcher_object \<Rightarrow> bool" where
  "object_ok x \<longleftrightarrow>
     (if ObType x = MutantObject
      then sint (SignalState x) \<le> 1 \<and> (OwnerThread x = None \<longleftrightarrow> sint (SignalState x) = 1)
      else if ObType x = SemaphoreObject
      then 0 \<le> sint (SignalState x) \<and> sint (SignalState x) \<le> sint (Limit x)
      else SignalState x = 0 \<or> SignalState x = 1)"

definition objects_ok :: "dispatcher \<Rightarrow> bool" where
  "objects_ok s \<longleftrightarrow> (\<forall>ob. object_ok (Objects s ob))"

definition owns :: "dispatcher \<Rightarrow> nat \<Rightarrow> nat \<Rightarrow> bool" where
  "owns s t mut \<longleftrightarrow> ObType (Objects s mut) = MutantObject \<and> OwnerThread (Objects s mut) = Some t"

definition owners_ok :: "dispatcher \<Rightarrow> bool" where
  "owners_ok s \<longleftrightarrow> (\<forall>t. distinct (MutantListHead (Threads s t)) \<and>
     (\<forall>mut. mut \<in> set (MutantListHead (Threads s t)) \<longleftrightarrow> owns s t mut))"

definition available :: "dispatcher \<Rightarrow> nat \<Rightarrow> nat \<Rightarrow> bool" where
  "available s t ob \<longleftrightarrow> signaled (Objects s ob) \<or> owns s t ob"

text \<open>
  No waiting thread could have its wait satisfied, leaving aside what the objects in \<open>obs\<close> could
  contribute: they are the ones whose waiters are still to be tested.
\<close>

definition no_lost_wakeup :: "nat set \<Rightarrow> dispatcher \<Rightarrow> bool" where
  "no_lost_wakeup obs s \<longleftrightarrow> (\<forall>t. waits s t \<longrightarrow>
     (\<forall>wb \<in> set (WaitBlockList (Threads s t)). WbWaitType wb = WaitAny \<and> WbObject wb \<notin> obs \<longrightarrow>
        \<not> available s t (WbObject wb)) \<and>
     (\<exists>wb \<in> set (WaitBlockList (Threads s t)). WbWaitType wb = WaitAny \<or> WbObject wb \<in> obs \<or>
        \<not> available s t (WbObject wb)))"

definition dispatcher_ok :: "dispatcher \<Rightarrow> bool" where
  "dispatcher_ok s \<longleftrightarrow> lists_ok s \<and> objects_ok s \<and> owners_ok s \<and> no_lost_wakeup {} s"

section \<open>Reading updated states\<close>

lemma Objects_update_object [simp]:
  "Objects (update_object ob f s) = (Objects s)(ob := f (Objects s ob))"
  "Threads (update_object ob f s) = Threads s"
  by (simp_all add: update_object_def)

lemma Threads_update_thread [simp]:
  "Threads (update_thread t f s) = (Threads s)(t := f (Threads s t))"
  "Objects (update_thread t f s) = Objects s"
  by (simp_all add: update_thread_def)

lemma set_signal_simps [simp]:
  "Objects (set_signal ob v s) = (Objects s)(ob := (Objects s ob)\<lparr>SignalState := v\<rparr>)"
  "Threads (set_signal ob v s) = Threads s"
  by (simp_all add: set_signal_def)

lemma signaled_values [simp]:
  "\<not> signaled (x\<lparr>SignalState := 0\<rparr>)" "signaled (x\<lparr>SignalState := 1\<rparr>)"
  by (simp_all add: signaled_def)

lemma set_wait_next_simps [simp]:
  "Objects (set_wait_next w t irql s) = Objects s"
  "ThState (Threads (set_wait_next w t irql s) u) = ThState (Threads s u)"
  "WaitBlockList (Threads (set_wait_next w t irql s) u) = WaitBlockList (Threads s u)"
  "MutantListHead (Threads (set_wait_next w t irql s) u) = MutantListHead (Threads s u)"
  "WaitStatus (Threads (set_wait_next w t irql s) u) = WaitStatus (Threads s u)"
  by (simp_all add: set_wait_next_def)

text \<open>Two states with the same waits, objects and owned mutants.\<close>

definition same_waits :: "dispatcher \<Rightarrow> dispatcher \<Rightarrow> bool" where
  "same_waits s s' \<longleftrightarrow>
     (\<forall>ob. WaitListHead (Objects s' ob) = WaitListHead (Objects s ob)) \<and>
     (\<forall>t. ThState (Threads s' t) = ThState (Threads s t) \<and>
          WaitBlockList (Threads s' t) = WaitBlockList (Threads s t))"

lemma same_waits_lists: "same_waits s s' \<Longrightarrow> lists_ok s' = lists_ok s"
  by (simp add: same_waits_def lists_ok_def waits_def)

lemma dispatcher_ok_cong:
  assumes "same_waits s s'" "Objects s' = Objects s"
    and "\<And>t. MutantListHead (Threads s' t) = MutantListHead (Threads s t)"
  shows "dispatcher_ok s' = dispatcher_ok s"
  using same_waits_lists [OF assms(1)] assms
  by (simp add: dispatcher_ok_def objects_ok_def owners_ok_def no_lost_wakeup_def
      same_waits_def waits_def available_def owns_def)

lemma dispatcher_ok_set_wait_next [simp]:
  "dispatcher_ok (set_wait_next w t irql s) = dispatcher_ok s"
  by (rule dispatcher_ok_cong) (simp_all add: same_waits_def)

section \<open>Unlinking a thread\<close>

lemma fold_remove_wait_block:
  "Objects (fold remove_wait_block wbs s) ob = (Objects s ob)\<lparr>WaitListHead :=
     fold remove1 (filter (\<lambda>wb. WbObject wb = ob) wbs) (WaitListHead (Objects s ob))\<rparr>"
  "Threads (fold remove_wait_block wbs s) = Threads s"
  by (induction wbs arbitrary: s) (auto simp: remove_wait_block_def)

lemma fold_remove1_filter:
  "distinct xs \<Longrightarrow> fold remove1 ys xs = filter (\<lambda>x. x \<notin> set ys) xs"
proof (induction ys arbitrary: xs)
  case (Cons y ys)
  then have "fold remove1 (y # ys) xs = filter (\<lambda>x. x \<notin> set ys) (filter (\<lambda>x. x \<noteq> y) xs)"
    by (simp add: distinct_remove1_removeAll removeAll_filter_not_eq eq_commute)
  then show ?case by (simp add: conj_commute)
qed simp

lemma unlink_lists:
  assumes "lists_ok s" "waits s t"
  shows "Objects (fold remove_wait_block (WaitBlockList (Threads s t)) s) ob =
    (Objects s ob)\<lparr>WaitListHead := filter (\<lambda>wb. WbThread wb \<noteq> t) (WaitListHead (Objects s ob))\<rparr>"
proof -
  have "wb \<in> set (filter (\<lambda>wb. WbObject wb = ob) (WaitBlockList (Threads s t))) \<longleftrightarrow> WbThread wb = t"
    if "wb \<in> set (WaitListHead (Objects s ob))" for wb
    using assms that unfolding lists_ok_def by auto
  then have "fold remove1 (filter (\<lambda>wb. WbObject wb = ob) (WaitBlockList (Threads s t)))
      (WaitListHead (Objects s ob)) = filter (\<lambda>wb. WbThread wb \<noteq> t) (WaitListHead (Objects s ob))"
    using assms(1) by (subst fold_remove1_filter) (auto simp: lists_ok_def intro!: filter_cong)
  then show ?thesis by (simp add: fold_remove_wait_block)
qed

text \<open>The effect of unlinking and readying a thread, by whatever operation.\<close>

definition unwaited :: "nat \<Rightarrow> dispatcher \<Rightarrow> dispatcher \<Rightarrow> bool" where
  "unwaited t s s' \<longleftrightarrow>
     (\<forall>ob. Objects s' ob = (Objects s ob)\<lparr>WaitListHead :=
        filter (\<lambda>wb. WbThread wb \<noteq> t) (WaitListHead (Objects s ob))\<rparr>) \<and>
     (\<forall>u. WaitBlockList (Threads s' u) = WaitBlockList (Threads s u) \<and>
          MutantListHead (Threads s' u) = MutantListHead (Threads s u) \<and>
          (u \<noteq> t \<longrightarrow> ThState (Threads s' u) = ThState (Threads s u))) \<and>
     \<not> waits s' t"

lemma ready_unwaited:
  assumes "lists_ok s" "waits s t"
    and "\<And>th. WaitBlockList (f th) = WaitBlockList th \<and> MutantListHead (f th) = MutantListHead th"
  shows "unwaited t s (KiReadyThread t (update_thread t f (KiUnlinkThread t status s)))"
  using fold_remove_wait_block(2) [of "WaitBlockList (Threads s t)" s] unlink_lists [OF assms(1,2)] assms(3)
  by (simp add: unwaited_def KiReadyThread_def KiUnlinkThread_def waits_def)

lemma KiUnwaitThread_unwaited:
  "lists_ok s \<Longrightarrow> waits s t \<Longrightarrow> unwaited t s (KiUnwaitThread t status increment s)"
  unfolding KiUnwaitThread_def by (rule ready_unwaited) simp_all

lemma unwaited_lists: "unwaited t s s' \<Longrightarrow> lists_ok s \<Longrightarrow> lists_ok s'"
  unfolding lists_ok_def unwaited_def waits_def by (auto; metis)

lemma unwaited_waits: "unwaited t s s' \<Longrightarrow> waits s' u \<longleftrightarrow> waits s u \<and> u \<noteq> t"
  by (cases "u = t") (auto simp: unwaited_def waits_def)

lemma unwaited_owns: "unwaited t s s' \<Longrightarrow> owns s' u ob = owns s u ob"
  by (simp add: unwaited_def owns_def)

lemma unwaited_available: "unwaited t s s' \<Longrightarrow> available s' u ob = available s u ob"
  by (simp add: available_def unwaited_owns) (simp add: unwaited_def signaled_def)

lemma unwaited_objects: "unwaited t s s' \<Longrightarrow> objects_ok s' = objects_ok s"
  by (simp add: unwaited_def objects_ok_def object_ok_def)

lemma unwaited_owners: "unwaited t s s' \<Longrightarrow> owners_ok s' = owners_ok s"
  by (simp add: owners_ok_def unwaited_owns) (simp add: unwaited_def)

lemma unwaited_no_lost: "unwaited t s s' \<Longrightarrow> no_lost_wakeup obs s \<Longrightarrow> no_lost_wakeup obs s'"
  by (simp add: no_lost_wakeup_def unwaited_waits unwaited_available) (simp add: unwaited_def)

lemmas unwaited_facts = unwaited_lists unwaited_objects unwaited_owners unwaited_no_lost

section \<open>Satisfying a wait\<close>

lemma sint_pred:
  assumes "- (2 ^ 31) < sint (x :: long)"
  shows "sint (x - 1) = sint x - 1"
proof -
  have "sint x < 2 ^ 31" using sint_lt [of x] by simp
  then have "signed_take_bit 31 (sint x - 1) = sint x - 1"
    using assms by (intro signed_take_bit_int_eq_self) auto
  then show ?thesis by (simp add: sint_word_ariths)
qed

lemma sint_eq_iff_values [simp]:
  "sint (x :: long) = 0 \<longleftrightarrow> x = 0" "sint (x :: long) = 1 \<longleftrightarrow> x = 1"
proof -
  have "sint (1 :: long) = 1" by simp
  then show "sint x = 1 \<longleftrightarrow> x = 1" by (metis signed_word_eqI)
  show "sint x = 0 \<longleftrightarrow> x = 0" by (metis signed_0 signed_word_eqI)
qed

lemma mutant_free:
  assumes "object_ok x" "ObType x = MutantObject"
  shows "OwnerThread x = None \<longleftrightarrow> SignalState x = 1" and "signaled x \<longleftrightarrow> SignalState x = 1"
proof -
  have "0 < sint (SignalState x) \<and> sint (SignalState x) \<le> 1 \<longleftrightarrow> sint (SignalState x) = 1" by arith
  with assms show "OwnerThread x = None \<longleftrightarrow> SignalState x = 1" "signaled x \<longleftrightarrow> SignalState x = 1"
    by (simp_all add: object_ok_def signaled_def)
qed

lemma mutant_held:
  assumes "object_ok x" "ObType x = MutantObject"
  shows "OwnerThread x \<noteq> None \<longleftrightarrow> sint (SignalState x) \<le> 0"
proof -
  have "sint (SignalState x) \<le> 1" "OwnerThread x = None \<longleftrightarrow> sint (SignalState x) = 1"
    using assms by (simp_all add: object_ok_def del: sint_eq_iff_values)
  then show ?thesis by (auto simp del: sint_eq_iff_values)
qed

lemma semaphore_taken:
  assumes "object_ok x" "ObType x = SemaphoreObject" "signaled x"
  shows "object_ok (x\<lparr>SignalState := SignalState x - 1\<rparr>)"
    and "sint (SignalState x - 1) = sint (SignalState x) - 1"
  using assms by (simp_all add: object_ok_def signaled_def sint_pred)

text \<open>
  What satisfying a wait of \<open>t\<close> on \<open>ob\<close> changes: the object, and the mutants that \<open>t\<close> owns.
\<close>

lemma satisfy_same_waits: "same_waits s (KiWaitSatisfyAny ob t s)"
  by (simp add: KiWaitSatisfyAny_def KiWaitSatisfyMutant_def Let_def same_waits_def)

lemma satisfy_others:
  "b \<noteq> ob \<Longrightarrow> Objects (KiWaitSatisfyAny ob t s) b = Objects s b"
  "u \<noteq> t \<Longrightarrow> Threads (KiWaitSatisfyAny ob t s) u = Threads s u"
  by (simp_all add: KiWaitSatisfyAny_def KiWaitSatisfyMutant_def Let_def)

lemma satisfy_object:
  assumes "object_ok (Objects s ob)" "signaled (Objects s ob)"
  shows "object_ok (Objects (KiWaitSatisfyAny ob t s) ob)"
    and "ObType (Objects (KiWaitSatisfyAny ob t s) ob) = ObType (Objects s ob)"
    and "ObType (Objects s ob) = MutantObject \<Longrightarrow>
      OwnerThread (Objects (KiWaitSatisfyAny ob t s) ob) = Some t \<and>
      \<not> signaled (Objects (KiWaitSatisfyAny ob t s) ob) \<and>
      MutantListHead (Threads (KiWaitSatisfyAny ob t s) t) = MutantListHead (Threads s t) @ [ob]"
    and "ObType (Objects s ob) \<noteq> MutantObject \<Longrightarrow>
      MutantListHead (Threads (KiWaitSatisfyAny ob t s) t) = MutantListHead (Threads s t)"
proof -
  have m: "ObType (Objects s ob) = MutantObject \<Longrightarrow> SignalState (Objects s ob) = 1"
    using mutant_free(2) [OF assms(1)] assms(2) by simp
  show "ObType (Objects (KiWaitSatisfyAny ob t s) ob) = ObType (Objects s ob)"
    by (simp add: KiWaitSatisfyAny_def KiWaitSatisfyMutant_def Let_def)
  show "object_ok (Objects (KiWaitSatisfyAny ob t s) ob)"
    using assms m semaphore_taken(1) [OF assms(1) _ assms(2)]
    by (auto simp: KiWaitSatisfyAny_def KiWaitSatisfyMutant_def Let_def synchronization_type_def object_ok_def)
  show "OwnerThread (Objects (KiWaitSatisfyAny ob t s) ob) = Some t \<and>
      \<not> signaled (Objects (KiWaitSatisfyAny ob t s) ob) \<and>
      MutantListHead (Threads (KiWaitSatisfyAny ob t s) t) = MutantListHead (Threads s t) @ [ob]"
    if "ObType (Objects s ob) = MutantObject"
    using that m by (simp add: KiWaitSatisfyAny_def KiWaitSatisfyMutant_def Let_def
        synchronization_type_def signaled_def)
  show "MutantListHead (Threads (KiWaitSatisfyAny ob t s) t) = MutantListHead (Threads s t)"
    if "ObType (Objects s ob) \<noteq> MutantObject"
    using that by (simp add: KiWaitSatisfyAny_def Let_def)
qed

lemma satisfy_objects_ok:
  assumes "objects_ok s" "signaled (Objects s ob)"
  shows "objects_ok (KiWaitSatisfyAny ob t s)"
proof -
  have "object_ok (Objects (KiWaitSatisfyAny ob t s) b)" for b
    using satisfy_object(1) [of s ob t] satisfy_others(1) [of b ob t s] assms
    by (cases "b = ob") (simp_all add: objects_ok_def)
  then show ?thesis by (simp add: objects_ok_def)
qed

lemma satisfy_owns:
  assumes "objects_ok s" "signaled (Objects s ob)"
  shows "owns (KiWaitSatisfyAny ob t s) u b \<longleftrightarrow>
    owns s u b \<or> b = ob \<and> u = t \<and> ObType (Objects s ob) = MutantObject"
proof (cases "b = ob")
  case False
  then show ?thesis by (simp add: owns_def satisfy_others)
next
  case True
  have ok: "object_ok (Objects s ob)" using assms(1) by (simp add: objects_ok_def)
  note sat = satisfy_object [OF ok assms(2), of t]
  have "\<not> owns s u ob"
    using mutant_free [OF ok] assms(2) by (auto simp: owns_def)
  then show ?thesis using sat(2,3) True by (auto simp: owns_def)
qed

lemma satisfy_owners_ok:
  assumes "objects_ok s" "owners_ok s" "signaled (Objects s ob)"
  shows "owners_ok (KiWaitSatisfyAny ob t s)"
proof -
  have ok: "object_ok (Objects s ob)" using assms(1) by (simp add: objects_ok_def)
  note sat = satisfy_object [OF ok assms(3), of t]
  have free: "ObType (Objects s ob) = MutantObject \<Longrightarrow> ob \<notin> set (MutantListHead (Threads s u))" for u
    using mutant_free [OF ok] assms(2,3) by (auto simp: owners_ok_def owns_def)
  have "distinct (MutantListHead (Threads (KiWaitSatisfyAny ob t s) u)) \<and>
      (\<forall>mut. mut \<in> set (MutantListHead (Threads (KiWaitSatisfyAny ob t s) u)) \<longleftrightarrow>
        owns (KiWaitSatisfyAny ob t s) u mut)" for u
  proof (cases "u = t")
    case False
    then show ?thesis
      using assms(2) by (auto simp: satisfy_others satisfy_owns [OF assms(1,3)] owners_ok_def)
  next
    case True
    then show ?thesis
      using assms(2) sat(3,4) free [of t]
      by (cases "ObType (Objects s ob) = MutantObject")
        (auto simp: satisfy_owns [OF assms(1,3)] owners_ok_def)
  qed
  then show ?thesis by (simp add: owners_ok_def)
qed

text \<open>Satisfying a wait makes nothing available to anybody else.\<close>

lemma satisfy_available:
  assumes "objects_ok s" "signaled (Objects s ob)" "u \<noteq> t" "available (KiWaitSatisfyAny ob t s) u b"
  shows "available s u b"
  using assms satisfy_others(1) [of b ob t s]
  by (cases "b = ob") (auto simp: available_def satisfy_owns)

section \<open>Testing waits\<close>

text \<open>The state in which the waiters of \<open>ob\<close> are still to be tested.\<close>

definition waking :: "nat \<Rightarrow> dispatcher \<Rightarrow> bool" where
  "waking ob s \<longleftrightarrow> lists_ok s \<and> objects_ok s \<and> owners_ok s \<and> no_lost_wakeup {ob} s \<and>
     (\<forall>t. owns s t ob \<longrightarrow> \<not> waits s t)"

lemma no_lost_mono:
  assumes "no_lost_wakeup obs s"
    and "\<And>u. waits s' u \<Longrightarrow> waits s u \<and> WaitBlockList (Threads s' u) = WaitBlockList (Threads s u)"
    and "\<And>u b. waits s' u \<Longrightarrow> b \<notin> obs' \<Longrightarrow> available s' u b \<Longrightarrow> b \<notin> obs \<and> available s u b"
  shows "no_lost_wakeup obs' s'"
  unfolding no_lost_wakeup_def
proof (intro allI impI)
  fix u
  assume w: "waits s' u"
  then have "waits s u" "WaitBlockList (Threads s' u) = WaitBlockList (Threads s u)"
    using assms(2) by blast+
  then show "(\<forall>wb \<in> set (WaitBlockList (Threads s' u)). WbWaitType wb = WaitAny \<and> WbObject wb \<notin> obs' \<longrightarrow>
        \<not> available s' u (WbObject wb)) \<and>
     (\<exists>wb \<in> set (WaitBlockList (Threads s' u)). WbWaitType wb = WaitAny \<or> WbObject wb \<in> obs' \<or>
        \<not> available s' u (WbObject wb))"
    using assms(1,3) w unfolding no_lost_wakeup_def by metis
qed

lemma waking_done:
  assumes "waking ob s" and "\<not> signaled (Objects s ob) \<or> WaitListHead (Objects s ob) = []"
  shows "dispatcher_ok s"
proof -
  have "no_lost_wakeup {} s"
    unfolding no_lost_wakeup_def
  proof (intro allI impI)
    fix u
    assume w: "waits s u"
    have ob: "\<not> available s u ob" if "wb \<in> set (WaitBlockList (Threads s u))" "WbObject wb = ob" for wb
    proof -
      have "wb \<in> set (WaitListHead (Objects s ob))"
        using assms(1) w that unfolding waking_def lists_ok_def by metis
      then show ?thesis using assms w by (auto simp: available_def waking_def)
    qed
    then show "(\<forall>wb \<in> set (WaitBlockList (Threads s u)). WbWaitType wb = WaitAny \<and> WbObject wb \<notin> {} \<longrightarrow>
        \<not> available s u (WbObject wb)) \<and>
     (\<exists>wb \<in> set (WaitBlockList (Threads s u)). WbWaitType wb = WaitAny \<or> WbObject wb \<in> {} \<or>
        \<not> available s u (WbObject wb))"
      using assms(1) w unfolding waking_def no_lost_wakeup_def by (metis empty_iff singletonD)
  qed
  then show ?thesis using assms(1) by (simp add: waking_def dispatcher_ok_def)
qed

text \<open>
  What a test of \<open>ob\<close> may change: signal and ownership of \<open>ob\<close>, and the threads that waited.
\<close>

definition test_frame :: "nat \<Rightarrow> dispatcher \<Rightarrow> dispatcher \<Rightarrow> bool" where
  "test_frame ob s s' \<longleftrightarrow>
     (\<forall>b. ObType (Objects s' b) = ObType (Objects s b) \<and> Limit (Objects s' b) = Limit (Objects s b) \<and>
        ApcDisable (Objects s' b) = ApcDisable (Objects s b) \<and>
        (b \<noteq> ob \<longrightarrow> SignalState (Objects s' b) = SignalState (Objects s b) \<and>
           OwnerThread (Objects s' b) = OwnerThread (Objects s b) \<and>
           Abandoned (Objects s' b) = Abandoned (Objects s b))) \<and>
     (\<forall>u. \<not> waits s u \<longrightarrow> Threads s' u = Threads s u)"

lemma test_frame_refl [simp]: "test_frame ob s s"
  by (simp add: test_frame_def)

lemma test_frame_trans:
  assumes "test_frame ob s s'" "test_frame ob s' s''"
  shows "test_frame ob s s''"
proof -
  have "\<not> waits s u \<Longrightarrow> \<not> waits s' u" for u
    using assms(1) by (simp add: test_frame_def waits_def)
  with assms show ?thesis by (simp add: test_frame_def)
qed

lemma unlink_other_threads:
  "u \<noteq> t \<Longrightarrow> Threads (KiUnwaitThread t status increment s) u = Threads s u"
  by (simp add: KiUnwaitThread_def KiReadyThread_def KiUnlinkThread_def fold_remove_wait_block)

lemma unwait_frame:
  assumes "lists_ok s" "waits s t"
  shows "test_frame ob s (KiUnwaitThread t status increment s)"
proof -
  note u = KiUnwaitThread_unwaited [OF assms, of status increment]
  have "Threads (KiUnwaitThread t status increment s) v = Threads s v" if "\<not> waits s v" for v
    using that assms(2) unlink_other_threads [of v t] by auto
  then show ?thesis using u by (simp add: test_frame_def unwaited_def)
qed

lemma satisfy_frame:
  assumes "waits s t"
  shows "test_frame ob s (KiWaitSatisfyAny ob t s)"
proof -
  have "Threads (KiWaitSatisfyAny ob t s) u = Threads s u" if "\<not> waits s u" for u
    using satisfy_others(2) [of u t ob s] assms that by auto
  moreover have "ObType (Objects (KiWaitSatisfyAny ob t s) ob) = ObType (Objects s ob)"
    "Limit (Objects (KiWaitSatisfyAny ob t s) ob) = Limit (Objects s ob)"
    "ApcDisable (Objects (KiWaitSatisfyAny ob t s) ob) = ApcDisable (Objects s ob)"
    by (simp_all add: KiWaitSatisfyAny_def KiWaitSatisfyMutant_def Let_def)
  ultimately show ?thesis
    using satisfy_others(1) [of _ ob t s] unfolding test_frame_def by metis
qed

lemma waking_head:
  assumes "waking ob s" "WaitListHead (Objects s ob) = wb # rest"
  shows "waits s (WbThread wb)"
  using assms unfolding waking_def lists_ok_def by (metis list.set_intros(1))

text \<open>One turn: the first waiter is unwaited, its wait satisfied if it waits for any object.\<close>

lemma waking_unwait:
  assumes w: "waking ob s" and wb: "WaitListHead (Objects s ob) = wb # rest"
    and s': "s' = KiUnwaitThread (WbThread wb) status increment s"
  shows "waking ob s'" and "test_frame ob s s'"
    and "WaitListHead (Objects s' ob) = filter (\<lambda>b. WbThread b \<noteq> WbThread wb) rest"
    and "signaled (Objects s' ob) = signaled (Objects s ob)" and "ObType (Objects s' ob) = ObType (Objects s ob)"
proof -
  have t: "lists_ok s" "waits s (WbThread wb)"
    using w waking_head [OF w wb] by (simp_all add: waking_def)
  note u = KiUnwaitThread_unwaited [OF t, of status increment, folded s']
  show "test_frame ob s s'" unfolding s' by (rule unwait_frame [OF t])
  show "WaitListHead (Objects s' ob) = filter (\<lambda>b. WbThread b \<noteq> WbThread wb) rest"
    using u wb by (simp add: unwaited_def)
  show "signaled (Objects s' ob) = signaled (Objects s ob)" "ObType (Objects s' ob) = ObType (Objects s ob)"
    using u by (simp_all add: unwaited_def signaled_def)
  show "waking ob s'"
    using w unwaited_facts [OF u] by (simp add: waking_def unwaited_owns [OF u] unwaited_waits [OF u])
qed

lemma waking_satisfy:
  assumes w: "waking ob s" and wb: "WaitListHead (Objects s ob) = wb # rest" and sig: "signaled (Objects s ob)"
    and s': "s' = KiUnwaitThread (WbThread wb) status increment (KiWaitSatisfyAny ob (WbThread wb) s)"
  shows "waking ob s'" and "test_frame ob s s'"
    and "WaitListHead (Objects s' ob) = filter (\<lambda>b. WbThread b \<noteq> WbThread wb) rest"
proof -
  let ?t = "WbThread wb" and ?s = "KiWaitSatisfyAny ob (WbThread wb) s"
  have ok: "lists_ok s" "objects_ok s" "owners_ok s" "waits s ?t"
    using w waking_head [OF w wb] by (simp_all add: waking_def)
  have same: "same_waits s ?s" by (rule satisfy_same_waits)
  have l: "lists_ok ?s" "waits ?s ?t"
    using ok same same_waits_lists [OF same] by (simp_all add: same_waits_def waits_def)
  note u = KiUnwaitThread_unwaited [OF l, of status increment, folded s']
  show "test_frame ob s s'"
    unfolding s' by (rule test_frame_trans [OF satisfy_frame [OF ok(4)] unwait_frame [OF l]])
  show "WaitListHead (Objects s' ob) = filter (\<lambda>b. WbThread b \<noteq> ?t) rest"
    using u wb same by (simp add: unwaited_def same_waits_def)
  have wt: "waits s' v \<longleftrightarrow> waits s v \<and> v \<noteq> ?t" for v
    using unwaited_waits [OF u] same by (simp add: waits_def same_waits_def)
  have "no_lost_wakeup {ob} s'"
  proof (rule no_lost_mono [where s = s])
    show "no_lost_wakeup {ob} s" using w by (simp add: waking_def)
    show "waits s v \<and> WaitBlockList (Threads s' v) = WaitBlockList (Threads s v)" if "waits s' v" for v
      using that wt u same by (simp add: unwaited_def same_waits_def)
    show "b \<notin> {ob} \<and> available s v b" if "waits s' v" "b \<notin> {ob}" "available s' v b" for v b
      using that wt satisfy_available [OF ok(2) sig, of v ?t b] unwaited_available [OF u] by simp
  qed
  moreover have "\<not> waits s' v" if "owns s' v ob" for v
    using that wt w unwaited_owns [OF u] satisfy_owns [OF ok(2) sig] by (auto simp: waking_def)
  ultimately show "waking ob s'"
    using unwaited_facts(1-3) [OF u] l satisfy_objects_ok [OF ok(2) sig] satisfy_owners_ok [OF ok(2,3) sig]
    by (simp add: waking_def)
qed

lemma KiWaitTest_ok:
  "waking ob s \<Longrightarrow> \<exists>s'. KiWaitTest ob increment s = Some s' \<and> dispatcher_ok s' \<and> test_frame ob s s'"
proof (induction "length (WaitListHead (Objects s ob))" arbitrary: s rule: less_induct)
  case less
  note eq = KiWaitTest.simps [of ob increment s]
  show ?case
  proof (cases "signaled (Objects s ob) \<and> WaitListHead (Objects s ob) \<noteq> []")
    case False
    then have "KiWaitTest ob increment s = Some s" by (subst eq) (rule if_not_P)
    then show ?thesis using waking_done [OF less.prems] False by auto
  next
    case True
    then obtain wb rest where wb: "WaitListHead (Objects s ob) = wb # rest" by (meson neq_Nil_conv)
    define s1 where "s1 = (if WbWaitType wb = WaitAny
      then KiUnwaitThread (WbThread wb) (WbWaitKey wb) increment (KiWaitSatisfyAny ob (WbThread wb) s)
      else KiUnwaitThread (WbThread wb) STATUS_KERNEL_APC increment s)"
    have s1: "waking ob s1" "test_frame ob s s1"
      "WaitListHead (Objects s1 ob) = filter (\<lambda>b. WbThread b \<noteq> WbThread wb) rest"
      using waking_satisfy [OF less.prems wb _ refl] waking_unwait [OF less.prems wb refl] True
      by (simp_all add: s1_def)
    have "KiWaitTest ob increment s = KiWaitTest ob increment s1"
      using True wb by (simp add: eq s1_def Let_def)
    moreover have "length (WaitListHead (Objects s1 ob)) < length (WaitListHead (Objects s ob))"
      using s1(3) wb by (simp add: le_imp_less_Suc)
    ultimately show ?thesis
      using less.hyps [OF _ s1(1)] test_frame_trans [OF s1(2)] by metis
  qed
qed

text \<open>A signal of an object that is not a mutant makes its waiters due for a test.\<close>

lemma set_signal_facts:
  assumes ok: "dispatcher_ok s" and x: "object_ok ((Objects s ob)\<lparr>SignalState := v\<rparr>)"
    and m: "ObType (Objects s ob) \<noteq> MutantObject"
  shows "lists_ok (set_signal ob v s)" and "objects_ok (set_signal ob v s)"
    and "owners_ok (set_signal ob v s)" and "no_lost_wakeup {ob} (set_signal ob v s)"
    and "owns (set_signal ob v s) u b = owns s u b"
    and "0 < sint v \<longrightarrow> signaled (Objects s ob) \<Longrightarrow> no_lost_wakeup {} (set_signal ob v s)"
proof -
  let ?s = "set_signal ob v s"
  have same: "same_waits s ?s" by (simp add: same_waits_def)
  show "lists_ok ?s" using ok same_waits_lists [OF same] by (simp add: dispatcher_ok_def)
  show "objects_ok ?s" using ok x by (simp add: dispatcher_ok_def objects_ok_def)
  have o: "owns ?s u b = owns s u b" for u b by (simp add: owns_def)
  then show "owns ?s u b = owns s u b" .
  show "owners_ok ?s" using ok o by (simp add: dispatcher_ok_def owners_ok_def)
  have w: "waits ?s u \<Longrightarrow> waits s u \<and> WaitBlockList (Threads ?s u) = WaitBlockList (Threads s u)" for u
    by (simp add: waits_def)
  have other: "b \<noteq> ob \<Longrightarrow> available ?s u b \<Longrightarrow> available s u b" for u b
    by (simp add: available_def o)
  show "no_lost_wakeup {ob} ?s"
    by (rule no_lost_mono [where s = s and obs = "{}"])
      (use ok w other in \<open>auto simp: dispatcher_ok_def\<close>)
  show "no_lost_wakeup {} ?s" if "0 < sint v \<longrightarrow> signaled (Objects s ob)"
  proof (rule no_lost_mono [where s = s and obs = "{}", OF _ w])
    show "no_lost_wakeup {} s" using ok by (simp add: dispatcher_ok_def)
    show "b \<notin> {} \<and> available s u b" if a: "available ?s u b" for u b
    proof (cases "b = ob")
      case True
      then show ?thesis using a \<open>0 < sint v \<longrightarrow> signaled (Objects s ob)\<close> by (auto simp: available_def o signaled_def)
    qed (use a other in auto)
  qed
qed

lemma waking_set_signal:
  assumes "dispatcher_ok s" "object_ok ((Objects s ob)\<lparr>SignalState := v\<rparr>)" "ObType (Objects s ob) \<noteq> MutantObject"
  shows "waking ob (set_signal ob v s)"
  using set_signal_facts [OF assms] assms(3) by (simp add: waking_def owns_def)

lemma dispatcher_ok_set_signal:
  assumes "dispatcher_ok s" "object_ok ((Objects s ob)\<lparr>SignalState := v\<rparr>)" "ObType (Objects s ob) \<noteq> MutantObject"
    and "(0 < sint v \<longrightarrow> signaled (Objects s ob)) \<or> WaitListHead (Objects s ob) = []"
  shows "dispatcher_ok (set_signal ob v s)"
  using set_signal_facts [OF assms(1-3)] waking_done [OF waking_set_signal [OF assms(1-3)]] assms(4)
  by (auto simp: dispatcher_ok_def)

section \<open>The interface of the wait tests\<close>

text \<open>
  What an operation that signals an object relies on: for an object it suits, a test of its
  waiters returns, leaves no wakeup lost and touches nothing but the object and its waiters.
\<close>

locale wait_test =
  fixes suits :: "kobject \<Rightarrow> bool"
    and test :: "nat \<Rightarrow> uchar \<Rightarrow> dispatcher \<Rightarrow> dispatcher option"
  assumes test_ok: "waking ob s \<Longrightarrow> suits (ObType (Objects s ob)) \<Longrightarrow> signaled (Objects s ob) \<Longrightarrow>
    WaitListHead (Objects s ob) \<noteq> [] \<Longrightarrow>
    \<exists>s'. test ob increment s = Some s' \<and> dispatcher_ok s' \<and> test_frame ob s s'"
begin

text \<open>Signaling an object that was not signaled and testing its waiters.\<close>

lemma signal_and_test:
  assumes "dispatcher_ok s" "object_ok ((Objects s ob)\<lparr>SignalState := v\<rparr>)" "0 < sint v"
    and "suits (ObType (Objects s ob))" "ObType (Objects s ob) \<noteq> MutantObject"
    and "WaitListHead (Objects s ob) \<noteq> []"
  shows "\<exists>s'. test ob increment (set_signal ob v s) = Some s' \<and> dispatcher_ok s' \<and>
    test_frame ob (set_signal ob v s) s'"
  using test_ok [OF waking_set_signal [OF assms(1,2,5)]] assms(3,4,6) by (simp add: signaled_def)

text \<open>Signaling an object and testing its waiters when there are any to test.\<close>

lemma signal_if_waiters:
  assumes "dispatcher_ok s" "object_ok ((Objects s ob)\<lparr>SignalState := v\<rparr>)"
    and "suits (ObType (Objects s ob))" "ObType (Objects s ob) \<noteq> MutantObject"
    and "SignalState (Objects s ob) \<noteq> 0 \<or> 0 < sint v"
  shows "\<exists>s'. (if SignalState (Objects s ob) = 0 \<and> WaitListHead (Objects s ob) \<noteq> []
      then test ob increment (set_signal ob v s) else Some (set_signal ob v s)) = Some s' \<and>
    dispatcher_ok s' \<and> test_frame ob (set_signal ob v s) s'"
proof (cases "SignalState (Objects s ob) = 0 \<and> WaitListHead (Objects s ob) \<noteq> []")
  case True
  then show ?thesis using signal_and_test [OF assms(1,2) _ assms(3,4)] assms(5) by simp
next
  case False
  have "object_ok (Objects s ob)" using assms(1) by (simp add: dispatcher_ok_def objects_ok_def)
  then have "0 \<le> sint (SignalState (Objects s ob))"
    using assms(4) by (auto simp: object_ok_def split: if_splits)
  then have "SignalState (Objects s ob) \<noteq> 0 \<Longrightarrow> signaled (Objects s ob)"
    using sint_eq_iff_values(1) [of "SignalState (Objects s ob)"] unfolding signaled_def by linarith
  then show ?thesis
    using False dispatcher_ok_set_signal [OF assms(1,2,4)] by auto
qed

end

interpretation any_test: wait_test "\<lambda>k. True" KiWaitTest
  by unfold_locales (rule KiWaitTest_ok)

lemma KiWaitTestSynchronizationObject_ok:
  "waking ob s \<Longrightarrow> synchronization_type (ObType (Objects s ob)) \<Longrightarrow> WaitListHead (Objects s ob) \<noteq> [] \<Longrightarrow>
   \<exists>s'. KiWaitTestSynchronizationObject ob increment s = Some s' \<and> dispatcher_ok s' \<and> test_frame ob s s'"
proof (induction "length (WaitListHead (Objects s ob))" arbitrary: s rule: less_induct)
  case less
  obtain wb rest where wb: "WaitListHead (Objects s ob) = wb # rest"
    using less.prems(3) by (meson neq_Nil_conv)
  note eq = KiWaitTestSynchronizationObject.simps [of ob increment s]
  show ?case
  proof (cases "WbWaitType wb = WaitAny")
    case True
    let ?s = "set_signal ob 0 s"
    have same: "same_waits s ?s" by (simp add: same_waits_def)
    have own: "owns ?s u b = owns s u b" for u b by (simp add: owns_def)
    have "waking ob ?s"
      using less.prems(1,2) same_waits_lists [OF same] own
      by (auto simp: waking_def objects_ok_def owners_ok_def object_ok_def synchronization_type_def
          intro!: no_lost_mono [of "{ob}" s] simp: waits_def available_def)
    then have w: "waking ob ?s" "WaitListHead (Objects ?s ob) = wb # rest" using wb by simp_all
    let ?s1 = "KiUnwaitThread (WbThread wb) (WbWaitKey wb) increment ?s"
    have "dispatcher_ok ?s1"
      using waking_done [OF waking_unwait(1) [OF w refl]] waking_unwait(4) [OF w refl] by simp
    moreover have "test_frame ob s ?s1"
      by (rule test_frame_trans [OF _ waking_unwait(2) [OF w refl]]) (simp add: test_frame_def)
    ultimately show ?thesis using True wb by (simp add: eq Let_def)
  next
    case False
    let ?s1 = "KiUnwaitThread (WbThread wb) STATUS_KERNEL_APC increment s"
    note s1 = waking_unwait [OF less.prems(1) wb refl, of STATUS_KERNEL_APC increment]
    show ?thesis
    proof (cases "WaitListHead (Objects ?s1 ob) = []")
      case True
      then show ?thesis using waking_done [OF s1(1)] s1(2) False wb by (simp add: eq Let_def)
    next
      case ne: False
      have "length (WaitListHead (Objects ?s1 ob)) < length (WaitListHead (Objects s ob))"
        using s1(3) wb by (simp add: le_imp_less_Suc)
      then show ?thesis
        using less.hyps [OF _ s1(1) _ ne] s1(5) less.prems(2) test_frame_trans [OF s1(2)] False ne wb
        by (auto simp: eq Let_def)
    qed
  qed
qed

interpretation synchronization_test: wait_test synchronization_type KiWaitTestSynchronizationObject
  by unfold_locales (rule KiWaitTestSynchronizationObject_ok)

lemma KiWaitTestWithoutSideEffects_ok:
  "waking ob s \<Longrightarrow> WaitListHead (Objects s ob) \<noteq> [] \<Longrightarrow>
   \<exists>s'. KiWaitTestWithoutSideEffects ob increment s = Some s' \<and> dispatcher_ok s' \<and> test_frame ob s s'"
proof (induction "length (WaitListHead (Objects s ob))" arbitrary: s rule: less_induct)
  case less
  obtain wb rest where wb: "WaitListHead (Objects s ob) = wb # rest"
    using less.prems(2) by (meson neq_Nil_conv)
  define status where "status = (if WbWaitType wb = WaitAny then WbWaitKey wb else STATUS_KERNEL_APC)"
  let ?s1 = "KiUnwaitThread (WbThread wb) status increment s"
  note s1 = waking_unwait [OF less.prems(1) wb refl, of status increment]
  have eq: "KiWaitTestWithoutSideEffects ob increment s =
      (if WaitListHead (Objects ?s1 ob) \<noteq> [] then KiWaitTestWithoutSideEffects ob increment ?s1 else Some ?s1)"
    using wb by (simp add: KiWaitTestWithoutSideEffects.simps [of ob increment s] Let_def status_def)
  show ?case
  proof (cases "WaitListHead (Objects ?s1 ob) = []")
    case True
    then show ?thesis using waking_done [OF s1(1)] s1(2) by (simp add: eq)
  next
    case False
    have "length (WaitListHead (Objects ?s1 ob)) < length (WaitListHead (Objects s ob))"
      using s1(3) wb by (simp add: le_imp_less_Suc)
    then show ?thesis
      using less.hyps [OF _ s1(1) False] test_frame_trans [OF s1(2)] False by (auto simp: eq)
  qed
qed

interpretation notification_test: wait_test "\<lambda>k. k = EventNotificationObject" KiWaitTestWithoutSideEffects
  by unfold_locales (rule KiWaitTestWithoutSideEffects_ok)

end
