(* ===== verification/Dispatcher_Invariant.thy ===== *)
theory Dispatcher_Invariant
  imports Dispatcher_Facts
begin

text \<open>
  Every operation on events, semaphores, mutants, waits and alerts returns and keeps the
  invariant of the dispatcher.
\<close>

unbundle bit_operations_syntax

section \<open>Changes that the invariant does not see\<close>

lemma dispatcher_ok_threads:
  assumes "Objects s' = Objects s"
    and "\<And>u. ThState (Threads s' u) = ThState (Threads s u) \<and>
      MutantListHead (Threads s' u) = MutantListHead (Threads s u)"
    and "\<And>u. waits s u \<Longrightarrow> WaitBlockList (Threads s' u) = WaitBlockList (Threads s u)"
  shows "dispatcher_ok s' = dispatcher_ok s"
proof -
  have w: "waits s' u = waits s u" for u using assms(2) by (simp add: waits_def)
  have o: "owns s' u b = owns s u b" and a: "available s' u b = available s u b" for u b
    using assms(1) by (simp_all add: owns_def available_def)
  have l: "lists_ok s' = lists_ok s"
    by (simp add: lists_ok_def w assms(1,3) cong: conj_cong imp_cong)
  have n: "no_lost_wakeup {} s' = no_lost_wakeup {} s"
    by (simp add: no_lost_wakeup_def w a assms(3) cong: imp_cong)
  show ?thesis
    using assms(1,2) l n by (simp add: dispatcher_ok_def objects_ok_def owners_ok_def o)
qed

lemma dispatcher_ok_update_thread:
  assumes "ThState (f (Threads s t)) = ThState (Threads s t)"
    and "MutantListHead (f (Threads s t)) = MutantListHead (Threads s t)"
    and "waits s t \<Longrightarrow> WaitBlockList (f (Threads s t)) = WaitBlockList (Threads s t)"
  shows "dispatcher_ok (update_thread t f s) = dispatcher_ok s"
  by (rule dispatcher_ok_threads) (use assms in auto)

lemma initialize_wait_ok [simp]:
  "\<not> waits s t \<Longrightarrow> dispatcher_ok (initialize_wait t bs alertable mode irql s) = dispatcher_ok s"
  unfolding initialize_wait_def by (rule dispatcher_ok_update_thread) simp_all

lemma initialize_wait_simps [simp]:
  "Objects (initialize_wait t bs alertable mode irql s) = Objects s"
  "waits (initialize_wait t bs alertable mode irql s) u = waits s u"
  "WaitBlockList (Threads (initialize_wait t bs alertable mode irql s) t) = bs"
  "owns (initialize_wait t bs alertable mode irql s) u b = owns s u b"
  by (simp_all add: initialize_wait_def waits_def owns_def)

lemma TestForAlertPending_ok:
  assumes "TestForAlertPending t alertable mode s = (r, s')"
  shows "dispatcher_ok s' = dispatcher_ok s \<and> Objects s' = Objects s \<and> waits s' u = waits s u \<and>
    WaitBlockList (Threads s' u) = WaitBlockList (Threads s u)"
  using assms by (auto simp: TestForAlertPending_def Let_def waits_def dispatcher_ok_update_thread
      split: if_splits)

lemma KeLeaveCriticalRegionThread_ok [simp]:
  "dispatcher_ok (KeLeaveCriticalRegionThread t s) = dispatcher_ok s"
  by (simp add: KeLeaveCriticalRegionThread_def dispatcher_ok_update_thread)

lemma dispatcher_ok_object: "dispatcher_ok s \<Longrightarrow> object_ok (Objects s ob)"
  by (simp add: dispatcher_ok_def objects_ok_def)

lemma unwaited_ok: "unwaited t s s' \<Longrightarrow> dispatcher_ok s \<Longrightarrow> dispatcher_ok s'"
  using unwaited_facts by (auto simp: dispatcher_ok_def)

section \<open>Events\<close>

definition is_event :: "dispatcher_object \<Rightarrow> bool" where
  "is_event x \<longleftrightarrow> ObType x = EventNotificationObject \<or> ObType x = EventSynchronizationObject"

lemma event_ok:
  assumes "is_event x"
  shows "ObType x \<noteq> MutantObject" "object_ok (x\<lparr>SignalState := 0\<rparr>)" "object_ok (x\<lparr>SignalState := 1\<rparr>)"
  using assms by (auto simp: is_event_def object_ok_def)

lemma KeSetEvent_ok:
  assumes ok: "dispatcher_ok s" and ev: "is_event (Objects s ev)"
  shows "\<exists>s'. KeSetEvent t ev increment wait irql s = Some (SignalState (Objects s ev), s') \<and> dispatcher_ok s'"
proof (cases "ObType (Objects s ev) = EventNotificationObject")
  case True
  then show ?thesis
    using notification_test.signal_if_waiters [OF ok event_ok(3) [OF ev] True event_ok(1) [OF ev],
        where increment = increment] ok
    by (auto simp: KeSetEvent_def Let_def)
next
  case False
  then have "synchronization_type (ObType (Objects s ev))"
    using ev by (simp add: is_event_def synchronization_type_def)
  then show ?thesis
    using synchronization_test.signal_if_waiters [OF ok event_ok(3) [OF ev] _ event_ok(1) [OF ev],
        where increment = increment] False
    by (auto simp: KeSetEvent_def Let_def)
qed

lemma clear_event_ok:
  "dispatcher_ok s \<Longrightarrow> is_event (Objects s ev) \<Longrightarrow> dispatcher_ok (set_signal ev 0 s)"
  using event_ok by (intro dispatcher_ok_set_signal) auto

lemma KePulseEvent_ok:
  assumes ok: "dispatcher_ok s" and ev: "is_event (Objects s ev)"
  shows "\<exists>s'. KePulseEvent t ev increment wait irql s = Some (SignalState (Objects s ev), s') \<and>
    dispatcher_ok s' \<and> SignalState (Objects s' ev) = 0"
proof (cases "SignalState (Objects s ev) = 0 \<and> WaitListHead (Objects s ev) \<noteq> []")
  case True
  obtain s1 where s1: "KiWaitTest ev increment (set_signal ev 1 s) = Some s1" "dispatcher_ok s1"
    "test_frame ev (set_signal ev 1 s) s1"
    using any_test.signal_and_test [OF ok event_ok(3) [OF ev] _ _ event_ok(1) [OF ev], of increment] True
    by auto
  have "is_event (Objects s1 ev)" using ev s1(3) by (simp add: is_event_def test_frame_def)
  then show ?thesis
    using True s1(1) clear_event_ok [OF s1(2)] by (simp add: KePulseEvent_def Let_def)
next
  case False
  then show ?thesis using clear_event_ok [OF ok ev] by (auto simp: KePulseEvent_def Let_def)
qed

lemma KeSetEventBoostPriority_ok:
  assumes ok: "dispatcher_ok s" and ev: "ObType (Objects s ev) = EventSynchronizationObject"
  shows "\<exists>w s'. KeSetEventBoostPriority t ev s = Some (w, s') \<and> dispatcher_ok s'"
proof -
  have e: "is_event (Objects s ev)" "synchronization_type (ObType (Objects s ev))"
    using ev by (simp_all add: is_event_def synchronization_type_def)
  show ?thesis
  proof (cases "WaitListHead (Objects s ev)")
    case Nil
    then show ?thesis
      using dispatcher_ok_set_signal [OF ok event_ok(3,1) [OF e(1)]] by (simp add: KeSetEventBoostPriority_def)
  next
    case (Cons wb rest)
    show ?thesis
    proof (cases "WbWaitType wb = WaitAll")
      case True
      then show ?thesis
        using synchronization_test.signal_and_test [OF ok event_ok(3) [OF e(1)] _ e(2) event_ok(1) [OF e(1)],
            of EVENT_INCREMENT] Cons
        by (auto simp: KeSetEventBoostPriority_def)
    next
      case False
      obtain p th where p: "KiComputeNewPriority (Threads s t) 0 = (p, th)" by fastforce
      then have th: "ThState th = ThState (Threads s t)" "WaitBlockList th = WaitBlockList (Threads s t)"
        "MutantListHead th = MutantListHead (Threads s t)"
        by (auto simp: KiComputeNewPriority_def Let_def split: if_splits)
      let ?s1 = "update_thread t (\<lambda>_. th\<lparr>Priority := p\<rparr>) s"
      have ok1: "dispatcher_ok ?s1" using ok th by (simp add: dispatcher_ok_update_thread)
      have w: "waits ?s1 (WbThread wb)"
      proof -
        have "waits s (WbThread wb)"
          using ok Cons unfolding dispatcher_ok_def lists_ok_def by (metis list.set_intros(1))
        then show ?thesis using th by (auto simp: waits_def)
      qed
      have "lists_ok ?s1" using ok1 by (simp add: dispatcher_ok_def)
      note u = ready_unwaited [OF this w, where status = STATUS_SUCCESS]
      let ?s3 = "update_thread (WbThread wb) (\<lambda>w. w\<lparr>AdjustIncrement := p, AdjustReason := AdjustBoost\<rparr>)
        (KiUnlinkThread (WbThread wb) STATUS_SUCCESS ?s1)"
      have "unwaited (WbThread wb) ?s1 (KiReadyThread (WbThread wb) ?s3)"
        by (rule u) simp
      from unwaited_ok [OF this ok1] show ?thesis
        using Cons False p by (simp add: KeSetEventBoostPriority_def Let_def)
    qed
  qed
qed

section \<open>Semaphores\<close>

lemma KeReleaseSemaphore_ok:
  assumes ok: "dispatcher_ok s" and sem: "ObType (Objects s sem) = SemaphoreObject"
  shows "KeReleaseSemaphore t sem increment adjustment wait irql s = Some (Inl STATUS_SEMAPHORE_LIMIT_EXCEEDED) \<and>
      (sint adjustment < 0 \<or>
       sint (Limit (Objects s sem)) < sint (SignalState (Objects s sem)) + sint adjustment) \<or>
    (\<exists>s'. KeReleaseSemaphore t sem increment adjustment wait irql s =
        Some (Inr (SignalState (Objects s sem), s')) \<and> dispatcher_ok s' \<and> 0 \<le> sint adjustment \<and>
        sint (SignalState (Objects s sem)) + sint adjustment \<le> sint (Limit (Objects s sem)))"
proof -
  let ?old = "SignalState (Objects s sem)" and ?limit = "Limit (Objects s sem)"
  let ?new = "?old + adjustment"
  have r: "0 \<le> sint ?old" "sint ?old \<le> sint ?limit"
    using dispatcher_ok_object [OF ok, of sem] sem by (simp_all add: object_ok_def)
  have b: "sint ?limit < 2 ^ 31" "sint adjustment < 2 ^ 31" "- (2 ^ 31) \<le> sint adjustment"
    using sint_lt [of ?limit] sint_lt [of adjustment] sint_ge [of adjustment] by simp_all
  have new: "sint ?new = signed_take_bit 31 (sint ?old + sint adjustment)"
    by (simp add: sint_word_ariths)
  show ?thesis
  proof (cases "0 \<le> sint adjustment \<and> sint ?old + sint adjustment \<le> sint ?limit")
    case True
    then have n: "sint ?new = sint ?old + sint adjustment"
      using b r unfolding new by (intro signed_take_bit_int_eq_self) auto
    have x: "object_ok ((Objects s sem)\<lparr>SignalState := ?new\<rparr>)"
      using sem True n r by (simp add: object_ok_def)
    have "?old \<noteq> 0 \<or> 0 < sint ?new \<or> ?new = 0 \<and> ?old = 0"
      using n True r sint_eq_iff_values(1) [of ?new] by force
    then obtain s2 where s2: "(if ?old = 0 \<and> WaitListHead (Objects s sem) \<noteq> []
        then KiWaitTest sem increment (set_signal sem ?new s) else Some (set_signal sem ?new s)) = Some s2"
      "dispatcher_ok s2"
    proof (elim disjE)
      assume z: "?new = 0 \<and> ?old = 0"
      have "set_signal sem ?new s = set_signal sem ?old s" using z by metis
      also have "\<dots> = s" by (simp add: set_signal_def update_object_def)
      finally have same: "set_signal sem ?new s = s" .
      have "KiWaitTest sem increment s = Some s"
        using z by (subst KiWaitTest.simps) (rule if_not_P, simp add: signaled_def)
      then show thesis using that [of s] same ok by metis
    qed (use any_test.signal_if_waiters [OF ok x _ , of increment] sem that in auto)
    have "\<not> (?limit <s ?new \<or> ?new <s ?old)" using n True r by (auto simp: word_sless_alt)
    then have "KeReleaseSemaphore t sem increment adjustment wait irql s =
        Some (Inr (?old, set_wait_next wait t irql s2))"
      using s2(1) by (simp add: KeReleaseSemaphore_def Let_def split: if_splits)
    then show ?thesis using True s2(2) by auto
  next
    case False
    have "sint ?limit < sint ?new \<or> sint ?new < sint ?old"
    proof (cases "sint adjustment < 0 \<or> sint ?old + sint adjustment < 2 ^ 31")
      case True
      then have "sint ?new = sint ?old + sint adjustment"
        using b r unfolding new by (intro signed_take_bit_int_eq_self) auto
      then show ?thesis using False by auto
    next
      case over: False
      have "signed_take_bit 31 (sint ?old + sint adjustment) = sint ?old + sint adjustment - 2 ^ 32"
      proof -
        have "signed_take_bit 31 (sint ?old + sint adjustment) =
            signed_take_bit 31 (sint ?old + sint adjustment - 2 ^ 32)"
          by (simp add: signed_take_bit_eq_iff_take_bit_eq take_bit_eq_mod)
        also have "\<dots> = sint ?old + sint adjustment - 2 ^ 32"
          using over b r by (intro signed_take_bit_int_eq_self) auto
        finally show ?thesis .
      qed
      then show ?thesis using b(2) unfolding new by simp
    qed
    then have "?limit <s ?new \<or> ?new <s ?old" by (simp add: word_sless_alt)
    then show ?thesis using False by (auto simp: KeReleaseSemaphore_def Let_def)
  qed
qed

section \<open>Mutants\<close>

text \<open>A freed mutant, out of its owner's list, is due for a test of its waiters.\<close>

lemma freed_waking:
  assumes ok: "dispatcher_ok s" and same: "same_waits s s'" and m: "ObType (Objects s mut) = MutantObject"
    and others: "\<And>b. b \<noteq> mut \<Longrightarrow> Objects s' b = Objects s b"
    and x: "ObType (Objects s' mut) = MutantObject" "SignalState (Objects s' mut) = 1"
      "OwnerThread (Objects s' mut) = None"
    and th: "\<And>u. MutantListHead (Threads s' u) = remove1 mut (MutantListHead (Threads s u))"
  shows "waking mut s'"
proof -
  have own: "owns s' u b \<longleftrightarrow> owns s u b \<and> b \<noteq> mut" for u b
    using others [of b] x(3) by (cases "b = mut") (simp_all add: owns_def)
  have "objects_ok s'"
    unfolding objects_ok_def
  proof
    fix b
    show "object_ok (Objects s' b)"
      using others [of b] x dispatcher_ok_object [OF ok, of b] by (cases "b = mut") (simp_all add: object_ok_def)
  qed
  moreover have "owners_ok s'"
    using ok by (simp add: owners_ok_def th own dispatcher_ok_def set_remove1_eq)
  moreover have "no_lost_wakeup {mut} s'"
  proof (rule no_lost_mono [where s = s and obs = "{}"])
    show "no_lost_wakeup {} s" using ok by (simp add: dispatcher_ok_def)
    show "waits s u \<and> WaitBlockList (Threads s' u) = WaitBlockList (Threads s u)" if "waits s' u" for u
      using that same by (simp add: waits_def same_waits_def)
    show "b \<notin> {} \<and> available s u b" if "b \<notin> {mut}" "available s' u b" for u b
      using that others [of b] own by (simp add: available_def)
  qed
  ultimately show ?thesis
    using ok same_waits_lists [OF same] own by (simp add: waking_def dispatcher_ok_def)
qed

lemma mutant_owner_signal:
  assumes "dispatcher_ok s" "ObType (Objects s mut) = MutantObject" "OwnerThread (Objects s mut) = Some t"
  shows "sint (SignalState (Objects s mut)) \<le> 0"
  using mutant_held [OF dispatcher_ok_object [OF assms(1)] assms(2)] assms(3) by simp

lemma sint_succ:
  assumes "sint (x :: long) \<le> 0"
  shows "sint (x + 1) = sint x + 1"
proof -
  have "signed_take_bit 31 (sint x + 1) = sint x + 1"
    using assms sint_ge [of x] by (intro signed_take_bit_int_eq_self) auto
  then show ?thesis by (simp add: sint_word_ariths)
qed

text \<open>Changing the count of an owned mutant within its range.\<close>

lemma owned_count_ok:
  assumes ok: "dispatcher_ok s" and m: "owns s t mut" and v: "sint v \<le> 0"
  shows "dispatcher_ok (set_signal mut v s)"
proof -
  let ?s = "set_signal mut v s"
  have own: "owns ?s u b = owns s u b" for u b by (simp add: owns_def)
  have "object_ok ((Objects s mut)\<lparr>SignalState := v\<rparr>)"
  proof -
    have "v \<noteq> 1" using v by auto
    then show ?thesis using m v by (simp add: object_ok_def owns_def)
  qed
  then have "objects_ok ?s" using ok by (simp add: dispatcher_ok_def objects_ok_def)
  moreover have "owners_ok ?s" using ok by (simp add: dispatcher_ok_def owners_ok_def own)
  moreover have "no_lost_wakeup {} ?s"
  proof (rule no_lost_mono [where s = s and obs = "{}"])
    show "no_lost_wakeup {} s" using ok by (simp add: dispatcher_ok_def)
    show "b \<notin> {} \<and> available s u b" if "available ?s u b" for u b
      using that v by (cases "b = mut") (auto simp: available_def own signaled_def)
  qed (simp add: waits_def)
  moreover have "lists_ok ?s"
    using ok same_waits_lists [of s ?s] by (simp add: same_waits_def dispatcher_ok_def)
  ultimately show ?thesis by (simp add: dispatcher_ok_def)
qed

lemma KeReleaseMutant_ok:
  assumes ok: "dispatcher_ok s" and m: "ObType (Objects s mut) = MutantObject"
  shows "\<exists>r. KeReleaseMutant t mut increment abandoned wait irql s = Some r \<and>
    (case r of Inl status \<Rightarrow> \<not> abandoned \<and> \<not> owns s t mut
     | Inr (old, s') \<Rightarrow> old = SignalState (Objects s mut) \<and> (abandoned \<or> owns s t mut) \<and> dispatcher_ok s')"
proof (cases "\<not> abandoned \<and> OwnerThread (Objects s mut) \<noteq> Some t")
  case True
  then show ?thesis using m by (auto simp: KeReleaseMutant_def Let_def owns_def)
next
  case False
  let ?old = "SignalState (Objects s mut)"
  define s1 where "s1 = (if abandoned then update_object mut (\<lambda>y. y\<lparr>SignalState := 1, Abandoned := True\<rparr>) s
    else set_signal mut (?old + 1) s)"
  define s2 where "s2 = (if sint ?old \<le> 0 then remove_mutant_entry mut s1 else s1)"
  define s3 where "s3 = update_object mut (\<lambda>y. y\<lparr>OwnerThread := None\<rparr>) s2"
  have held: "sint ?old \<le> 0 \<longleftrightarrow> OwnerThread (Objects s mut) \<noteq> None"
    using mutant_held [OF dispatcher_ok_object [OF ok] m] by simp
  show ?thesis
  proof (cases "SignalState (Objects s1 mut) = 1")
    case True
    have lists: "mut \<in> set (MutantListHead (Threads s u)) \<longleftrightarrow> OwnerThread (Objects s mut) = Some u" for u
      using ok m by (simp add: dispatcher_ok_def owners_ok_def owns_def)
    have thr: "MutantListHead (Threads s3 u) = remove1 mut (MutantListHead (Threads s u)) \<and>
        ThState (Threads s3 u) = ThState (Threads s u) \<and>
        WaitBlockList (Threads s3 u) = WaitBlockList (Threads s u)" for u
      using held lists [of u]
      by (auto simp: s3_def s2_def s1_def remove_mutant_entry_def remove1_idem split: option.splits)
    have obj: "Objects s3 b = (if b = mut then (Objects s1 mut)\<lparr>OwnerThread := None\<rparr> else Objects s b)" for b
      by (auto simp: s3_def s2_def s1_def remove_mutant_entry_def split: option.splits)
    have w: "waking mut s3"
      by (rule freed_waking [OF ok _ m]) (use thr obj True m in \<open>auto simp: same_waits_def s1_def\<close>)
    obtain s4 where s4: "(if WaitListHead (Objects s3 mut) \<noteq> [] then KiWaitTest mut increment s3
        else Some s3) = Some s4" "dispatcher_ok s4"
      using KiWaitTest_ok [OF w, of increment] waking_done [OF w] by (cases "WaitListHead (Objects s3 mut) = []") auto
    have "KeReleaseMutant t mut increment abandoned wait irql s =
        Some (Inr (?old, if sint ?old \<le> 0 \<and> ApcDisable (Objects s mut) \<noteq> 0
          then KeLeaveCriticalRegionThread t (set_wait_next wait t irql s4) else set_wait_next wait t irql s4))"
      using False True s4(1) unfolding KeReleaseMutant_def Let_def s1_def [symmetric] s2_def [symmetric] s3_def [symmetric]
      by simp
    then show ?thesis using s4(2) False m by (auto simp: owns_def)
  next
    case no: False
    then have own: "\<not> abandoned" "owns s t mut" using False m by (auto simp: s1_def owns_def)
    have "sint (?old + 1) \<le> 0"
    proof -
      have "sint ?old \<le> 0" using mutant_owner_signal [OF ok m] own by (simp add: owns_def)
      moreover have "?old \<noteq> 0" using no own by (auto simp: s1_def)
      then have "sint ?old \<noteq> 0" by simp
      ultimately have "sint ?old + 1 \<le> 0" by linarith
      then show ?thesis using \<open>sint ?old \<le> 0\<close> by (simp add: sint_succ)
    qed
    then show ?thesis
      using owned_count_ok [OF ok own(2)] own no False by (simp add: KeReleaseMutant_def Let_def s1_def)
  qed
qed

text \<open>One turn of the rundown: the first mutant in the list is freed abandoned and its waiters are tested.\<close>

definition abandon_mutant :: "nat \<Rightarrow> nat \<Rightarrow> nat list \<Rightarrow> dispatcher \<Rightarrow> dispatcher" where
  "abandon_mutant t mut rest s =
     update_object mut (\<lambda>x. x\<lparr>SignalState := 1, Abandoned := True, OwnerThread := None\<rparr>)
       (update_thread t (\<lambda>th. th\<lparr>MutantListHead := rest\<rparr>) s)"

lemma abandon_mutant_waking:
  assumes ok: "dispatcher_ok s" and l: "MutantListHead (Threads s t) = mut # rest"
  shows "waking mut (abandon_mutant t mut rest s)" and "ObType (Objects s mut) = MutantObject"
proof -
  let ?s2 = "abandon_mutant t mut rest s"
  have own: "owns s u b \<longleftrightarrow> b \<in> set (MutantListHead (Threads s u))" and d: "distinct (MutantListHead (Threads s u))"
    for u b using ok by (simp_all add: dispatcher_ok_def owners_ok_def)
  have mine: "owns s t mut" using own l by simp
  then show "ObType (Objects s mut) = MutantObject" by (simp add: owns_def)
  have thr: "MutantListHead (Threads ?s2 u) = remove1 mut (MutantListHead (Threads s u))" for u
  proof (cases "u = t")
    case False
    then have "\<not> owns s u mut" using mine by (simp add: owns_def)
    then show ?thesis using False own by (simp add: abandon_mutant_def remove1_idem)
  qed (use l d in \<open>simp add: abandon_mutant_def\<close>)
  show "waking mut ?s2"
    by (rule freed_waking [OF ok _ _ _ _ _ _ thr])
      (use mine in \<open>auto simp: same_waits_def abandon_mutant_def owns_def\<close>)
qed

lemma rundown_turn:
  assumes ok: "dispatcher_ok s" and t: "\<not> waits s t" and l: "MutantListHead (Threads s t) = mut # rest"
    and apc: "ApcDisable (Objects s mut) = 0"
  shows "\<exists>s3. KiWaitTest mut MUTANT_INCREMENT (abandon_mutant t mut rest s) = Some s3 \<and>
    KeRundownThread t s = KeRundownThread t s3 \<and> dispatcher_ok s3 \<and>
    test_frame mut (abandon_mutant t mut rest s) s3 \<and> \<not> waits s3 t \<and> MutantListHead (Threads s3 t) = rest"
proof -
  let ?s2 = "abandon_mutant t mut rest s"
  note w = abandon_mutant_waking(1) [OF ok l]
  obtain s3 where s3: "KiWaitTest mut MUTANT_INCREMENT ?s2 = Some s3" "dispatcher_ok s3" "test_frame mut ?s2 s3"
    using KiWaitTest_ok [OF w, of MUTANT_INCREMENT] by blast
  have "KiWaitTest mut MUTANT_INCREMENT ?s2 = Some ?s2" if "WaitListHead (Objects ?s2 mut) = []"
    using that by (subst KiWaitTest.simps) simp
  then have "(if WaitListHead (Objects ?s2 mut) \<noteq> [] then KiWaitTest mut MUTANT_INCREMENT ?s2
        else Some ?s2) = Some s3"
    using s3(1) by simp
  then have "KeRundownThread t s = KeRundownThread t s3"
    using apc l unfolding KeRundownThread.simps [of t s] abandon_mutant_def by (simp add: Let_def)
  moreover have nw: "\<not> waits ?s2 t" using t by (simp add: abandon_mutant_def waits_def)
  moreover have "Threads s3 t = Threads ?s2 t" using s3(3) nw by (simp add: test_frame_def)
  ultimately show ?thesis using s3 by (simp add: abandon_mutant_def waits_def)
qed

lemma rundown_held:
  "MutantListHead (Threads s t) = mut # rest \<Longrightarrow> ApcDisable (Objects s mut) \<noteq> 0 \<Longrightarrow>
   KeRundownThread t s = Some (Inl THREAD_TERMINATE_HELD_MUTEX)"
  by (simp add: KeRundownThread.simps [of t s])

lemma KeRundownThread_ok:
  assumes "dispatcher_ok s" "\<not> waits s t"
  shows "\<exists>r. KeRundownThread t s = Some r \<and> (case r of Inl status \<Rightarrow> True
    | Inr s' \<Rightarrow> dispatcher_ok s' \<and> MutantListHead (Threads s' t) = [])"
  using assms
proof (induction "MutantListHead (Threads s t)" arbitrary: s)
  case Nil
  then show ?case by (simp add: KeRundownThread.simps [of t s])
next
  case (Cons mut rest)
  show ?case
  proof (cases "ApcDisable (Objects s mut) = 0")
    case False
    then show ?thesis using rundown_held [OF Cons.hyps(2) [symmetric]] by simp
  next
    case True
    then show ?thesis
      using rundown_turn [OF Cons.prems Cons.hyps(2) [symmetric] True] Cons.hyps(1) by metis
  qed
qed

section \<open>Satisfying the current thread\<close>

lemma satisfy_dispatcher_ok:
  assumes ok: "dispatcher_ok s" and t: "\<not> waits s t" and sig: "signaled (Objects s ob)"
  shows "dispatcher_ok (KiWaitSatisfyAny ob t s)"
proof -
  let ?s = "KiWaitSatisfyAny ob t s"
  have o: "objects_ok s" "owners_ok s" using ok by (simp_all add: dispatcher_ok_def)
  have same: "same_waits s ?s" by (rule satisfy_same_waits)
  have "no_lost_wakeup {} ?s"
  proof (rule no_lost_mono [where s = s and obs = "{}"])
    show "no_lost_wakeup {} s" using ok by (simp add: dispatcher_ok_def)
    show "waits s u \<and> WaitBlockList (Threads ?s u) = WaitBlockList (Threads s u)" if "waits ?s u" for u
      using that same by (simp add: waits_def same_waits_def)
    show "b \<notin> {} \<and> available s u b" if "waits ?s u" "available ?s u b" for u b
    proof -
      have "u \<noteq> t" using that(1) t same by (auto simp: waits_def same_waits_def)
      then show ?thesis using satisfy_available [OF o(1) sig _ that(2)] by simp
    qed
  qed
  then show ?thesis
    using ok same_waits_lists [OF same] satisfy_objects_ok [OF o(1) sig] satisfy_owners_ok [OF o sig]
    by (simp add: dispatcher_ok_def)
qed

text \<open>A mutant satisfies its owner again by one more recursion, unless the count is exhausted.\<close>

lemma recursion_step:
  assumes ok: "dispatcher_ok s" and own: "owns s t mut" and lim: "SignalState (Objects s mut) \<noteq> MINLONG"
  shows "KiWaitSatisfyMutant mut t s = set_signal mut (SignalState (Objects s mut) - 1) s"
    and "dispatcher_ok (set_signal mut (SignalState (Objects s mut) - 1) s)"
proof -
  let ?v = "SignalState (Objects s mut)"
  have le: "sint ?v \<le> 0" using mutant_owner_signal [OF ok] own by (auto simp: owns_def)
  have "sint ?v \<noteq> - (2 ^ 31)"
  proof
    assume "sint ?v = - (2 ^ 31)"
    then have "sint ?v = sint MINLONG" by simp
    with lim show False by (metis signed_word_eqI)
  qed
  then have v: "sint (?v - 1) = sint ?v - 1" using sint_ge [of ?v] by (intro sint_pred) auto
  then have "?v - 1 \<noteq> 0" using le sint_eq_iff_values(1) [of "?v - 1"] by linarith
  then show "KiWaitSatisfyMutant mut t s = set_signal mut (?v - 1) s"
    by (simp add: KiWaitSatisfyMutant_def Let_def set_signal_def update_object_def)
  show "dispatcher_ok (set_signal mut (?v - 1) s)"
    by (rule owned_count_ok [OF ok own]) (use v le in linarith)
qed

lemma satisfy_available_ok:
  assumes ok: "dispatcher_ok s" and t: "\<not> waits s t" and av: "available s t ob"
    and lim: "owns s t ob \<Longrightarrow> SignalState (Objects s ob) \<noteq> MINLONG"
  shows "dispatcher_ok (KiWaitSatisfyAny ob t s)"
proof (cases "signaled (Objects s ob)")
  case True
  then show ?thesis by (rule satisfy_dispatcher_ok [OF ok t])
next
  case False
  then have own: "owns s t ob" using av by (simp add: available_def)
  then have "KiWaitSatisfyAny ob t s = KiWaitSatisfyMutant ob t s"
    by (simp add: KiWaitSatisfyAny_def owns_def synchronization_type_def)
  then show ?thesis using recursion_step [OF ok own] lim own by simp
qed

section \<open>Blocking\<close>

lemma fold_insert_wait_block:
  "Objects (fold insert_wait_block wbs s) ob = (Objects s ob)\<lparr>WaitListHead :=
     WaitListHead (Objects s ob) @ filter (\<lambda>wb. WbObject wb = ob) wbs\<rparr>"
  "Threads (fold insert_wait_block wbs s) = Threads s"
  by (induction wbs arbitrary: s) (auto simp: insert_wait_block_def)

lemma block_thread_ok:
  assumes ok: "dispatcher_ok s" and t: "\<not> waits s t"
    and wbs: "\<forall>wb \<in> set (WaitBlockList (Threads s t)). WbThread wb = t" "distinct (WaitBlockList (Threads s t))"
    and any: "\<forall>wb \<in> set (WaitBlockList (Threads s t)). WbWaitType wb = WaitAny \<longrightarrow> \<not> available s t (WbObject wb)"
    and all: "\<exists>wb \<in> set (WaitBlockList (Threads s t)). WbWaitType wb = WaitAny \<or> \<not> available s t (WbObject wb)"
  shows "dispatcher_ok (block_thread t timer s)"
proof -
  let ?s = "block_thread t timer s" and ?wbs = "WaitBlockList (Threads s t)"
  have obj: "Objects ?s ob = (Objects s ob)\<lparr>WaitListHead :=
      WaitListHead (Objects s ob) @ filter (\<lambda>wb. WbObject wb = ob) ?wbs\<rparr>" for ob
    by (simp add: block_thread_def fold_insert_wait_block)
  have thr: "WaitBlockList (Threads ?s u) = WaitBlockList (Threads s u)"
    "MutantListHead (Threads ?s u) = MutantListHead (Threads s u)"
    "waits ?s u \<longleftrightarrow> waits s u \<or> u = t" for u
    by (auto simp: block_thread_def fold_insert_wait_block waits_def)
  have own: "owns ?s u b = owns s u b" and av: "available ?s u b = available s u b" for u b
    by (simp_all add: owns_def available_def signaled_def obj)
  have old: "WbThread wb \<noteq> t" if "wb \<in> set (WaitListHead (Objects s ob))" for wb ob
    using ok t that unfolding dispatcher_ok_def lists_ok_def by metis
  have "lists_ok ?s"
    unfolding lists_ok_def
  proof (intro conjI allI impI ballI)
    fix ob wb
    assume "wb \<in> set (WaitListHead (Objects ?s ob))"
    then consider "wb \<in> set (WaitListHead (Objects s ob))" | "wb \<in> set ?wbs" "WbObject wb = ob"
      by (auto simp: obj)
    then show "WbObject wb = ob" "waits ?s (WbThread wb)" "wb \<in> set (WaitBlockList (Threads ?s (WbThread wb)))"
      using ok wbs(1) unfolding dispatcher_ok_def lists_ok_def thr by (cases; metis)+
  next
    fix u wb
    assume "waits ?s u" "wb \<in> set (WaitBlockList (Threads ?s u))"
    then show "WbThread wb = u" "wb \<in> set (WaitListHead (Objects ?s (WbObject wb)))"
      using ok wbs(1) unfolding dispatcher_ok_def lists_ok_def thr obj by auto
  next
    fix ob
    have "distinct (WaitListHead (Objects s ob))" using ok by (simp add: dispatcher_ok_def lists_ok_def)
    moreover have "set (WaitListHead (Objects s ob)) \<inter> set ?wbs = {}" using old wbs(1) by auto
    ultimately show "distinct (WaitListHead (Objects ?s ob))"
      using wbs(2) by (auto simp: obj)
  qed
  moreover have "objects_ok ?s"
    using ok by (simp add: dispatcher_ok_def objects_ok_def obj object_ok_def)
  moreover have "owners_ok ?s"
    using ok by (simp add: dispatcher_ok_def owners_ok_def thr own)
  moreover have "no_lost_wakeup {} ?s"
    using ok any all unfolding dispatcher_ok_def no_lost_wakeup_def thr av by auto
  ultimately show ?thesis by (simp add: dispatcher_ok_def)
qed

lemma wait_not_satisfied_ok:
  assumes ok: "dispatcher_ok s" and t: "\<not> waits s t"
    and wbs: "\<forall>wb \<in> set (WaitBlockList (Threads s t)). WbThread wb = t" "distinct (WaitBlockList (Threads s t))"
    and any: "\<forall>wb \<in> set (WaitBlockList (Threads s t)). WbWaitType wb = WaitAny \<longrightarrow> \<not> available s t (WbObject wb)"
    and all: "\<exists>wb \<in> set (WaitBlockList (Threads s t)). WbWaitType wb = WaitAny \<or> \<not> available s t (WbObject wb)"
    and r: "wait_not_satisfied t alertable mode timeout s = (outcome, s')"
  shows "dispatcher_ok s'"
proof -
  obtain st s1 where a: "TestForAlertPending t alertable mode s = (st, s1)" by fastforce
  have s1: "dispatcher_ok s1" "Objects s1 = Objects s" "waits s1 u = waits s u"
    "WaitBlockList (Threads s1 u) = WaitBlockList (Threads s u)" for u
    using TestForAlertPending_ok [OF a] ok by auto
  have av: "available s1 u b = available s u b" for u b using s1(2) by (simp add: available_def owns_def)
  have "dispatcher_ok (block_thread t timer s1)" for timer
    by (rule block_thread_ok [OF s1(1)]) (use assms s1 av in auto)
  then show ?thesis
    using r a s1(1) by (auto simp: wait_not_satisfied_def split: option.splits if_splits)
qed

section \<open>Waits\<close>

lemma KiWaitSatisfyOther_Any:
  "ObType (Objects s ob) \<noteq> MutantObject \<Longrightarrow> KiWaitSatisfyOther ob s = KiWaitSatisfyAny ob t s"
  by (simp add: KiWaitSatisfyOther_def KiWaitSatisfyAny_def)

lemma KiWaitSatisfyMutant_Any:
  "ObType (Objects s ob) = MutantObject \<Longrightarrow> KiWaitSatisfyMutant ob t s = KiWaitSatisfyAny ob t s"
  by (simp add: KiWaitSatisfyAny_def synchronization_type_def)

lemma available_cases:
  "available s t ob \<longleftrightarrow> signaled (Objects s ob) \<or>
     ObType (Objects s ob) = MutantObject \<and> OwnerThread (Objects s ob) = Some t"
  by (simp add: available_def owns_def)

lemma KeWaitForSingleObject_ok:
  assumes ok: "dispatcher_ok s" and t: "\<not> waits s t"
    and r: "KeWaitForSingleObject t ob mode alertable timeout irql s = (outcome, s')"
  shows "dispatcher_ok s'"
proof -
  let ?s = "initialize_wait t [single_wait_block t ob] alertable mode irql s"
  have ok1: "dispatcher_ok ?s" and t1: "\<not> waits ?s t" using ok t by simp_all
  have sat: "dispatcher_ok (KiWaitSatisfyAny ob t ?s)"
    if "available ?s t ob" "owns ?s t ob \<Longrightarrow> SignalState (Objects ?s ob) \<noteq> MINLONG"
    by (rule satisfy_available_ok [OF ok1 t1]) (use that in auto)
  have blk: "dispatcher_ok s1" if "wait_not_satisfied t alertable mode timeout ?s = (o1, s1)"
    "\<not> available ?s t ob" for o1 s1
    by (rule wait_not_satisfied_ok [OF ok1 t1 _ _ _ _ that(1)])
      (use that(2) in \<open>auto simp: single_wait_block_def\<close>)
  show ?thesis
    using r ok1 sat blk KiWaitSatisfyOther_Any [of ?s ob t] KiWaitSatisfyMutant_Any [of ?s ob t]
    by (auto simp: KeWaitForSingleObject_def Let_def available_cases owns_def split: if_splits)
qed

lemma wait_any_scan_None:
  "wait_any_scan t s i obs = None \<longleftrightarrow> (\<forall>ob \<in> set obs. \<not> available s t ob)"
  by (induction obs arbitrary: i) (auto simp: Let_def available_cases)

lemma wait_any_scan_Some:
  assumes "wait_any_scan t s i obs = Some (Inr k)"
  shows "i \<le> k \<and> k - i < length obs \<and> available s t (obs ! (k - i)) \<and>
    (owns s t (obs ! (k - i)) \<longrightarrow> SignalState (Objects s (obs ! (k - i))) \<noteq> MINLONG) \<and>
    (\<forall>j < k - i. \<not> available s t (obs ! j))"
  using assms
proof (induction obs arbitrary: i)
  case (Cons ob rest)
  show ?case
  proof (cases "available s t ob")
    case True
    then show ?thesis using Cons.prems by (auto simp: Let_def available_cases owns_def split: if_splits)
  next
    case False
    then have "wait_any_scan t s (i + 1) rest = Some (Inr k)"
      using Cons.prems by (auto simp: Let_def available_cases split: if_splits)
    from Cons.IH [OF this] have IH: "i < k" "k - Suc i < length rest" "available s t (rest ! (k - Suc i))"
      "owns s t (rest ! (k - Suc i)) \<longrightarrow> SignalState (Objects s (rest ! (k - Suc i))) \<noteq> MINLONG"
      "\<forall>j < k - Suc i. \<not> available s t (rest ! j)" by auto
    then have "k - i = Suc (k - Suc i)" by simp
    then show ?thesis using IH False by (auto simp: less_Suc_eq_0_disj)
  qed
qed simp

lemma wait_all_scan_Inr:
  "wait_all_scan t s obs = Inr True \<Longrightarrow> (\<forall>ob \<in> set obs. available s t ob \<and>
     (owns s t ob \<longrightarrow> SignalState (Objects s ob) \<noteq> MINLONG))"
  "wait_all_scan t s obs = Inr False \<Longrightarrow> (\<exists>ob \<in> set obs. \<not> available s t ob)"
  by (induction obs) (auto simp: Let_def available_cases owns_def split: if_splits)

lemma satisfy_all_ok:
  assumes "dispatcher_ok s" "\<not> waits s t" "distinct obs"
    and "\<forall>ob \<in> set obs. available s t ob \<and> (owns s t ob \<longrightarrow> SignalState (Objects s ob) \<noteq> MINLONG)"
  shows "dispatcher_ok (fold (\<lambda>ob. KiWaitSatisfyAny ob t) obs s)"
  using assms
proof (induction obs arbitrary: s)
  case (Cons ob rest)
  let ?s = "KiWaitSatisfyAny ob t s"
  have "dispatcher_ok ?s" using Cons.prems by (intro satisfy_available_ok) auto
  moreover have "\<not> waits ?s t"
    using Cons.prems(2) satisfy_same_waits [of s ob t] by (simp add: same_waits_def waits_def)
  moreover have "\<forall>b \<in> set rest. Objects ?s b = Objects s b"
    using Cons.prems(3) satisfy_others(1) [of _ ob t s] by (metis distinct.simps(2))
  ultimately show ?case
    using Cons.IH [of ?s] Cons.prems by (auto simp: available_cases owns_def)
qed simp

lemma multiple_wait_blocks_facts:
  "\<forall>wb \<in> set (multiple_wait_blocks t waitType obs). WbThread wb = t \<and> WbWaitType wb = waitType"
  "WbObject ` set (multiple_wait_blocks t waitType obs) = set obs"
  "length obs \<le> 64 \<Longrightarrow> distinct (multiple_wait_blocks t waitType obs)"
proof -
  show "\<forall>wb \<in> set (multiple_wait_blocks t waitType obs). WbThread wb = t \<and> WbWaitType wb = waitType"
    by (auto simp: multiple_wait_blocks_def multiple_wait_block_def)
  show "WbObject ` set (multiple_wait_blocks t waitType obs) = set obs"
    by (simp add: multiple_wait_blocks_def multiple_wait_block_def image_image nth_image)
  assume len: "length obs \<le> 64"
  have "inj_on (\<lambda>i. multiple_wait_block t waitType i (obs ! i)) (set [0..<length obs])"
  proof (rule inj_onI)
    fix i j
    assume "i \<in> set [0..<length obs]" "j \<in> set [0..<length obs]"
      and "multiple_wait_block t waitType i (obs ! i) = multiple_wait_block t waitType j (obs ! j)"
    then have "i < 64" "j < 64" "(of_nat i :: ntstatus) = of_nat j"
      using len by (auto simp: multiple_wait_block_def)
    then show "i = j" using of_nat_inverse [of i "of_nat j :: ntstatus"] by (simp add: unat_of_nat)
  qed
  then show "distinct (multiple_wait_blocks t waitType obs)"
    by (simp add: multiple_wait_blocks_def distinct_map)
qed

lemma KeWaitForMultipleObjects_ok:
  assumes ok: "dispatcher_ok s" and t: "\<not> waits s t" and ne: "obs \<noteq> []"
    and d: "waitType = WaitAll \<Longrightarrow> distinct obs"
    and r: "KeWaitForMultipleObjects t obs waitType mode alertable timeout builtin irql s = (outcome, s')"
  shows "dispatcher_ok s'"
proof (cases "length obs > (if builtin then THREAD_WAIT_OBJECTS else MAXIMUM_WAIT_OBJECTS)")
  case True
  then show ?thesis using r ok by (simp add: KeWaitForMultipleObjects_def)
next
  case False
  let ?wbs = "multiple_wait_blocks t waitType obs"
  let ?s = "initialize_wait t ?wbs alertable mode irql s"
  have len: "length obs \<le> 64" using False by (auto split: if_splits)
  have ok1: "dispatcher_ok ?s" and t1: "\<not> waits ?s t" using ok t by simp_all
  note wbs = multiple_wait_blocks_facts [where t = t and waitType = waitType and obs = obs]
  have blk: "dispatcher_ok s1"
    if "wait_not_satisfied t alertable mode timeout ?s = (o1, s1)"
      "if waitType = WaitAny then \<forall>ob \<in> set obs. \<not> available ?s t ob else \<exists>ob \<in> set obs. \<not> available ?s t ob"
    for o1 s1
  proof (rule wait_not_satisfied_ok [OF ok1 t1 _ _ _ _ that(1)])
    show "\<forall>wb \<in> set (WaitBlockList (Threads ?s t)). WbThread wb = t" using wbs(1) by simp
    show "distinct (WaitBlockList (Threads ?s t))" using wbs(3) [OF len] by simp
    show "\<forall>wb \<in> set (WaitBlockList (Threads ?s t)). WbWaitType wb = WaitAny \<longrightarrow> \<not> available ?s t (WbObject wb)"
      using that(2) wbs(1,2) by (auto simp: image_iff split: if_splits)
    have "?wbs \<noteq> []" using ne by (simp add: multiple_wait_blocks_def)
    then obtain wb0 where "wb0 \<in> set ?wbs" by (cases ?wbs) auto
    then show "\<exists>wb \<in> set (WaitBlockList (Threads ?s t)). WbWaitType wb = WaitAny \<or> \<not> available ?s t (WbObject wb)"
      using that(2) wbs(1,2) by (cases waitType) (auto, metis image_iff)
  qed
  show ?thesis
  proof (cases "kernel_apc_deliverable (Threads ?s t)")
    case True
    then show ?thesis using r False ok1 by (simp add: KeWaitForMultipleObjects_def Let_def)
  next
    case apc: False
    show ?thesis
    proof (cases waitType)
      case WaitAny
      show ?thesis
      proof (cases "wait_any_scan t ?s 0 obs")
        case None
        then show ?thesis
          using r False apc WaitAny blk wait_any_scan_None [of t ?s 0 obs]
          by (simp add: KeWaitForMultipleObjects_def Let_def)
      next
        case (Some x)
        show ?thesis
        proof (cases x)
          case (Inl status)
          then show ?thesis using r False apc WaitAny Some ok1 by (simp add: KeWaitForMultipleObjects_def Let_def)
        next
          case (Inr k)
          have "available ?s t (obs ! k) \<and> (owns ?s t (obs ! k) \<longrightarrow> SignalState (Objects ?s (obs ! k)) \<noteq> MINLONG)"
            using wait_any_scan_Some [of t ?s 0 obs k] Some Inr by simp
          then have "dispatcher_ok (KiWaitSatisfyAny (obs ! k) t ?s)"
            using satisfy_available_ok [OF ok1 t1] by blast
          then show ?thesis
            using r False apc WaitAny Some Inr KiWaitSatisfyOther_Any [of ?s "obs ! k" t]
              KiWaitSatisfyMutant_Any [of ?s "obs ! k" t]
            by (auto simp: KeWaitForMultipleObjects_def Let_def split: if_splits)
        qed
      qed
    next
      case WaitAll
      show ?thesis
      proof (cases "wait_all_scan t ?s obs")
        case (Inl status)
        then show ?thesis using r False apc WaitAll ok1 by (simp add: KeWaitForMultipleObjects_def Let_def)
      next
        case (Inr b)
        show ?thesis
        proof (cases b)
          case True
          then show ?thesis
            using r False apc WaitAll Inr satisfy_all_ok [OF ok1 t1 d [OF WaitAll]] wait_all_scan_Inr(1) [of t ?s obs]
            by (simp add: KeWaitForMultipleObjects_def Let_def)
        next
          case no: False
          then show ?thesis
            using r False apc WaitAll Inr blk wait_all_scan_Inr(2) [of t ?s obs]
            by (simp add: KeWaitForMultipleObjects_def Let_def)
        qed
      qed
    qed
  qed
qed

section \<open>Alerts and thread readiness\<close>

lemma KiUnwaitThread_ok: "dispatcher_ok s \<Longrightarrow> waits s t \<Longrightarrow> dispatcher_ok (KiUnwaitThread t status inc s)"
  using unwaited_ok [OF KiUnwaitThread_unwaited] by (simp add: dispatcher_ok_def)

lemma KeAlertThread_ok: "dispatcher_ok s \<Longrightarrow> dispatcher_ok (snd (KeAlertThread t mode s))"
  by (auto simp: KeAlertThread_def Let_def dispatcher_ok_update_thread waits_def intro: KiUnwaitThread_ok)

lemma KeTestAlertThread_ok: "dispatcher_ok s \<Longrightarrow> dispatcher_ok (snd (KeTestAlertThread t mode s))"
  by (auto simp: KeTestAlertThread_def Let_def dispatcher_ok_update_thread)

end
