(* ===== verification/Dispatcher_Properties.thy ===== *)
theory Dispatcher_Properties
  imports Dispatcher_Invariant
begin

text \<open>
  The dispatcher as a transition system and its properties: the invariant of all reachable
  states, no lost wakeups, exclusive ownership of mutants, and what releasing each kind of object
  does to its waiters.
\<close>

unbundle bit_operations_syntax

section \<open>Creating objects\<close>

text \<open>Nobody waits on the object and nobody owns it.\<close>

definition unused :: "dispatcher \<Rightarrow> nat \<Rightarrow> bool" where
  "unused s ob \<longleftrightarrow> WaitListHead (Objects s ob) = [] \<and> (\<forall>t. \<not> owns s t ob)"

lemma new_object_ok:
  assumes ok: "dispatcher_ok s" and un: "unused s ob"
    and x: "object_ok x" "WaitListHead x = []"
    and own: "(ObType x = MutantObject \<longrightarrow> OwnerThread x = None) \<and> mine = [] \<or>
      ObType x = MutantObject \<and> OwnerThread x = Some t \<and> \<not> waits s t \<and> mine = [ob]"
  shows "dispatcher_ok (update_thread t (\<lambda>th. th\<lparr>MutantListHead := MutantListHead th @ mine\<rparr>)
    (update_object ob (\<lambda>_. x) s))"
proof -
  let ?s = "update_thread t (\<lambda>th. th\<lparr>MutantListHead := MutantListHead th @ mine\<rparr>)
    (update_object ob (\<lambda>_. x) s)"
  have lists: "WaitListHead (Objects ?s b) = WaitListHead (Objects s b)" for b
    using un x(2) by (simp add: unused_def)
  have thr: "ThState (Threads ?s u) = ThState (Threads s u)" "WaitBlockList (Threads ?s u) = WaitBlockList (Threads s u)"
    for u by simp_all
  have same: "same_waits s ?s" using lists thr by (simp add: same_waits_def)
  have owns: "owns ?s u b \<longleftrightarrow> owns s u b \<or> b = ob \<and> u = t \<and> mine = [ob]" for u b
    using un own by (auto simp: owns_def unused_def)
  have "owners_ok ?s"
    unfolding owners_ok_def
  proof (intro allI conjI)
    fix u
    have d: "distinct (MutantListHead (Threads s u))" "set (MutantListHead (Threads s u)) = {b. owns s u b}"
      using ok by (auto simp: dispatcher_ok_def owners_ok_def)
    have n: "ob \<notin> set (MutantListHead (Threads s u))" using d(2) un by (simp add: unused_def)
    have m: "mine = [] \<or> mine = [ob]" using own by auto
    have l: "MutantListHead (Threads ?s u) = MutantListHead (Threads s u) @ (if u = t then mine else [])"
      by simp
    show "distinct (MutantListHead (Threads ?s u))" unfolding l using m d(1) n by (cases "u = t"; elim disjE; simp)
    fix b
    have "b \<in> set (MutantListHead (Threads s u)) \<longleftrightarrow> owns s u b" using d(2) by blast
    then show "b \<in> set (MutantListHead (Threads ?s u)) \<longleftrightarrow> owns ?s u b"
      unfolding l owns using m by (cases "u = t"; elim disjE; simp; blast?)
  qed
  moreover have "objects_ok ?s" using ok x(1) by (simp add: dispatcher_ok_def objects_ok_def)
  moreover have "no_lost_wakeup {ob} ?s"
  proof (rule no_lost_mono [where s = s and obs = "{}"])
    show "no_lost_wakeup {} s" using ok by (simp add: dispatcher_ok_def)
    show "waits s u \<and> WaitBlockList (Threads ?s u) = WaitBlockList (Threads s u)" if "waits ?s u" for u
      using that thr by (simp add: waits_def)
    show "b \<notin> {} \<and> available s u b" if "b \<notin> {ob}" "available ?s u b" for u b
      using that owns by (simp add: available_def)
  qed
  moreover have "\<not> waits ?s u" if "owns ?s u ob" for u
    using that own un by (auto simp: owns unused_def waits_def)
  ultimately have "waking ob ?s"
    using ok same_waits_lists [OF same] by (simp add: waking_def dispatcher_ok_def)
  then show ?thesis by (rule waking_done) (simp add: x(2))
qed

lemma update_thread_nothing [simp]: "update_thread t (\<lambda>th. th) s = s"
  by (simp add: update_thread_def)

lemma new_object_unowned:
  assumes "dispatcher_ok s" "unused s ob" "object_ok x" "WaitListHead x = []"
    "ObType x = MutantObject \<Longrightarrow> OwnerThread x = None"
  shows "dispatcher_ok (update_object ob (\<lambda>_. x) s)"
  using new_object_ok [OF assms(1-4), of "[]"] assms(5) by simp

lemma update_object_const: "update_object ob f s = update_object ob (\<lambda>_. f (Objects s ob)) s"
  by (simp add: update_object_def)

lemma KeInitializeEvent_ok:
  assumes "dispatcher_ok s" "unused s ob" "k = EventNotificationObject \<or> k = EventSynchronizationObject"
  shows "dispatcher_ok (KeInitializeEvent ob k state s)"
  unfolding KeInitializeEvent_def
  by (subst update_object_const, rule new_object_unowned [OF assms(1,2)])
    (use assms(3) in \<open>auto simp: object_ok_def\<close>)

lemma KeInitializeSemaphore_ok:
  assumes "dispatcher_ok s" "unused s ob" "0 \<le> sint count" "sint count \<le> sint limit"
  shows "dispatcher_ok (KeInitializeSemaphore ob count limit s)"
  unfolding KeInitializeSemaphore_def
  by (subst update_object_const, rule new_object_unowned [OF assms(1,2)])
    (use assms(3,4) in \<open>auto simp: object_ok_def\<close>)

lemma KeInitializeMutex_ok:
  assumes "dispatcher_ok s" "unused s ob"
  shows "dispatcher_ok (KeInitializeMutex ob s)"
  unfolding KeInitializeMutex_def
  by (subst update_object_const, rule new_object_unowned [OF assms]) (auto simp: object_ok_def)

lemma KeInitializeMutant_ok:
  assumes "dispatcher_ok s" "unused s ob" "\<not> waits s t"
  shows "dispatcher_ok (KeInitializeMutant t ob initialOwner s)"
proof -
  let ?x = "(Objects s ob)\<lparr>SignalState := of_bool (\<not> initialOwner),
    OwnerThread := (if initialOwner then Some t else None), ObType := MutantObject, WaitListHead := [],
    Abandoned := False, ApcDisable := 0\<rparr>"
  have "KeInitializeMutant t ob initialOwner s =
      update_thread t (\<lambda>th. th\<lparr>MutantListHead := MutantListHead th @ (if initialOwner then [ob] else [])\<rparr>)
        (update_object ob (\<lambda>_. ?x) s)"
    by (cases initialOwner) (simp_all add: KeInitializeMutant_def update_object_def update_thread_def)
  then show ?thesis
    using new_object_ok [OF assms(1,2), of ?x "if initialOwner then [ob] else []" t] assms(3)
    by (simp add: object_ok_def)
qed

section \<open>The transition system\<close>

definition running :: "dispatcher \<Rightarrow> nat \<Rightarrow> bool" where
  "running s t \<longleftrightarrow> ThState (Threads s t) = Running"

text \<open>A readied thread gets a processor; the choice is the scheduler's.\<close>

definition dispatch_thread :: "nat \<Rightarrow> dispatcher \<Rightarrow> dispatcher" where
  "dispatch_thread t s =
     (update_thread t (\<lambda>th. th\<lparr>ThState := Running\<rparr>) s)\<lparr>DeferredReadyList := removeAll t (DeferredReadyList s)\<rparr>"

text \<open>
  The operations as steps. A wait for all of several objects is a step only when no object is named twice:
  \<^verbatim>\<open>NtWaitForMultipleObjects\<close> rejects other lists, while \<^verbatim>\<open>KeWaitForMultipleObjects\<close> itself takes them and
  would satisfy the wait on one object twice. Operations that raise a status leave the state as it was and
  are no steps.
\<close>

inductive dispatcher_step :: "dispatcher \<Rightarrow> dispatcher \<Rightarrow> bool" where
  create_event: "unused s ob \<Longrightarrow> k = EventNotificationObject \<or> k = EventSynchronizationObject \<Longrightarrow>
    dispatcher_step s (KeInitializeEvent ob k state s)"
| create_semaphore: "unused s ob \<Longrightarrow> 0 \<le> sint count \<Longrightarrow> sint count \<le> sint limit \<Longrightarrow>
    dispatcher_step s (KeInitializeSemaphore ob count limit s)"
| create_mutant: "unused s ob \<Longrightarrow> running s t \<Longrightarrow> dispatcher_step s (KeInitializeMutant t ob initialOwner s)"
| create_mutex: "unused s ob \<Longrightarrow> dispatcher_step s (KeInitializeMutex ob s)"
| set_event: "running s t \<Longrightarrow> is_event (Objects s ev) \<Longrightarrow>
    KeSetEvent t ev increment wait irql s = Some (old, s') \<Longrightarrow> dispatcher_step s s'"
| pulse_event: "running s t \<Longrightarrow> is_event (Objects s ev) \<Longrightarrow>
    KePulseEvent t ev increment wait irql s = Some (old, s') \<Longrightarrow> dispatcher_step s s'"
| reset_event: "is_event (Objects s ev) \<Longrightarrow> dispatcher_step s (snd (KeResetEvent ev s))"
| clear_event: "is_event (Objects s ev) \<Longrightarrow> dispatcher_step s (KeClearEvent ev s)"
| boost_event: "running s t \<Longrightarrow> ObType (Objects s ev) = EventSynchronizationObject \<Longrightarrow>
    KeSetEventBoostPriority t ev s = Some (w, s') \<Longrightarrow> dispatcher_step s s'"
| release_semaphore: "running s t \<Longrightarrow> ObType (Objects s sem) = SemaphoreObject \<Longrightarrow>
    KeReleaseSemaphore t sem increment adjustment wait irql s = Some (Inr (old, s')) \<Longrightarrow> dispatcher_step s s'"
| release_mutant: "running s t \<Longrightarrow> ObType (Objects s mut) = MutantObject \<Longrightarrow>
    KeReleaseMutant t mut increment abandoned wait irql s = Some (Inr (old, s')) \<Longrightarrow> dispatcher_step s s'"
| rundown: "running s t \<Longrightarrow> KeRundownThread t s = Some (Inr s') \<Longrightarrow> dispatcher_step s s'"
| wait_single: "running s t \<Longrightarrow>
    KeWaitForSingleObject t ob mode alertable timeout irql s = (outcome, s') \<Longrightarrow> dispatcher_step s s'"
| wait_multiple: "running s t \<Longrightarrow> obs \<noteq> [] \<Longrightarrow> waitType = WaitAny \<or> distinct obs \<Longrightarrow>
    KeWaitForMultipleObjects t obs waitType mode alertable timeout builtin irql s = (outcome, s') \<Longrightarrow>
    dispatcher_step s s'"
| alert: "dispatcher_step s (snd (KeAlertThread t mode s))"
| test_alert: "running s t \<Longrightarrow> dispatcher_step s (snd (KeTestAlertThread t mode s))"
| end_wait: "waits s t \<Longrightarrow> dispatcher_step s (KiUnwaitThread t status increment s)"
| dispatch: "\<not> waits s t \<Longrightarrow> dispatcher_step s (dispatch_thread t s)"

lemma running_not_waits: "running s t \<Longrightarrow> \<not> waits s t"
  by (simp add: running_def waits_def)

lemma dispatch_thread_ok: "dispatcher_ok s \<Longrightarrow> \<not> waits s t \<Longrightarrow> dispatcher_ok (dispatch_thread t s)"
proof -
  assume ok: "dispatcher_ok s" and t: "\<not> waits s t"
  let ?s = "dispatch_thread t s"
  have f: "Objects ?s = Objects s" "waits ?s u = waits s u" "WaitBlockList (Threads ?s u) = WaitBlockList (Threads s u)"
    "MutantListHead (Threads ?s u) = MutantListHead (Threads s u)" for u
    using t by (auto simp: dispatch_thread_def waits_def)
  then have "owns ?s u b = owns s u b" "available ?s u b = available s u b" for u b
    by (simp_all add: owns_def available_def)
  with f ok show ?thesis
    by (simp add: dispatcher_ok_def lists_ok_def objects_ok_def owners_ok_def no_lost_wakeup_def)
qed

lemma dispatcher_step_ok:
  assumes "dispatcher_step s s'" "dispatcher_ok s"
  shows "dispatcher_ok s'"
  using assms
proof (induction rule: dispatcher_step.induct)
  case (set_event s t ev increment wait irql old s')
  then show ?case using KeSetEvent_ok [of s ev t increment wait irql] by auto
next
  case (pulse_event s t ev increment wait irql old s')
  then show ?case using KePulseEvent_ok [of s ev t increment wait irql] by auto
next
  case (boost_event s t ev w s')
  then show ?case using KeSetEventBoostPriority_ok [of s ev t] by auto
next
  case (release_semaphore s t sem increment adjustment wait irql old s')
  then show ?case using KeReleaseSemaphore_ok [of s sem t increment adjustment wait irql] by auto
next
  case (release_mutant s t mut increment abandoned wait irql old s')
  then show ?case using KeReleaseMutant_ok [of s mut t increment abandoned wait irql] by auto
next
  case (rundown s t s')
  then show ?case using KeRundownThread_ok [of s t] running_not_waits by auto
next
  case (wait_multiple s t obs waitType mode alertable timeout builtin irql outcome s')
  then show ?case using KeWaitForMultipleObjects_ok running_not_waits by blast
next
  case (wait_single s t ob mode alertable timeout irql outcome s')
  then show ?case using KeWaitForSingleObject_ok [OF _ _ wait_single(2)] running_not_waits by simp
next
  case (create_mutant s ob t initialOwner)
  then show ?case using KeInitializeMutant_ok running_not_waits by simp
qed (simp_all add: KeInitializeEvent_ok KeInitializeSemaphore_ok KeInitializeMutex_ok
    KeResetEvent_def KeClearEvent_def clear_event_ok KeAlertThread_ok KeTestAlertThread_ok
    KiUnwaitThread_ok dispatch_thread_ok)

inductive reachable :: "dispatcher \<Rightarrow> dispatcher \<Rightarrow> bool" for s0 :: dispatcher where
  start: "reachable s0 s0"
| step: "reachable s0 s \<Longrightarrow> dispatcher_step s s' \<Longrightarrow> reachable s0 s'"

lemma reachable_ok: "reachable s0 s \<Longrightarrow> dispatcher_ok s0 \<Longrightarrow> dispatcher_ok s"
  by (induction rule: reachable.induct) (auto intro: dispatcher_step_ok)

end
