(* ===== verification/Dispatcher_Effects.thy ===== *)
theory Dispatcher_Effects
  imports Dispatcher_Properties
begin

text \<open>
  What a test does to the waiters of an object: semaphores release them in order, notification
  events all at once, abandoned mutants pass to a waiter. The concrete states the properties use.
\<close>

unbundle bit_operations_syntax

section \<open>A concrete dispatcher\<close>

definition idle_object :: dispatcher_object where
  "idle_object = \<lparr>ObType = EventNotificationObject, SignalState = 0, WaitListHead = [], Limit = 0,
     OwnerThread = None, Abandoned = False, ApcDisable = 0\<rparr>"

definition idle_thread :: kthread where
  "idle_thread = \<lparr>ThState = Running, WaitStatus = 0, WaitBlockList = [], TimerInserted = False,
     Alertable = False, WaitMode = KernelMode, WaitNext = False, WaitIrql = 0, Alerted = (\<lambda>_. False),
     UserApcPending = False, UserApcQueued = False, KernelApcPending = False, SpecialApcDisable = 0,
     KernelApcDisable = 0, MutantListHead = [], Priority = 8, BasePriority = 8, PriorityDecrement = 0,
     AdjustIncrement = 0, AdjustReason = AdjustNone\<rparr>"

definition idle_dispatcher :: dispatcher where
  "idle_dispatcher = \<lparr>Objects = (\<lambda>_. idle_object), Threads = (\<lambda>_. idle_thread), DeferredReadyList = []\<rparr>"

lemma idle_dispatcher_ok: "dispatcher_ok idle_dispatcher"
  by (simp add: dispatcher_ok_def idle_dispatcher_def lists_ok_def objects_ok_def owners_ok_def
      no_lost_wakeup_def idle_object_def idle_thread_def object_ok_def owns_def waits_def)

text \<open>An empty semaphore 7 with the threads 1, 2 and 3 waiting on it, in this order.\<close>

definition wait_on :: "nat \<Rightarrow> nat \<Rightarrow> dispatcher \<Rightarrow> dispatcher" where
  "wait_on ob t s = snd (KeWaitForSingleObject t ob KernelMode False None 0 s)"

definition semaphore_waiters :: dispatcher where
  "semaphore_waiters =
     wait_on 7 3 (wait_on 7 2 (wait_on 7 1 (KeInitializeSemaphore 7 0 10 idle_dispatcher)))"

text \<open>Mutant 5, owned by thread 1, with thread 2 waiting on it.\<close>

definition mutant_waiter :: dispatcher where
  "mutant_waiter = wait_on 5 2 (KeInitializeMutant 1 5 True idle_dispatcher)"

lemma wait_on_ok: "dispatcher_ok s \<Longrightarrow> \<not> waits s t \<Longrightarrow> dispatcher_ok (wait_on ob t s)"
  unfolding wait_on_def using KeWaitForSingleObject_ok by (metis prod.collapse)

lemma semaphore_waiters_ok: "dispatcher_ok semaphore_waiters"
proof -
  let ?s0 = "KeInitializeSemaphore 7 0 10 idle_dispatcher"
  have "dispatcher_ok ?s0"
    by (rule KeInitializeSemaphore_ok [OF idle_dispatcher_ok])
      (simp_all add: unused_def idle_dispatcher_def idle_object_def owns_def)
  moreover have "\<not> waits ?s0 1" "\<not> waits (wait_on 7 1 ?s0) 2" "\<not> waits (wait_on 7 2 (wait_on 7 1 ?s0)) 3"
    by code_simp+
  ultimately show ?thesis unfolding semaphore_waiters_def by (intro wait_on_ok)
qed

lemma mutant_waiter_ok: "dispatcher_ok mutant_waiter"
proof -
  let ?s0 = "KeInitializeMutant 1 5 True idle_dispatcher"
  have "dispatcher_ok ?s0"
    by (rule KeInitializeMutant_ok [OF idle_dispatcher_ok])
      (simp_all add: unused_def idle_dispatcher_def idle_object_def idle_thread_def owns_def waits_def)
  moreover have "\<not> waits ?s0 2" by code_simp
  ultimately show ?thesis unfolding mutant_waiter_def by (rule wait_on_ok)
qed

section \<open>What a test does to the waiters\<close>

lemma unwait_thread:
  "Threads (KiUnwaitThread t status increment s) t = (Threads s t)\<lparr>WaitStatus := WaitStatus (Threads s t) OR status,
     TimerInserted := False, AdjustIncrement := increment, AdjustReason := AdjustUnwait, ThState := DeferredReady\<rparr>"
  by (simp add: KiUnwaitThread_def KiReadyThread_def KiUnlinkThread_def fold_remove_wait_block)

text \<open>
  A semaphore whose waiters wait for any object releases them in the order of the list, one per
  count.
\<close>

definition released_in_order :: "nat \<Rightarrow> nat \<Rightarrow> kwait_block list \<Rightarrow> dispatcher \<Rightarrow> dispatcher \<Rightarrow> bool" where
  "released_in_order sem k ws s s' \<longleftrightarrow>
     WaitListHead (Objects s' sem) = drop k ws \<and>
     (\<forall>wb \<in> set (take k ws). ThState (Threads s' (WbThread wb)) = DeferredReady \<and>
        WaitStatus (Threads s' (WbThread wb)) = WaitStatus (Threads s (WbThread wb)) OR WbWaitKey wb) \<and>
     (\<forall>u. u \<notin> WbThread ` set (take k ws) \<longrightarrow> Threads s' u = Threads s u)"

lemma semaphore_test_fifo:
  assumes "waking sem s" "ObType (Objects s sem) = SemaphoreObject" "\<forall>wb \<in> set ws. WbWaitType wb = WaitAny"
    "distinct (map WbThread ws)" "WaitListHead (Objects s sem) = ws"
    "k = min (nat (sint (SignalState (Objects s sem)))) (length ws)"
  shows "\<exists>s'. KiWaitTest sem increment s = Some s' \<and> released_in_order sem k ws s s' \<and>
    sint (SignalState (Objects s' sem)) = sint (SignalState (Objects s sem)) - int k"
  using assms
proof (induction ws arbitrary: s k)
  case Nil
  then have "KiWaitTest sem increment s = Some s" by (subst KiWaitTest.simps) simp
  then show ?case using Nil by (simp add: released_in_order_def)
next
  case (Cons wb ws)
  let ?t = "WbThread wb"
  have ok: "object_ok (Objects s sem)" using Cons.prems(1) by (simp add: waking_def objects_ok_def)
  show ?case
  proof (cases "signaled (Objects s sem)")
    case False
    then have "KiWaitTest sem increment s = Some s" by (subst KiWaitTest.simps) simp
    moreover have "k = 0" using False Cons.prems(6) by (simp add: signaled_def)
    ultimately show ?thesis using Cons.prems(5) by (simp add: released_in_order_def)
  next
    case True
    let ?s0 = "KiWaitSatisfyAny sem ?t s"
    define s1 where "s1 = KiUnwaitThread ?t (WbWaitKey wb) increment ?s0"
    have s0: "?s0 = update_object sem (\<lambda>x. x\<lparr>SignalState := SignalState x - 1\<rparr>) s"
      using Cons.prems(2) by (simp add: KiWaitSatisfyAny_def synchronization_type_def)
    note w = waking_satisfy [OF Cons.prems(1,5) True s1_def]
    have lst: "WaitListHead (Objects s1 sem) = ws"
    proof -
      have "\<forall>b \<in> set ws. WbThread b \<noteq> ?t" using Cons.prems(4) by (auto simp: image_iff)
      then show ?thesis using w(3) by simp
    qed
    have "same_waits s ?s0" by (rule satisfy_same_waits)
    then have "lists_ok ?s0" "waits ?s0 ?t"
      using Cons.prems(1) waking_head [OF Cons.prems(1,5)] same_waits_lists [of s ?s0]
      by (simp_all add: waking_def waits_def same_waits_def)
    note u = KiUnwaitThread_unwaited [OF this, of "WbWaitKey wb" increment, folded s1_def]
    have sig: "sint (SignalState (Objects s1 sem)) = sint (SignalState (Objects s sem)) - 1"
      using u semaphore_taken(2) [OF ok Cons.prems(2) True] by (simp add: unwaited_def s0)
    have semt: "ObType (Objects s1 sem) = SemaphoreObject" using u Cons.prems(2) by (simp add: unwaited_def s0)
    have thr: "Threads s1 v = Threads s v" if "v \<noteq> ?t" for v
      using that unlink_other_threads [of v ?t] by (simp add: s1_def s0)
    have me: "ThState (Threads s1 ?t) = DeferredReady" "WaitStatus (Threads s1 ?t) = WaitStatus (Threads s ?t) OR WbWaitKey wb"
      by (simp_all add: s1_def unwait_thread s0)
    define j where "j = min (nat (sint (SignalState (Objects s1 sem)))) (length ws)"
    have k: "k = Suc j" using Cons.prems(6) sig True by (simp add: j_def signaled_def)
    obtain s' where s': "KiWaitTest sem increment s1 = Some s'" "released_in_order sem j ws s1 s'"
      "sint (SignalState (Objects s' sem)) = sint (SignalState (Objects s1 sem)) - int j"
      using Cons.IH [OF w(1) semt _ _ lst j_def] Cons.prems(3,4) by auto
    have "KiWaitTest sem increment s = KiWaitTest sem increment s1"
      using True Cons.prems(3,5) by (subst KiWaitTest.simps) (simp add: s1_def Let_def)
    moreover have "?t \<notin> WbThread ` set (take j ws)"
      using Cons.prems(4) by (auto dest: in_set_takeD)
    then have "released_in_order sem k (wb # ws) s s'"
      using s'(2) thr me unfolding released_in_order_def k
      by (auto simp: image_iff)
    ultimately show ?thesis using s'(1,3) sig k by auto
  qed
qed

text \<open>A mutant that is freed abandoned goes to its first waiter for any object, or stays free.\<close>

definition passed_on :: "nat \<Rightarrow> dispatcher \<Rightarrow> bool" where
  "passed_on mut s \<longleftrightarrow> ObType (Objects s mut) = MutantObject \<and>
     (if SignalState (Objects s mut) = 1 then OwnerThread (Objects s mut) = None \<and> Abandoned (Objects s mut)
      else \<exists>u. OwnerThread (Objects s mut) = Some u \<and> \<not> waits s u \<and> bit (WaitStatus (Threads s u)) 7)"

lemma abandoned_test:
  assumes "waking mut s" "passed_on mut s" "SignalState (Objects s mut) = 1"
  shows "\<exists>s'. KiWaitTest mut increment s = Some s' \<and> passed_on mut s'"
  using assms
proof (induction "length (WaitListHead (Objects s mut))" arbitrary: s rule: less_induct)
  case less
  have sig: "signaled (Objects s mut)" using less.prems(3) by (simp add: signaled_def)
  show ?case
  proof (cases "WaitListHead (Objects s mut)")
    case Nil
    then have "KiWaitTest mut increment s = Some s" by (subst KiWaitTest.simps) simp
    then show ?thesis using less.prems(2) by simp
  next
    case (Cons wb rest)
    let ?t = "WbThread wb"
    show ?thesis
    proof (cases "WbWaitType wb = WaitAny")
      case False
      define s1 where "s1 = KiUnwaitThread ?t STATUS_KERNEL_APC increment s"
      note w = waking_unwait [OF less.prems(1) Cons s1_def]
      have "lists_ok s" "waits s ?t"
        using less.prems(1) waking_head [OF less.prems(1) Cons] by (simp_all add: waking_def)
      note u = KiUnwaitThread_unwaited [OF this, of STATUS_KERNEL_APC increment, folded s1_def]
      have "passed_on mut s1" "SignalState (Objects s1 mut) = 1"
        using less.prems(2,3) u by (simp_all add: passed_on_def unwaited_def)
      moreover have "length (WaitListHead (Objects s1 mut)) < length (WaitListHead (Objects s mut))"
        using w(3) Cons by (simp add: le_imp_less_Suc)
      moreover have "KiWaitTest mut increment s = KiWaitTest mut increment s1"
        using sig Cons False by (subst KiWaitTest.simps) (simp add: s1_def Let_def)
      ultimately show ?thesis using less.hyps w(1) by simp
    next
      case True
      let ?s0 = "KiWaitSatisfyAny mut ?t s"
      define s1 where "s1 = KiUnwaitThread ?t (WbWaitKey wb) increment ?s0"
      note w = waking_satisfy [OF less.prems(1) Cons sig s1_def]
      have m: "ObType (Objects s mut) = MutantObject" "Abandoned (Objects s mut)"
        using less.prems(2,3) by (simp_all add: passed_on_def)
      have x0: "OwnerThread (Objects ?s0 mut) = Some ?t" "SignalState (Objects ?s0 mut) = 0"
        "WaitStatus (Threads ?s0 ?t) = STATUS_ABANDONED" "ObType (Objects ?s0 mut) = MutantObject"
        using m less.prems(3)
        by (simp_all add: KiWaitSatisfyAny_def KiWaitSatisfyMutant_def synchronization_type_def Let_def)
      have "same_waits s ?s0" by (rule satisfy_same_waits)
      then have l: "lists_ok ?s0" "waits ?s0 ?t"
        using less.prems(1) waking_head [OF less.prems(1) Cons] same_waits_lists [of s ?s0]
        by (simp_all add: waking_def waits_def same_waits_def)
      note u = KiUnwaitThread_unwaited [OF l, of "WbWaitKey wb" increment, folded s1_def]
      have "WaitStatus (Threads s1 ?t) = STATUS_ABANDONED OR WbWaitKey wb"
        using x0(3) by (simp add: s1_def unwait_thread)
      then have "bit (WaitStatus (Threads s1 ?t)) 7" by (simp add: bit_or_iff)
      then have p: "passed_on mut s1" using u x0 by (simp add: passed_on_def unwaited_def)
      have "\<not> signaled (Objects s1 mut)" using u x0 by (simp add: unwaited_def signaled_def)
      then have "KiWaitTest mut increment s1 = Some s1" by (subst KiWaitTest.simps) simp
      moreover have "KiWaitTest mut increment s = KiWaitTest mut increment s1"
        using sig Cons True by (subst KiWaitTest.simps) (simp add: s1_def Let_def)
      ultimately show ?thesis using p by simp
    qed
  qed
qed

lemma passed_on_frame:
  assumes "test_frame ob s s'" "mut \<noteq> ob" "passed_on mut s"
  shows "passed_on mut s'"
proof -
  have "Threads s' u = Threads s u" if "\<not> waits s u" for u using assms(1) that by (simp add: test_frame_def)
  then have "\<not> waits s u \<Longrightarrow> \<not> waits s' u \<and> WaitStatus (Threads s' u) = WaitStatus (Threads s u)" for u
    by (simp add: waits_def)
  with assms show ?thesis by (auto simp: passed_on_def test_frame_def)
qed


lemma passed_on_abandon:
  "mut \<noteq> m \<Longrightarrow> passed_on mut s \<Longrightarrow> passed_on mut (abandon_mutant t m rest s)"
  by (simp add: passed_on_def abandon_mutant_def waits_def split: if_splits) metis

text \<open>What the rundown of a thread does to the mutants it owns.\<close>

definition run_down :: "nat \<Rightarrow> dispatcher \<Rightarrow> ntstatus + dispatcher \<Rightarrow> bool" where
  "run_down t s r \<longleftrightarrow> (case r of
     Inl status \<Rightarrow> \<exists>mut. owns s t mut \<and> ApcDisable (Objects s mut) \<noteq> 0
   | Inr s' \<Rightarrow> (\<forall>mut. \<not> owns s' t mut) \<and>
       (\<forall>mut. owns s t mut \<longrightarrow> ApcDisable (Objects s mut) = 0 \<and> passed_on mut s'))"

lemma owned_list: "dispatcher_ok s \<Longrightarrow> owns s t m \<longleftrightarrow> m \<in> set (MutantListHead (Threads s t))"
  by (simp add: dispatcher_ok_def owners_ok_def)

lemma rundown_passes_on:
  assumes "dispatcher_ok s" "\<not> waits s t" "\<forall>mut \<in> D. passed_on mut s \<and> \<not> owns s t mut"
  shows "\<exists>r. KeRundownThread t s = Some r \<and> run_down t s r \<and>
    (case r of Inl status \<Rightarrow> True | Inr s' \<Rightarrow> \<forall>mut \<in> D. passed_on mut s')"
  using assms
proof (induction "MutantListHead (Threads s t)" arbitrary: s D)
  case Nil
  then have "\<not> owns s t mut" for mut by (metis dispatcher_ok_def owners_ok_def empty_iff empty_set)
  then show ?case using Nil by (simp add: KeRundownThread.simps [of t s] run_down_def)
next
  case (Cons mut rest)
  note l = Cons.hyps(2) [symmetric]
  have own: "owns s t m \<longleftrightarrow> m = mut \<or> m \<in> set rest" and n: "mut \<notin> set rest" for m
    using Cons.prems(1) l unfolding dispatcher_ok_def owners_ok_def
    by (metis set_ConsD list.set_intros, metis distinct.simps(2))
  show ?case
  proof (cases "ApcDisable (Objects s mut) = 0")
    case False
    then show ?thesis using rundown_held [OF l] own by (auto simp: run_down_def)
  next
    case True
    let ?s2 = "abandon_mutant t mut rest s"
    obtain s3 where s3: "KiWaitTest mut MUTANT_INCREMENT ?s2 = Some s3" "KeRundownThread t s = KeRundownThread t s3"
      "dispatcher_ok s3" "test_frame mut ?s2 s3" "\<not> waits s3 t" "MutantListHead (Threads s3 t) = rest"
      using rundown_turn [OF Cons.prems(1,2) l True] by blast
    note w = abandon_mutant_waking [OF Cons.prems(1) l]
    have "passed_on mut ?s2" "SignalState (Objects ?s2 mut) = 1"
      using w(2) by (simp_all add: passed_on_def abandon_mutant_def)
    from abandoned_test [OF w(1) this, of MUTANT_INCREMENT] have p: "passed_on mut s3" using s3(1) by simp
    have own3: "owns s3 t m \<longleftrightarrow> m \<in> set rest" for m using owned_list [OF s3(3)] s3(6) by simp
    have keep: "passed_on m s3" if "m \<in> D" for m
    proof -
      have "m \<noteq> mut" "passed_on m s" using that Cons.prems(3) own by auto
      then show ?thesis using passed_on_abandon passed_on_frame [OF s3(4)] by blast
    qed
    have apc: "ApcDisable (Objects s3 m) = ApcDisable (Objects s m)" for m
      using s3(4) by (simp add: test_frame_def abandon_mutant_def)
    have "\<forall>m \<in> insert mut D. passed_on m s3 \<and> \<not> owns s3 t m"
      using p keep own own3 n Cons.prems(3) by auto
    from Cons.hyps(1) [OF _ s3(3,5) this] obtain r where r: "KeRundownThread t s3 = Some r" "run_down t s3 r"
      "case r of Inl status \<Rightarrow> True | Inr s' \<Rightarrow> \<forall>m \<in> insert mut D. passed_on m s'" using s3(6) by metis
    have "run_down t s r"
      using r(2,3) True unfolding run_down_def own own3 apc by (cases r) auto
    then show ?thesis using r s3(2) by (cases r) simp_all
  qed
qed


text \<open>A test without side effects wakes every waiter of a notification object.\<close>

definition all_released :: "nat \<Rightarrow> dispatcher \<Rightarrow> dispatcher \<Rightarrow> bool" where
  "all_released ob s s' \<longleftrightarrow> WaitListHead (Objects s' ob) = [] \<and>
     SignalState (Objects s' ob) = SignalState (Objects s ob) \<and>
     (\<forall>u. u \<in> WbThread ` set (WaitListHead (Objects s ob)) \<longrightarrow> ThState (Threads s' u) = DeferredReady) \<and>
     (\<forall>u. u \<notin> WbThread ` set (WaitListHead (Objects s ob)) \<longrightarrow> Threads s' u = Threads s u)"

lemma notification_test_releases:
  assumes "waking ob s" "WaitListHead (Objects s ob) \<noteq> []"
  shows "\<exists>s'. KiWaitTestWithoutSideEffects ob increment s = Some s' \<and> all_released ob s s'"
  using assms
proof (induction "length (WaitListHead (Objects s ob))" arbitrary: s rule: less_induct)
  case less
  obtain wb rest where wb: "WaitListHead (Objects s ob) = wb # rest"
    using less.prems(2) by (meson neq_Nil_conv)
  let ?t = "WbThread wb"
  define status where "status = (if WbWaitType wb = WaitAny then WbWaitKey wb else STATUS_KERNEL_APC)"
  define s1 where "s1 = KiUnwaitThread ?t status increment s"
  note w = waking_unwait [OF less.prems(1) wb s1_def]
  have eq: "KiWaitTestWithoutSideEffects ob increment s =
      (if WaitListHead (Objects s1 ob) \<noteq> [] then KiWaitTestWithoutSideEffects ob increment s1 else Some s1)"
    using wb by (simp add: KiWaitTestWithoutSideEffects.simps [of ob increment s] Let_def status_def s1_def)
  have "lists_ok s" "waits s ?t" using less.prems(1) waking_head [OF less.prems(1) wb] by (simp_all add: waking_def)
  note u = KiUnwaitThread_unwaited [OF this, of status increment, folded s1_def]
  have me: "ThState (Threads s1 ?t) = DeferredReady" and sig: "SignalState (Objects s1 ob) = SignalState (Objects s ob)"
    using u by (simp_all add: s1_def unwait_thread unwaited_def)
  have oth: "Threads s1 v = Threads s v" if "v \<noteq> ?t" for v
    using that unlink_other_threads [of v ?t] by (simp add: s1_def)
  have left: "v \<in> WbThread ` set (WaitListHead (Objects s1 ob)) \<longleftrightarrow>
      v \<in> WbThread ` set (WaitListHead (Objects s ob)) \<and> v \<noteq> ?t" for v
    unfolding w(3) wb by auto
  show ?case
  proof (cases "WaitListHead (Objects s1 ob) = []")
    case True
    then have "v \<in> WbThread ` set (WaitListHead (Objects s ob)) \<longleftrightarrow> v = ?t" for v
      using left [of v] wb by auto
    then have "all_released ob s s1" using True me sig oth by (simp add: all_released_def)
    then show ?thesis using True eq by simp
  next
    case False
    have "length (WaitListHead (Objects s1 ob)) < length (WaitListHead (Objects s ob))"
      using w(3) wb by (simp add: le_imp_less_Suc)
    from less.hyps [OF this w(1) False] obtain s' where s': "KiWaitTestWithoutSideEffects ob increment s1 = Some s'"
      "all_released ob s1 s'" by blast
    have "?t \<in> WbThread ` set (WaitListHead (Objects s ob))" using wb by simp
    then have "all_released ob s s'" using s'(2) left me sig oth unfolding all_released_def by metis
    then show ?thesis using s'(1) False eq by simp
  qed
qed


text \<open>A semaphore that threads wait on for any object has no count.\<close>

lemma empty_if_waiters:
  assumes ok: "dispatcher_ok s" and sem: "ObType (Objects s sem) = SemaphoreObject"
    and wb: "wb \<in> set (WaitListHead (Objects s sem))" "WbWaitType wb = WaitAny"
  shows "SignalState (Objects s sem) = 0"
proof -
  have "WbObject wb = sem" "waits s (WbThread wb)" "wb \<in> set (WaitBlockList (Threads s (WbThread wb)))"
    using ok wb(1) unfolding dispatcher_ok_def lists_ok_def by blast+
  then have "\<not> signaled (Objects s sem)"
    using ok wb(2) unfolding dispatcher_ok_def no_lost_wakeup_def available_def by fastforce
  moreover have "0 \<le> sint (SignalState (Objects s sem))"
    using dispatcher_ok_object [OF ok, of sem] sem by (simp add: object_ok_def)
  ultimately show ?thesis using sint_eq_iff_values(1) [of "SignalState (Objects s sem)"]
    unfolding signaled_def by linarith
qed

text \<open>Signed addition within range.\<close>

lemma sint_add_range:
  assumes "- (2 ^ 31) \<le> sint (x :: long) + sint y" "sint x + sint y < 2 ^ 31"
  shows "sint (x + y) = sint x + sint y"
proof -
  have "signed_take_bit 31 (sint x + sint y) = sint x + sint y"
    using assms by (intro signed_take_bit_int_eq_self) auto
  then show ?thesis by (simp add: sint_word_ariths)
qed

end
