(* ===== verification/Dispatcher_Theorems.thy ===== *)
theory Dispatcher_Theorems
  imports Dispatcher_Effects
begin

text \<open>The properties of the dispatcher objects, with their witnesses.\<close>

section \<open>Reachable examples\<close>

lemma wait_on_reachable:
  "reachable s0 s \<Longrightarrow> running s t \<Longrightarrow> reachable s0 (wait_on ob t s)"
  unfolding wait_on_def by (metis reachable.step wait_single prod.collapse)

lemma semaphore_waiters_reachable: "reachable idle_dispatcher semaphore_waiters"
proof -
  let ?s0 = "KeInitializeSemaphore 7 0 10 idle_dispatcher"
  have "unused idle_dispatcher 7"
    by (simp add: unused_def idle_dispatcher_def idle_object_def owns_def)
  then have "reachable idle_dispatcher ?s0"
    by (intro reachable.step [OF reachable.start] create_semaphore) simp_all
  moreover have "running ?s0 1" "running (wait_on 7 1 ?s0) 2" "running (wait_on 7 2 (wait_on 7 1 ?s0)) 3"
    by code_simp+
  ultimately show ?thesis unfolding semaphore_waiters_def by (intro wait_on_reachable)
qed

lemma mutant_waiter_reachable: "reachable idle_dispatcher mutant_waiter"
proof -
  let ?s0 = "KeInitializeMutant 1 5 True idle_dispatcher"
  have "unused idle_dispatcher 5" "running idle_dispatcher 1"
    by (simp_all add: unused_def idle_dispatcher_def idle_object_def owns_def running_def idle_thread_def)
  then have "reachable idle_dispatcher ?s0"
    by (intro reachable.step [OF reachable.start] create_mutant)
  moreover have "running ?s0 2" by code_simp
  ultimately show ?thesis unfolding mutant_waiter_def by (rule wait_on_reachable)
qed

section \<open>Reachable states\<close>

text \<open>
  C11: Whatever sequence of operations threads perform on a fresh dispatcher, the waits recorded
  in the lists of the objects are those of the waiting threads, semaphore counts stay between zero
  and the limit, the mutants in a thread's list are those it owns, and no thread waits for what
  is available. Waits for all of several objects name no object twice (\<open>wait_all_twice\<close> below).
\<close>

theorem dispatcher_invariant:
  assumes "reachable idle_dispatcher s"
  shows "dispatcher_ok s"
  using assms reachable_ok idle_dispatcher_ok by blast

theorem dispatcher_invariant_witness: "dispatcher_ok semaphore_waiters"
  by (rule dispatcher_invariant [OF semaphore_waiters_reachable])

text \<open>
  C12: No wakeup is lost: in a reachable state, the scan that \<^verbatim>\<open>KeWaitForMultipleObjects\<close> makes of the
  objects a waiting thread waits for would not satisfy the wait.
\<close>

theorem waiting_threads_must_wait:
  assumes "reachable idle_dispatcher s" "waits s t" "wbs = WaitBlockList (Threads s t)"
  shows "((\<forall>wb \<in> set wbs. WbWaitType wb = WaitAny) \<longrightarrow> wait_any_scan t s 0 (map WbObject wbs) = None) \<and>
    ((\<forall>wb \<in> set wbs. WbWaitType wb = WaitAll) \<longrightarrow> wait_all_scan t s (map WbObject wbs) \<noteq> Inr True)"
proof
  have n: "no_lost_wakeup {} s"
    using reachable_ok [OF assms(1) idle_dispatcher_ok] by (simp add: dispatcher_ok_def)
  then show "(\<forall>wb \<in> set wbs. WbWaitType wb = WaitAny) \<longrightarrow> wait_any_scan t s 0 (map WbObject wbs) = None"
    using assms(2,3) by (simp add: no_lost_wakeup_def wait_any_scan_None)
  show "(\<forall>wb \<in> set wbs. WbWaitType wb = WaitAll) \<longrightarrow> wait_all_scan t s (map WbObject wbs) \<noteq> Inr True"
  proof (intro impI notI)
    assume all: "\<forall>wb \<in> set wbs. WbWaitType wb = WaitAll" and "wait_all_scan t s (map WbObject wbs) = Inr True"
    then have "\<forall>wb \<in> set wbs. available s t (WbObject wb)"
      using wait_all_scan_Inr(1) [of t s "map WbObject wbs"] by simp
    then show False using n all assms(2,3) unfolding no_lost_wakeup_def by fastforce
  qed
qed

theorem waiting_threads_must_wait_witness: "wait_any_scan 2 semaphore_waiters 0 [7] = None"
proof -
  have w: "waits semaphore_waiters 2" "WaitBlockList (Threads semaphore_waiters 2) = [single_wait_block 2 7]"
    by code_simp+
  have "\<forall>wb \<in> set [single_wait_block 2 7]. WbWaitType wb = WaitAny" by (simp add: single_wait_block_def)
  from mp [OF conjunct1 [OF waiting_threads_must_wait [OF semaphore_waiters_reachable w(1) w(2) [symmetric]]] this] show ?thesis
    by (simp add: single_wait_block_def)
qed

text \<open>
  C13: Mutants exclude: in a reachable state a mutant is in the list of at most one thread, which is the
  owner it records, and its signal state shows it held.
\<close>

theorem mutant_exclusion:
  assumes "reachable idle_dispatcher s" "mut \<in> set (MutantListHead (Threads s t))"
    and "mut \<in> set (MutantListHead (Threads s u))"
  shows "t = u \<and> OwnerThread (Objects s mut) = Some t \<and> sint (KeReadStateMutant mut s) \<le> 0"
proof -
  have ok: "dispatcher_ok s" by (rule reachable_ok [OF assms(1) idle_dispatcher_ok])
  have "owns s t mut" "owns s u mut" using owned_list [OF ok] assms(2,3) by simp_all
  then have "ObType (Objects s mut) = MutantObject" "OwnerThread (Objects s mut) = Some t" "t = u"
    by (simp_all add: owns_def)
  then show ?thesis using mutant_owner_signal [OF ok, of mut u] by (simp add: KeReadStateMutant_def)
qed

theorem mutant_exclusion_witness: "OwnerThread (Objects mutant_waiter 5) = Some 1"
proof -
  have "5 \<in> set (MutantListHead (Threads mutant_waiter 1))" by code_simp
  from mutant_exclusion [OF mutant_waiter_reachable this this] show ?thesis by simp
qed

section \<open>Releasing\<close>

text \<open>
  C14: When every waiter in the list of a semaphore waits for any object (none for all) and no thread is in
  the list twice, \<^verbatim>\<open>KeReleaseSemaphore\<close> within the limit returns the old count and releases the waiters
  in the order in which they came, one for each count added, and keeps the rest of the
  count.
\<close>

theorem KeReleaseSemaphore_fifo:
  assumes "dispatcher_ok s" "ObType (Objects s sem) = SemaphoreObject" "ws = WaitListHead (Objects s sem)"
    and "\<forall>wb \<in> set ws. WbWaitType wb = WaitAny" "distinct (map WbThread ws)"
    and "0 \<le> sint adjustment" "sint (SignalState (Objects s sem)) + sint adjustment \<le> sint (Limit (Objects s sem))"
    and "k = min (nat (sint adjustment)) (length ws)"
  shows "\<exists>s'. KeReleaseSemaphore t sem increment adjustment False irql s = Some (Inr (SignalState (Objects s sem), s')) \<and>
    released_in_order sem k ws s s' \<and>
    sint (SignalState (Objects s' sem)) = sint (SignalState (Objects s sem)) + sint adjustment - int k"
proof -
  let ?x = "Objects s sem"
  let ?s = "set_signal sem (SignalState ?x + adjustment) s"
  have r: "0 \<le> sint (SignalState ?x)" using dispatcher_ok_object [OF assms(1), of sem] assms(2) by (simp add: object_ok_def)
  have new: "sint (SignalState ?x + adjustment) = sint (SignalState ?x) + sint adjustment"
    by (rule sint_add_range) (use r assms(6,7) sint_lt [of "Limit ?x"] in auto)
  have fits: "\<not> (Limit ?x <s SignalState ?x + adjustment \<or> SignalState ?x + adjustment <s SignalState ?x)"
    using assms(6,7) by (auto simp: word_sless_alt new)
  have ok: "object_ok (?x\<lparr>SignalState := SignalState ?x + adjustment\<rparr>)"
    using r assms(2,6,7) by (simp add: object_ok_def new)
  show ?thesis
  proof (cases "ws")
    case Nil
    then show ?thesis
      using assms(3,8) fits new by (simp add: KeReleaseSemaphore_def Let_def released_in_order_def set_wait_next_def)
  next
    case (Cons wb rest)
    have "SignalState ?x = 0" by (rule empty_if_waiters [OF assms(1,2)]) (use Cons assms(3,4) in auto)
    moreover have "waking sem ?s" using waking_set_signal [OF assms(1) ok] assms(2) by simp
    from semaphore_test_fifo [OF this _ assms(4,5), of k increment] obtain s' where
      "KiWaitTest sem increment ?s = Some s'" "released_in_order sem k ws ?s s'"
      "sint (SignalState (Objects s' sem)) = sint (SignalState (Objects ?s sem)) - int k"
      using assms(2,3,8) new \<open>SignalState ?x = 0\<close> by auto
    ultimately show ?thesis
      using assms(3) fits new Cons [unfolded assms(3)]
      by (simp add: KeReleaseSemaphore_def Let_def released_in_order_def set_wait_next_def)
  qed
qed

theorem KeReleaseSemaphore_fifo_witness:
  "\<exists>s'. KeReleaseSemaphore 4 7 1 2 False 0 semaphore_waiters = Some (Inr (0, s')) \<and>
    map (\<lambda>t. ThState (Threads s' t)) [1, 2, 3] = [DeferredReady, DeferredReady, Waiting]"
proof -
  have w: "WaitListHead (Objects semaphore_waiters 7) = map (\<lambda>t. single_wait_block t 7) [1, 2, 3]"
    "ThState (Threads semaphore_waiters 3) = Waiting" "SignalState (Objects semaphore_waiters 7) = 0"
    "ObType (Objects semaphore_waiters 7) = SemaphoreObject" "Limit (Objects semaphore_waiters 7) = 10"
    by code_simp+
  obtain s' where "KeReleaseSemaphore 4 7 1 2 False 0 semaphore_waiters = Some (Inr (0, s'))"
    and r: "released_in_order 7 2 (map (\<lambda>t. single_wait_block t 7) [1, 2, 3]) semaphore_waiters s'"
    using KeReleaseSemaphore_fifo [OF semaphore_waiters_ok w(4) w(1) [symmetric], of 2 2 4 1 0]
    by (simp add: w(3,5) single_wait_block_def) blast
  moreover have "ThState (Threads s' 1) = DeferredReady" "ThState (Threads s' 2) = DeferredReady"
    "Threads s' 3 = Threads semaphore_waiters 3"
    using r by (simp_all add: released_in_order_def single_wait_block_def numeral_2_eq_2)
  ultimately show ?thesis using w(2) by simp
qed

text \<open>
  C15: \<^verbatim>\<open>KeSetEvent\<close> on a notification event that is not signaled leaves it signaled, with every
  thread that waited on it readied and no other thread touched.
\<close>

theorem KeSetEvent_releases_all:
  assumes "dispatcher_ok s" "ObType (Objects s ev) = EventNotificationObject" "SignalState (Objects s ev) = 0"
  shows "\<exists>s'. KeSetEvent t ev increment False irql s = Some (0, s') \<and> SignalState (Objects s' ev) = 1 \<and>
    WaitListHead (Objects s' ev) = [] \<and>
    (\<forall>u. if u \<in> WbThread ` set (WaitListHead (Objects s ev)) then ThState (Threads s' u) = DeferredReady
         else Threads s' u = Threads s u)"
proof (cases "WaitListHead (Objects s ev) = []")
  case True
  then show ?thesis using assms(2,3) by (simp add: KeSetEvent_def Let_def set_wait_next_def)
next
  case False
  have "object_ok ((Objects s ev)\<lparr>SignalState := 1\<rparr>)" using assms(2) by (simp add: object_ok_def)
  then have "waking ev (set_signal ev 1 s)" using waking_set_signal [OF assms(1)] assms(2) by simp
  from notification_test_releases [OF this, of increment] False obtain s' where
    "KiWaitTestWithoutSideEffects ev increment (set_signal ev 1 s) = Some s'" "all_released ev (set_signal ev 1 s) s'"
    by auto
  then show ?thesis
    using assms(2,3) False by (simp add: KeSetEvent_def Let_def set_wait_next_def all_released_def)
qed

theorem KeSetEvent_releases_all_witness:
  "\<exists>s'. KeSetEvent 1 9 1 False 0 (wait_on 9 3 (wait_on 9 2 idle_dispatcher)) = Some (0, s') \<and>
    map (\<lambda>t. ThState (Threads s' t)) [2, 3] = [DeferredReady, DeferredReady]"
proof -
  let ?s = "wait_on 9 3 (wait_on 9 2 idle_dispatcher)"
  have w: "ObType (Objects ?s 9) = EventNotificationObject" "SignalState (Objects ?s 9) = 0"
    "map WbThread (WaitListHead (Objects ?s 9)) = [2, 3]" "\<not> waits idle_dispatcher 2" "\<not> waits (wait_on 9 2 idle_dispatcher) 3"
    by code_simp+
  have "WbThread ` set (WaitListHead (Objects ?s 9)) = {2, 3}" using w(3) by (metis list.set_map list.simps(15) empty_set)
  moreover have "dispatcher_ok ?s" using w(4,5) by (intro wait_on_ok idle_dispatcher_ok)
  ultimately show ?thesis
    using KeSetEvent_releases_all [OF _ w(1,2), of 1 1 0] by (fastforce simp: split: if_splits)
qed

section \<open>Rundown\<close>

text \<open>
  C16: \<^verbatim>\<open>KeRundownThread\<close> returns. It bugchecks only for a thread that holds a kernel mutex;
  otherwise the thread owns no mutant any more, and each one it owned is free and marked
  abandoned, or was passed on to a thread that has stopped waiting with the abandoned status.
\<close>

theorem KeRundownThread_passes_on:
  assumes "dispatcher_ok s" "\<not> waits s t"
  shows "\<exists>r. KeRundownThread t s = Some r \<and> run_down t s r"
  using rundown_passes_on [OF assms, of "{}"] by auto

theorem KeRundownThread_passes_on_witness:
  "\<exists>s'. KeRundownThread 1 mutant_waiter = Some (Inr s') \<and> passed_on 5 s'"
proof -
  have w: "\<not> waits mutant_waiter 1" "owns mutant_waiter 1 5" "ApcDisable (Objects mutant_waiter 5) = 0"
    "MutantListHead (Threads mutant_waiter 1) = [5]"
    by code_simp+
  have o: "owns mutant_waiter 1 m \<longleftrightarrow> m = 5" for m using owned_list [OF mutant_waiter_ok, of 1 m] w(4) by simp
  obtain r where "KeRundownThread 1 mutant_waiter = Some r" "run_down 1 mutant_waiter r"
    using KeRundownThread_passes_on [OF mutant_waiter_ok w(1)] by blast
  then show ?thesis using o w(3) by (cases r) (auto simp: run_down_def)
qed

text \<open>
  C17: Every operation of a running thread that contains a loop returns, in every reachable state,
  whatever waits are recorded: setting and pulsing an event, setting a synchronization event with
  a boost, releasing a semaphore and a mutant, and the rundown of the thread's mutants. The other
  operations are functions without a loop; a wait is modelled turn by turn.
\<close>

theorem operations_return:
  assumes "reachable idle_dispatcher s" "running s t"
  shows "(if is_event (Objects s ob)
      then KeSetEvent t ob increment wait irql s \<noteq> None \<and> KePulseEvent t ob increment wait irql s \<noteq> None
      else if ObType (Objects s ob) = SemaphoreObject then KeReleaseSemaphore t ob increment adjustment wait irql s \<noteq> None
      else if ObType (Objects s ob) = MutantObject
      then KeReleaseMutant t ob increment abandoned wait irql s \<noteq> None
      else True) \<and>
    (if ObType (Objects s ob) = EventSynchronizationObject then KeSetEventBoostPriority t ob s \<noteq> None else True) \<and>
    KeRundownThread t s \<noteq> None"
proof -
  have ok: "dispatcher_ok s" by (rule reachable_ok [OF assms(1) idle_dispatcher_ok])
  show ?thesis
    using KeSetEvent_ok [OF ok, of ob t increment wait irql] KePulseEvent_ok [OF ok, of ob t increment wait irql]
      KeSetEventBoostPriority_ok [OF ok, of ob t]
      KeReleaseSemaphore_ok [OF ok, of ob t increment adjustment wait irql]
      KeReleaseMutant_ok [OF ok, of ob t increment abandoned wait irql]
      KeRundownThread_ok [OF ok running_not_waits [OF assms(2)]]
    by auto
qed

theorem operations_return_witness: "KeReleaseMutant 1 5 1 True False 0 mutant_waiter \<noteq> None"
proof -
  have "running mutant_waiter 1" "ObType (Objects mutant_waiter 5) = MutantObject" by code_simp+
  with operations_return [OF mutant_waiter_reachable this(1), of 5 1 False 0 0 True] show ?thesis
    by (simp add: is_event_def)
qed

section \<open>What the steps leave out\<close>

text \<open>
  A wait for all objects of a list that names an object twice is no step of the transition system:
  the scan finds a semaphore of count 1 available twice, and satisfying the wait takes the count
  twice. \<^verbatim>\<open>NtWaitForMultipleObjects\<close> rejects such a list, \<^verbatim>\<open>KeWaitForMultipleObjects\<close> does not.
\<close>

lemma wait_all_twice:
  "SignalState (Objects (snd (KeWaitForMultipleObjects 1 [7, 7] WaitAll KernelMode False None False 0
     (KeInitializeSemaphore 7 1 10 idle_dispatcher))) 7) = -1"
  by code_simp

end
