(* ===== verification/Time_Fields.thy ===== *)
theory Time_Fields
  imports Prelude
begin

text \<open>
  The absolute time routines of \<^verbatim>\<open>rtl/time.c\<close>: between a count of 100 ns ticks since the start of
  1601 and calendar fields, and between ticks and seconds since 1970 or 1980. The arithmetic is
  that of the code, on 32-bit and 64-bit words.

  \<^verbatim>\<open>RtlExtendedMagicDivide\<close> is the inline function that \<^verbatim>\<open>ntrtl.h\<close> defines for AMD64.
\<close>

unbundle bit_operations_syntax

type_synonym cshort = "16 word"
type_synonym large_integer = "64 word"

text \<open>\<^verbatim>\<open>TIME_FIELDS\<close>, in the order of the structure.\<close>

record time_fields =
  Year :: cshort
  Month :: cshort
  Day :: cshort
  Hour :: cshort
  Minute :: cshort
  Second :: cshort
  Milliseconds :: cshort
  Weekday :: cshort

section \<open>Tables\<close>

text \<open>The tables of days in the year to months, written month by month as in the source.\<close>

definition LeapYearDayToMonth :: "uchar list" where
  "LeapYearDayToMonth =
     replicate 31 0 @ replicate 29 1 @ replicate 31 2 @ replicate 30 3 @ replicate 31 4 @
     replicate 30 5 @ replicate 31 6 @ replicate 31 7 @ replicate 30 8 @ replicate 31 9 @
     replicate 30 10 @ replicate 31 11"

definition NormalYearDayToMonth :: "uchar list" where
  "NormalYearDayToMonth =
     replicate 31 0 @ replicate 28 1 @ replicate 31 2 @ replicate 30 3 @ replicate 31 4 @
     replicate 30 5 @ replicate 31 6 @ replicate 31 7 @ replicate 30 8 @ replicate 31 9 @
     replicate 30 10 @ replicate 31 11"

definition LeapYearDaysPrecedingMonth :: "cshort list" where
  "LeapYearDaysPrecedingMonth =
     [0, 31, 31 + 29, 31 + 29 + 31, 31 + 29 + 31 + 30, 31 + 29 + 31 + 30 + 31,
      31 + 29 + 31 + 30 + 31 + 30, 31 + 29 + 31 + 30 + 31 + 30 + 31,
      31 + 29 + 31 + 30 + 31 + 30 + 31 + 31, 31 + 29 + 31 + 30 + 31 + 30 + 31 + 31 + 30,
      31 + 29 + 31 + 30 + 31 + 30 + 31 + 31 + 30 + 31,
      31 + 29 + 31 + 30 + 31 + 30 + 31 + 31 + 30 + 31 + 30,
      31 + 29 + 31 + 30 + 31 + 30 + 31 + 31 + 30 + 31 + 30 + 31]"

definition NormalYearDaysPrecedingMonth :: "cshort list" where
  "NormalYearDaysPrecedingMonth =
     [0, 31, 31 + 28, 31 + 28 + 31, 31 + 28 + 31 + 30, 31 + 28 + 31 + 30 + 31,
      31 + 28 + 31 + 30 + 31 + 30, 31 + 28 + 31 + 30 + 31 + 30 + 31,
      31 + 28 + 31 + 30 + 31 + 30 + 31 + 31, 31 + 28 + 31 + 30 + 31 + 30 + 31 + 31 + 30,
      31 + 28 + 31 + 30 + 31 + 30 + 31 + 31 + 30 + 31,
      31 + 28 + 31 + 30 + 31 + 30 + 31 + 31 + 30 + 31 + 30,
      31 + 28 + 31 + 30 + 31 + 30 + 31 + 31 + 30 + 31 + 30 + 31]"

section \<open>Extended arithmetic\<close>

text \<open>The intrinsic: the upper half of the 128-bit product.\<close>

definition UnsignedMultiplyHigh :: "64 word \<Rightarrow> 64 word \<Rightarrow> 64 word" where
  "UnsignedMultiplyHigh a b = word_of_nat (unat a * unat b div 2 ^ 64)"

definition RtlExtendedMagicDivide :: "large_integer \<Rightarrow> large_integer \<Rightarrow> nat \<Rightarrow> large_integer" where
  "RtlExtendedMagicDivide dividend magicDivisor shiftCount =
     (let quotient = drop_bit shiftCount
            (UnsignedMultiplyHigh (if 0 \<le> sint dividend then dividend else - dividend) magicDivisor)
      in if sint dividend < 0 then - quotient else quotient)"

definition RtlExtendedIntegerMultiply :: "large_integer \<Rightarrow> long \<Rightarrow> large_integer" where
  "RtlExtendedIntegerMultiply multiplicand multiplier = multiplicand * scast multiplier"

definition Magic10000 :: large_integer where "Magic10000 = 0xd1b71758e219652c"
definition Magic10000000 :: large_integer where "Magic10000000 = 0xd6bf94d5e57a42bd"
definition Magic86400000 :: large_integer where "Magic86400000 = 0xc6d750ebfa67b90e"

definition SecondsToStartOf1970 :: large_integer where "SecondsToStartOf1970 = 0x2b6109100"
definition SecondsToStartOf1980 :: large_integer where "SecondsToStartOf1980 = 0x2c8df3700"

definition Convert100nsToMilliseconds :: "large_integer \<Rightarrow> large_integer" where
  "Convert100nsToMilliseconds t = RtlExtendedMagicDivide t Magic10000 13"

definition ConvertMillisecondsTo100ns :: "large_integer \<Rightarrow> large_integer" where
  "ConvertMillisecondsTo100ns t = RtlExtendedIntegerMultiply t 10000"

definition Convert100nsToSeconds :: "large_integer \<Rightarrow> large_integer" where
  "Convert100nsToSeconds t = RtlExtendedMagicDivide t Magic10000000 23"

definition ConvertSecondsTo100ns :: "large_integer \<Rightarrow> large_integer" where
  "ConvertSecondsTo100ns t = RtlExtendedIntegerMultiply t 10000000"

definition ConvertMillisecondsToDays :: "large_integer \<Rightarrow> large_integer" where
  "ConvertMillisecondsToDays t = RtlExtendedMagicDivide t Magic86400000 26"

text \<open>\<^verbatim>\<open>Int32x32To64\<close>: both factors are read as \<^verbatim>\<open>LONG\<close>.\<close>

definition ConvertDaysToMilliseconds :: "ulong \<Rightarrow> large_integer" where
  "ConvertDaysToMilliseconds days = scast days * 86400000"

section \<open>Calendar arithmetic\<close>

definition ElapsedDaysToYears :: "ulong \<Rightarrow> ulong" where
  "ElapsedDaysToYears elapsedDays =
     (let numberOf400s = elapsedDays div 146097;
          elapsedDays1 = elapsedDays - numberOf400s * 146097;
          numberOf100s = (elapsedDays1 * 100 + 75) div 3652425;
          elapsedDays2 = elapsedDays1 - numberOf100s * 36524;
          numberOf4s = elapsedDays2 div 1461;
          elapsedDays3 = elapsedDays2 - numberOf4s * 1461
      in numberOf400s * 400 + numberOf100s * 100 + numberOf4s * 4 +
           (elapsedDays3 * 100 + 75) div 36525)"

definition NumberOfLeapYears :: "ulong \<Rightarrow> ulong" where
  "NumberOfLeapYears years = years div 4 - years div 100 + years div 400"

definition ElapsedYearsToDays :: "ulong \<Rightarrow> ulong" where
  "ElapsedYearsToDays years = years * 365 + NumberOfLeapYears years"

definition IsLeapYear :: "ulong \<Rightarrow> bool" where
  "IsLeapYear years \<longleftrightarrow> years mod 400 = 0 \<or> years mod 100 \<noteq> 0 \<and> years mod 4 = 0"

definition MaxDaysInMonth :: "ulong \<Rightarrow> ulong \<Rightarrow> int" where
  "MaxDaysInMonth year month =
     (if IsLeapYear year
      then sint (LeapYearDaysPrecedingMonth ! (unat month + 1)) - sint (LeapYearDaysPrecedingMonth ! unat month)
      else sint (NormalYearDaysPrecedingMonth ! (unat month + 1)) - sint (NormalYearDaysPrecedingMonth ! unat month))"

section \<open>Ticks and fields\<close>

definition TimeToDaysAndFraction :: "large_integer \<Rightarrow> ulong \<times> ulong" where
  "TimeToDaysAndFraction time =
     (let totalMilliseconds = Convert100nsToMilliseconds time;
          temp = ConvertMillisecondsToDays totalMilliseconds;
          elapsedDays = ucast temp;
          temp1 = ConvertDaysToMilliseconds elapsedDays;
          temp2 = totalMilliseconds - temp1
      in (elapsedDays, ucast temp2))"

definition DaysAndFractionToTime :: "ulong \<Rightarrow> ulong \<Rightarrow> large_integer" where
  "DaysAndFractionToTime elapsedDays milliseconds =
     (let temp = ConvertDaysToMilliseconds elapsedDays;
          temp2 = ucast milliseconds
      in ConvertMillisecondsTo100ns (temp + temp2))"

definition RtlTimeToTimeFields :: "large_integer \<Rightarrow> time_fields" where
  "RtlTimeToTimeFields time =
     (let (days, milliseconds) = TimeToDaysAndFraction time;
          weekday = ucast ((days + 1) mod 7);
          years = ElapsedDaysToYears days;
          days1 = days - ElapsedYearsToDays years;
          (month, days2) =
            (if IsLeapYear (years + 1)
             then let month = LeapYearDayToMonth ! unat days1
                  in (month, days1 - scast (LeapYearDaysPrecedingMonth ! unat month))
             else let month = NormalYearDayToMonth ! unat days1
                  in (month, days1 - scast (NormalYearDaysPrecedingMonth ! unat month)));
          seconds = milliseconds div 1000;
          milliseconds1 = milliseconds mod 1000;
          minutes = seconds div 60;
          seconds1 = seconds mod 60;
          hours = minutes div 60;
          minutes1 = minutes mod 60
      in \<lparr>Year = ucast (years + 1601), Month = ucast month + 1, Day = ucast (days2 + 1),
          Hour = ucast hours, Minute = ucast minutes1, Second = ucast seconds1,
          Milliseconds = ucast milliseconds1, Weekday = weekday\<rparr>)"

text \<open>\<^const>\<open>None\<close> is the result FALSE.\<close>

definition RtlTimeFieldsToTime :: "time_fields \<Rightarrow> large_integer option" where
  "RtlTimeFieldsToTime timeFields =
     (let year = scast (Year timeFields) :: ulong;
          month = scast (Month timeFields) - 1 :: ulong;
          day = scast (Day timeFields) - 1 :: ulong;
          hour = scast (Hour timeFields) :: ulong;
          minute = scast (Minute timeFields) :: ulong;
          second = scast (Second timeFields) :: ulong;
          milliseconds = scast (Milliseconds timeFields) :: ulong
      in if sint (Month timeFields) < 1 \<or> sint (Day timeFields) < 1 \<or> year < 1601 \<or> year > 30827 \<or> month > 11 \<or>
            sint (ucast day :: cshort) \<ge> MaxDaysInMonth year month \<or>
            hour > 23 \<or> minute > 59 \<or> second > 59 \<or> milliseconds > 999
         then None
         else
           let elapsedDays = ElapsedYearsToDays (year - 1601);
               elapsedDays1 =
                 (if IsLeapYear (year - 1600)
                  then elapsedDays + scast (LeapYearDaysPrecedingMonth ! unat month)
                  else elapsedDays + scast (NormalYearDaysPrecedingMonth ! unat month));
               elapsedMilliseconds = ((hour * 60 + minute) * 60 + second) * 1000 + milliseconds
           in Some (DaysAndFractionToTime (elapsedDays1 + day) elapsedMilliseconds))"

definition RtlTimeToElapsedTimeFields :: "large_integer \<Rightarrow> time_fields \<Rightarrow> time_fields" where
  "RtlTimeToElapsedTimeFields time timeFields =
     (let (days, milliseconds) = TimeToDaysAndFraction time;
          seconds = milliseconds div 1000;
          milliseconds1 = milliseconds mod 1000;
          minutes = seconds div 60;
          seconds1 = seconds mod 60;
          hours = minutes div 60;
          minutes1 = minutes mod 60
      in timeFields\<lparr>Year := 0, Month := 0, Day := ucast days, Hour := ucast hours, Minute := ucast minutes1,
          Second := ucast seconds1, Milliseconds := ucast milliseconds1\<rparr>)"

section \<open>Seconds since 1970 and 1980\<close>

text \<open>\<^verbatim>\<open>HighPart\<close> is the upper half of the 64-bit difference.\<close>

definition RtlTimeToSecondsSince1980 :: "large_integer \<Rightarrow> ulong option" where
  "RtlTimeToSecondsSince1980 time =
     (let seconds = Convert100nsToSeconds time - SecondsToStartOf1980
      in if drop_bit 32 seconds \<noteq> 0 then None else Some (ucast seconds))"

definition RtlSecondsSince1980ToTime :: "ulong \<Rightarrow> large_integer" where
  "RtlSecondsSince1980ToTime elapsedSeconds =
     ConvertSecondsTo100ns (ucast elapsedSeconds + SecondsToStartOf1980)"

definition RtlTimeToSecondsSince1970 :: "large_integer \<Rightarrow> ulong option" where
  "RtlTimeToSecondsSince1970 time =
     (let seconds = Convert100nsToSeconds time - SecondsToStartOf1970
      in if drop_bit 32 seconds \<noteq> 0 then None else Some (ucast seconds))"

definition RtlSecondsSince1970ToTime :: "ulong \<Rightarrow> large_integer" where
  "RtlSecondsSince1970ToTime elapsedSeconds =
     ConvertSecondsTo100ns (ucast elapsedSeconds + SecondsToStartOf1970)"

section \<open>Local time\<close>

text \<open>
  \<open>query\<close> is what \<^verbatim>\<open>ZwQuerySystemInformation\<close> returns for \<^verbatim>\<open>SystemTimeOfDayInformation\<close>: its status and
  the time zone bias.
\<close>

definition RtlSystemTimeToLocalTime :: "ntstatus \<times> large_integer \<Rightarrow> large_integer \<Rightarrow> ntstatus + large_integer" where
  "RtlSystemTimeToLocalTime query systemTime =
     (let (status, timeZoneBias) = query
      in if \<not> NT_SUCCESS status then Inl status else Inr (systemTime - timeZoneBias))"

definition RtlLocalTimeToSystemTime :: "ntstatus \<times> large_integer \<Rightarrow> large_integer \<Rightarrow> ntstatus + large_integer" where
  "RtlLocalTimeToSystemTime query localTime =
     (let (status, timeZoneBias) = query
      in if \<not> NT_SUCCESS status then Inl status else Inr (localTime + timeZoneBias))"

section \<open>Cutover times\<close>

text \<open>
  The weeks of \<^verbatim>\<open>RtlCutoverTimeToSystemTime\<close>: one week further at a time until the wanted weekday
  number is reached or the month ends. The result is the best date, the fuel the number of weeks.
\<close>

fun cutover_weeks :: "nat \<Rightarrow> time_fields \<Rightarrow> cshort \<Rightarrow> cshort" where
  "cutover_weeks 0 working best = best"
| "cutover_weeks (Suc n) working best =
     (let working1 = working\<lparr>Day := Day working + 7\<rparr> in
      case RtlTimeFieldsToTime working1 of
        None \<Rightarrow> best
      | Some scratch \<Rightarrow> cutover_weeks n working1 (Day (RtlTimeToTimeFields scratch)))"

text \<open>
  The date in a given year, from the label \<^verbatim>\<open>try_next_year\<close> to the comparison with the current date:
  the day and its time, \<^const>\<open>None\<close> where the routine returns FALSE.
\<close>

definition cutover_in_year :: "time_fields \<Rightarrow> cshort \<Rightarrow> (cshort \<times> large_integer) option" where
  "cutover_in_year cutover targetYear =
     (let working = \<lparr>Year = targetYear, Month = Month cutover, Day = 1, Hour = Hour cutover,
            Minute = Minute cutover, Second = Second cutover, Milliseconds = Milliseconds cutover,
            Weekday = 0\<rparr>
      in case RtlTimeFieldsToTime working of
        None \<Rightarrow> None
      | Some scratch \<Rightarrow>
          let weekday = Weekday (RtlTimeToTimeFields scratch);
              target = Weekday cutover;
              day = (if sint weekday > sint target then Day working + (7 - (weekday - target))
                     else if sint weekday < sint target then Day working + (target - weekday)
                     else Day working);
              best = cutover_weeks (nat (sint (Day cutover) - 1)) (working\<lparr>Day := day\<rparr>) day
          in (case RtlTimeFieldsToTime (working\<lparr>Day := best\<rparr>) of
                None \<Rightarrow> None
              | Some time \<Rightarrow> Some (best, time)))"

definition RtlCutoverTimeToSystemTime ::
    "time_fields \<Rightarrow> large_integer \<Rightarrow> bool \<Rightarrow> large_integer option" where
  "RtlCutoverTimeToSystemTime cutover currentSystemTime thisYear =
     (let current = RtlTimeToTimeFields currentSystemTime in
      if Year cutover \<noteq> 0 then
        (case RtlTimeFieldsToTime cutover of
           None \<Rightarrow> None
         | Some time \<Rightarrow> if sint time < sint currentSystemTime then None else Some time)
      else if sint (Day cutover) > 5 \<or> Day cutover = 0 then None
      else
        let targetYear =
              (if \<not> thisYear \<and> sint (Month cutover) < sint (Month current) then Year current + 1
               else Year current);
            monthMatches = (\<not> thisYear \<and> Month cutover = Month current)
        in case cutover_in_year cutover targetYear of
             None \<Rightarrow> None
           | Some (day, time) \<Rightarrow>
               if monthMatches \<and>
                  (sint day < sint (Day current) \<or>
                   day = Day current \<and> sint time < sint currentSystemTime)
               then map_option snd (cutover_in_year cutover (targetYear + 1))
               else Some time)"

end
