(* ===== verification/Time_Facts.thy ===== *)
theory Time_Facts
  imports Time_Fields
begin

text \<open>
  The words of the time routines read as numbers: the reciprocal multiplications are divisions,
  the year computation inverts the number of days before a year, and the day counts follow the
  Gregorian calendar day by day.
\<close>

section \<open>Division by a reciprocal\<close>

lemma magic_division:
  assumes "M * d = 2 ^ n + e" "(x div d + 1) * e < M" "0 < d"
  shows "x * M div 2 ^ n = x div (d :: nat)"
proof -
  let ?q = "x div d" and ?r = "x mod d"
  have "x = ?q * d + ?r" by simp
  then have "x * M = ?q * (M * d) + ?r * M" by (metis add_mult_distrib mult.assoc mult.commute)
  then have x: "x * M = ?q * 2 ^ n + (?q * e + ?r * M)" by (simp add: assms(1) algebra_simps)
  have "?r + 1 \<le> d" using assms(3) by (simp add: Suc_leI)
  then have "(?r + 1) * M \<le> d * M" by (rule mult_right_mono) simp
  then have "?r * M + M \<le> 2 ^ n + e" using assms(1) by (simp add: mult.commute)
  moreover have "?q * e + e < M" using assms(2) by simp
  ultimately have "?q * e + ?r * M < 2 ^ n" by linarith
  then show ?thesis unfolding x by simp
qed

lemma unat_UnsignedMultiplyHigh: "unat (UnsignedMultiplyHigh a b) = unat a * unat b div 2 ^ 64"
proof -
  have "unat a < 2 ^ 64" "unat b < 2 ^ 64" using unsigned_less [of a] unsigned_less [of b] by simp_all
  then have "unat a * unat b < 2 ^ 64 * 2 ^ 64" by (rule mult_strict_mono) simp_all
  then have "unat a * unat b div 2 ^ 64 < 2 ^ 64" by (rule less_mult_imp_div_less)
  then show ?thesis unfolding UnsignedMultiplyHigh_def by (intro unat_of_nat_range) simp
qed

lemma unat_magic_divide:
  assumes "0 \<le> sint t" "unat m * d = 2 ^ (64 + k) + e" "(2 ^ 63 div d + 1) * e < unat m" "0 < d"
  shows "unat (RtlExtendedMagicDivide t m k) = unat t div d"
proof -
  have "unat t \<le> 2 ^ 63" using sint_nonneg(2) [OF assms(1)] by simp
  then have "(unat t div d + 1) * e \<le> (2 ^ 63 div d + 1) * e"
    by (intro mult_right_mono add_right_mono div_le_mono) simp_all
  then have "(unat t div d + 1) * e < unat m" using assms(3) by linarith
  from magic_division [OF assms(2) this assms(4)]
  have "unat t * unat m div 2 ^ 64 div 2 ^ k = unat t div d"
    by (simp add: div_mult2_eq power_add)
  then show ?thesis
    using assms(1) by (simp add: RtlExtendedMagicDivide_def Let_def unat_drop_bit_eq
        unat_UnsignedMultiplyHigh flip: drop_bit_eq_div)
qed

lemma unat_Convert:
  assumes "0 \<le> sint t"
  shows "unat (Convert100nsToMilliseconds t) = unat t div 10000"
    and "unat (Convert100nsToSeconds t) = unat t div 10000000"
    and "unat (ConvertMillisecondsToDays t) = unat t div 86400000"
proof -
  show "unat (Convert100nsToMilliseconds t) = unat t div 10000"
    unfolding Convert100nsToMilliseconds_def
    by (rule unat_magic_divide [OF assms, where e = 1728]) (simp_all add: Magic10000_def)
  show "unat (Convert100nsToSeconds t) = unat t div 10000000"
    unfolding Convert100nsToSeconds_def
    by (rule unat_magic_divide [OF assms, where e = 7609472]) (simp_all add: Magic10000000_def)
  show "unat (ConvertMillisecondsToDays t) = unat t div 86400000"
    unfolding ConvertMillisecondsToDays_def
    by (rule unat_magic_divide [OF assms, where e = 76875776]) (simp_all add: Magic86400000_def)
qed

section \<open>The Gregorian calendar\<close>

text \<open>Days before the year that starts after \<open>y\<close> whole years since 1601, on natural numbers.\<close>

definition days_before :: "nat \<Rightarrow> nat" where
  "days_before y = 365 * y + y div 4 - y div 100 + y div 400"

definition leap :: "nat \<Rightarrow> bool" where
  "leap y \<longleftrightarrow> y mod 400 = 0 \<or> y mod 100 \<noteq> 0 \<and> y mod 4 = 0"

definition years_of :: "nat \<Rightarrow> nat" where
  "years_of d =
     (let a = d div 146097; d1 = d mod 146097; b = (d1 * 100 + 75) div 3652425; d2 = d1 - b * 36524;
          c = d2 div 1461; d3 = d2 mod 1461
      in a * 400 + b * 100 + c * 4 + (d3 * 100 + 75) div 36525)"

lemma days_before_Suc: "days_before (Suc y) = days_before y + 365 + of_bool (leap (Suc y))"
proof -
  define A4 A100 A400 where "A4 \<longleftrightarrow> Suc y mod 4 = 0" and "A100 \<longleftrightarrow> Suc y mod 100 = 0" and "A400 \<longleftrightarrow> Suc y mod 400 = 0"
  have A: "A400 \<Longrightarrow> A100" "A100 \<Longrightarrow> A4" "leap (Suc y) \<longleftrightarrow> A400 \<or> \<not> A100 \<and> A4"
    using dvd_trans [of 100 400 "Suc y"] dvd_trans [of 4 100 "Suc y"]
    by (auto simp: mod_eq_0_iff_dvd A4_def A100_def A400_def leap_def)
  have le: "y div 100 \<le> y div 4" by (rule div_le_mono2) (rule zero_less_numeral, rule numeral_le_iff [THEN iffD2], code_simp)
  have "Suc y div 4 = y div 4 + of_bool A4" "Suc y div 100 = y div 100 + of_bool A100"
    "Suc y div 400 = y div 400 + of_bool A400"
    by (simp_all add: div_Suc A4_def A100_def A400_def)
  then have "days_before (Suc y) = 365 * Suc y + (y div 4 + of_bool A4) - (y div 100 + of_bool A100) +
      (y div 400 + of_bool A400)"
    unfolding days_before_def by (simp only:)
  moreover have "days_before y = 365 * y + y div 4 - y div 100 + y div 400" by (rule days_before_def)
  moreover define p q r where "p = y div 4" and "q = y div 100" and "r = y div 400"
  ultimately show ?thesis
    using A le unfolding p_def [symmetric] q_def [symmetric] r_def [symmetric]
    by (cases A4; cases A100; cases A400) auto
qed

lemma days_before_blocks:
  assumes "b \<le> 3" "c \<le> 24" "e \<le> 3"
  shows "days_before (a * 400 + b * 100 + c * 4 + e) = 146097 * a + 36524 * b + 1461 * c + 365 * e"
proof -
  let ?y = "a * 400 + b * 100 + c * 4 + e"
  have "?y div 4 = 100 * a + 25 * b + c" "?y div 100 = 4 * a + b" "?y div 400 = a"
    using assms by (auto intro!: div_nat_eqI)
  then show ?thesis by (simp add: days_before_def)
qed

lemma quotient_bounds: "0 < n \<Longrightarrow> x div n * n \<le> x \<and> x < x div n * n + (n :: nat)"
  by (metis add_less_cancel_left div_mult_mod_eq le_add1 mod_less_divisor)

lemma years_of_bounds: "days_before (years_of d) \<le> d \<and> d < days_before (Suc (years_of d))"
proof -
  define a where "a = d div 146097"
  define d1 where "d1 = d mod 146097"
  define b where "b = (d1 * 100 + 75) div 3652425"
  define d2 where "d2 = d1 - b * 36524"
  define c where "c = d2 div 1461"
  define d3 where "d3 = d2 mod 1461"
  define e where "e = (d3 * 100 + 75) div 36525"
  have y: "years_of d = a * 400 + b * 100 + c * 4 + e"
    unfolding years_of_def Let_def a_def d1_def b_def d2_def c_def d3_def e_def by (rule refl)
  have d: "d = 146097 * a + d1" by (simp add: a_def d1_def)
  have "d1 < 146097" by (simp add: d1_def)
  moreover have "b * 3652425 \<le> d1 * 100 + 75" "d1 * 100 + 75 < b * 3652425 + 3652425"
    using quotient_bounds [of 3652425 "d1 * 100 + 75"] by (simp_all add: b_def)
  ultimately have b: "b \<le> 3" "b * 36524 \<le> d1" "d2 \<le> 36523 \<or> b = 3 \<and> d2 \<le> 36524"
    unfolding d2_def by linarith+
  have d2: "d2 = 1461 * c + d3" by (simp add: c_def d3_def)
  have "d3 < 1461" by (simp add: d3_def)
  then have c: "c \<le> 24" using b(3) d2 by linarith
  have "e * 36525 \<le> d3 * 100 + 75" "d3 * 100 + 75 < e * 36525 + 36525"
    using quotient_bounds [of 36525 "d3 * 100 + 75"] by (simp_all add: e_def)
  with \<open>d3 < 1461\<close> have e: "e \<le> 3" "365 * e \<le> d3" and "e = 3 \<or> d3 < 365 * e + 365" by linarith+
  with \<open>d3 < 1461\<close> have e3: "d3 < 365 * e + 365 \<or> e = 3 \<and> d3 = 1460" by auto
  have lo: "days_before (years_of d) = 146097 * a + 36524 * b + 1461 * c + 365 * e"
    unfolding y by (rule days_before_blocks [OF b(1) c e(1)])
  have dd: "d = 146097 * a + 36524 * b + 1461 * c + d3" using d d2 b(2) by (simp add: d2_def)
  have "leap (Suc (years_of d))" if "d3 = 1460" "e = 3"
  proof -
    have ys: "Suc (years_of d) = a * 400 + b * 100 + (c + 1) * 4" using y that(2) by simp
    have "c < 24 \<or> b = 3 \<and> c = 24" using d2 that(1) b(3) c by linarith
    then have "Suc (years_of d) mod 400 = 0 \<or> Suc (years_of d) mod 100 \<noteq> 0"
    proof
      assume "c < 24"
      have "Suc (years_of d) = (c + 1) * 4 + (a * 4 + b) * 100" unfolding ys by simp
      then have "Suc (years_of d) mod 100 = (c + 1) * 4 mod 100" by (simp only: mod_mult_self1)
      also have "\<dots> = (c + 1) * 4" using \<open>c < 24\<close> by (intro mod_less) simp
      finally show ?thesis by simp
    next
      assume "b = 3 \<and> c = 24"
      then have "Suc (years_of d) = (a + 1) * 400" unfolding ys by simp
      then show ?thesis by (simp only: mod_mult_self2_is_0 simp_thms)
    qed
    moreover have "Suc (years_of d) = (a * 100 + b * 25 + c + 1) * 4" unfolding ys by simp
    then have "Suc (years_of d) mod 4 = 0" by (simp only: mod_mult_self2_is_0)
    ultimately show ?thesis by (simp add: leap_def)
  qed
  then have "d < days_before (Suc (years_of d))"
    unfolding days_before_Suc lo using dd e3 by auto
  then show ?thesis using lo dd e(2) by simp
qed

lemma days_before_mono: "y < y' \<Longrightarrow> days_before y < days_before y'"
  by (rule lift_Suc_mono_less [of days_before]) (simp_all add: days_before_Suc)

lemma years_of_unique: "days_before y \<le> d \<Longrightarrow> d < days_before (Suc y) \<Longrightarrow> years_of d = y"
proof (rule ccontr)
  assume a: "days_before y \<le> d" "d < days_before (Suc y)" "years_of d \<noteq> y"
  then have "Suc (years_of d) \<le> y \<or> Suc y \<le> years_of d" by arith
  then show False
  proof
    assume "Suc (years_of d) \<le> y"
    then have "days_before (Suc (years_of d)) \<le> days_before y"
      using days_before_mono by (metis le_eq_less_or_eq)
    then show False using a years_of_bounds [of d] by simp
  next
    assume "Suc y \<le> years_of d"
    then have "days_before (Suc y) \<le> days_before (years_of d)"
      using days_before_mono by (metis le_eq_less_or_eq)
    then show False using a years_of_bounds [of d] by simp
  qed
qed

end
