(* ===== verification/Time_Calendar.thy ===== *)
theory Time_Calendar
  imports Time_Facts
begin

text \<open>
  The civil calendar as a reference: the date after a date. The dates that the tables and the
  year computation give for a count of days follow it from 1 January 1601 on.
\<close>

section \<open>The reference calendar\<close>

definition days_in_month :: "bool \<Rightarrow> nat \<Rightarrow> nat" where
  "days_in_month lp m =
     (if m = 2 then if lp then 29 else 28 else if m \<in> {4, 6, 9, 11} then 30 else 31)"

fun next_date :: "nat \<times> nat \<times> nat \<Rightarrow> nat \<times> nat \<times> nat" where
  "next_date (y, m, d) =
     (if d < days_in_month (leap y) m then (y, m, d + 1)
      else if m < 12 then (y, m + 1, 1) else (y + 1, 1, 1))"

fun valid_date :: "nat \<times> nat \<times> nat \<Rightarrow> bool" where
  "valid_date (y, m, d) \<longleftrightarrow> 1601 \<le> y \<and> 1 \<le> m \<and> m \<le> 12 \<and> 1 \<le> d \<and> d \<le> days_in_month (leap y) m"

section \<open>The tables\<close>

definition before_month :: "bool \<Rightarrow> nat \<Rightarrow> nat" where
  "before_month lp m =
     unat ((if lp then LeapYearDaysPrecedingMonth else NormalYearDaysPrecedingMonth) ! m)"

definition month_of :: "bool \<Rightarrow> nat \<Rightarrow> nat" where
  "month_of lp k = unat ((if lp then LeapYearDayToMonth else NormalYearDayToMonth) ! k)"

lemma before_month_values:
  "before_month lp 0 = 0" "before_month lp 12 = 365 + of_bool lp"
  "m < 12 \<Longrightarrow> before_month lp (Suc m) = before_month lp m + days_in_month lp (Suc m)"
proof -
  have "\<forall>lp \<in> {True, False}. before_month lp 0 = 0 \<and> before_month lp 12 = 365 + of_bool lp" by code_simp
  then show "before_month lp 0 = 0" "before_month lp 12 = 365 + of_bool lp" by (cases lp; blast)+
  assume "m < 12"
  then have "m \<in> set [0..<12]" by simp
  moreover have "\<forall>lp \<in> {True, False}. \<forall>m \<in> set [0..<12].
      before_month lp (Suc m) = before_month lp m + days_in_month lp (Suc m)"
    by code_simp
  ultimately show "before_month lp (Suc m) = before_month lp m + days_in_month lp (Suc m)"
    by (cases lp) blast+
qed

lemma days_in_month_pos: "0 < days_in_month lp m" "days_in_month lp m \<le> 31"
  by (simp_all add: days_in_month_def)

lemma before_month_mono: "m < m' \<Longrightarrow> m' \<le> 12 \<Longrightarrow> before_month lp m < before_month lp m'"
proof (induction m')
  case (Suc n)
  then have "before_month lp n < before_month lp (Suc n)"
    using before_month_values(3) [of n lp] days_in_month_pos(1) [of lp "Suc n"] by simp
  then show ?case using Suc by (cases "m = n") simp_all
qed simp

lemma before_month_unique:
  assumes "before_month lp m \<le> k" "k < before_month lp (Suc m)" "m < 12"
    "before_month lp m' \<le> k" "k < before_month lp (Suc m')" "m' < 12"
  shows "m = m'"
proof (rule ccontr)
  assume "m \<noteq> m'"
  then have "Suc m \<le> m' \<or> Suc m' \<le> m" by arith
  then have "before_month lp (Suc m) \<le> before_month lp m' \<or> before_month lp (Suc m') \<le> before_month lp m"
    using before_month_mono [of "Suc m" m' lp] before_month_mono [of "Suc m'" m lp] assms(3,6)
    by (metis le_eq_less_or_eq less_imp_le)
  then show False using assms by linarith
qed

lemma nth_month_table:
  assumes "length ns = length vs" "k < sum_list ns"
  shows "\<exists>m < length ns. concat (map2 replicate ns vs) ! k = vs ! m \<and> sum_list (take m ns) \<le> k \<and>
    k < sum_list (take (Suc m) ns)"
  using assms
proof (induction ns vs arbitrary: k rule: list_induct2)
  case (Cons n ns v vs)
  show ?case
  proof (cases "k < n")
    case True
    then show ?thesis by (intro exI [of _ 0]) (simp add: nth_append)
  next
    case False
    then have "k - n < sum_list ns" using Cons.prems by simp
    then obtain m where "m < length ns" "concat (map2 replicate ns vs) ! (k - n) = vs ! m"
      "sum_list (take m ns) \<le> k - n" "k - n < sum_list (take (Suc m) ns)"
      using Cons.IH [of "k - n"] by blast
    then show ?thesis using False by (intro exI [of _ "Suc m"]) (auto simp: nth_append)
  qed
qed simp

definition month_lengths :: "bool \<Rightarrow> nat list" where
  "month_lengths lp = map (\<lambda>m. days_in_month lp (Suc m)) [0..<12]"

lemma month_of_bounds:
  assumes "k < 365 + of_bool lp"
  shows "month_of lp k < 12 \<and> before_month lp (month_of lp k) \<le> k \<and> k < before_month lp (Suc (month_of lp k))"
proof -
  let ?vs = "map word_of_nat [0..<12] :: uchar list"
  have "LeapYearDayToMonth = concat (map2 replicate (month_lengths True) ?vs)" by code_simp
  moreover have "NormalYearDayToMonth = concat (map2 replicate (month_lengths False) ?vs)" by code_simp
  ultimately have t: "(if lp then LeapYearDayToMonth else NormalYearDayToMonth) = concat (map2 replicate (month_lengths lp) ?vs)"
    by (cases lp) simp_all
  have "\<forall>lp \<in> {True, False}. sum_list (month_lengths lp) = 365 + of_bool lp" by code_simp
  then have s: "sum_list (month_lengths lp) = 365 + of_bool lp" by (cases lp) blast+
  have p: "sum_list (take m (month_lengths lp)) = before_month lp m" if "m \<le> 12" for m
    using that
  proof (induction m)
    case (Suc m)
    then have "take (Suc m) (month_lengths lp) = take m (month_lengths lp) @ [days_in_month lp (Suc m)]"
      by (simp add: month_lengths_def take_Suc_conv_app_nth del: upt_rec_numeral)
    then show ?case using Suc before_month_values(3) [of m lp] by simp
  qed (simp add: before_month_values)
  obtain m where m: "m < 12" "month_of lp k = unat (?vs ! m)"
    "before_month lp m \<le> k" "k < before_month lp (Suc m)"
    using nth_month_table [of "month_lengths lp" ?vs k] assms p s t
    by (auto simp: month_of_def month_lengths_def simp del: upt_rec_numeral)
  have "unat (?vs ! m) = m" using m(1) by (simp add: unat_of_nat_range del: upt_rec_numeral)
  then show ?thesis using m by simp
qed

section \<open>Dates and day numbers\<close>

definition date_of :: "nat \<Rightarrow> nat \<times> nat \<times> nat" where
  "date_of n =
     (let y = years_of n; k = n - days_before y; lp = leap (Suc y); m = month_of lp k
      in (y + 1601, m + 1, k - before_month lp m + 1))"

fun day_number :: "nat \<times> nat \<times> nat \<Rightarrow> nat" where
  "day_number (y, m, d) = days_before (y - 1601) + before_month (leap y) (m - 1) + (d - 1)"

lemma leap_1600 [simp]: "leap (y + 1601) = leap (Suc y)"
proof -
  have "y + 1601 = Suc y + 4 * 400" "y + 1601 = Suc y + 16 * 100" "y + 1601 = Suc y + 400 * 4" by simp_all
  then have "(y + 1601) mod 400 = Suc y mod 400" "(y + 1601) mod 100 = Suc y mod 100" "(y + 1601) mod 4 = Suc y mod 4"
    by (metis mod_mult_self1)+
  then show ?thesis by (simp only: leap_def)
qed

lemma date_of_unique:
  assumes "valid_date (y, m, d)"
  shows "date_of (day_number (y, m, d)) = (y, m, d)"
proof -
  obtain Y where y: "y = Y + 1601" using assms by (metis add.commute le_Suc_ex valid_date.simps)
  obtain M where m: "m = Suc M" "M < 12" using assms by (cases m) auto
  define k where "k = before_month (leap (Suc Y)) M + (d - 1)"
  have n: "day_number (y, m, d) = days_before Y + k" by (simp add: y m k_def)
  have d: "1 \<le> d" "d \<le> days_in_month (leap (Suc Y)) (Suc M)" using assms by (simp_all add: y m)
  then have k: "k < before_month (leap (Suc Y)) (Suc M)"
    using before_month_values(3) [OF m(2), of "leap (Suc Y)"] unfolding k_def by linarith
  moreover have "before_month (leap (Suc Y)) (Suc M) \<le> before_month (leap (Suc Y)) 12"
    using before_month_mono [of "Suc M" 12 "leap (Suc Y)"] m(2) by (cases "Suc M = 12") auto
  ultimately have len: "k < 365 + of_bool (leap (Suc Y))" using before_month_values(2) [of "leap (Suc Y)"] by linarith
  then have years: "years_of (days_before Y + k) = Y" by (intro years_of_unique) (simp_all add: days_before_Suc)
  have "month_of (leap (Suc Y)) k = M"
    using month_of_bounds [OF len] before_month_unique [of "leap (Suc Y)" _ k M] k m(2) unfolding k_def by (metis le_add1)
  then show ?thesis using d(1) unfolding n by (simp add: date_of_def years Let_def y m) (simp add: k_def)
qed

lemma date_of_valid: "valid_date (date_of n)" "day_number (date_of n) = n"
proof -
  define Y where "Y = years_of n"
  define k where "k = n - days_before Y"
  define lp where "lp = leap (Suc Y)"
  have b: "days_before Y \<le> n" "n < days_before (Suc Y)" using years_of_bounds [of n] by (simp_all add: Y_def)
  then have "k < 365 + of_bool lp" by (simp add: k_def lp_def days_before_Suc)
  note m = month_of_bounds [OF this]
  have e: "date_of n = (Y + 1601, month_of lp k + 1, k - before_month lp (month_of lp k) + 1)"
    by (simp add: date_of_def Let_def Y_def k_def lp_def)
  show "valid_date (date_of n)"
    using m before_month_values(3) [of "month_of lp k" lp] unfolding e by (auto simp: lp_def)
  have "n = days_before Y + k" using b(1) by (simp add: k_def)
  then show "day_number (date_of n) = n" using m unfolding e by (simp add: lp_def)
qed

lemma day_number_next:
  assumes "valid_date t"
  shows "valid_date (next_date t) \<and> day_number (next_date t) = Suc (day_number t)"
proof -
  obtain y m d where t: "t = (y, m, d)" by (cases t)
  obtain Y where y: "y = Y + 1601" using assms by (metis add.commute le_Suc_ex valid_date.simps t)
  obtain M where m: "m = Suc M" "M < 12" using assms t by (cases m) auto
  let ?lp = "leap (Suc Y)"
  have d: "1 \<le> d" "d \<le> days_in_month ?lp (Suc M)" using assms by (simp_all add: t y m)
  note step = before_month_values(3) [OF m(2), of ?lp]
  consider "d < days_in_month ?lp (Suc M)" | "d = days_in_month ?lp (Suc M)" "Suc M < 12"
    | "d = days_in_month ?lp (Suc M)" "Suc M = 12" using d m(2) by linarith
  then show ?thesis
  proof cases
    case 1
    then show ?thesis using d m(2) by (simp add: t y m(1))
  next
    case 2
    then show ?thesis using d step days_in_month_pos(1) [of ?lp "Suc (Suc M)"] by (simp add: t y m)
  next
    case 3
    have "valid_date (Suc Y + 1601, 1, 1)" using days_in_month_pos(1) by (simp add: Suc_leI)
    moreover have "before_month ?lp M + d = 365 + of_bool ?lp"
      using step 3 before_month_values(2) [of ?lp] by simp
    then have "days_before (Suc Y) = Suc (days_before Y + before_month ?lp M + (d - 1))"
      using d(1) by (simp add: days_before_Suc)
    ultimately show ?thesis using 3 by (simp add: t y m before_month_values(1))
  qed
qed

lemma date_of_next: "date_of (Suc n) = next_date (date_of n)"
proof -
  have "valid_date (next_date (date_of n))" "day_number (next_date (date_of n)) = Suc n"
    using day_number_next [OF date_of_valid(1) [of n]] date_of_valid(2) [of n] by simp_all
  then show ?thesis by (metis date_of_unique prod_cases3)
qed

theorem date_of_iterate: "date_of n = (next_date ^^ n) (1601, 1, 1)"
proof (induction n)
  case 0
  have "valid_date (1601, 1, 1)" by (simp add: days_in_month_def)
  moreover have "day_number (1601, 1, 1) = 0" by (simp add: before_month_values days_before_def)
  ultimately show ?case using date_of_unique by (metis funpow_0)
qed (simp add: date_of_next)

end
