(* ===== verification/Time_Conversion.thy ===== *)
theory Time_Conversion
  imports Time_Calendar
begin

text \<open>
  The conversions between ticks and fields on numbers: the fields of a time are the calendar date
  of its day and the parts of its fraction; the time of valid fields is the number of their ticks.
\<close>

section \<open>Years and days as words\<close>

lemma unat_ElapsedDaysToYears: "unat (ElapsedDaysToYears w) = years_of (unat w)"
proof -
  define a where "a = unat w div 146097"
  define d1 where "d1 = unat w mod 146097"
  define b where "b = (d1 * 100 + 75) div 3652425"
  define d2 where "d2 = d1 - b * 36524"
  define w1 where "w1 = w mod 146097"
  define w2 where "w2 = w1 - (w1 * 100 + 75) div 3652425 * 36524"
  have y: "years_of (unat w) = a * 400 + b * 100 + d2 div 1461 * 4 + (d2 mod 1461 * 100 + 75) div 36525"
    unfolding years_of_def Let_def a_def d1_def b_def d2_def by (rule refl)
  have w: "ElapsedDaysToYears w = w div 146097 * 400 + (w1 * 100 + 75) div 3652425 * 100 + w2 div 1461 * 4 +
      (w2 mod 1461 * 100 + 75) div 36525"
    unfolding ElapsedDaysToYears_def Let_def w1_def w2_def minus_div_mult_eq_mod by (rule refl)
  have lt: "d1 < 146097" "unat w < 2 ^ 32" by (simp_all add: d1_def unsigned_less [of w, simplified])
  have a: "unat (w div 146097) = a" "a \<le> 29398" using lt(2) by (simp_all add: unat_div_distrib a_def)
  have w1: "unat w1 = d1" by (simp add: w1_def d1_def unat_mod_distrib)
  have "unat (w1 * 100) = d1 * 100" using w1 lt(1) by (subst unat_times_range) simp_all
  then have "unat (w1 * 100 + 75) = d1 * 100 + 75" using lt(1) by (subst unat_plus_range) simp_all
  then have b: "unat ((w1 * 100 + 75) div 3652425) = b" by (simp add: unat_div_distrib b_def)
  have "b * 3652425 \<le> d1 * 100 + 75" using quotient_bounds [of 3652425 "d1 * 100 + 75"] by (simp add: b_def)
  then have b3: "b \<le> 3" "b * 36524 \<le> d1" using lt(1) by linarith+
  have "unat ((w1 * 100 + 75) div 3652425 * 36524) = b * 36524" using b b3 by (subst unat_times_range) simp_all
  then have w2: "unat w2 = d2" using b3(2) w1 by (simp add: w2_def d2_def unat_minus_range)
  have d2: "d2 < 146097" using lt(1) by (simp add: d2_def)
  have c: "unat (w2 div 1461) = d2 div 1461" "d2 div 1461 \<le> 100" "unat (w2 mod 1461) = d2 mod 1461" "d2 mod 1461 < 1461"
    using d2 by (simp_all add: unat_div_distrib unat_mod_distrib w2)
  have "unat (w2 mod 1461 * 100) = d2 mod 1461 * 100" using c(3,4) by (subst unat_times_range) simp_all
  then have "unat (w2 mod 1461 * 100 + 75) = d2 mod 1461 * 100 + 75" using c(4) by (subst unat_plus_range) simp_all
  then have e: "unat ((w2 mod 1461 * 100 + 75) div 36525) = (d2 mod 1461 * 100 + 75) div 36525"
    "(d2 mod 1461 * 100 + 75) div 36525 \<le> 4"
    using c(4) by (simp_all add: unat_div_distrib)
  have p: "unat (w div 146097 * 400) = a * 400" "unat ((w1 * 100 + 75) div 3652425 * 100) = b * 100"
    "unat (w2 div 1461 * 4) = d2 div 1461 * 4"
    using a b b3 c by (simp_all add: unat_times_range)
  then have "unat (w div 146097 * 400 + (w1 * 100 + 75) div 3652425 * 100) = a * 400 + b * 100"
    using a(2) b3(1) by (subst unat_plus_range) simp_all
  then have "unat (w div 146097 * 400 + (w1 * 100 + 75) div 3652425 * 100 + w2 div 1461 * 4) =
      a * 400 + b * 100 + d2 div 1461 * 4"
    using p a(2) b3(1) c(2) by (subst unat_plus_range) simp_all
  then show ?thesis unfolding w y using a(2) b3(1) c(2) e by (subst unat_plus_range) simp_all
qed

lemma unat_ElapsedYearsToDays:
  assumes "unat w < 100000"
  shows "unat (ElapsedYearsToDays w) = days_before (unat w)"
proof -
  let ?n = "unat w"
  have "?n div 100 \<le> ?n div 4" by (rule div_le_mono2) (rule zero_less_numeral, rule numeral_le_iff [THEN iffD2], code_simp)
  moreover have q: "unat (w div 4) = ?n div 4" "unat (w div 100) = ?n div 100" "unat (w div 400) = ?n div 400"
    by (simp_all add: unat_div_distrib)
  moreover have le: "?n div 4 \<le> ?n" "?n div 400 \<le> ?n" by simp_all
  ultimately have "unat (w div 4 - w div 100) = ?n div 4 - ?n div 100" by (simp add: unat_minus_range)
  moreover have "?n div 4 - ?n div 100 + ?n div 400 < 2 ^ LENGTH(32)" using assms le by simp
  ultimately have "unat (NumberOfLeapYears w) = ?n div 4 - ?n div 100 + ?n div 400"
    unfolding NumberOfLeapYears_def using q by (subst unat_plus_range) (simp_all only:)
  moreover have "unat (w * 365) = ?n * 365" using assms by (simp add: unat_times_range)
  moreover have "?n * 365 + (?n div 4 - ?n div 100 + ?n div 400) < 2 ^ LENGTH(32)" using assms le by simp
  ultimately have "unat (ElapsedYearsToDays w) = ?n * 365 + (?n div 4 - ?n div 100 + ?n div 400)"
    unfolding ElapsedYearsToDays_def by (subst unat_plus_range) (simp_all only:)
  then show ?thesis using \<open>?n div 100 \<le> ?n div 4\<close> unfolding days_before_def by linarith
qed

lemma IsLeapYear_leap: "IsLeapYear w \<longleftrightarrow> leap (unat w)"
  by (simp add: IsLeapYear_def leap_def unat_mod_distrib word_unat_eq_iff)


section \<open>Days and fractions\<close>

lemma nonneg_quotient:
  assumes "0 \<le> sint (t :: large_integer)"
  shows "unat t div n < 2 ^ 63"
proof -
  have "unat t < 2 ^ 63" using sint_nonneg(2) [OF assms] by simp
  then show ?thesis using div_le_dividend [of "unat t" n] by linarith
qed

lemma unat_ConvertDaysToMilliseconds:
  assumes "unat d < 2 ^ 31"
  shows "unat (ConvertDaysToMilliseconds d) = unat d * 86400000"
proof -
  have "unat (scast d :: 64 word) = unat d" using assms by (intro scast_small) simp_all
  then show ?thesis unfolding ConvertDaysToMilliseconds_def using assms
    by (subst unat_times_range) simp_all
qed

lemma TimeToDaysAndFraction_values:
  assumes "0 \<le> sint t" "TimeToDaysAndFraction t = (days, ms)"
  shows "unat days = unat t div 864000000000" "unat ms = unat t div 10000 mod 86400000"
    "unat days \<le> 10675199"
proof -
  let ?m = "Convert100nsToMilliseconds t"
  have m: "unat ?m = unat t div 10000" by (rule unat_Convert(1) [OF assms(1)])
  then have "unat ?m < 2 ^ 63" using nonneg_quotient [OF assms(1)] by simp
  then have "0 \<le> sint ?m" by (subst sint_small) simp_all
  then have d: "unat (ConvertMillisecondsToDays ?m) = unat t div 864000000000"
    using unat_Convert(3) [of ?m] m by (simp add: div_mult2_eq [symmetric])
  have le: "unat t div 864000000000 \<le> 10675199"
    using sint_nonneg(2) [OF assms(1)] by simp
  have days: "days = ucast (ConvertMillisecondsToDays ?m)" "ms = ucast (?m - ConvertDaysToMilliseconds days)"
    using assms(2) unfolding TimeToDaysAndFraction_def Let_def by blast+
  have u: "unat days = unat t div 864000000000"
    unfolding days(1) using d le by (subst unat_ucast_range) simp_all
  then show "unat days = unat t div 864000000000" "unat days \<le> 10675199" using le by simp_all
  have c: "unat (ConvertDaysToMilliseconds days) = unat t div 10000 div 86400000 * 86400000"
    using u le by (subst unat_ConvertDaysToMilliseconds) (simp_all add: div_mult2_eq [symmetric])
  have "unat (?m - ConvertDaysToMilliseconds days) = unat t div 10000 - unat t div 10000 div 86400000 * 86400000"
    using c m by (subst unat_minus_range) (simp_all add: div_times_less_eq_dividend)
  then have f: "unat (?m - ConvertDaysToMilliseconds days) = unat t div 10000 mod 86400000"
    by (simp only: minus_div_mult_eq_mod)
  have "unat t div 10000 mod 86400000 < 86400000" by (rule mod_less_divisor) simp
  then show "unat ms = unat t div 10000 mod 86400000"
    unfolding days(2) using f by (subst unat_ucast_range) simp_all
qed

lemma unat_DaysAndFractionToTime:
  assumes "unat days \<le> 10675198" "unat ms < 86400000"
  shows "unat (DaysAndFractionToTime days ms) = (unat days * 86400000 + unat ms) * 10000"
proof -
  have c: "unat (ConvertDaysToMilliseconds days) = unat days * 86400000"
    by (rule unat_ConvertDaysToMilliseconds) (use assms in simp)
  have u: "unat (ucast ms :: 64 word) = unat ms" using assms(2) by (intro unat_ucast_range) simp
  have "unat (ConvertDaysToMilliseconds days + ucast ms) = unat days * 86400000 + unat ms"
    using assms c u by (subst unat_plus_range) simp_all
  moreover have "(unat days * 86400000 + unat ms) * 10000 < 2 ^ 64" using assms by simp
  moreover have "scast (10000 :: long) = (10000 :: 64 word)" by simp
  ultimately show ?thesis
    unfolding DaysAndFractionToTime_def Let_def ConvertMillisecondsTo100ns_def RtlExtendedIntegerMultiply_def
    by (subst unat_times_range) simp_all
qed

section \<open>Fields\<close>

definition date_fields :: "time_fields \<Rightarrow> nat \<times> nat \<times> nat" where
  "date_fields f = (unat (Year f), unat (Month f), unat (Day f))"

text \<open>Milliseconds since midnight.\<close>

definition day_fraction :: "time_fields \<Rightarrow> nat" where
  "day_fraction f =
     ((unat (Hour f) * 60 + unat (Minute f)) * 60 + unat (Second f)) * 1000 + unat (Milliseconds f)"

definition valid_fields :: "time_fields \<Rightarrow> bool" where
  "valid_fields f \<longleftrightarrow> valid_date (date_fields f) \<and> unat (Year f) \<le> 30827 \<and> unat (Hour f) \<le> 23 \<and>
     unat (Minute f) \<le> 59 \<and> unat (Second f) \<le> 59 \<and> unat (Milliseconds f) \<le> 999"

lemma years_of_le: "d \<le> 10675199 \<Longrightarrow> years_of d \<le> 29227"
proof (rule ccontr)
  assume d: "d \<le> 10675199" "\<not> years_of d \<le> 29227"
  then have "days_before 29228 \<le> days_before (years_of d)"
    using days_before_mono [of 29228 "years_of d"] by (cases "years_of d = 29228") auto
  then show False using years_of_bounds [of d] d(1) by (simp add: days_before_def)
qed


lemma before_month_le: "m \<le> 12 \<Longrightarrow> before_month lp m \<le> 366"
proof -
  assume "m \<le> 12"
  then have "before_month lp m \<le> before_month lp 12" using before_month_mono [of m 12 lp] by (cases "m = 12") auto
  then show ?thesis by (cases lp) (simp_all add: before_month_values(2))
qed

lemma RtlTimeToTimeFields_date:
  assumes t: "0 \<le> sint t" and n: "n = unat t div 864000000000"
  shows "date_fields (RtlTimeToTimeFields t) = date_of n"
    and "unat (Weekday (RtlTimeToTimeFields t)) = (n + 1) mod 7"
proof -
  obtain days ms where split: "TimeToDaysAndFraction t = (days, ms)" by fastforce
  note v = TimeToDaysAndFraction_values [OF t split, folded n]
  define years where "years = ElapsedDaysToYears days"
  define d1 where "d1 = days - ElapsedYearsToDays years"
  define lp where "lp = leap (Suc (years_of n))"
  define month where "month = (if lp then LeapYearDayToMonth else NormalYearDayToMonth) ! unat d1"
  define before where "before = (if lp then LeapYearDaysPrecedingMonth else NormalYearDaysPrecedingMonth) ! unat month"
  let ?k = "n - days_before (years_of n)"
  have y: "unat years = years_of n" "years_of n \<le> 29227"
    using v(1,3) years_of_le by (simp_all add: years_def unat_ElapsedDaysToYears)
  have d1: "unat d1 = ?k"
    using y v(1) years_of_bounds [of n] by (simp add: d1_def unat_minus_range unat_ElapsedYearsToDays)
  have lp: "IsLeapYear (years + 1) \<longleftrightarrow> lp"
    using y by (simp add: IsLeapYear_leap lp_def unat_plus_range)
  have "?k < 365 + of_bool lp" using years_of_bounds [of n] unfolding lp_def days_before_Suc by linarith
  note b = month_of_bounds [OF this]
  have m: "unat month = month_of lp ?k" using d1 by (simp add: month_def month_of_def)
  have bf: "unat before = before_month lp (month_of lp ?k)" by (simp add: before_def before_month_def m)
  have small: "unat before \<le> 366" using before_month_le [of "month_of lp ?k" lp] b bf by simp
  have sb: "unat (scast before :: ulong) = unat before" using small by (intro scast_small) simp_all
  then have d2: "unat (d1 - scast before) = ?k - before_month lp (month_of lp ?k)"
    using b d1 bf by (subst unat_minus_range) simp_all
  have k366: "?k \<le> 366" using \<open>?k < 365 + of_bool lp\<close> by (cases lp) simp_all
  have sel: "(if IsLeapYear (years + 1)
       then let month = LeapYearDayToMonth ! unat d1
            in (month, d1 - scast (LeapYearDaysPrecedingMonth ! unat month))
       else let month = NormalYearDayToMonth ! unat d1
            in (month, d1 - scast (NormalYearDaysPrecedingMonth ! unat month))) = (month, d1 - scast before)"
    by (simp add: lp month_def before_def Let_def)
  have f: "Year (RtlTimeToTimeFields t) = ucast (years + 1601)" "Month (RtlTimeToTimeFields t) = ucast month + 1"
    "Day (RtlTimeToTimeFields t) = ucast (d1 - scast before + 1)" "Weekday (RtlTimeToTimeFields t) = ucast ((days + 1) mod 7)"
    by (simp_all only: RtlTimeToTimeFields_def split Let_def prod.case years_def [symmetric] d1_def [symmetric]
        sel [unfolded Let_def] time_fields.simps)
  have "unat (years + 1601) = years_of n + 1601" using y by (simp add: unat_plus_range)
  then have fy: "unat (Year (RtlTimeToTimeFields t)) = years_of n + 1601"
    unfolding f using y(2) by (subst unat_ucast_range) simp_all
  have "unat (ucast month :: cshort) = month_of lp ?k" using b m by (subst unat_ucast_range) simp_all
  then have fm: "unat (Month (RtlTimeToTimeFields t)) = month_of lp ?k + 1"
    unfolding f using b by (subst unat_plus_range) simp_all
  have "unat (d1 - scast before + 1) = ?k - before_month lp (month_of lp ?k) + 1"
    using d2 k366 by (subst unat_plus_range) simp_all
  then have fd: "unat (Day (RtlTimeToTimeFields t)) = ?k - before_month lp (month_of lp ?k) + 1"
    unfolding f using k366 by (subst unat_ucast_range) simp_all
  show "date_fields (RtlTimeToTimeFields t) = date_of n"
    by (simp add: date_fields_def date_of_def Let_def fy fm fd lp_def)
  have "unat ((days + 1) mod 7) = (n + 1) mod 7"
    using v(1,3) by (simp add: unat_mod_distrib unat_plus_range)
  moreover have "(n + 1) mod 7 < 7" by simp
  ultimately show "unat (Weekday (RtlTimeToTimeFields t)) = (n + 1) mod 7"
    unfolding f by (subst unat_ucast_range) (simp_all del: mod_Suc_eq)
qed

lemma RtlTimeToTimeFields_fraction:
  assumes t: "0 \<le> sint t" and n: "n = unat t div 10000 mod 86400000"
  shows "unat (Hour (RtlTimeToTimeFields t)) = n div 3600000" "unat (Minute (RtlTimeToTimeFields t)) = n div 60000 mod 60"
    "unat (Second (RtlTimeToTimeFields t)) = n div 1000 mod 60" "unat (Milliseconds (RtlTimeToTimeFields t)) = n mod 1000"
proof -
  obtain days ms where split: "TimeToDaysAndFraction t = (days, ms)" by fastforce
  note v = TimeToDaysAndFraction_values [OF t split, folded n]
  have f: "Hour (RtlTimeToTimeFields t) = ucast (ms div 1000 div 60 div 60)"
    "Minute (RtlTimeToTimeFields t) = ucast (ms div 1000 div 60 mod 60)"
    "Second (RtlTimeToTimeFields t) = ucast (ms div 1000 mod 60)"
    "Milliseconds (RtlTimeToTimeFields t) = ucast (ms mod 1000)"
    by (simp_all add: RtlTimeToTimeFields_def split Let_def split: if_splits)
  have lt: "n < 86400000" by (simp add: n)
  have u: "unat (ms div 1000 div 60 div 60) = n div 3600000" "unat (ms div 1000 div 60 mod 60) = n div 60000 mod 60"
    "unat (ms div 1000 mod 60) = n div 1000 mod 60" "unat (ms mod 1000) = n mod 1000"
    by (simp_all add: unat_div_distrib unat_mod_distrib v(2) div_mult2_eq [symmetric])
  have "n div 3600000 < 65536" "n div 60000 mod 60 < 60" "n div 1000 mod 60 < 60" "n mod 1000 < 1000" using lt by simp_all
  then show "unat (Hour (RtlTimeToTimeFields t)) = n div 3600000" "unat (Minute (RtlTimeToTimeFields t)) = n div 60000 mod 60"
    "unat (Second (RtlTimeToTimeFields t)) = n div 1000 mod 60" "unat (Milliseconds (RtlTimeToTimeFields t)) = n mod 1000"
    unfolding f using u by (simp_all add: unat_ucast_range)
qed


section \<open>From fields to ticks\<close>

lemma scast_cshort:
  "unat w < 32768 \<Longrightarrow> unat (scast (w :: cshort) :: ulong) = unat w"
  "32768 \<le> unat w \<Longrightarrow> 32768 \<le> unat (scast (w :: cshort) :: ulong)"
proof -
  show "unat w < 32768 \<Longrightarrow> unat (scast w :: ulong) = unat w" by (rule scast_small) simp_all
  assume "32768 \<le> unat w"
  then have "sint w < 0" using sint_nonneg(2) [of w] by fastforce
  moreover have "- 32768 \<le> sint w" using sint_ge [of w] by simp
  ultimately have "(sint w + 2 ^ 32) mod 2 ^ 32 = sint w + 2 ^ 32" by (intro mod_pos_pos_trivial) simp_all
  moreover have "LENGTH(32) = 32" by simp
  then have "uint (scast w :: ulong) = sint w mod 2 ^ 32" unfolding scast_eq by (metis uint_word_of_int)
  ultimately have "uint (scast w :: ulong) = sint w + 2 ^ 32" by (simp only: mod_add_self2)
  then have "32768 \<le> uint (scast w :: ulong)" using \<open>- 32768 \<le> sint w\<close> by simp
  then show "32768 \<le> unat (scast w :: ulong)" by (metis nat_mono nat_numeral unat_eq_nat_uint)
qed

lemma scast_cshort_le: "k < 32768 \<Longrightarrow> unat (scast (w :: cshort) :: ulong) \<le> k \<longleftrightarrow> unat w \<le> k"
  using scast_cshort [of w] by (cases "unat w < 32768") auto

lemma sint_cshort_pos: "1 \<le> sint (w :: cshort) \<longleftrightarrow> 1 \<le> unat w \<and> unat w < 32768"
proof (cases "0 \<le> sint w")
  case True
  have "unat w < 32768" using sint_nonneg(2) [OF True] by simp
  then show ?thesis using sint_nonneg(1) [OF True] by linarith
next
  case False
  then have "\<not> unat w < 32768" using sint_small [of w] by auto
  then show ?thesis using False by linarith
qed

lemma MaxDaysInMonth_days:
  assumes "unat m < 12"
  shows "MaxDaysInMonth y m = int (days_in_month (leap (unat y)) (Suc (unat m)))"
proof -
  let ?T = "if IsLeapYear y then LeapYearDaysPrecedingMonth else NormalYearDaysPrecedingMonth"
  have "sint (?T ! k) = int (before_month (IsLeapYear y) k)" if "k \<le> 12" for k
  proof -
    have "unat (?T ! k) \<le> 366" using before_month_le [OF that, of "IsLeapYear y"] by (simp add: before_month_def)
    then show ?thesis by (simp add: before_month_def sint_small)
  qed
  from this [of "unat m"] this [of "Suc (unat m)"]
  have "MaxDaysInMonth y m = int (before_month (IsLeapYear y) (Suc (unat m))) - int (before_month (IsLeapYear y) (unat m))"
    using assms by (simp add: MaxDaysInMonth_def split: if_splits)
  then show ?thesis using before_month_values(3) [OF assms] by (simp add: IsLeapYear_leap)
qed


lemma day_number_bound:
  assumes "valid_date (y, m, d)" "y \<le> 30827"
  shows "day_number (y, m, d) < 10674942"
proof -
  have "fst (date_of n) = years_of n + 1601" for n by (simp add: date_of_def Let_def)
  then have "years_of (day_number (y, m, d)) = y - 1601"
    using date_of_unique [OF assms(1)] by (metis add_diff_cancel_right' fst_conv)
  then have "years_of (day_number (y, m, d)) < 29227" using assms by simp
  then have "days_before (Suc (years_of (day_number (y, m, d)))) \<le> days_before 29227"
    using days_before_mono [of "Suc (years_of (day_number (y, m, d)))" 29227]
    by (cases "Suc (years_of (day_number (y, m, d))) = 29227") auto
  moreover have "days_before 29227 = 10674942" by (simp add: days_before_def)
  ultimately show ?thesis using years_of_bounds [of "day_number (y, m, d)"] by linarith
qed

text \<open>The test of the fields.\<close>

lemma fields_test:
  fixes f :: time_fields
  defines "year \<equiv> scast (Year f) :: ulong" and "month \<equiv> scast (Month f) - 1 :: ulong"
    and "day \<equiv> scast (Day f) - 1 :: ulong"
  shows "valid_fields f \<longleftrightarrow> \<not> (sint (Month f) < 1 \<or> sint (Day f) < 1 \<or> year < 1601 \<or> year > 30827 \<or> month > 11 \<or>
      sint (ucast day :: cshort) \<ge> MaxDaysInMonth year month \<or>
      (scast (Hour f) :: ulong) > 23 \<or> (scast (Minute f) :: ulong) > 59 \<or> (scast (Second f) :: ulong) > 59 \<or>
      (scast (Milliseconds f) :: ulong) > 999)"
proof -
  have small: "\<not> (scast w :: ulong) > n \<longleftrightarrow> unat w \<le> unat n" if "unat n < 32768" for w :: cshort and n
    using scast_cshort_le [OF that, of w] by (simp add: word_less_nat_alt not_less)
  have h: "\<not> (scast (Hour f) :: ulong) > 23 \<longleftrightarrow> unat (Hour f) \<le> 23" "\<not> (scast (Minute f) :: ulong) > 59 \<longleftrightarrow> unat (Minute f) \<le> 59"
    "\<not> (scast (Second f) :: ulong) > 59 \<longleftrightarrow> unat (Second f) \<le> 59"
    "\<not> (scast (Milliseconds f) :: ulong) > 999 \<longleftrightarrow> unat (Milliseconds f) \<le> 999"
    "\<not> year > 30827 \<longleftrightarrow> unat (Year f) \<le> 30827"
    unfolding year_def by (subst small; simp)+
  have y: "unat year = unat (Year f)" if "unat (Year f) \<le> 30827"
    unfolding year_def using that by (intro scast_cshort(1)) simp
  have ylow: "\<not> year < 1601 \<longleftrightarrow> 1601 \<le> unat (Year f)" if "unat (Year f) \<le> 30827"
    using y [OF that] by (simp add: word_less_nat_alt not_less)
  have pos: "\<not> sint (Month f) < 1 \<longleftrightarrow> 1 \<le> unat (Month f) \<and> unat (Month f) < 32768"
    "\<not> sint (Day f) < 1 \<longleftrightarrow> 1 \<le> unat (Day f) \<and> unat (Day f) < 32768"
    using sint_cshort_pos [of "Month f"] sint_cshort_pos [of "Day f"] by (simp_all add: not_less)
  have m: "unat month = unat (Month f) - 1" if "1 \<le> unat (Month f) \<and> unat (Month f) < 32768"
    unfolding month_def using that scast_cshort(1) [of "Month f"] by (simp add: unat_minus_range)
  have d: "sint (ucast day :: cshort) = int (unat (Day f) - 1)" if "1 \<le> unat (Day f) \<and> unat (Day f) < 32768"
  proof -
    have "unat day = unat (Day f) - 1"
      unfolding day_def using that scast_cshort(1) [of "Day f"] by (simp add: unat_minus_range)
    then have "unat (ucast day :: cshort) = unat (Day f) - 1" using that by (subst unat_ucast_range) (simp_all, linarith)
    moreover have "unat (Day f) - 1 < 32768" using that by linarith
    ultimately show ?thesis by (subst sint_small) simp_all
  qed
  show ?thesis
  proof (cases "(1 \<le> unat (Month f) \<and> unat (Month f) < 32768) \<and> (1 \<le> unat (Day f) \<and> unat (Day f) < 32768) \<and>
      unat (Year f) \<le> 30827 \<and> unat (Month f) \<le> 12")
    case True
    then have mm: "unat month = unat (Month f) - 1" "unat month < 12" "Suc (unat month) = unat (Month f)" using m by auto
    have "sint (ucast day :: cshort) \<ge> MaxDaysInMonth year month \<longleftrightarrow>
        \<not> unat (Day f) \<le> days_in_month (leap (unat (Year f))) (unat (Month f))"
    proof -
      have "sint (ucast day :: cshort) = int (unat (Day f) - 1)" "unat year = unat (Year f)" "1 \<le> unat (Day f)"
        using True d y by blast+
      moreover have "int j \<le> int (n - 1) \<longleftrightarrow> \<not> n \<le> j" if "1 \<le> n" for j n :: nat using that by arith
      ultimately show ?thesis unfolding MaxDaysInMonth_days [OF mm(2)] mm(3) by (simp only:)
    qed
    moreover have "\<not> month > 11" using mm(2) by (simp add: word_less_nat_alt not_less)
    ultimately show ?thesis
      using True h pos ylow unfolding valid_fields_def date_fields_def by auto
  next
    case False
    have "days_in_month (leap (unat (Year f))) (unat (Month f)) \<le> 31" by (rule days_in_month_pos(2))
    then have "\<not> valid_fields f" using False by (auto simp: valid_fields_def date_fields_def)
    moreover have "month > 11" if "1 \<le> unat (Month f) \<and> unat (Month f) < 32768" "\<not> unat (Month f) \<le> 12"
      using m [OF that(1)] that(2) by (simp add: word_less_nat_alt)
    ultimately show ?thesis using False h(5) pos by blast
  qed
qed

lemma RtlTimeFieldsToTime_invalid: "\<not> valid_fields f \<Longrightarrow> RtlTimeFieldsToTime f = None"
  unfolding fields_test RtlTimeFieldsToTime_def Let_def by simp

lemma RtlTimeFieldsToTime_valid:
  assumes v: "valid_fields f"
  shows "\<exists>t. RtlTimeFieldsToTime f = Some t \<and> 0 \<le> sint t \<and>
    unat t = (day_number (date_fields f) * 86400000 + day_fraction f) * 10000"
proof -
  define year month day where "year = (scast (Year f) :: ulong)" and "month = (scast (Month f) - 1 :: ulong)"
    and "day = (scast (Day f) - 1 :: ulong)"
  define hour minute second ms where "hour = (scast (Hour f) :: ulong)" and "minute = (scast (Minute f) :: ulong)"
    and "second = (scast (Second f) :: ulong)" and "ms = (scast (Milliseconds f) :: ulong)"
  define before where "before = (if IsLeapYear (year - 1600) then LeapYearDaysPrecedingMonth
    else NormalYearDaysPrecedingMonth) ! unat month"
  define days where "days = ElapsedYearsToDays (year - 1601) + scast before + day"
  define frac where "frac = ((hour * 60 + minute) * 60 + second) * 1000 + ms"
  have date: "valid_date (unat (Year f), unat (Month f), unat (Day f))" "unat (Year f) \<le> 30827"
    using v by (simp_all add: valid_fields_def date_fields_def)
  have dm: "days_in_month (leap (unat (Year f))) (unat (Month f)) \<le> 31" by (rule days_in_month_pos(2))
  obtain Y where Y: "unat (Year f) = Y + 1601" using date(1) by (metis add.commute le_Suc_ex valid_date.simps)
  have r: "unat (Month f) \<le> 12" "1 \<le> unat (Month f)" "unat (Day f) \<le> 31" "1 \<le> unat (Day f)"
    using date(1) dm by auto
  have y: "unat year = Y + 1601" unfolding year_def using scast_cshort(1) [of "Year f"] date(2) Y by simp
  have m: "unat month = unat (Month f) - 1"
    unfolding month_def using scast_cshort(1) [of "Month f"] r by (simp add: unat_minus_range)
  have d: "unat day = unat (Day f) - 1"
    unfolding day_def using scast_cshort(1) [of "Day f"] r by (simp add: unat_minus_range)
  have hms: "unat hour = unat (Hour f)" "unat minute = unat (Minute f)" "unat second = unat (Second f)"
    "unat ms = unat (Milliseconds f)"
    using v by (simp_all add: hour_def minute_def second_def ms_def scast_cshort(1) valid_fields_def)
  have lp: "IsLeapYear (year - 1600) \<longleftrightarrow> leap (unat (Year f))"
    using y by (simp add: IsLeapYear_leap unat_minus_range Y)
  have bf: "unat before = before_month (leap (unat (Year f))) (unat (Month f) - 1)"
    using lp m by (simp add: before_def before_month_def)
  moreover have "before_month (leap (unat (Year f))) (unat (Month f) - 1) \<le> 366" by (rule before_month_le) (use r in simp)
  ultimately have sb: "unat (scast before :: ulong) = unat before" by (intro scast_small) simp_all
  have e: "unat (ElapsedYearsToDays (year - 1601)) = days_before Y"
    using y date(2) Y by (subst unat_ElapsedYearsToDays) (simp_all add: unat_minus_range)
  have n: "day_number (unat (Year f), unat (Month f), unat (Day f)) = days_before Y + unat before + unat day"
    using bf d by (simp add: Y)
  have lim: "days_before Y + unat before + unat day < 10674942"
    using day_number_bound [OF date] n by simp
  have "unat (ElapsedYearsToDays (year - 1601) + scast before) = days_before Y + unat before"
    using e sb lim by (subst unat_plus_range) simp_all
  then have days: "unat days = day_number (date_fields f)"
    unfolding days_def date_fields_def n using lim by (subst unat_plus_range) simp_all
  have l: "unat hour \<le> 23" "unat minute \<le> 59" "unat second \<le> 59" "unat ms \<le> 999"
    using v hms by (simp_all add: valid_fields_def)
  have "unat (hour * 60) = unat hour * 60" using l by (simp add: unat_times_range)
  then have "unat (hour * 60 + minute) = unat hour * 60 + unat minute" using l by (simp add: unat_plus_range)
  moreover from this have "unat ((hour * 60 + minute) * 60) = (unat hour * 60 + unat minute) * 60"
    using l by (subst unat_times_range) simp_all
  ultimately have "unat ((hour * 60 + minute) * 60 + second) = (unat hour * 60 + unat minute) * 60 + unat second"
    using l by (subst unat_plus_range) simp_all
  moreover from this have "unat (((hour * 60 + minute) * 60 + second) * 1000) = ((unat hour * 60 + unat minute) * 60 + unat second) * 1000"
    using l by (subst unat_times_range) simp_all
  ultimately have "unat frac = ((unat hour * 60 + unat minute) * 60 + unat second) * 1000 + unat ms"
    unfolding frac_def using l by (subst unat_plus_range) simp_all
  then have frac: "unat frac = day_fraction f" "unat frac < 86400000"
    using l hms by (simp_all add: day_fraction_def)
  have t: "RtlTimeFieldsToTime f = Some (DaysAndFractionToTime days frac)"
    using v unfolding fields_test RtlTimeFieldsToTime_def Let_def days_def before_def frac_def
      year_def month_def day_def hour_def minute_def second_def ms_def
    by (simp add: add.assoc)
  have u: "unat (DaysAndFractionToTime days frac) = (day_number (date_fields f) * 86400000 + day_fraction f) * 10000"
    using unat_DaysAndFractionToTime [of days frac] days frac lim n by (simp add: date_fields_def)
  then have "unat (DaysAndFractionToTime days frac) < 2 ^ 63"
    using lim n frac by (simp add: date_fields_def)
  then have "0 \<le> sint (DaysAndFractionToTime days frac)" by (subst sint_small) simp_all
  then show ?thesis using t u by blast
qed

end
