(* ===== verification/Time_Theorems.thy ===== *)
theory Time_Theorems
  imports Time_Conversion
begin

text \<open>The properties of the time routines, with their witnesses.\<close>

section \<open>Fields that agree\<close>

lemma time_fields_eqI:
  fixes f g :: time_fields
  assumes "date_fields f = date_fields g" "unat (Hour f) = unat (Hour g)" "unat (Minute f) = unat (Minute g)"
    "unat (Second f) = unat (Second g)" "unat (Milliseconds f) = unat (Milliseconds g)" "Weekday f = Weekday g"
  shows "f = g"
  using assms by (cases f; cases g) (simp add: date_fields_def word_unat_eq_iff)

lemma day_fraction_parts:
  assumes "valid_fields f"
  shows "day_fraction f < 86400000" "day_fraction f div 3600000 = unat (Hour f)"
    "day_fraction f div 60000 mod 60 = unat (Minute f)" "day_fraction f div 1000 mod 60 = unat (Second f)"
    "day_fraction f mod 1000 = unat (Milliseconds f)"
proof -
  let ?h = "unat (Hour f)" and ?m = "unat (Minute f)" and ?s = "unat (Second f)" and ?l = "unat (Milliseconds f)"
  have r: "?h \<le> 23" "?m \<le> 59" "?s \<le> 59" "?l \<le> 999" using assms by (simp_all add: valid_fields_def)
  show "day_fraction f < 86400000" using r by (simp add: day_fraction_def)
  have e: "day_fraction f = ?h * 3600000 + ?m * 60000 + ?s * 1000 + ?l" by (simp add: day_fraction_def)
  show "day_fraction f div 3600000 = ?h" unfolding e using r by (intro div_nat_eqI) simp_all
  have "day_fraction f div 60000 = ?h * 60 + ?m" unfolding e using r by (intro div_nat_eqI) simp_all
  then show "day_fraction f div 60000 mod 60 = ?m" using r by simp
  have "day_fraction f div 1000 = (?h * 60 + ?m) * 60 + ?s" unfolding e using r by (intro div_nat_eqI) simp_all
  then have "day_fraction f div 1000 mod 60 = ?s mod 60" by (simp only: mod_mult_self3)
  then show "day_fraction f div 1000 mod 60 = ?s" using r by simp
  have "day_fraction f = (?h * 3600 + ?m * 60 + ?s) * 1000 + ?l" unfolding e by simp
  then have "day_fraction f mod 1000 = ?l mod 1000" by (simp only: mod_mult_self3)
  then show "day_fraction f mod 1000 = ?l" using r by simp
qed

lemma day_fraction_of:
  assumes "unat (Hour f) = n div 3600000" "unat (Minute f) = n div 60000 mod 60"
    "unat (Second f) = n div 1000 mod 60" "unat (Milliseconds f) = n mod 1000"
  shows "day_fraction f = n"
proof -
  have "n div 3600000 = n div 1000 div 60 div 60" "n div 60000 = n div 1000 div 60" by (simp_all add: div_mult2_eq [symmetric])
  then have "(n div 3600000 * 60 + n div 60000 mod 60) * 60 + n div 1000 mod 60 = n div 1000"
    by (metis div_mult_mod_eq)
  then show ?thesis unfolding day_fraction_def assms by (metis div_mult_mod_eq)
qed

text \<open>Ticks of a valid time split into the day and the fraction.\<close>

lemma ticks_split:
  assumes "unat t = (d * 86400000 + f) * 10000" "f < 86400000"
  shows "unat t div 864000000000 = d" "unat t div 10000 mod 86400000 = f"
proof -
  have "unat t div 10000 = d * 86400000 + f" using assms(1) by simp
  then show "unat t div 10000 mod 86400000 = f" using assms(2) by simp
  have "unat t div 864000000000 = unat t div 10000 div 86400000" by (simp add: div_mult2_eq [symmetric])
  then show "unat t div 864000000000 = d" using assms \<open>unat t div 10000 = d * 86400000 + f\<close> by simp
qed

lemma fields_back:
  assumes v: "valid_fields f" and t: "RtlTimeFieldsToTime f = Some t"
  shows "RtlTimeToTimeFields t = f\<lparr>Weekday := word_of_nat ((day_number (date_fields f) + 1) mod 7)\<rparr>"
    and "0 \<le> sint t" "unat t = (day_number (date_fields f) * 86400000 + day_fraction f) * 10000"
proof -
  show nn: "0 \<le> sint t" and u: "unat t = (day_number (date_fields f) * 86400000 + day_fraction f) * 10000"
    using RtlTimeFieldsToTime_valid [OF v] t by auto
  note p = day_fraction_parts [OF v]
  note s = ticks_split [OF u p(1)]
  note c = RtlTimeToTimeFields_fraction [OF nn s(2) [symmetric]]
  note d = RtlTimeToTimeFields_date [OF nn s(1) [symmetric]]
  have "date_of (day_number (date_fields f)) = date_fields f"
    using date_of_unique v by (simp add: valid_fields_def date_fields_def)
  moreover have "(day_number (date_fields f) + 1) mod 7 < 7" by simp
  then have "Weekday (RtlTimeToTimeFields t) = word_of_nat ((day_number (date_fields f) + 1) mod 7)"
    using d(2) by (simp only: word_unat_eq_iff, subst unat_of_nat_range) simp_all
  ultimately show "RtlTimeToTimeFields t = f\<lparr>Weekday := word_of_nat ((day_number (date_fields f) + 1) mod 7)\<rparr>"
    using c d(1) p by (intro time_fields_eqI) (simp_all add: date_fields_def)
qed

section \<open>The calendar\<close>

text \<open>
  C21: \<^verbatim>\<open>RtlTimeToTimeFields\<close> implements the Gregorian calendar: on the day that begins \<open>n\<close> whole days
  after the start of 1601 it reports the date that is reached from Monday, 1 January 1601 by
  going to the next date \<open>n\<close> times, and the weekday that many days later.
\<close>

theorem RtlTimeToTimeFields_calendar:
  assumes "0 \<le> sint t" "n = unat t div 864000000000"
  shows "date_fields (RtlTimeToTimeFields t) = (next_date ^^ n) (1601, 1, 1) \<and>
    unat (Weekday (RtlTimeToTimeFields t)) = (n + 1) mod 7"
  using RtlTimeToTimeFields_date [OF assms] by (simp only: date_of_iterate simp_thms)

theorem RtlTimeToTimeFields_calendar_witness:
  "date_fields (RtlTimeToTimeFields 2600000000000) = (1601, 1, 4)"
proof -
  have "0 \<le> sint (2600000000000 :: large_integer)" "3 = unat (2600000000000 :: large_integer) div 864000000000" by simp_all
  from RtlTimeToTimeFields_calendar [OF this] have
    "date_fields (RtlTimeToTimeFields 2600000000000) = (next_date ^^ 3) (1601, 1, 1)" by blast
  also have "\<dots> = (1601, 1, 4)" by (simp add: numeral_3_eq_3 days_in_month_def)
  finally show ?thesis .
qed

text \<open>
  C22: \<^verbatim>\<open>RtlTimeFieldsToTime\<close> returns FALSE exactly for fields that are not a date of the calendar from
  1601 to 30827 with a time of day within range, negative fields included.
\<close>

theorem RtlTimeFieldsToTime_accepts: "RtlTimeFieldsToTime f = None \<longleftrightarrow> \<not> valid_fields f"
  using RtlTimeFieldsToTime_invalid RtlTimeFieldsToTime_valid by (metis option.distinct(1))

text \<open>
  C23: Fields to ticks and back: the time of valid fields has these fields again, with the weekday
  filled in.
\<close>

theorem time_fields_roundtrip:
  assumes "valid_fields f"
  shows "\<exists>t. RtlTimeFieldsToTime f = Some t \<and>
    RtlTimeToTimeFields t = f\<lparr>Weekday := word_of_nat ((day_number (date_fields f) + 1) mod 7)\<rparr>"
proof -
  obtain t where "RtlTimeFieldsToTime f = Some t" using RtlTimeFieldsToTime_valid [OF assms] by blast
  then show ?thesis using fields_back(1) [OF assms] by blast
qed

definition leap_day :: time_fields where
  "leap_day = \<lparr>Year = 2000, Month = 2, Day = 29, Hour = 23, Minute = 59, Second = 59, Milliseconds = 999, Weekday = 0\<rparr>"

theorem time_fields_roundtrip_witness:
  "\<exists>t. RtlTimeFieldsToTime leap_day = Some t \<and> RtlTimeToTimeFields t = leap_day\<lparr>Weekday := 2\<rparr>"
proof -
  have "valid_fields leap_day"
    by (simp add: valid_fields_def date_fields_def leap_day_def leap_def days_in_month_def)
  moreover have "(word_of_nat ((day_number (date_fields leap_day) + 1) mod 7) :: cshort) = 2"
    by (simp add: date_fields_def leap_day_def leap_def days_before_def before_month_def LeapYearDaysPrecedingMonth_def)
  ultimately show ?thesis using time_fields_roundtrip [of leap_day] by (simp only:)
qed

text \<open>
  C24: Ticks to fields and back: for the times whose year the fields can express, the time of
  the fields is the time cut down to its millisecond.
\<close>

theorem ticks_roundtrip:
  assumes "0 \<le> sint t" "unat (Year (RtlTimeToTimeFields t)) \<le> 30827"
  shows "\<exists>t'. RtlTimeFieldsToTime (RtlTimeToTimeFields t) = Some t' \<and> unat t' = unat t - unat t mod 10000"
proof -
  let ?f = "RtlTimeToTimeFields t" and ?d = "unat t div 864000000000" and ?n = "unat t div 10000 mod 86400000"
  note c = RtlTimeToTimeFields_fraction [OF assms(1) refl]
  note d = RtlTimeToTimeFields_date(1) [OF assms(1) refl]
  have lt: "?n < 86400000" by simp
  have "?n div 3600000 \<le> 23" "?n div 60000 mod 60 \<le> 59" "?n div 1000 mod 60 \<le> 59" "?n mod 1000 \<le> 999"
    using lt by simp_all
  then have v: "valid_fields ?f"
    using assms(2) date_of_valid(1) [of ?d] d c by (simp only: valid_fields_def simp_thms)
  from RtlTimeFieldsToTime_valid [OF v] obtain t' where t': "RtlTimeFieldsToTime ?f = Some t'"
    "unat t' = (day_number (date_fields ?f) * 86400000 + day_fraction ?f) * 10000" by blast
  have "day_number (date_fields ?f) = ?d" unfolding d by (rule date_of_valid(2))
  moreover have "day_fraction ?f = ?n" by (rule day_fraction_of [OF c])
  moreover have "?d = unat t div 10000 div 86400000" by (simp add: div_mult2_eq [symmetric])
  ultimately have "unat t' = unat t div 10000 * 10000" using t'(2) by simp
  then show ?thesis using t'(1) by (simp add: minus_mod_eq_div_mult)
qed

theorem ticks_roundtrip_witness:
  "\<exists>t'. RtlTimeFieldsToTime (RtlTimeToTimeFields 123456789) = Some t' \<and> unat t' = 123450000"
proof -
  have "0 \<le> sint (123456789 :: large_integer)" "0 = unat (123456789 :: large_integer) div 864000000000" by simp_all
  note d = RtlTimeToTimeFields_date(1) [OF this]
  have "date_of 0 = (1601, 1, 1)" unfolding date_of_iterate by simp
  then have "unat (Year (RtlTimeToTimeFields 123456789)) \<le> 30827" using d by (simp add: date_fields_def)
  from ticks_roundtrip [OF \<open>0 \<le> sint (123456789 :: large_integer)\<close> this] show ?thesis by simp
qed

section \<open>Seconds\<close>

lemma seconds_back:
  assumes "unat c < 2 ^ 34" "unat (Convert100nsToSeconds (ConvertSecondsTo100ns (ucast s + c))) = unat s + unat c"
  shows "Convert100nsToSeconds (ConvertSecondsTo100ns (ucast (s :: ulong) + c)) - c = ucast s"
proof -
  have "unat (ucast s :: 64 word) = unat s" by (rule unat_ucast_range) (use unat_ulong_less [of s] in simp)
  then have "unat (ucast s + c) = unat s + unat c"
    using assms(1) unat_ulong_less [of s] by (subst unat_plus_range) simp_all
  then have "Convert100nsToSeconds (ConvertSecondsTo100ns (ucast s + c)) = ucast s + c"
    using assms(2) by (simp only: word_unat_eq_iff)
  then show ?thesis by simp
qed

lemma seconds_converted:
  assumes "unat c < 2 ^ 34"
  shows "unat (Convert100nsToSeconds (ConvertSecondsTo100ns (ucast (s :: ulong) + c))) = unat s + unat c"
proof -
  let ?x = "ucast s + c :: large_integer"
  have "unat (ucast s :: 64 word) = unat s" by (rule unat_ucast_range) (use unat_ulong_less [of s] in simp)
  then have x: "unat ?x = unat s + unat c" using assms unat_ulong_less [of s] by (subst unat_plus_range) simp_all
  have "scast (10000000 :: long) = (10000000 :: 64 word)" by simp
  then have m: "unat (ConvertSecondsTo100ns ?x) = unat ?x * 10000000"
    unfolding ConvertSecondsTo100ns_def RtlExtendedIntegerMultiply_def
    using x assms unat_ulong_less [of s] by (subst unat_times_range) simp_all
  then have "unat (ConvertSecondsTo100ns ?x) < 2 ^ 63" using x assms unat_ulong_less [of s] by simp
  then have "0 \<le> sint (ConvertSecondsTo100ns ?x)" by (subst sint_small) simp_all
  then show ?thesis using unat_Convert(2) m x by simp
qed

lemma drop_ulong [simp]: "drop_bit 32 (ucast (s :: ulong) :: large_integer) = 0" "ucast (ucast s :: large_integer) = s"
proof -
  have "unat (ucast s :: 64 word) = unat s" by (rule unat_ucast_range) (use unat_ulong_less [of s] in simp)
  then have u: "unat (ucast s :: 64 word) < 2 ^ 32" using unat_ulong_less [of s] by simp
  then have "unat (ucast s :: 64 word) div 2 ^ 32 = 0" by (rule div_less)
  then have "unat (drop_bit 32 (ucast s :: large_integer)) = 0"
    by (simp only: unat_drop_bit_eq drop_bit_eq_div [of 32 "unat (ucast s :: 64 word)"])
  then show "drop_bit 32 (ucast s :: large_integer) = 0" by (simp only: word_unat_eq_iff unat_0)
  show "ucast (ucast s :: large_integer) = s"
    using \<open>unat (ucast s :: 64 word) = unat s\<close> unat_ulong_less [of s]
    by (simp only: word_unat_eq_iff, subst unat_ucast_range) simp_all
qed

text \<open>Seconds since 1970 and since 1980 to a time and back is the identity on all of \<^verbatim>\<open>ULONG\<close>.\<close>

theorem seconds_roundtrip:
  "RtlTimeToSecondsSince1970 (RtlSecondsSince1970ToTime s) = Some s \<and>
   RtlTimeToSecondsSince1980 (RtlSecondsSince1980ToTime s) = Some s"
proof -
  have "unat SecondsToStartOf1970 < 2 ^ 34" "unat SecondsToStartOf1980 < 2 ^ 34"
    by (simp_all add: SecondsToStartOf1970_def SecondsToStartOf1980_def)
  note b = this [THEN seconds_back, OF seconds_converted]
  show ?thesis
    using b(1) [of s] b(2) [of s] \<open>unat SecondsToStartOf1970 < 2 ^ 34\<close> \<open>unat SecondsToStartOf1980 < 2 ^ 34\<close>
    by (simp add: RtlTimeToSecondsSince1970_def RtlSecondsSince1970ToTime_def
        RtlTimeToSecondsSince1980_def RtlSecondsSince1980ToTime_def Let_def)
qed


section \<open>Cutover times\<close>

text \<open>The fields of a day of the month of \<open>f\<close>.\<close>

lemma day_of_month:
  assumes "valid_fields (f\<lparr>Day := 1\<rparr>)" "unat d < 32768"
  shows "valid_fields (f\<lparr>Day := d\<rparr>) \<longleftrightarrow> 1 \<le> unat d \<and> unat d \<le> days_in_month (leap (unat (Year f))) (unat (Month f))"
  using assms by (auto simp: valid_fields_def date_fields_def)

lemma weeks_count:
  assumes v: "valid_fields (w\<lparr>Day := 1\<rparr>)" and d: "1 \<le> unat (Day w)"
    "unat (Day w) \<le> days_in_month (leap (unat (Year w))) (unat (Month w))"
  shows "unat (cutover_weeks n w (Day w)) =
    unat (Day w) + 7 * min n ((days_in_month (leap (unat (Year w))) (unat (Month w)) - unat (Day w)) div 7)"
  using assms
proof (induction n arbitrary: w)
  case (Suc n)
  let ?dim = "days_in_month (leap (unat (Year w))) (unat (Month w))" and ?w = "w\<lparr>Day := Day w + 7\<rparr>"
  have "?dim \<le> 31" by (rule days_in_month_pos(2))
  then have u: "unat (Day w + 7) = unat (Day w) + 7" using Suc.prems(3) by (subst unat_plus_range) simp_all
  have valid: "valid_fields ?w \<longleftrightarrow> unat (Day w) + 7 \<le> ?dim"
    using day_of_month [OF Suc.prems(1), of "Day w + 7"] u Suc.prems(3) \<open>?dim \<le> 31\<close> by simp
  show ?case
  proof (cases "unat (Day w) + 7 \<le> ?dim")
    case False
    then have "RtlTimeFieldsToTime ?w = None" using valid RtlTimeFieldsToTime_invalid by blast
    moreover have "(?dim - unat (Day w)) div 7 = 0" using False by simp
    ultimately show ?thesis by (simp add: Let_def)
  next
    case True
    then obtain t where t: "RtlTimeFieldsToTime ?w = Some t" using valid RtlTimeFieldsToTime_valid by blast
    have "Day (RtlTimeToTimeFields t) = Day ?w" using fields_back(1) [OF _ t] valid True by simp
    then have "cutover_weeks (Suc n) w (Day w) = cutover_weeks n ?w (Day ?w)" using t by (simp add: Let_def)
    also have "unat (cutover_weeks n ?w (Day ?w)) = unat (Day ?w) + 7 * min n ((?dim - unat (Day ?w)) div 7)"
      using Suc.IH [of ?w] Suc.prems u True by simp
    finally have "unat (cutover_weeks (Suc n) w (Day w)) = unat (Day ?w) + 7 * min n ((?dim - unat (Day ?w)) div 7)" .
    moreover have "(?dim - unat (Day w)) div 7 = Suc ((?dim - unat (Day ?w)) div 7)"
      using True u by (simp add: div_nat_eqI)
    ultimately show ?thesis using u by (simp add: min_def)
  qed
qed simp


text \<open>The first day of the month with the target weekday.\<close>

lemma first_weekday:
  fixes w tw :: cshort
  assumes "unat w \<le> 6" "unat tw \<le> 6"
  shows "unat (if sint w > sint tw then 1 + (7 - (w - tw)) else if sint w < sint tw then 1 + (tw - w) else 1) =
    Suc ((unat tw + 7 - unat w) mod 7)"
proof -
  have s: "sint w = int (unat w)" "sint tw = int (unat tw)"
    by (rule sint_small, use assms in simp)+
  consider "unat w > unat tw" | "unat w < unat tw" | "w = tw" by (metis linorder_cases word_unat_eq_iff)
  then show ?thesis
  proof cases
    case 1
    then have "unat (w - tw) = unat w - unat tw" by (simp add: unat_minus_range)
    then have "unat (7 - (w - tw)) = 7 - (unat w - unat tw)" using assms by (subst unat_minus_range) simp_all
    then have u: "unat (1 + (7 - (w - tw))) = 1 + (7 - (unat w - unat tw))" by (subst unat_plus_range) simp_all
    have m: "(unat tw + 7 - unat w) mod 7 = 7 - (unat w - unat tw)" using 1 assms by simp
    have c: "sint w > sint tw" using 1 by (simp only: s of_nat_less_iff)
    show ?thesis unfolding if_P [OF c] u m by linarith
  next
    case 2
    then have "unat (tw - w) = unat tw - unat w" by (simp add: unat_minus_range)
    then have u: "unat (1 + (tw - w)) = 1 + (unat tw - unat w)" using assms by (subst unat_plus_range) simp_all
    have "unat tw + 7 - unat w = (unat tw - unat w) + 7" using 2 by simp
    then have m: "(unat tw + 7 - unat w) mod 7 = unat tw - unat w"
      by (simp only: mod_add_self2) (rule mod_less, use assms in linarith)
    have lt: "sint w < sint tw" using 2 by (simp only: s of_nat_less_iff)
    then have c: "\<not> sint w > sint tw" by linarith
    show ?thesis unfolding if_not_P [OF c] if_P [OF lt] u m by linarith
  next
    case 3
    then show ?thesis by simp
  qed
qed

lemma cutover_in_year_finds:
  assumes v: "valid_fields (cutover\<lparr>Year := y, Day := 1\<rparr>)" and tw: "unat (Weekday cutover) \<le> 6"
  shows "\<exists>d t. cutover_in_year cutover y = Some (d, t) \<and>
    RtlTimeToTimeFields t = cutover\<lparr>Year := y, Day := d\<rparr> \<and>
    (let nth = (unat d - 1) div 7 + 1; k = Suc (nat (sint (Day cutover) - 1)) in
     nth = k \<or> nth < k \<and> unat d + 7 > days_in_month (leap (unat y)) (unat (Month cutover)))"
proof -
  let ?dim = "days_in_month (leap (unat y)) (unat (Month cutover))"
  define work where "work = \<lparr>Year = y, Month = Month cutover, Day = 1, Hour = Hour cutover,
    Minute = Minute cutover, Second = Second cutover, Milliseconds = Milliseconds cutover, Weekday = 0\<rparr>"
  define k where "k = nat (sint (Day cutover) - 1)"
  have vw: "valid_fields work" using v by (simp add: valid_fields_def date_fields_def work_def)
  obtain t0 where t0: "RtlTimeFieldsToTime work = Some t0" using RtlTimeFieldsToTime_valid [OF vw] by blast
  define w where "w = Weekday (RtlTimeToTimeFields t0)"
  define n where "n = day_number (date_fields work)"
  have "unat (word_of_nat ((n + 1) mod 7) :: cshort) = (n + 1) mod 7"
    by (rule unat_of_nat_range) (rule less_trans [OF mod_less_divisor], simp_all)
  then have w: "unat w = (n + 1) mod 7" using fields_back(1) [OF vw t0] by (simp add: w_def n_def)
  then have "unat w < 7" by simp
  then have w6: "unat w \<le> 6" by simp
  define first where "first = (if sint w > sint (Weekday cutover) then Day work + (7 - (w - Weekday cutover))
    else if sint w < sint (Weekday cutover) then Day work + (Weekday cutover - w) else Day work)"
  have day1: "Day work = 1" by (simp add: work_def)
  have f: "unat first = Suc ((unat (Weekday cutover) + 7 - unat w) mod 7)"
    unfolding first_def day1 by (rule first_weekday [OF w6 tw])
  then have f7: "1 \<le> unat first" "unat first \<le> 7" by (simp_all add: Suc_leI)
  have dim: "28 \<le> ?dim" "?dim \<le> 31" by (simp_all add: days_in_month_def)
  define d where "d = cutover_weeks k (work\<lparr>Day := first\<rparr>) first"
  define j where "j = min k ((?dim - unat first) div 7)"
  have v1: "valid_fields (work\<lparr>Day := first, Day := 1\<rparr>)" using vw by (simp add: work_def)
  have d: "unat d = unat first + 7 * j"
    using weeks_count [OF v1, of k] f7 dim by (simp add: d_def j_def work_def)
  have "j \<le> (?dim - unat first) div 7" by (simp add: j_def)
  then have "7 * j \<le> ?dim - unat first" using quotient_bounds [of 7 "?dim - unat first"] by linarith
  then have dle: "unat d \<le> ?dim" "1 \<le> unat d" using d f7 dim by linarith+
  have "valid_fields (work\<lparr>Day := 1\<rparr>)" using vw by (simp add: work_def)
  then have vd: "valid_fields (work\<lparr>Day := d\<rparr>)"
    using day_of_month [of work d] dle dim by (simp add: work_def)
  obtain t where t: "RtlTimeFieldsToTime (work\<lparr>Day := d\<rparr>) = Some t" using RtlTimeFieldsToTime_valid [OF vd] by blast
  have "cutover_in_year cutover y = Some (d, t)"
    by (simp only: cutover_in_year_def Let_def work_def [symmetric] t0 option.case w_def [symmetric] first_def [symmetric]
        k_def [symmetric] d_def [symmetric] t)
  moreover have "RtlTimeToTimeFields t = cutover\<lparr>Year := y, Day := d\<rparr>"
  proof -
    have "day_number (date_fields (work\<lparr>Day := d\<rparr>)) = n + (unat d - 1)"
      by (simp add: n_def date_fields_def work_def)
    then have "(day_number (date_fields (work\<lparr>Day := d\<rparr>)) + 1) mod 7 = (n + unat d) mod 7" using dle(2) by simp
    also have "\<dots> = (n + 1 + (unat (Weekday cutover) + 7 - unat w) mod 7 + j * 7) mod 7"
    proof -
      have "n + unat d = n + 1 + (unat (Weekday cutover) + 7 - unat w) mod 7 + j * 7" using d f by linarith
      then show ?thesis by (simp only:)
    qed
    also have "\<dots> = ((n + 1) mod 7 + (unat (Weekday cutover) + 7 - unat w)) mod 7"
      by (simp only: mod_mult_self1 mod_add_left_eq mod_add_right_eq)
    also have "\<dots> = (unat (Weekday cutover) + 7) mod 7" using w w6 by simp
    also have "\<dots> = unat (Weekday cutover)" using tw by simp
    finally show ?thesis using fields_back(1) [OF vd t] by (simp add: work_def)
  qed
  moreover have "(unat d - 1) div 7 = j"
    using d f7 by (intro div_nat_eqI) simp_all
  moreover have "j = k \<or> j < k \<and> unat d + 7 > ?dim"
    using quotient_bounds [of 7 "?dim - unat first"] d by (auto simp: j_def min_def)
  ultimately show ?thesis by (auto simp: k_def [symmetric])
qed

text \<open>
  C25: For a cutover date given as the \<open>k\<close>-th (1 to 5) weekday of a month, \<^verbatim>\<open>RtlCutoverTimeToSystemTime\<close>
  for this year (\<^verbatim>\<open>ThisYear\<close> TRUE; the search for the next cutover from a current time is not covered) succeeds with a time in that month of the current year, at the given time of
  day, on the given weekday, and the day is the \<open>k\<close>-th of that weekday, or the last one where the
  month has fewer.
\<close>

theorem cutover_finds_weekday:
  assumes "Year cutover = 0" "1 \<le> sint (Day cutover)" "sint (Day cutover) \<le> 5" "unat (Weekday cutover) \<le> 6"
    and "y = Year (RtlTimeToTimeFields now)" "valid_fields (cutover\<lparr>Year := y, Day := 1\<rparr>)"
  shows "\<exists>d t. RtlCutoverTimeToSystemTime cutover now True = Some t \<and>
    RtlTimeToTimeFields t = cutover\<lparr>Year := y, Day := d\<rparr> \<and>
    (let nth = (unat d - 1) div 7 + 1; k = nat (sint (Day cutover)) in
     nth = k \<or> nth < k \<and> unat d + 7 > days_in_month (leap (unat y)) (unat (Month cutover)))"
proof -
  have "Suc (nat (sint (Day cutover) - 1)) = nat (sint (Day cutover))" using assms(2) by linarith
  moreover have "Day cutover \<noteq> 0" using assms(2) by auto
  ultimately show ?thesis
    using cutover_in_year_finds [OF assms(6,4)] assms(1,3,5)
    by (auto simp: RtlCutoverTimeToSystemTime_def Let_def)
qed

text \<open>The last Sunday of October 1601, at 2 o'clock, seen from the start of the year.\<close>

definition last_sunday_october :: time_fields where
  "last_sunday_october = \<lparr>Year = 0, Month = 10, Day = 5, Hour = 2, Minute = 0, Second = 0, Milliseconds = 0, Weekday = 0\<rparr>"

theorem cutover_finds_weekday_witness:
  "\<exists>d t. RtlCutoverTimeToSystemTime last_sunday_october 0 True = Some t \<and>
    RtlTimeToTimeFields t = last_sunday_october\<lparr>Year := 1601, Day := d\<rparr>"
proof -
  have "date_of 0 = (1601, 1, 1)" unfolding date_of_iterate by simp
  then have "unat (Year (RtlTimeToTimeFields 0)) = 1601"
    using RtlTimeToTimeFields_date(1) [of 0 0] by (simp add: date_fields_def)
  then have y: "1601 = Year (RtlTimeToTimeFields 0)" by (simp add: word_unat_eq_iff)
  have v: "valid_fields (last_sunday_october\<lparr>Year := 1601, Day := 1\<rparr>)"
    by (simp add: valid_fields_def date_fields_def last_sunday_october_def leap_def days_in_month_def)
  show ?thesis
    using cutover_finds_weekday [OF _ _ _ _ y v] unfolding last_sunday_october_def by simp blast
qed

end
