(* ===== verification/Integer_Text.thy ===== *)
theory Integer_Text
  imports Prelude "HOL-Library.Signed_Division" "HOL-Library.Monad_Syntax"
begin

text \<open>
  The conversions between integers and text of \<^verbatim>\<open>rtl/cnvint.c\<close>. A string that is read is the list of the
  characters in memory from its address on, its terminator included; a string that is written is the
  list of the characters stored. \<^const>\<open>None\<close> is an access outside of the memory or of a local array,
  or a division by zero. A buffer the caller makes inaccessible is not modelled.
\<close>

unbundle bit_operations_syntax

section \<open>Digits\<close>

definition RtlpIntegerChars :: "uchar list" where
  "RtlpIntegerChars = [48, 49, 50, 51, 52, 53, 54, 55, 56, 57, 65, 66, 67, 68, 69, 70]"

definition RtlpIntegerWChars :: "ushort list" where
  "RtlpIntegerWChars = [48, 49, 50, 51, 52, 53, 54, 55, 56, 57, 65, 66, 67, 68, 69, 70]"

text \<open>The switch on the base: the base and the shift.\<close>

definition text_base :: "ulong \<Rightarrow> (ulong \<times> nat) option" where
  "text_base base =
     (if base = 16 then Some (16, 4) else if base = 8 then Some (8, 3) else if base = 2 then Some (2, 1)
      else if base = 0 \<or> base = 10 then Some (10, 0) else None)"

text \<open>
  The loop that stores the digits of a value from the end of the array \<^verbatim>\<open>Result\<close>, which has
  \<open>capacity\<close> elements; \<open>s\<close> is what has been stored. The loop on \<^verbatim>\<open>ULONGLONG\<close> is the same on 64 bits.
\<close>

partial_function (option) integer_digits ::
    "'c list \<Rightarrow> nat \<Rightarrow> nat \<Rightarrow> 'a::len word \<Rightarrow> 'a word \<Rightarrow> 'c list \<Rightarrow> 'c list option" where
  "integer_digits table capacity shift base value s =
     (if shift = 0 \<and> base = 0 then None
      else
        let digit = (if shift \<noteq> 0 then value AND (push_bit shift 1 - 1) else value mod base);
            value' = (if shift \<noteq> 0 then drop_bit shift value else value div base)
        in if unat digit < length table \<and> length s < capacity
           then (let s' = table ! unat digit # s
                 in if value' \<noteq> 0 then integer_digits table capacity shift base value' s' else Some s')
           else None)"

declare integer_digits.simps [code]

text \<open>
  The rest of the writing routines: zeros up to a fixed width when \<^verbatim>\<open>OutputLength\<close> is negative, then
  the digits and, where there is room, the terminator.
\<close>

definition store_digits :: "long \<Rightarrow> 'c::len word list \<Rightarrow> ntstatus \<times> 'c word list" where
  "store_digits outputLength s =
     (let n = int (length s);
          width = (if sint outputLength < 0 then sint (- outputLength) else sint outputLength);
          zeros = (if sint outputLength < 0 then nat (width - n) else 0);
          width' = width - int zeros
      in if n > width' then (STATUS_BUFFER_OVERFLOW, replicate zeros 48)
         else (STATUS_SUCCESS, replicate zeros 48 @ s @ (if n < width' then [0] else [])))"

definition RtlIntegerToChar :: "ulong \<Rightarrow> ulong \<Rightarrow> long \<Rightarrow> (ntstatus \<times> uchar list) option" where
  "RtlIntegerToChar value base outputLength =
     (case text_base base of
        None \<Rightarrow> Some (STATUS_INVALID_PARAMETER, [])
      | Some (base', shift) \<Rightarrow>
          map_option (store_digits outputLength) (integer_digits RtlpIntegerChars 33 shift base' value []))"

definition RtlIntegerToUnicode :: "ulong \<Rightarrow> ulong \<Rightarrow> long \<Rightarrow> (ntstatus \<times> ushort list) option" where
  "RtlIntegerToUnicode value base outputLength =
     (case text_base base of
        None \<Rightarrow> Some (STATUS_INVALID_PARAMETER, [])
      | Some (base', shift) \<Rightarrow>
          map_option (store_digits outputLength) (integer_digits RtlpIntegerWChars 33 shift base' value []))"

section \<open>Large integers\<close>

text \<open>The switch leaves base 0 as it is.\<close>

definition large_text_base :: "ulong \<Rightarrow> (ulong \<times> nat) option" where
  "large_text_base base =
     (if base = 16 then Some (16, 4) else if base = 8 then Some (8, 3) else if base = 2 then Some (2, 1)
      else if base = 0 \<or> base = 10 then Some (base, 0) else None)"

text \<open>
  The inline function of \<^verbatim>\<open>ntrtl.h\<close> for AMD64: the quotient is unsigned, the remainder is that of the
  signed dividend.
\<close>

definition RtlExtendedLargeIntegerDivide :: "ulonglong \<Rightarrow> ulong \<Rightarrow> (ulonglong \<times> ulong) option" where
  "RtlExtendedLargeIntegerDivide dividend divisor =
     (if divisor = 0 then None
      else Some (dividend div ucast divisor, word_of_int (sint dividend smod uint divisor)))"

partial_function (option) large_decimal_digits ::
    "'c list \<Rightarrow> ulong \<Rightarrow> ulonglong \<Rightarrow> 'c list \<Rightarrow> 'c list option" where
  "large_decimal_digits table base value s = do {
     (value', digit) \<leftarrow> RtlExtendedLargeIntegerDivide value base;
     if unat digit < length table \<and> length s < 65
     then (let s' = table ! unat digit # s
           in if value' \<noteq> 0 then large_decimal_digits table base value' s' else Some s')
     else None
   }"

declare large_decimal_digits.simps [code]

definition RtlLargeIntegerToChar :: "ulonglong \<Rightarrow> ulong \<Rightarrow> long \<Rightarrow> (ntstatus \<times> uchar list) option" where
  "RtlLargeIntegerToChar value base outputLength =
     (case large_text_base base of
        None \<Rightarrow> Some (STATUS_INVALID_PARAMETER, [])
      | Some (base', shift) \<Rightarrow>
          map_option (store_digits outputLength)
            (if shift \<noteq> 0 then integer_digits RtlpIntegerChars 65 shift 0 value []
             else large_decimal_digits RtlpIntegerChars base' value []))"

definition RtlLargeIntegerToUnicode :: "ulonglong \<Rightarrow> ulong \<Rightarrow> long \<Rightarrow> (ntstatus \<times> ushort list) option" where
  "RtlLargeIntegerToUnicode value base outputLength =
     (case large_text_base base of
        None \<Rightarrow> Some (STATUS_INVALID_PARAMETER, [])
      | Some (base', shift) \<Rightarrow>
          map_option (store_digits outputLength)
            (if shift \<noteq> 0 then integer_digits RtlpIntegerWChars 65 shift 0 value []
             else large_decimal_digits RtlpIntegerWChars base' value []))"

text \<open>
  The ANSI string that \<^verbatim>\<open>RtlIntegerToUnicodeString\<close> and \<^verbatim>\<open>RtlInt64ToUnicodeString\<close> hand to
  \<^verbatim>\<open>RtlAnsiStringToUnicodeString\<close>: the status of the conversion, or the length that \<^verbatim>\<open>strlen\<close> finds in the
  local buffer. The buffer is not initialised, so \<^verbatim>\<open>strlen\<close> only stops inside of it at a terminator that
  was stored.
\<close>

fun strlen :: "uchar list \<Rightarrow> nat option" where
  "strlen [] = None"
| "strlen (c # s) = (if c = 0 then Some 0 else map_option Suc (strlen s))"

definition RtlIntegerToUnicodeString_ansi :: "ulong \<Rightarrow> ulong \<Rightarrow> (ntstatus + nat) option" where
  "RtlIntegerToUnicodeString_ansi value base = do {
     (status, resultBuffer) \<leftarrow> RtlIntegerToChar value base 16;
     if NT_SUCCESS status then map_option Inr (strlen resultBuffer) else Some (Inl status)
   }"

definition RtlInt64ToUnicodeString_ansi :: "ulonglong \<Rightarrow> ulong \<Rightarrow> (ntstatus + nat) option" where
  "RtlInt64ToUnicodeString_ansi value base = do {
     (status, resultBuffer) \<leftarrow> RtlLargeIntegerToChar value base 32;
     if NT_SUCCESS status then map_option Inr (strlen resultBuffer) else Some (Inl status)
   }"

section \<open>Reading a terminated string\<close>

text \<open>\<^verbatim>\<open>CHAR\<close> is signed. The first loop: the first character after the blanks and the rest.\<close>

fun char_skip_blanks :: "uchar list \<Rightarrow> (uchar \<times> uchar list) option" where
  "char_skip_blanks [] = None"
| "char_skip_blanks (c # s) =
     (if sint c \<le> 32 then
        (case s of
           [] \<Rightarrow> None
         | d # _ \<Rightarrow> if d = 0 then Some (c, c # s) else char_skip_blanks s)
      else Some (c, s))"

text \<open>\<^verbatim>\<open>*String++\<close>\<close>

definition next_char :: "'c list \<Rightarrow> ('c \<times> 'c list) option" where
  "next_char s = (case s of [] \<Rightarrow> None | c # s' \<Rightarrow> Some (c, s'))"

text \<open>The base, the shift, the first character of the digits and the rest, without a given base.\<close>

definition char_prefix :: "uchar \<Rightarrow> uchar list \<Rightarrow> (ulong \<times> nat \<times> uchar \<times> uchar list) option" where
  "char_prefix c s =
     (if c = 48 then do {
        (d, s') \<leftarrow> next_char s;
        let (base, shift, s'') =
              (if d = 120 then (16, 4, s') else if d = 111 then (8, 3, s')
               else if d = 98 then (2, 1, s') else (10, 0, s));
        (e, s3) \<leftarrow> next_char s'';
        Some (base, shift, e, s3)
      }
      else Some (10, 0, c, s))"

definition char_digit :: "uchar \<Rightarrow> ulong option" where
  "char_digit c =
     (if 48 \<le> sint c \<and> sint c \<le> 57 then Some (ucast c - 48)
      else if 65 \<le> sint c \<and> sint c \<le> 70 then Some (ucast c - 65 + 10)
      else if 97 \<le> sint c \<and> sint c \<le> 102 then Some (ucast c - 97 + 10)
      else None)"

definition add_digit :: "ulong \<Rightarrow> nat \<Rightarrow> ulong \<Rightarrow> ulong \<Rightarrow> ulong" where
  "add_digit base shift result digit =
     (if shift = 0 then base * result + digit else push_bit shift result OR digit)"

fun char_digits :: "ulong \<Rightarrow> nat \<Rightarrow> ulong \<Rightarrow> uchar \<Rightarrow> uchar list \<Rightarrow> ulong option" where
  "char_digits base shift result c s =
     (if c = 0 then Some result
      else case char_digit c of
        None \<Rightarrow> Some result
      | Some digit \<Rightarrow>
          if digit \<ge> base then Some result
          else (case s of
                  [] \<Rightarrow> None
                | d # s' \<Rightarrow> char_digits base shift (add_digit base shift result digit) d s'))"

text \<open>The switch on a base that is given.\<close>

definition given_base :: "ulong \<Rightarrow> nat option" where
  "given_base base =
     (if base = 16 then Some 4 else if base = 8 then Some 3 else if base = 2 then Some 1
      else if base = 10 then Some 0 else None)"

definition RtlCharToInteger :: "uchar list \<Rightarrow> ulong \<Rightarrow> (ntstatus + ulong) option" where
  "RtlCharToInteger string base = do {
     (sign, s) \<leftarrow> char_skip_blanks string;
     (c, s1) \<leftarrow> (if sign = 45 \<or> sign = 43 then next_char s else Some (sign, s));
     (if base = 0 then do {
        (base', shift, c', s2) \<leftarrow> char_prefix c s1;
        result \<leftarrow> char_digits base' shift 0 c' s2;
        Some (Inr (if sign = 45 then - result else result))
      }
      else case given_base base of
        None \<Rightarrow> Some (Inl STATUS_INVALID_PARAMETER)
      | Some shift \<Rightarrow> do {
          result \<leftarrow> char_digits base shift 0 c s1;
          Some (Inr (if sign = 45 then - result else result))
        })
   }"

section \<open>Reading a counted string\<close>

text \<open>
  \<open>n\<close> is \<^verbatim>\<open>nChars\<close>, an unsigned count that wraps; \<open>sign\<close> is the value of the variable \<^verbatim>\<open>Sign\<close>, which is
  not initialised before the loop; \<open>s\<close> is the memory from the buffer on.
\<close>

fun unicode_skip_blanks :: "ulong \<Rightarrow> ushort \<Rightarrow> ushort list \<Rightarrow> (ushort \<times> ulong \<times> ushort list) option" where
  "unicode_skip_blanks n sign s =
     (if n = 0 then Some (sign, n - 1, s)
      else (case s of
              [] \<Rightarrow> None
            | c # s' \<Rightarrow>
                if c \<le> 32 then
                  if n - 1 = 0 then Some (0, n - 1, s') else unicode_skip_blanks (n - 1) c s'
                else Some (c, n - 1, s')))"

text \<open>The next character of the count, the null character at its end.\<close>

definition counted_char :: "ulong \<Rightarrow> ushort list \<Rightarrow> (ushort \<times> ulong \<times> ushort list) option" where
  "counted_char n s =
     (if n \<noteq> 0 then map_option (\<lambda>(c, s'). (c, n - 1, s')) (next_char s) else Some (0, n, s))"

definition unicode_prefix ::
    "ushort \<Rightarrow> ulong \<Rightarrow> ushort list \<Rightarrow> (ulong \<times> nat \<times> ushort \<times> ulong \<times> ushort list) option" where
  "unicode_prefix c n s =
     (if c = 48 then do {
        (base, shift, n1, s1) \<leftarrow>
          (if n \<noteq> 0 then do {
             (d, s') \<leftarrow> next_char s;
             Some (if d = 120 then (16, 4, n - 1, s') else if d = 111 then (8, 3, n - 1, s')
                   else if d = 98 then (2, 1, n - 1, s') else (10, 0, n, s))
           }
           else Some (10, 0, n, s));
        (e, n2, s2) \<leftarrow> counted_char n1 s1;
        Some (base, shift, e, n2, s2)
      }
      else Some (10, 0, c, n, s))"

definition unicode_digit :: "ushort \<Rightarrow> ulong option" where
  "unicode_digit c =
     (if 48 \<le> c \<and> c \<le> 57 then Some (ucast c - 48)
      else if 65 \<le> c \<and> c \<le> 70 then Some (ucast c - 65 + 10)
      else if 97 \<le> c \<and> c \<le> 102 then Some (ucast c - 97 + 10)
      else None)"

fun unicode_digits :: "ulong \<Rightarrow> nat \<Rightarrow> ulong \<Rightarrow> ushort \<Rightarrow> ulong \<Rightarrow> ushort list \<Rightarrow> ulong option" where
  "unicode_digits base shift result c n s =
     (if c = 0 then Some result
      else case unicode_digit c of
        None \<Rightarrow> Some result
      | Some digit \<Rightarrow>
          if digit \<ge> base then Some result
          else
            let result' = add_digit base shift result digit in
            if n = 0 then Some result'
            else (case s of [] \<Rightarrow> None | d # s' \<Rightarrow> unicode_digits base shift result' d (n - 1) s'))"

definition RtlUnicodeStringToInteger :: "ulong \<Rightarrow> ushort list \<Rightarrow> ushort \<Rightarrow> ulong \<Rightarrow> (ntstatus + ulong) option" where
  "RtlUnicodeStringToInteger nChars buffer sign0 base = do {
     (sign, n, s) \<leftarrow> unicode_skip_blanks nChars sign0 buffer;
     (c, n1, s1) \<leftarrow> (if sign = 45 \<or> sign = 43 then counted_char n s else Some (sign, n, s));
     (if base = 0 then do {
        (base', shift, c', n2, s2) \<leftarrow> unicode_prefix c n1 s1;
        result \<leftarrow> unicode_digits base' shift 0 c' n2 s2;
        Some (Inr (if sign = 45 then - result else result))
      }
      else case given_base base of
        None \<Rightarrow> Some (Inl STATUS_INVALID_PARAMETER)
      | Some shift \<Rightarrow> do {
          result \<leftarrow> unicode_digits base shift 0 c n1 s1;
          Some (Inr (if sign = 45 then - result else result))
        })
   }"

end
