(* ===== verification/Integer_Text_Facts.thy ===== *)
theory Integer_Text_Facts
  imports Integer_Text
begin

text \<open>
  The digit loops: what they store is the positional representation of the value, and reading
  digits gives their value back.
\<close>

unbundle bit_operations_syntax

section \<open>Positional values\<close>

definition positional :: "nat \<Rightarrow> nat \<Rightarrow> nat list \<Rightarrow> nat" where
  "positional b = foldl (\<lambda>a d. a * b + d)"

lemma positional_simps [simp]:
  "positional b x [] = x" "positional b x (d # ds) = positional b (x * b + d) ds"
  "positional b x (ds @ [d]) = positional b x ds * b + d"
  by (simp_all add: positional_def)

lemma positional_zeros [simp]: "positional b 0 (replicate n 0 @ ds) = positional b 0 ds"
  by (induction n) simp_all

text \<open>A word as the base of a loop: a shift, or a division.\<close>

definition loop_base :: "nat \<Rightarrow> 'a::len word \<Rightarrow> nat \<Rightarrow> bool" where
  "loop_base shift base b \<longleftrightarrow> 2 \<le> b \<and> b \<le> 16 \<and>
     (if shift = 0 then unat base = b else b = 2 ^ shift \<and> shift < LENGTH('a))"

lemma loop_step:
  fixes v base :: "'a::len word"
  assumes "loop_base shift base b"
  shows "unat (if shift \<noteq> 0 then v AND (push_bit shift 1 - 1) else v mod base) = unat v mod b"
    and "unat (if shift \<noteq> 0 then drop_bit shift v else v div base) = unat v div b"
proof -
  have "(push_bit shift 1 - 1 :: 'a word) = mask shift" by (simp add: mask_eq_exp_minus_1 push_bit_eq_mult)
  then have "unat (v AND (push_bit shift 1 - 1)) = take_bit shift (unat v)"
    by (simp add: unsigned_take_bit_eq flip: take_bit_eq_mask)
  then show "unat (if shift \<noteq> 0 then v AND (push_bit shift 1 - 1) else v mod base) = unat v mod b"
    using assms by (simp add: loop_base_def unat_mod_distrib take_bit_eq_mod split: if_splits)
  have "unat (drop_bit shift v) = unat v div 2 ^ shift"
    by (simp only: unat_drop_bit_eq drop_bit_eq_div [of shift "unat v"])
  then show "unat (if shift \<noteq> 0 then drop_bit shift v else v div base) = unat v div b"
    using assms by (simp add: loop_base_def unat_div_distrib split: if_splits)
qed

lemma integer_digits_correct:
  fixes v base :: "'a::len word"
  assumes "loop_base shift base b" "length table = 16" "unat v < b ^ k" "0 < k" "length s + k \<le> capacity"
  shows "\<exists>ds. integer_digits table capacity shift base v s = Some (map ((!) table) ds @ s) \<and> ds \<noteq> [] \<and>
    length ds \<le> k \<and> (\<forall>d \<in> set ds. d < b) \<and> positional b 0 ds = unat v"
  using assms(3-5)
proof (induction k arbitrary: v s)
  case (Suc k)
  let ?d = "if shift \<noteq> 0 then v AND (push_bit shift 1 - 1) else v mod base"
  let ?w = "if shift \<noteq> 0 then drop_bit shift v else v div base"
  have b: "2 \<le> b" "b \<le> 16" using assms(1) by (simp_all add: loop_base_def)
  have d: "unat ?d = unat v mod b" and w: "unat ?w = unat v div b" by (rule loop_step [OF assms(1)])+
  have "unat v mod b < b" using b by simp
  then have "unat ?d < b" by (simp only: d)
  moreover from this have "unat ?d < length table" using b assms(2) by linarith
  ultimately have lt: "unat ?d < length table" "unat ?d < b" by (simp_all only: simp_thms)
  have nz: "\<not> (shift = 0 \<and> base = 0)" using assms(1) by (auto simp: loop_base_def)
  have cap: "length s < capacity" using Suc.prems(3) by simp
  let ?s = "table ! unat ?d # s"
  have eq: "integer_digits table capacity shift base v s =
      (if ?w \<noteq> 0 then integer_digits table capacity shift base ?w ?s else Some ?s)"
    unfolding integer_digits.simps [of table capacity shift base v s] if_not_P [OF nz] Let_def
    using lt(1) cap by (simp only: simp_thms if_True)
  show ?case
  proof (cases "?w = 0")
    case True
    then have "unat ?w = 0" by (simp only: unat_0)
    then have "unat v div b = 0" by (simp only: w)
    then have "unat v mod b = unat v" using b by (simp add: div_eq_0_iff)
    then show ?thesis using True eq d lt(2) by (intro exI [of _ "[unat ?d]"]) simp
  next
    case False
    have "unat ?w < b ^ k" using Suc.prems(1) w b by (simp add: less_mult_imp_div_less mult.commute)
    moreover have "0 < k"
    proof (rule ccontr)
      assume "\<not> 0 < k"
      then have "unat ?w = 0" using \<open>unat ?w < b ^ k\<close> by simp
      then show False using False by (metis unat_eq_zero)
    qed
    ultimately obtain ds where ds: "integer_digits table capacity shift base ?w ?s = Some (map ((!) table) ds @ ?s)"
      "ds \<noteq> []" "length ds \<le> k" "\<forall>d \<in> set ds. d < b" "positional b 0 ds = unat ?w"
      using Suc.IH [of ?w ?s] Suc.prems(3) by auto
    have "positional b 0 (ds @ [unat ?d]) = unat v" using ds(5) w d by simp
    then show ?thesis using False eq ds lt(2) by (intro exI [of _ "ds @ [unat ?d]"]) auto
  qed
qed simp

section \<open>The stored text\<close>

text \<open>What the writing routines store: digits with leading zeros, perhaps a terminator.\<close>

lemma text_base_cases:
  assumes "text_base base = Some (base', shift)"
  obtains b where "loop_base shift base' b" "base' = word_of_nat b" "b \<in> {2, 8, 10, 16}"
    "base = base' \<or> base = 0 \<and> base' = 10 \<and> shift = 0"
  using assms that by (auto simp: text_base_def loop_base_def split: if_splits)

lemma sint_uminus_le: "sint (- (w :: long)) \<le> \<bar>sint w\<bar>"
proof (cases "sint w = - (2 ^ 31)")
  case True
  have "sint (- w) < 2 ^ 31" using sint_lt [of "- w"] by simp
  then show ?thesis using True by simp
next
  case False
  have "- (2 ^ 31) \<le> sint w" "sint w < 2 ^ 31" using sint_ge [of w] sint_lt [of w] by simp_all
  then have "signed_take_bit 31 (- sint w) = - sint w" using False by (intro signed_take_bit_int_eq_self) simp_all
  moreover have "sint (word_of_int (- sint w) :: long) = signed_take_bit 31 (- sint w)"
    by (subst signed_of_int) simp
  ultimately show ?thesis by simp
qed

lemma store_digits_result:
  assumes "store_digits outputLength s = (status, t)"
  shows "length t \<le> nat \<bar>sint outputLength\<bar>"
    and "status = STATUS_SUCCESS \<Longrightarrow> \<exists>z e. t = replicate z 48 @ s @ e \<and> (e = [] \<or> e = [0])"
    and "status = STATUS_SUCCESS \<or> status = STATUS_BUFFER_OVERFLOW"
proof -
  let ?width = "if sint outputLength < 0 then sint (- outputLength) else sint outputLength"
  have w: "?width \<le> \<bar>sint outputLength\<bar>"
  proof (cases "sint outputLength < 0")
    case True
    show ?thesis using sint_uminus_le [of outputLength] True by simp
  qed simp
  show "length t \<le> nat \<bar>sint outputLength\<bar>"
    using assms w by (auto simp: store_digits_def Let_def split: if_splits)
  have "status = STATUS_SUCCESS \<Longrightarrow> \<exists>z P. t = replicate z 48 @ s @ (if P then [0] else [])"
    using assms unfolding store_digits_def Let_def
    by (cases "int (length s) > ?width - int (if sint outputLength < 0 then nat (?width - int (length s)) else 0)")
      (simp, metis (no_types) prod.inject)
  then show "status = STATUS_SUCCESS \<Longrightarrow> \<exists>z e. t = replicate z 48 @ s @ e \<and> (e = [] \<or> e = [0])"
    by (metis (full_types))
  show "status = STATUS_SUCCESS \<or> status = STATUS_BUFFER_OVERFLOW"
    using assms by (auto simp: store_digits_def Let_def split: if_splits)
qed

section \<open>Written texts\<close>

text \<open>The characters of digits.\<close>

lemma integer_chars:
  "d < 16 \<Longrightarrow> char_digit (RtlpIntegerChars ! d) = Some (word_of_nat d) \<and> 32 < sint (RtlpIntegerChars ! d)"
  "d < 16 \<Longrightarrow> unicode_digit (RtlpIntegerWChars ! d) = Some (word_of_nat d) \<and> 32 < RtlpIntegerWChars ! d"
  "d < 10 \<Longrightarrow> RtlpIntegerChars ! d \<notin> {120, 111, 98}"
  "d < 10 \<Longrightarrow> RtlpIntegerWChars ! d \<notin> {120, 111, 98}"
  "d < 16 \<Longrightarrow> RtlpIntegerChars ! d \<noteq> 0 \<and> RtlpIntegerChars ! d \<noteq> 45 \<and> RtlpIntegerChars ! d \<noteq> 43"
  "d < 16 \<Longrightarrow> RtlpIntegerWChars ! d \<noteq> 0 \<and> RtlpIntegerWChars ! d \<noteq> 45 \<and> RtlpIntegerWChars ! d \<noteq> 43"
proof -
  have "\<forall>d \<in> set [0..<16]. char_digit (RtlpIntegerChars ! d) = Some (word_of_nat d) \<and> 32 < sint (RtlpIntegerChars ! d)"
    "\<forall>d \<in> set [0..<16]. unicode_digit (RtlpIntegerWChars ! d) = Some (word_of_nat d) \<and> 32 < RtlpIntegerWChars ! d"
    "\<forall>d \<in> set [0..<10]. RtlpIntegerChars ! d \<notin> {120, 111, 98}"
    "\<forall>d \<in> set [0..<10]. RtlpIntegerWChars ! d \<notin> {120, 111, 98}"
    "\<forall>d \<in> set [0..<16]. RtlpIntegerChars ! d \<noteq> 0 \<and> RtlpIntegerChars ! d \<noteq> 45 \<and> RtlpIntegerChars ! d \<noteq> 43"
    "\<forall>d \<in> set [0..<16]. RtlpIntegerWChars ! d \<noteq> 0 \<and> RtlpIntegerWChars ! d \<noteq> 45 \<and> RtlpIntegerWChars ! d \<noteq> 43"
    by code_simp+
  then show "d < 16 \<Longrightarrow> char_digit (RtlpIntegerChars ! d) = Some (word_of_nat d) \<and> 32 < sint (RtlpIntegerChars ! d)"
    "d < 16 \<Longrightarrow> unicode_digit (RtlpIntegerWChars ! d) = Some (word_of_nat d) \<and> 32 < RtlpIntegerWChars ! d"
    "d < 10 \<Longrightarrow> RtlpIntegerChars ! d \<notin> {120, 111, 98}"
    "d < 10 \<Longrightarrow> RtlpIntegerWChars ! d \<notin> {120, 111, 98}"
    "d < 16 \<Longrightarrow> RtlpIntegerChars ! d \<noteq> 0 \<and> RtlpIntegerChars ! d \<noteq> 45 \<and> RtlpIntegerChars ! d \<noteq> 43"
    "d < 16 \<Longrightarrow> RtlpIntegerWChars ! d \<noteq> 0 \<and> RtlpIntegerWChars ! d \<noteq> 45 \<and> RtlpIntegerWChars ! d \<noteq> 43"
    by (simp_all only: set_upt ball_simps atLeastLessThan_iff) auto
qed

text \<open>
  A text of a value in a base: digits with leading zeros and perhaps a terminator.
\<close>

definition digit_text :: "'c::zero list \<Rightarrow> nat \<Rightarrow> nat \<Rightarrow> 'c list \<Rightarrow> nat list \<Rightarrow> bool" where
  "digit_text table b n t ds \<longleftrightarrow> ds \<noteq> [] \<and> (\<forall>d \<in> set ds. d < b) \<and> positional b 0 ds = n \<and>
     (t = map ((!) table) ds \<or> t = map ((!) table) ds @ [0])"

lemma store_digits_text:
  assumes "store_digits outputLength (map ((!) table) ds) = (STATUS_SUCCESS, t)" "table ! 0 = 48" "0 < b"
    "ds \<noteq> []" "\<forall>d \<in> set ds. d < b" "positional b 0 ds = n"
  shows "\<exists>ds. digit_text table b n t ds"
proof -
  obtain z e where "t = replicate z 48 @ map ((!) table) ds @ e" "e = [] \<or> e = [0]"
    using store_digits_result(2) [OF assms(1)] by auto
  then show ?thesis using assms(2-) unfolding digit_text_def
    by (intro exI [of _ "replicate z 0 @ ds"]) auto
qed

lemma text_base_digits:
  fixes v :: ulong
  assumes "text_base base = Some (base', shift)" "length table = 16"
  obtains b ds where "loop_base shift base' b" "base' = word_of_nat b" "b \<in> {2, 8, 10, 16}"
    "base = base' \<or> base = 0 \<and> base' = 10 \<and> shift = 0"
    "integer_digits table 33 shift base' v [] = Some (map ((!) table) ds)" "ds \<noteq> []" "\<forall>d \<in> set ds. d < b"
    "positional b 0 ds = unat v"
proof -
  obtain b where b: "loop_base shift base' b" "base' = word_of_nat b" "b \<in> {2, 8, 10, 16}"
    "base = base' \<or> base = 0 \<and> base' = 10 \<and> shift = 0"
    by (rule text_base_cases [OF assms(1)])
  have "2 ^ 32 \<le> b ^ 32" using b(3) by (intro power_mono) auto
  then have "unat v < b ^ 32" using unat_ulong_less [of v] by simp
  from integer_digits_correct [OF b(1) assms(2) this, of "[]" 33] b that show thesis by auto
qed

lemma RtlIntegerToChar_text:
  assumes "RtlIntegerToChar v base outputLength = Some (STATUS_SUCCESS, t)"
  obtains base' shift b ds where "text_base base = Some (base', shift)" "loop_base shift base' b"
    "base' = word_of_nat b" "b \<in> {2, 8, 10, 16}" "base = base' \<or> base = 0 \<and> base' = 10 \<and> shift = 0"
    "digit_text RtlpIntegerChars b (unat v) t ds"
proof -
  obtain base' shift where tb: "text_base base = Some (base', shift)"
    using assms by (auto simp: RtlIntegerToChar_def split: option.splits)
  have len: "length RtlpIntegerChars = 16" "RtlpIntegerChars ! 0 = 48" by (simp_all add: RtlpIntegerChars_def)
  obtain b ds where b: "loop_base shift base' b" "base' = word_of_nat b" "b \<in> {2, 8, 10, 16}"
    "base = base' \<or> base = 0 \<and> base' = 10 \<and> shift = 0" and
    ds: "integer_digits RtlpIntegerChars 33 shift base' v [] = Some (map ((!) RtlpIntegerChars) ds)" "ds \<noteq> []"
      "\<forall>d \<in> set ds. d < b" "positional b 0 ds = unat v"
    by (rule text_base_digits [OF tb len(1)])
  have "0 < b" using b(3) by auto
  moreover have "store_digits outputLength (map ((!) RtlpIntegerChars) ds) = (STATUS_SUCCESS, t)"
    using assms tb ds(1) by (simp add: RtlIntegerToChar_def)
  ultimately obtain ds' where "digit_text RtlpIntegerChars b (unat v) t ds'"
    using store_digits_text [OF _ len(2)] ds by metis
  with tb b that show thesis by blast
qed

lemma RtlIntegerToUnicode_text:
  assumes "RtlIntegerToUnicode v base outputLength = Some (STATUS_SUCCESS, t)"
  obtains base' shift b ds where "text_base base = Some (base', shift)" "loop_base shift base' b"
    "base' = word_of_nat b" "b \<in> {2, 8, 10, 16}" "base = base' \<or> base = 0 \<and> base' = 10 \<and> shift = 0"
    "digit_text RtlpIntegerWChars b (unat v) t ds" "length t \<le> 2 ^ 31"
proof -
  obtain base' shift where tb: "text_base base = Some (base', shift)"
    using assms by (auto simp: RtlIntegerToUnicode_def split: option.splits)
  have len: "length RtlpIntegerWChars = 16" "RtlpIntegerWChars ! 0 = 48" by (simp_all add: RtlpIntegerWChars_def)
  obtain b ds where b: "loop_base shift base' b" "base' = word_of_nat b" "b \<in> {2, 8, 10, 16}"
    "base = base' \<or> base = 0 \<and> base' = 10 \<and> shift = 0" and
    ds: "integer_digits RtlpIntegerWChars 33 shift base' v [] = Some (map ((!) RtlpIntegerWChars) ds)" "ds \<noteq> []"
      "\<forall>d \<in> set ds. d < b" "positional b 0 ds = unat v"
    by (rule text_base_digits [OF tb len(1)])
  have "0 < b" using b(3) by auto
  moreover have st: "store_digits outputLength (map ((!) RtlpIntegerWChars) ds) = (STATUS_SUCCESS, t)"
    using assms tb ds(1) by (simp add: RtlIntegerToUnicode_def)
  ultimately obtain ds' where "digit_text RtlpIntegerWChars b (unat v) t ds'"
    using store_digits_text [OF _ len(2)] ds by metis
  moreover have "length t \<le> 2 ^ 31"
    using store_digits_result(1) [OF st] sint_ge [of outputLength] sint_lt [of outputLength] by simp
  ultimately show thesis using tb b that by blast
qed

section \<open>Reading digits\<close>

lemma add_digit_value:
  assumes "loop_base shift base b" "base = word_of_nat b" "d < b"
  shows "add_digit base shift (word_of_nat n) (word_of_nat d) = word_of_nat (n * b + d)"
proof (cases "shift = 0")
  case True
  then show ?thesis using assms(2) by (simp add: add_digit_def mult.commute)
next
  case False
  then have b: "b = 2 ^ shift" "shift < 32" using assms(1) by (simp_all add: loop_base_def)
  have "\<not> bit (word_of_nat d :: ulong) k" if "shift \<le> k" for k
  proof -
    have "bit d k = bit (take_bit shift d) k" using assms(3) b by (simp add: take_bit_nat_eq_self)
    then show ?thesis using that by (simp add: bit_of_nat_iff bit_take_bit_iff)
  qed
  then have "push_bit shift (word_of_nat n :: ulong) AND word_of_nat d = 0"
    by (intro bit_eqI) (simp add: bit_and_iff bit_push_bit_iff)
  then have "push_bit shift (word_of_nat n :: ulong) OR word_of_nat d = push_bit shift (word_of_nat n) + word_of_nat d"
    by (rule disjunctive_add_eq_or [symmetric])
  then show ?thesis using False b by (simp add: add_digit_def push_bit_eq_mult)
qed

lemma char_digits_step:
  assumes "c \<noteq> 0" "char_digit c = Some d" "\<not> base \<le> d"
  shows "char_digits base shift r c (e # s) = char_digits base shift (add_digit base shift r d) e s"
  using assms by simp

lemma unicode_digits_step:
  assumes "c \<noteq> 0" "unicode_digit c = Some d" "\<not> base \<le> d" "n \<noteq> 0"
  shows "unicode_digits base shift r c n (e # s) = unicode_digits base shift (add_digit base shift r d) e (n - 1) s"
  using assms by (subst unicode_digits.simps) (simp only: Let_def option.case list.case if_False if_not_P)

lemma unicode_digits_last:
  assumes "c \<noteq> 0" "unicode_digit c = Some d" "\<not> base \<le> d"
  shows "unicode_digits base shift r c 0 s = Some (add_digit base shift r d)"
  using assms by simp

lemma char_digits_null [simp]: "char_digits base shift r 0 s = Some r"
  by simp

lemma unicode_digits_null [simp]: "unicode_digits base shift r 0 n s = Some r"
  by simp

declare char_digits.simps [simp del] unicode_digits.simps [simp del]

lemma char_digits_read:
  assumes "loop_base shift base b" "base = word_of_nat b" "\<forall>d \<in> set ds. d < b"
    "c # s = map ((!) RtlpIntegerChars) ds @ 0 # rest"
  shows "char_digits base shift (word_of_nat n) c s = Some (word_of_nat (positional b n ds))"
  using assms(3,4)
proof (induction ds arbitrary: n c s)
  case (Cons d ds)
  have d: "d < b" "b \<le> 16" using Cons.prems(1) assms(1) by (simp_all add: loop_base_def)
  have lt: "\<not> base \<le> word_of_nat d"
  proof -
    have "unat base = b" using assms(2) d by (simp add: unat_of_nat_range)
    then show ?thesis using d by (simp add: word_le_nat_alt unsigned_of_nat take_bit_nat_eq_self)
  qed
  obtain e s' where s: "s = e # s'" "e # s' = map ((!) RtlpIntegerChars) ds @ 0 # rest"
    using Cons.prems(2) by (cases s) auto
  have "char_digits base shift (word_of_nat n) c s = char_digits base shift (word_of_nat (n * b + d)) e s'"
    using char_digits_step [of c "word_of_nat d" base shift "word_of_nat n" e s'] Cons.prems(2)
      conjunct1 [OF integer_chars(1) [of d]] conjunct1 [OF integer_chars(5) [of d]] d lt s(1) add_digit_value [OF assms(1,2) d(1), of n]
    by (metis (no_types, lifting) le_less_trans list.inject list.simps(9) append_Cons order_less_le_trans)
  also have "\<dots> = Some (word_of_nat (positional b (n * b + d) ds))" by (rule Cons.IH) (use Cons.prems s in auto)
  finally show ?case by simp
qed simp


text \<open>The digits end with the count, or with a null character inside of it.\<close>

lemma unicode_digits_read:
  assumes "loop_base shift base b" "base = word_of_nat b" "\<forall>d \<in> set ds. d < b"
    "c # s = map ((!) RtlpIntegerWChars) ds @ e" "case e of [] \<Rightarrow> ds \<noteq> [] | z # _ \<Rightarrow> z = 0"
    "unat n = length s"
  shows "unicode_digits base shift (word_of_nat r) c n s = Some (word_of_nat (positional b r ds))"
  using assms(3-6)
proof (induction ds arbitrary: n c s r)
  case Nil
  then show ?case by (cases e) simp_all
next
  case (Cons d ds)
  have d: "d < b" "b \<le> 16" using Cons.prems(1) assms(1) by (simp_all add: loop_base_def)
  have lt: "\<not> base \<le> word_of_nat d"
  proof -
    have "unat base = b" using assms(2) d by (simp add: unat_of_nat_range)
    then show ?thesis using d by (simp add: word_le_nat_alt unsigned_of_nat take_bit_nat_eq_self)
  qed
  have c: "c \<noteq> 0" "unicode_digit c = Some (word_of_nat d)" "s = map ((!) RtlpIntegerWChars) ds @ e"
    using Cons.prems(2) integer_chars(2,6) [of d] d by auto
  note a = add_digit_value [OF assms(1,2) d(1), of r]
  show ?case
  proof (cases s)
    case Nil
    then have "n = 0" using Cons.prems(4) by (simp add: unat_eq_zero)
    moreover have "ds = []" using Nil c(3) by simp
    ultimately show ?thesis using unicode_digits_last [OF c(1,2) lt] a by simp
  next
    case s: (Cons f s')
    then have n: "n \<noteq> 0" "unat (n - 1) = length s'" using Cons.prems(4) s by (auto simp: unat_minus_range word_le_nat_alt)
    have "unicode_digits base shift (word_of_nat r) c n s = unicode_digits base shift (word_of_nat (r * b + d)) f (n - 1) s'"
      using unicode_digits_step [OF c(1,2) lt n(1), of shift "word_of_nat r" f s'] s a by (simp only:)
    also have "\<dots> = Some (word_of_nat (positional b (r * b + d) ds))"
    proof (rule Cons.IH)
      show "case e of [] \<Rightarrow> ds \<noteq> [] | z # _ \<Rightarrow> z = 0" using Cons.prems(3) s c(3) by (cases e) auto
    qed (use s c(3) n Cons.prems in auto)
    finally show ?thesis by simp
  qed
qed

end
