(* ===== verification/Integer_Text_Theorems.thy ===== *)
theory Integer_Text_Theorems
  imports Integer_Text_Facts
begin

text \<open>
  The properties of the integer conversions: a written text is read back as the value; which calls
  stay inside of the memory they are given.
\<close>

section \<open>Written texts are read back\<close>

lemma loop_base_decimal: "loop_base 0 (10 :: ulong) 10"
  by (simp add: loop_base_def)

lemma char_skip_digit: "32 < sint c \<Longrightarrow> char_skip_blanks (c # s) = Some (c, s)"
  by simp

lemma unicode_skip_digit: "32 < c \<Longrightarrow> n \<noteq> 0 \<Longrightarrow> unicode_skip_blanks n g (c # s) = Some (c, n - 1, s)"
  by (subst unicode_skip_blanks.simps) (simp only: not_le [symmetric] if_False list.case simp_thms)

lemma given_base_text: "text_base base = Some (base', shift) \<Longrightarrow> base \<noteq> 0 \<Longrightarrow> given_base base = Some shift \<and> base' = base"
  by (auto simp: text_base_def given_base_def split: if_splits)

lemma char_prefix_digits:
  assumes "d < 10" "\<forall>d \<in> set ds. d < 10" "s = map ((!) RtlpIntegerChars) ds @ 0 # rest"
  shows "\<exists>c s' ds'. char_prefix (RtlpIntegerChars ! d) s = Some (10, 0, c, s') \<and>
    c # s' = map ((!) RtlpIntegerChars) ds' @ 0 # rest \<and> (\<forall>d \<in> set ds'. d < 10) \<and>
    positional 10 0 ds' = positional 10 0 (d # ds)"
proof (cases "RtlpIntegerChars ! d = 48")
  case True
  have "d = 0"
  proof -
    have "\<forall>d \<in> set [0..<10]. RtlpIntegerChars ! d = 48 \<longrightarrow> d = 0" by code_simp
    then show ?thesis using assms(1) True by simp
  qed
  have "s \<noteq> []" using assms(3) by simp
  then obtain c s' where s: "s = c # s'" by (cases s) simp_all
  have "c \<notin> {120, 111, 98}" using s assms(2,3) integer_chars(3) by (cases ds) auto
  then show ?thesis using True s assms(2,3) \<open>d = 0\<close>
    by (intro exI [of _ c] exI [of _ s'] exI [of _ ds]) (simp add: char_prefix_def next_char_def)
next
  case False
  then show ?thesis using assms
    by (intro exI [of _ "RtlpIntegerChars ! d"] exI [of _ s] exI [of _ "d # ds"]) (simp add: char_prefix_def)
qed

lemma RtlCharToInteger_digits:
  assumes "digit_text RtlpIntegerChars b n t ds" "loop_base shift base' b" "base' = word_of_nat b"
    "text_base base = Some (base', shift)"
  shows "RtlCharToInteger (t @ [0]) base = Some (Inr (word_of_nat n))"
proof -
  obtain d ds' where ds: "ds = d # ds'" "\<forall>d \<in> set ds. d < b" "positional b 0 ds = n"
    using assms(1) by (cases ds) (auto simp: digit_text_def)
  obtain rest where t: "t @ [0] = map ((!) RtlpIntegerChars) ds @ 0 # rest"
    using assms(1) by (auto simp: digit_text_def)
  let ?c = "RtlpIntegerChars ! d" and ?s = "map ((!) RtlpIntegerChars) ds' @ 0 # rest"
  have d: "d < 16" using ds assms(2) by (auto simp: loop_base_def)
  have skip: "char_skip_blanks (t @ [0]) = Some (?c, ?s)" and sign: "?c \<noteq> 45" "?c \<noteq> 43"
    using t ds integer_chars(1,5) [OF d] by (simp_all add: char_skip_digit)
  show ?thesis
  proof (cases "base = 0")
    case True
    then have b: "base' = 10" "shift = 0" "b = 10"
      using assms(2,4) by (auto simp: text_base_def loop_base_def)
    obtain c s' es where p: "char_prefix ?c ?s = Some (10, 0, c, s')" "c # s' = map ((!) RtlpIntegerChars) es @ 0 # rest"
      "\<forall>d \<in> set es. d < 10" "positional 10 0 es = positional 10 0 (d # ds')"
      using char_prefix_digits [of d ds' ?s rest] ds b(3) by auto
    have "char_digits 10 0 (word_of_nat 0) c s' = Some (word_of_nat (positional 10 0 es))"
      by (rule char_digits_read [OF loop_base_decimal _ p(3,2)]) simp
    then have "char_digits 10 0 0 c s' = Some (word_of_nat n)" using p(4) ds(1,3) b(3) by simp
    then show ?thesis using skip sign p(1) True by (simp add: RtlCharToInteger_def)
  next
    case False
    have "char_digits base' shift 0 ?c ?s = Some (word_of_nat n)"
      using char_digits_read [OF assms(2,3) ds(2), of ?c ?s rest 0] ds by simp
    then show ?thesis
      using skip sign False given_base_text [OF assms(4) False] by (simp add: RtlCharToInteger_def)
  qed
qed

text \<open>The same for counted strings: \<open>e\<close> is empty or a null character.\<close>

lemma unicode_prefix_digits:
  assumes "d < 10" "\<forall>d \<in> set ds. d < 10" "s = map ((!) RtlpIntegerWChars) ds @ e" "e = [] \<or> e = [0]"
    "unat n = length s"
  shows "\<exists>c n' s' ds' e'. unicode_prefix (RtlpIntegerWChars ! d) n s = Some (10, 0, c, n', s') \<and>
    c # s' = map ((!) RtlpIntegerWChars) ds' @ e' \<and> (case e' of [] \<Rightarrow> ds' \<noteq> [] | z # _ \<Rightarrow> z = 0) \<and>
    unat n' = length s' \<and> (\<forall>d \<in> set ds'. d < 10) \<and> positional 10 0 ds' = positional 10 0 (d # ds)"
proof (cases "RtlpIntegerWChars ! d = 48")
  case True
  have d: "d = 0"
  proof -
    have "\<forall>d \<in> set [0..<10]. RtlpIntegerWChars ! d = 48 \<longrightarrow> d = 0" by code_simp
    then show ?thesis using assms(1) True by simp
  qed
  show ?thesis
  proof (cases s)
    case Nil
    then have "n = 0" "ds = []" using assms(3,5) by (simp_all add: unat_eq_zero)
    then show ?thesis using True d Nil
      by (intro exI [of _ 0] exI [of _ "[]"] exI [of _ "[]"] exI [of _ "[0]"])
        (simp add: unicode_prefix_def counted_char_def)
  next
    case s: (Cons c s')
    then have n: "n \<noteq> 0" "unat (n - 1) = length s'"
      using assms(5) by (auto simp: unat_minus_range word_le_nat_alt)
    have "c \<notin> {120, 111, 98}" using s assms(2-4) integer_chars(4) by (cases ds) auto
    moreover have "case e of [] \<Rightarrow> ds \<noteq> [] | z # _ \<Rightarrow> z = 0" using s assms(3,4) by auto
    ultimately show ?thesis using True s assms(2,3) d n
      by (intro exI [of _ c] exI [of _ "n - 1"] exI [of _ s'] exI [of _ ds] exI [of _ e])
        (simp add: unicode_prefix_def counted_char_def next_char_def)
  qed
next
  case False
  then show ?thesis using assms
    by (intro exI [of _ "RtlpIntegerWChars ! d"] exI [of _ n] exI [of _ s] exI [of _ "d # ds"] exI [of _ e])
      (auto simp: unicode_prefix_def)
qed

lemma RtlUnicodeStringToInteger_digits:
  assumes "digit_text RtlpIntegerWChars b n t ds" "loop_base shift base' b" "base' = word_of_nat b"
    "text_base base = Some (base', shift)" "length t < 2 ^ 32"
  shows "RtlUnicodeStringToInteger (word_of_nat (length t)) t g base = Some (Inr (word_of_nat n))"
proof -
  obtain d ds' where ds: "ds = d # ds'" "\<forall>d \<in> set ds. d < b" "positional b 0 ds = n"
    using assms(1) by (cases ds) (auto simp: digit_text_def)
  obtain e where t: "t = map ((!) RtlpIntegerWChars) ds @ e" "e = [] \<or> e = [0]"
    using assms(1) by (auto simp: digit_text_def)
  let ?c = "RtlpIntegerWChars ! d" and ?s = "map ((!) RtlpIntegerWChars) ds' @ e"
  let ?n = "word_of_nat (length t) :: ulong"
  have d: "d < 16" using ds assms(2) by (auto simp: loop_base_def)
  have u: "unat ?n = Suc (length ?s)" using assms(5) t ds by (simp add: unat_of_nat_range del: of_nat_add of_nat_Suc)
  then have n: "?n \<noteq> 0" "unat (?n - 1) = length ?s"
    by (auto simp only: unat_0) (subst unat_minus_range, auto simp add: word_le_nat_alt)
  have skip: "unicode_skip_blanks ?n g t = Some (?c, ?n - 1, ?s)" and sign: "?c \<noteq> 45" "?c \<noteq> 43"
    using t ds integer_chars(2,6) [OF d] unicode_skip_digit [OF _ n(1)] by simp_all
  show ?thesis
  proof (cases "base = 0")
    case True
    then have b: "base' = 10" "shift = 0" "b = 10"
      using assms(2,4) by (auto simp: text_base_def loop_base_def)
    obtain c n' s' es e' where p: "unicode_prefix ?c (?n - 1) ?s = Some (10, 0, c, n', s')"
      "c # s' = map ((!) RtlpIntegerWChars) es @ e'" "case e' of [] \<Rightarrow> es \<noteq> [] | z # _ \<Rightarrow> z = 0"
      "unat n' = length s'" "\<forall>d \<in> set es. d < 10" "positional 10 0 es = positional 10 0 (d # ds')"
      using unicode_prefix_digits [of d ds' ?s e "?n - 1"] ds b(3) t n by auto
    have "unicode_digits 10 0 (word_of_nat 0) c n' s' = Some (word_of_nat (positional 10 0 es))"
      by (rule unicode_digits_read [OF loop_base_decimal _ p(5,2,3,4)]) simp
    then have "unicode_digits 10 0 0 c n' s' = Some (word_of_nat n)" using p(6) ds(1,3) b(3) by simp
    then show ?thesis using skip sign p(1) True by (simp add: RtlUnicodeStringToInteger_def)
  next
    case False
    have "case e of [] \<Rightarrow> ds \<noteq> [] | z # _ \<Rightarrow> z = 0" using t ds by auto
    then have "unicode_digits base' shift 0 ?c (?n - 1) ?s = Some (word_of_nat n)"
      using unicode_digits_read [OF assms(2,3) ds(2), of ?c ?s e "?n - 1" 0] ds n by simp
    then show ?thesis
      using skip sign False given_base_text [OF assms(4) False] by (simp add: RtlUnicodeStringToInteger_def)
  qed
qed

text \<open>
  C26: a text that \<^verbatim>\<open>RtlIntegerToChar\<close> or \<^verbatim>\<open>RtlIntegerToUnicode\<close> writes with success, in any base they
  accept and at any width, padded or not, terminated or not, is read back as the value by
  \<^verbatim>\<open>RtlCharToInteger\<close> and \<^verbatim>\<open>RtlUnicodeStringToInteger\<close> in the same base.
\<close>

theorem integer_text_roundtrip:
  "(RtlIntegerToChar v base outputLength = Some (STATUS_SUCCESS, s) \<longrightarrow>
      RtlCharToInteger (s @ [0]) base = Some (Inr v)) \<and>
   (RtlIntegerToUnicode v base outputLength = Some (STATUS_SUCCESS, t) \<longrightarrow>
      RtlUnicodeStringToInteger (word_of_nat (length t)) t sign base = Some (Inr v))"
proof (intro conjI impI)
  assume "RtlIntegerToChar v base outputLength = Some (STATUS_SUCCESS, s)"
  then show "RtlCharToInteger (s @ [0]) base = Some (Inr v)"
    by (rule RtlIntegerToChar_text) (simp add: RtlCharToInteger_digits)
next
  assume "RtlIntegerToUnicode v base outputLength = Some (STATUS_SUCCESS, t)"
  then show "RtlUnicodeStringToInteger (word_of_nat (length t)) t sign base = Some (Inr v)"
    by (rule RtlIntegerToUnicode_text) (simp add: RtlUnicodeStringToInteger_digits)
qed

theorem integer_text_roundtrip_witness:
  "RtlCharToInteger ([48, 48, 70, 70] @ [0]) 16 = Some (Inr 255) \<and>
   RtlUnicodeStringToInteger (word_of_nat (length [50 :: ushort, 53, 53, 0])) [50, 53, 53, 0] 7 0 = Some (Inr 255)"
proof -
  have "RtlIntegerToChar 255 16 (- 4) = Some (STATUS_SUCCESS, [48, 48, 70, 70])"
    "RtlIntegerToUnicode 255 0 4 = Some (STATUS_SUCCESS, [50, 53, 53, 0])" by code_simp+
  then show ?thesis
    using integer_text_roundtrip [of 255 16 "- 4" "[48, 48, 70, 70]" "[]" 7]
      integer_text_roundtrip [of 255 0 4 "[]" "[50, 53, 53, 0]" 7] by blast
qed

section \<open>Reads\<close>

lemma unicode_skip_blanks_defined:
  "unat n = length s \<Longrightarrow> s \<noteq> [] \<Longrightarrow>
   \<exists>c n' s'. unicode_skip_blanks n g s = Some (c, n', s') \<and> unat n' = length s'"
proof (induction s arbitrary: n g)
  case (Cons c s)
  then have n: "n \<noteq> 0" "unat (n - 1) = length s" by (auto simp: unat_minus_range word_le_nat_alt)
  then have eq: "n - 1 = 0 \<longleftrightarrow> s = []" by (metis length_0_conv unat_0 unat_eq_zero)
  have step: "unicode_skip_blanks n g (c # s) =
      (if c \<le> 32 then if n - 1 = 0 then Some (0, n - 1, s) else unicode_skip_blanks (n - 1) c s
       else Some (c, n - 1, s))"
    by (subst unicode_skip_blanks.simps) (simp only: n(1) if_False list.case)
  show ?case using Cons.IH [OF n(2), of c] n eq unfolding step by (cases "c \<le> 32"; cases "s = []") auto
qed simp

lemma counted_char_defined:
  "unat n = length s \<Longrightarrow> \<exists>c n' s'. counted_char n s = Some (c, n', s') \<and> unat n' = length s'"
  by (cases s) (auto simp: counted_char_def next_char_def unat_eq_zero unat_minus_range word_le_nat_alt)

lemma unicode_digits_defined: "unat n = length s \<Longrightarrow> \<exists>r'. unicode_digits base shift r c n s = Some r'"
proof (induction s arbitrary: r c n)
  case (Cons d s)
  then have "unat (n - 1) = length s" by (auto simp: unat_minus_range word_le_nat_alt)
  then show ?case using Cons.IH
    by (subst unicode_digits.simps) (auto simp: Let_def split: option.split)
qed (subst unicode_digits.simps, auto simp: unat_eq_zero Let_def split: option.split)

lemma unicode_prefix_defined:
  assumes "unat n = length s"
  shows "\<exists>b k c' n' s'. unicode_prefix c n s = Some (b, k, c', n', s') \<and> unat n' = length s'"
proof (cases "c = 48 \<and> n \<noteq> 0")
  case True
  then obtain d s' where s: "s = d # s'" using assms by (cases s) (auto simp: unat_eq_zero)
  then have "unat (n - 1) = length s'" using True assms by (auto simp: unat_minus_range word_le_nat_alt)
  from counted_char_defined [OF this] counted_char_defined [OF assms] True s show ?thesis
    by (auto simp: unicode_prefix_def next_char_def)
next
  case False
  then show ?thesis using assms counted_char_defined [OF assms] by (auto simp: unicode_prefix_def)
qed

lemma RtlUnicodeStringToInteger_defined:
  assumes "s \<noteq> []" "unat n = length s"
  shows "RtlUnicodeStringToInteger n s g base \<noteq> None"
proof -
  obtain c n1 s1 where skip: "unicode_skip_blanks n g s = Some (c, n1, s1)" "unat n1 = length s1"
    using unicode_skip_blanks_defined [OF assms(2,1), of g] by blast
  obtain c2 n2 s2 where sign: "(if c = 45 \<or> c = 43 then counted_char n1 s1 else Some (c, n1, s1)) = Some (c2, n2, s2)"
    "unat n2 = length s2"
    using counted_char_defined [OF skip(2)] skip(2) by (cases "c = 45 \<or> c = 43") auto
  obtain b k c3 n3 s3 where prefix: "unicode_prefix c2 n2 s2 = Some (b, k, c3, n3, s3)" "unat n3 = length s3"
    using unicode_prefix_defined [OF sign(2)] by blast
  define f where "f k = the (unicode_digits base k 0 c2 n2 s2)" for k
  have f: "unicode_digits base k 0 c2 n2 s2 = Some (f k)" for k
    using unicode_digits_defined [OF sign(2), of base k 0 c2] by (auto simp: f_def)
  have "\<exists>r. unicode_digits b k 0 c3 n3 s3 = Some r"
    by (rule unicode_digits_defined [OF prefix(2)])
  then show ?thesis unfolding RtlUnicodeStringToInteger_def skip(1) bind.bind_lunit case_prod_conv bind_eq_Some_conv sign(1) prefix(1)
    by (cases "base = 0") (auto simp: prefix(1) f split: option.split)
qed

text \<open>
  C27: \<^verbatim>\<open>RtlUnicodeStringToInteger\<close> reads nothing but the characters of its counted string exactly when the
  string is not empty. For an empty string the count wraps to \<open>2\<^sup>3\<^sup>2 - 1\<close> and the sign is what the
  uninitialised variable holds, so that for some contents of it the memory behind the buffer is read.
\<close>

theorem RtlUnicodeStringToInteger_stays_inside:
  "unat n = length s \<Longrightarrow> (\<forall>sign. RtlUnicodeStringToInteger n s sign base \<noteq> None) \<longleftrightarrow> s \<noteq> []"
proof
  assume a: "unat n = length s" "\<forall>sign. RtlUnicodeStringToInteger n s sign base \<noteq> None"
  show "s \<noteq> []"
  proof
    assume "s = []"
    with a(1) have "n = 0" by (simp add: unat_eq_zero)
    then have "RtlUnicodeStringToInteger n s 45 base = None"
      using \<open>s = []\<close> by (simp add: RtlUnicodeStringToInteger_def counted_char_def next_char_def)
    with a(2) show False by blast
  qed
qed (auto dest: RtlUnicodeStringToInteger_defined)

theorem RtlUnicodeStringToInteger_stays_inside_witness:
  "(\<forall>sign. RtlUnicodeStringToInteger 2 [49, 50] sign 10 \<noteq> None) \<and>
   \<not> (\<forall>sign. RtlUnicodeStringToInteger 0 [] sign 10 \<noteq> None)"
  using RtlUnicodeStringToInteger_stays_inside [of 2 "[49, 50]" 10]
    RtlUnicodeStringToInteger_stays_inside [of 0 "[]" 10] by simp

section \<open>Large integers\<close>

lemma RtlExtendedLargeIntegerDivide_nonneg:
  assumes "0 \<le> sint v"
  shows "RtlExtendedLargeIntegerDivide v 10 = Some (v div 10, word_of_nat (unat v mod 10))"
proof -
  have s: "sint v = int (unat v)" by (rule sint_nonneg(1) [OF assms])
  have "int n smod 10 = int (n mod 10)" for n
    by (cases "n = 0") (simp_all add: signed_modulo_int_def signed_divide_int_def zmod_int flip: minus_div_mult_eq_mod)
  then have "word_of_int (sint v smod 10) = (word_of_nat (unat v mod 10) :: ulong)"
    by (simp only: s of_int_of_nat_eq)
  then show ?thesis by (simp add: RtlExtendedLargeIntegerDivide_def)
qed

lemma large_decimal_digits_nonneg:
  assumes "length table = 16" "0 \<le> sint v" "unat v < 10 ^ k" "0 < k" "length s + k \<le> 65"
  shows "\<exists>ds. large_decimal_digits table 10 v s = Some (map ((!) table) ds @ s) \<and> ds \<noteq> [] \<and> length ds \<le> k \<and>
    (\<forall>d \<in> set ds. d < 10) \<and> positional 10 0 ds = unat v"
  using assms(2-5)
proof (induction k arbitrary: v s)
  case (Suc k)
  let ?d = "word_of_nat (unat v mod 10) :: ulong" and ?w = "v div 10"
  have d: "unat ?d = unat v mod 10" "unat ?d < 10"
    by (subst unat_of_nat_range; simp add: order_less_trans [OF mod_less_divisor])+
  have w: "unat ?w = unat v div 10" by (simp add: unat_div_distrib)
  have cap: "unat ?d < length table \<and> length s < 65" using d(2) Suc.prems(4) assms(1) by linarith
  let ?s = "table ! unat ?d # s"
  have eq: "large_decimal_digits table 10 v s =
      (if ?w \<noteq> 0 then large_decimal_digits table 10 ?w ?s else Some ?s)"
    using cap
    unfolding large_decimal_digits.simps [of table 10 v s] RtlExtendedLargeIntegerDivide_nonneg [OF Suc.prems(1)]
      bind.bind_lunit case_prod_conv Let_def by (simp only: if_True simp_thms)
  show ?case
  proof (cases "?w = 0")
    case True
    then have "unat ?w = 0" by (simp only: unat_0)
    then have "unat v mod 10 = unat v" using w by (simp add: div_eq_0_iff)
    then show ?thesis using True eq d by (intro exI [of _ "[unat ?d]"]) simp
  next
    case False
    have lt: "unat ?w < 10 ^ k" using Suc.prems(2) w by (simp add: less_mult_imp_div_less mult.commute)
    moreover have "0 < k"
    proof (rule ccontr)
      assume "\<not> 0 < k"
      then have "unat ?w = 0" using lt by simp
      then show False using False by (metis unat_eq_zero)
    qed
    moreover have "0 \<le> sint ?w"
      using sint_nonneg(2) [OF Suc.prems(1)] w by (subst sint_small) simp_all
    ultimately obtain ds where ds: "large_decimal_digits table 10 ?w ?s = Some (map ((!) table) ds @ ?s)"
      "ds \<noteq> []" "length ds \<le> k" "\<forall>d \<in> set ds. d < 10" "positional 10 0 ds = unat ?w"
      using Suc.IH [of ?w ?s] Suc.prems(4) by auto
    have "positional 10 0 (ds @ [unat ?d]) = unat v" using ds(5) w d by simp
    then show ?thesis using False eq ds d by (intro exI [of _ "ds @ [unat ?d]"]) auto
  qed
qed simp

text \<open>The first digit of a value that is negative as a signed number is outside of the table.\<close>

lemma RtlExtendedLargeIntegerDivide_negative:
  assumes "sint v < 0"
  shows "\<exists>d. RtlExtendedLargeIntegerDivide v 10 = Some (v div 10, d) \<and>
    (if 10 dvd sint v then d = 0 else 16 \<le> unat d) \<and> 0 \<le> sint (v div 10) \<and> v div 10 \<noteq> 0"
proof -
  let ?r = "sint v smod 10"
  have r: "?r = - ((- sint v) mod 10)"
    using assms by (simp add: signed_modulo_int_def signed_divide_int_def flip: minus_div_mult_eq_mod)
  have "(- sint v) mod 10 = 0 \<longleftrightarrow> 10 dvd sint v" 

    using pos_mod_bound [of 10 "sint v"] by (auto simp: dvd_eq_mod_eq_0 zmod_zminus1_eq_if simp del: pos_mod_bound)
  moreover have m: "0 \<le> (- sint v) mod 10" "(- sint v) mod 10 < 10" by simp_all
  moreover have "16 \<le> unat (word_of_int (- x) :: ulong)" if "0 < x" "x < 10" for x
  proof -
    have "x \<in> {1, 2, 3, 4, 5, 6, 7, 8, 9}" using that by auto
    then show ?thesis by (auto simp: unsigned_minus_1_eq_mask mask_eq_exp_minus_1)
  qed
  ultimately have d: "if 10 dvd sint v then word_of_int ?r = (0 :: ulong) else 16 \<le> unat (word_of_int ?r :: ulong)"
    unfolding r by (metis minus_zero of_int_0 order_le_less)
  have u: "2 ^ 63 \<le> unat v"
  proof (rule ccontr)
    assume "\<not> 2 ^ 63 \<le> unat v"
    then have "sint v = int (unat v)" by (intro sint_small) simp
    then show False using assms by simp
  qed
  have w: "unat (v div 10) = unat v div 10" by (simp add: unat_div_distrib)
  have "unat v div 10 < 2 ^ 63"
  proof -
    have "unat v < 2 ^ 64" using unsigned_less [of v] by simp
    then show ?thesis by simp
  qed
  then have "0 \<le> sint (v div 10)" using w by (subst sint_small) simp_all
  moreover have "0 < unat v div 10" using u by (simp add: div_greater_zero_iff)
  then have "v div 10 \<noteq> 0" using w by (metis less_irrefl unat_0)
  ultimately show ?thesis using d by (simp add: RtlExtendedLargeIntegerDivide_def)
qed

lemma large_decimal_digits_None:
  assumes "length table = 16"
  shows "large_decimal_digits table 10 v [] = None \<longleftrightarrow> sint v < 0 \<and> \<not> 10 dvd sint v"
proof (cases "sint v < 0")
  case True
  obtain d where d: "RtlExtendedLargeIntegerDivide v 10 = Some (v div 10, d)"
    "if 10 dvd sint v then d = 0 else 16 \<le> unat d" "0 \<le> sint (v div 10)" "v div 10 \<noteq> 0"
    using RtlExtendedLargeIntegerDivide_negative [OF True] by blast
  have eq: "large_decimal_digits table 10 v [] =
      (if unat d < 16 then large_decimal_digits table 10 (v div 10) [table ! unat d] else None)"
    unfolding large_decimal_digits.simps [of table 10 v "[]"] d(1) bind.bind_lunit case_prod_conv Let_def
    using d(4) assms by simp
  show ?thesis
  proof (cases "10 dvd sint v")
    case dvd: True
    have "unat (v div 10) < 10 ^ 20" using sint_nonneg(2) [OF d(3)] by simp
    from large_decimal_digits_nonneg [OF assms d(3) this, of "[table ! 0]"] dvd d(2) eq show ?thesis by auto
  next
    case False
    then show ?thesis using d(2) eq True by simp
  qed
next
  case False
  then have "0 \<le> sint v" by simp
  moreover from this have "unat v < 10 ^ 20" using sint_nonneg(2) [of v] by simp
  ultimately show ?thesis using large_decimal_digits_nonneg [OF assms, of v 20 "[]"] False by auto
qed

lemma large_shift_digits:
  assumes "length table = 16" "shift \<in> {1, 3, 4}"
  shows "integer_digits table 65 shift (0 :: ulonglong) v [] \<noteq> None"
proof -
  have lb: "loop_base shift (0 :: ulonglong) (2 ^ shift)" using assms(2) by (auto simp: loop_base_def)
  have "unat v < 2 ^ 64" using unsigned_less [of v] by simp
  also have "\<dots> \<le> (2 ^ shift) ^ 64" using assms(2) by (intro power_mono) auto
  finally show ?thesis using integer_digits_correct [OF lb assms(1), of v 64 "[]" 65] by auto
qed

text \<open>
  C28: the conversion of a large integer leaves the digit table, or divides by zero, exactly when the base
  is 0, although it is accepted as the default, or when the base is 10 and the value, read as a signed
  number, is negative and no multiple of 10. In every other case it returns.
\<close>

theorem RtlLargeIntegerToChar_fails:
  "RtlLargeIntegerToChar v base outputLength = None \<longleftrightarrow> base = 0 \<or> base = 10 \<and> sint v < 0 \<and> \<not> 10 dvd sint v"
proof -
  have len: "length RtlpIntegerChars = 16" by (simp add: RtlpIntegerChars_def)
  have "large_decimal_digits RtlpIntegerChars 0 v [] = None"
    by (subst large_decimal_digits.simps) (simp add: RtlExtendedLargeIntegerDivide_def)
  then show ?thesis
    using large_decimal_digits_None [OF len, of v] large_shift_digits [OF len, of _ v]
    by (auto simp: RtlLargeIntegerToChar_def large_text_base_def)
qed

section \<open>The buffer of the string conversions\<close>

lemma positional_bounds:
  assumes "\<forall>d \<in> set ds. d < b"
  shows "positional b 0 ds < b ^ length ds"
  using assms
proof (induction ds rule: rev_induct)
  case (snoc d ds)
  then have "positional b 0 ds + 1 \<le> b ^ length ds" "d < b" by auto
  then have "(positional b 0 ds + 1) * b \<le> b ^ length ds * b" by (intro mult_right_mono) simp_all
  then show ?case using \<open>d < b\<close> by (simp add: mult.commute)
qed simp

lemma strlen_append: "0 \<notin> set s \<Longrightarrow> strlen (s @ t) = map_option (\<lambda>n. length s + n) (strlen t)"
  by (induction s; cases "strlen t") auto

lemma store_digits_16:
  "store_digits 16 s =
     (if length s > 16 then (STATUS_BUFFER_OVERFLOW, []) else (STATUS_SUCCESS, s @ (if length s < 16 then [0] else [])))"
  by (simp add: store_digits_def Let_def)

text \<open>The number of digits that a value of 32 bits has, where the buffer of 16 characters matters.\<close>

lemma binary_16_digits:
  assumes "loop_base shift base b" "length table = 16" "integer_digits table 33 shift base (v :: ulong) [] = Some s"
    "b \<in> {2, 8, 10, 16}"
  shows "length s = 16 \<longleftrightarrow> b = 2 \<and> 2 ^ 15 \<le> unat v \<and> unat v < 2 ^ 16"
proof -
  have digits: "\<exists>ds. s = map ((!) table) ds \<and> length ds \<le> k \<and> unat v < b ^ length ds" if "unat v < b ^ k" "0 < k" "k \<le> 33" for k
    using integer_digits_correct [OF assms(1,2) that(1,2), of "[]" 33] that(3) assms(3) positional_bounds by fastforce
  show ?thesis
  proof (cases "b = 2")
    case True
    have "length s = 16" if v: "2 ^ 15 \<le> unat v" "unat v < 2 ^ 16"
    proof -
      obtain ds where ds: "s = map ((!) table) ds" "length ds \<le> 16" "unat v < 2 ^ length ds"
        using digits [of 16] v(2) True by auto
      have "(2 :: nat) ^ 15 < 2 ^ length ds" using ds(3) v(1) by linarith
      then have "15 < length ds" by (rule power_less_imp_less_exp [rotated]) simp
      then show ?thesis using ds by simp
    qed
    moreover have "unat v < 2 ^ 16 \<and> 2 ^ 15 \<le> unat v" if "length s = 16"
    proof -
      have "unat v < 2 ^ 33" using unat_ulong_less [of v] by simp
      then obtain ds where "s = map ((!) table) ds" "unat v < 2 ^ length ds" using digits [of 33] True by auto
      moreover have "\<not> unat v < 2 ^ 15"
        using digits [of 15] True that by auto
      ultimately show ?thesis using that by simp
    qed
    ultimately show ?thesis using True by blast
  next
    case False
    have "(8 :: nat) ^ 11 \<le> b ^ 11" using assms(4) False by (intro power_mono) auto
    then have "unat v < b ^ 11" using unat_ulong_less [of v] by simp
    then have "length s \<le> 11" using digits [of 11] by auto
    then show ?thesis using False by simp
  qed
qed

text \<open>
  C29: \<^verbatim>\<open>RtlIntegerToUnicodeString\<close> looks for the end of its local buffer of 16 characters beyond the buffer
  exactly when the text has 16 characters, which are the values from \<open>2\<^sup>1\<^sup>5\<close> to \<open>2\<^sup>1\<^sup>6 - 1\<close> in base 2: there is no
  room for the terminator then, and none is written.
\<close>

theorem RtlIntegerToUnicodeString_overruns:
  "RtlIntegerToUnicodeString_ansi v base = None \<longleftrightarrow> base = 2 \<and> 2 ^ 15 \<le> unat v \<and> unat v < 2 ^ 16"
proof (cases "text_base base")
  case None
  then show ?thesis
    by (auto simp: RtlIntegerToUnicodeString_ansi_def RtlIntegerToChar_def NT_SUCCESS_def text_base_def)
next
  case (Some p)
  obtain base' shift where p: "p = (base', shift)" by (cases p)
  have len: "length RtlpIntegerChars = 16" by (simp add: RtlpIntegerChars_def)
  obtain b ds where b: "loop_base shift base' b" "base' = word_of_nat b" "b \<in> {2, 8, 10, 16}"
    "base = base' \<or> base = 0 \<and> base' = 10 \<and> shift = 0" and
    ds: "integer_digits RtlpIntegerChars 33 shift base' v [] = Some (map ((!) RtlpIntegerChars) ds)"
      "\<forall>d \<in> set ds. d < b"
    using text_base_digits [OF Some [unfolded p] len, of v] by metis
  have n: "length ds = 16 \<longleftrightarrow> base = 2 \<and> 2 ^ 15 \<le> unat v \<and> unat v < 2 ^ 16"
    using binary_16_digits [OF b(1) len ds(1) b(3)] b(2-4) by auto
  have "0 \<notin> set (map ((!) RtlpIntegerChars) ds)"
    using ds(2) b(3) integer_chars(5) by force
  then have "RtlIntegerToUnicodeString_ansi v base = None \<longleftrightarrow> length ds = 16"
    using Some p ds(1) strlen_append [of "map ((!) RtlpIntegerChars) ds" "[]"]
      strlen_append [of "map ((!) RtlpIntegerChars) ds" "[0]"]
    by (auto simp: RtlIntegerToUnicodeString_ansi_def RtlIntegerToChar_def store_digits_16 NT_SUCCESS_def split: if_splits)
  with n show ?thesis by simp
qed

section \<open>Bounds\<close>

text \<open>A conversion always returns and stores at most the characters it is given room for.\<close>

lemma RtlIntegerToChar_bounded:
  "\<exists>status s. RtlIntegerToChar v base outputLength = Some (status, s) \<and> length s \<le> nat \<bar>sint outputLength\<bar>"
proof (cases "text_base base")
  case (Some p)
  obtain base' shift where p: "p = (base', shift)" by (cases p)
  have len: "length RtlpIntegerChars = 16" by (simp add: RtlpIntegerChars_def)
  obtain ds where "integer_digits RtlpIntegerChars 33 shift base' v [] = Some (map ((!) RtlpIntegerChars) ds)"
    using text_base_digits [OF Some [unfolded p] len, of v] by metis
  moreover obtain status s where "store_digits outputLength (map ((!) RtlpIntegerChars) ds) = (status, s)" by force
  ultimately show ?thesis using Some p store_digits_result(1) by (auto simp: RtlIntegerToChar_def)
qed (simp add: RtlIntegerToChar_def)

end
