(* ===== verification/Name_Match.thy ===== *)
theory Name_Match
  imports Prelude
begin

text \<open>
  The names of \<^verbatim>\<open>fsrtl/name.c\<close>: the dissection of paths, the comparison of names and the simulation of
  the automaton that decides whether a name is in an expression with wild cards. A counted string is the
  list of its characters, whose length in bytes fits in a \<^verbatim>\<open>USHORT\<close>.
\<close>

unbundle bit_operations_syntax

section \<open>Characters\<close>

abbreviation DOS_STAR :: ushort where "DOS_STAR \<equiv> 0x3C"
abbreviation DOS_QM :: ushort where "DOS_QM \<equiv> 0x3E"
abbreviation DOS_DOT :: ushort where "DOS_DOT \<equiv> 0x22"
abbreviation STAR_CHAR :: ushort where "STAR_CHAR \<equiv> 0x2A"
abbreviation QM_CHAR :: ushort where "QM_CHAR \<equiv> 0x3F"
abbreviation DOT_CHAR :: ushort where "DOT_CHAR \<equiv> 0x2E"
abbreviation BACKSLASH :: ushort where "BACKSLASH \<equiv> 0x5C"

text \<open>The legal character table of \<^verbatim>\<open>fsrtl/fsrtlpc.c\<close>, character by character; 8 is the wild card bit.\<close>

definition LocalLegalAnsiCharacterArray :: "uchar list" where
  "LocalLegalAnsiCharacterArray =
    [0, 16, 16, 16, 16, 16, 16, 16, 16, 16, 16, 16, 16, 16, 16, 16,
     16, 16, 16, 16, 16, 16, 16, 16, 16, 16, 16, 16, 16, 16, 16, 16,
     23, 7, 24, 23, 23, 23, 23, 23, 23, 23, 24, 22, 22, 23, 7, 0,
     23, 23, 23, 23, 23, 23, 23, 23, 23, 23, 4, 22, 24, 22, 24, 24,
     23, 23, 23, 23, 23, 23, 23, 23, 23, 23, 23, 23, 23, 23, 23, 23,
     23, 23, 23, 23, 23, 23, 23, 23, 23, 23, 23, 22, 0, 22, 23, 23,
     23, 23, 23, 23, 23, 23, 23, 23, 23, 23, 23, 23, 23, 23, 23, 23,
     23, 23, 23, 23, 23, 23, 23, 23, 23, 23, 23, 23, 16, 23, 23, 23]"

definition FSRTL_WILD_CHARACTER :: uchar where
  "FSRTL_WILD_CHARACTER = 0x08"

definition FsRtlIsUnicodeCharacterWild :: "ushort \<Rightarrow> bool" where
  "FsRtlIsUnicodeCharacterWild c \<longleftrightarrow>
     (if c \<ge> 0x40 then False else LocalLegalAnsiCharacterArray ! unat c AND FSRTL_WILD_CHARACTER \<noteq> 0)"

section \<open>Paths\<close>

text \<open>The loop: the characters up to the next backslash, and the rest from it on.\<close>

fun to_backslash :: "ushort list \<Rightarrow> ushort list \<times> ushort list" where
  "to_backslash [] = ([], [])"
| "to_backslash (c # s) =
     (if c \<noteq> BACKSLASH then (let (first, rest) = to_backslash s in (c # first, rest)) else ([], c # s))"

definition FsRtlDissectName :: "ushort list \<Rightarrow> ushort list \<times> ushort list" where
  "FsRtlDissectName path =
     (case path of
        [] \<Rightarrow> ([], [])
      | c # s \<Rightarrow>
          let (first, rest) = to_backslash (if c = BACKSLASH then s else path)
          in (first, case rest of [] \<Rightarrow> [] | _ # remaining \<Rightarrow> remaining))"

text \<open>The scan runs backwards and stops at a backslash.\<close>

fun wild_scan :: "ushort list \<Rightarrow> bool" where
  "wild_scan [] = False"
| "wild_scan (c # s) =
     (if c = BACKSLASH then False else if FsRtlIsUnicodeCharacterWild c then True else wild_scan s)"

definition FsRtlDoesNameContainWildCards :: "ushort list \<Rightarrow> bool" where
  "FsRtlDoesNameContainWildCards name = wild_scan (rev name)"

section \<open>Upcasing and equality\<close>

text \<open>\<open>delta\<close> stands for the look-up in the upcase table that is loaded at boot time.\<close>

definition NLS_UPCASE :: "(ushort \<Rightarrow> ushort) \<Rightarrow> ushort \<Rightarrow> ushort" where
  "NLS_UPCASE delta c = (if c < 0x61 then c else if c \<le> 0x7A then c - 0x20 else c + delta c)"

text \<open>The destination string is allocated; \<open>memory\<close> tells whether the allocation succeeds.\<close>

definition RtlUpcaseUnicodeString :: "bool \<Rightarrow> (ushort \<Rightarrow> ushort) \<Rightarrow> ushort list \<Rightarrow> ntstatus + ushort list" where
  "RtlUpcaseUnicodeString memory delta s =
     (if memory then Inr (map (NLS_UPCASE delta) s) else Inl STATUS_NO_MEMORY)"

fun names_equal_loop :: "(ushort \<Rightarrow> ushort) \<Rightarrow> ushort list \<Rightarrow> ushort list \<Rightarrow> bool" where
  "names_equal_loop upcaseTable (a # s) (b # t) =
     (if upcaseTable a \<noteq> upcaseTable b then False else names_equal_loop upcaseTable s t)"
| "names_equal_loop upcaseTable _ _ = True"

text \<open>A failed allocation is raised; the memories of the two are given one after the other.\<close>

definition FsRtlAreNamesEqual ::
    "bool \<times> bool \<Rightarrow> (ushort \<Rightarrow> ushort) \<Rightarrow> ushort list \<Rightarrow> ushort list \<Rightarrow> bool \<Rightarrow> (ushort \<Rightarrow> ushort) option \<Rightarrow>
     ntstatus + bool" where
  "FsRtlAreNamesEqual memory delta constantNameA constantNameB ignoreCase upcaseTable =
     (if length constantNameA \<noteq> length constantNameB then Inr False
      else if ignoreCase then
        (case upcaseTable of
           Some table \<Rightarrow> Inr (names_equal_loop table constantNameA constantNameB)
         | None \<Rightarrow>
             (case RtlUpcaseUnicodeString (fst memory) delta constantNameA of
                Inl status \<Rightarrow> Inl status
              | Inr localNameA \<Rightarrow>
                  (case RtlUpcaseUnicodeString (snd memory) delta constantNameB of
                     Inl status \<Rightarrow> Inl status
                   | Inr localNameB \<Rightarrow> Inr (localNameA = localNameB))))
      else Inr (constantNameA = constantNameB))"

section \<open>The match arrays\<close>

text \<open>
  \<^const>\<open>None\<close> is a store outside of an array, \<open>Inl\<close> an exception.
\<close>

type_synonym 'a outcome = "(ntstatus + 'a) option"

definition and_then :: "'a outcome \<Rightarrow> ('a \<Rightarrow> 'b outcome) \<Rightarrow> 'b outcome" where
  "and_then r f = (case r of None \<Rightarrow> None | Some (Inl status) \<Rightarrow> Some (Inl status) | Some (Inr x) \<Rightarrow> f x)"

text \<open>What the loops read: the expression, the upcase, whether pool is available.\<close>

record matcher =
  Expression :: "ushort list"
  Upcase :: "ushort \<Rightarrow> ushort"
  Pool :: bool

text \<open>\<^verbatim>\<open>CurrentMatches[0 .. DestCount]\<close>, and whether the arrays are in \<^verbatim>\<open>AuxBuffer\<close>.\<close>

type_synonym match_array = "ushort list \<times> bool"

definition MATCHES_ARRAY_SIZE :: nat where
  "MATCHES_ARRAY_SIZE = 16"

definition expression_length :: "matcher \<Rightarrow> nat" where
  "expression_length x = length (Expression x)"

text \<open>\<^verbatim>\<open>(USHORT)(Expression->Length * 2)\<close>, where the length is in bytes, and \<^verbatim>\<open>(USHORT)(ExprOffset * 2)\<close>.\<close>

definition state_at :: "nat \<Rightarrow> ushort" where
  "state_at i = word_of_nat (4 * i)"

definition MaxState :: "matcher \<Rightarrow> ushort" where
  "MaxState x = state_at (expression_length x)"

text \<open>\<^verbatim>\<open>ExprOffset\<close> of a state, in characters.\<close>

definition state_offset :: "ushort \<Rightarrow> nat" where
  "state_offset s = (unat s + 1) div 2 div 2"

definition store_state :: "matcher \<Rightarrow> ushort \<Rightarrow> match_array \<Rightarrow> match_array outcome" where
  "store_state x s m =
     (let (current, aux) = m
      in if length current < (if aux then 2 * (expression_length x + 1) else MATCHES_ARRAY_SIZE)
         then Some (Inr (current @ [s], aux)) else None)"

text \<open>
  The arrays move to pool before the local ones are exhausted; the copies of the whole local arrays have
  to fit.
\<close>

definition reserve_states :: "matcher \<Rightarrow> match_array \<Rightarrow> match_array outcome" where
  "reserve_states x m =
     (let (current, aux) = m
      in if length current \<ge> MATCHES_ARRAY_SIZE - 2 \<and> \<not> aux then
           if \<not> Pool x then Some (Inl STATUS_INSUFFICIENT_RESOURCES)
           else if 2 * (expression_length x + 1) < MATCHES_ARRAY_SIZE then None
           else Some (Inr (current, True))
         else Some (Inr (current, aux)))"

section \<open>One character of the name\<close>

text \<open>
  \<open>c\<close> is the character and \<open>following\<close> the characters after it; \<open>finished\<close> is \<^verbatim>\<open>NameFinished\<close>. The list is the
  expression from the offset \<open>i\<close> on. Reaching its end here is reaching it by a \<^verbatim>\<open>continue\<close>.
\<close>

fun match_chars ::
    "matcher \<Rightarrow> bool \<Rightarrow> ushort \<Rightarrow> ushort list \<Rightarrow> nat \<Rightarrow> ushort list \<Rightarrow> match_array \<Rightarrow> match_array outcome" where
  "match_chars x finished c following i [] m = store_state x (MaxState x) m"
| "match_chars x finished c following i (e # es) m =
     and_then (reserve_states x m) (\<lambda>m.
       let currentState = state_at i;
           nextState = currentState + 4
       in if e = STAR_CHAR then
            and_then (store_state x currentState m) (\<lambda>m.
            and_then (store_state x (currentState + 3) m) (\<lambda>m.
            match_chars x finished c following (Suc i) es m))
          else if e = DOS_STAR then
            let iCanEatADot = (\<not> finished \<and> c = DOT_CHAR \<and> DOT_CHAR \<in> set following)
            in if finished \<or> c \<noteq> DOT_CHAR \<or> iCanEatADot then
                 and_then (store_state x currentState m) (\<lambda>m.
                 and_then (store_state x (currentState + 3) m) (\<lambda>m.
                 match_chars x finished c following (Suc i) es m))
               else
                 and_then (store_state x (currentState + 3) m) (\<lambda>m.
                 match_chars x finished c following (Suc i) es m)
          else if e = DOS_QM \<and> (finished \<or> c = DOT_CHAR) then match_chars x finished c following (Suc i) es m
          else if e = DOS_QM then store_state x nextState m
          else if e = DOS_DOT \<and> finished then match_chars x finished c following (Suc i) es m
          else if e = DOS_DOT \<and> c = DOT_CHAR then store_state x nextState m
          else if finished then Some (Inr m)
          else if e = QM_CHAR then store_state x nextState m
          else if e = Upcase x c then store_state x nextState m
          else Some (Inr m))"

definition match_source ::
    "matcher \<Rightarrow> bool \<Rightarrow> ushort \<Rightarrow> ushort list \<Rightarrow> ushort \<Rightarrow> match_array \<Rightarrow> match_array outcome" where
  "match_source x finished c following s m =
     (let i = state_offset s
      in if i = expression_length x then Some (Inr m)
         else match_chars x finished c following i (drop i (Expression x)) m)"

text \<open>The sources below the destinations from \<^verbatim>\<open>PreviousDestCount\<close> on are skipped.\<close>

fun skip_sources :: "ushort list \<Rightarrow> ushort list \<Rightarrow> ushort list" where
  "skip_sources sources [] = sources"
| "skip_sources sources (d # ds) =
     (if sources = [] then [] else skip_sources (dropWhile (\<lambda>s. s < d) sources) ds)"

lemma length_skip_sources: "length (skip_sources sources ds) \<le> length sources"
proof (induction ds arbitrary: sources)
  case (Cons d ds)
  show ?case using Cons [of "dropWhile (\<lambda>s. s < d) sources"] length_dropWhile_le [of "\<lambda>s. s < d" sources]
    by (simp del: length_dropWhile_le)
qed simp

function match_sources ::
    "matcher \<Rightarrow> bool \<Rightarrow> ushort \<Rightarrow> ushort list \<Rightarrow> ushort list \<Rightarrow> nat \<Rightarrow> match_array \<Rightarrow> match_array outcome" where
  "match_sources x finished c following [] previousDestCount m = Some (Inr m)"
| "match_sources x finished c following (s # sources) previousDestCount m =
     and_then (match_source x finished c following s m) (\<lambda>m.
       match_sources x finished c following (skip_sources sources (drop previousDestCount (fst m)))
         (length (fst m)) m)"
  by pat_completeness auto

termination
  by (relation "measure (\<lambda>(_, _, _, _, sources, _, _). length sources)") (simp_all add: length_skip_sources le_imp_less_Suc)

section \<open>The name\<close>

fun match_name :: "matcher \<Rightarrow> ushort list \<Rightarrow> match_array \<Rightarrow> bool outcome" where
  "match_name x [] (previous, aux) =
     (if last previous = MaxState x then Some (Inr True)
      else
        and_then (match_sources x True 0 [] previous 0 ([], aux)) (\<lambda>(current, aux).
          if current = [] then Some (Inr False) else Some (Inr (last current = MaxState x))))"
| "match_name x (c # following) (previous, aux) =
     and_then (match_sources x False c following previous 0 ([], aux)) (\<lambda>(current, aux).
       if current = [] then Some (Inr False) else match_name x following (current, aux))"

text \<open>The special case of \<open>*X\<close> with no wild card in \<open>X\<close>.\<close>

definition star_suffix :: "bool \<Rightarrow> (ushort \<Rightarrow> ushort) \<Rightarrow> ushort list \<Rightarrow> ushort list \<Rightarrow> bool" where
  "star_suffix ignoreCase upcaseTable localExpression name =
     (if length name < length localExpression then False
      else
        let suffix = drop (length name - length localExpression) name
        in if \<not> ignoreCase then localExpression = suffix else localExpression = map upcaseTable suffix)"

definition FsRtlIsNameInExpressionPrivate ::
    "bool \<Rightarrow> ushort list \<Rightarrow> ushort list \<Rightarrow> bool \<Rightarrow> (ushort \<Rightarrow> ushort) \<Rightarrow> bool outcome" where
  "FsRtlIsNameInExpressionPrivate pool expr name ignoreCase upcaseTable =
     (if name = [] \<or> expr = [] then Some (Inr (name = [] \<and> expr = []))
      else if expr = [STAR_CHAR] then Some (Inr True)
      else if hd expr = STAR_CHAR \<and> \<not> FsRtlDoesNameContainWildCards (tl expr) then
        Some (Inr (star_suffix ignoreCase upcaseTable (tl expr) name))
      else
        match_name \<lparr>Expression = expr, Upcase = (if ignoreCase then upcaseTable else (\<lambda>c. c)), Pool = pool\<rparr>
          name ([0], False))"

definition FsRtlIsNameInExpression ::
    "bool \<Rightarrow> bool \<Rightarrow> (ushort \<Rightarrow> ushort) \<Rightarrow> ushort list \<Rightarrow> ushort list \<Rightarrow> bool \<Rightarrow> (ushort \<Rightarrow> ushort) option \<Rightarrow>
     bool outcome" where
  "FsRtlIsNameInExpression memory pool delta expr name ignoreCase upcaseTable =
     (case (ignoreCase, upcaseTable) of
        (True, None) \<Rightarrow>
          (case RtlUpcaseUnicodeString memory delta name of
             Inl status \<Rightarrow> Some (Inl status)
           | Inr localName \<Rightarrow> FsRtlIsNameInExpressionPrivate pool expr localName False (\<lambda>c. c))
      | (_, Some table) \<Rightarrow> FsRtlIsNameInExpressionPrivate pool expr name ignoreCase table
      | (False, None) \<Rightarrow> FsRtlIsNameInExpressionPrivate pool expr name False (\<lambda>c. c))"

end
