(* ===== verification/Name_Match_Facts.thy ===== *)
theory Name_Match_Facts
  imports Name_Match
begin

text \<open>
  The language of an expression, and the simulation: the states that one character of the name adds are
  those of a list computed from the expression alone, and the sources that are skipped add nothing new.
\<close>

section \<open>The language of an expression\<close>

text \<open>
  What the simulation accepts, character by character. The last alternative of \<^const>\<open>DOS_QM\<close> is not in the
  description of \<^verbatim>\<open>FsRtlIsNameInExpressionPrivate\<close>: at the end of the expression \<^const>\<open>DOS_QM\<close>s take a
  final period. The language of the description and how it differs are in \<^verbatim>\<open>Name_Match_Theorems\<close>.
\<close>

fun in_language :: "(ushort \<Rightarrow> ushort) \<Rightarrow> ushort list \<Rightarrow> ushort list \<Rightarrow> bool" where
  "in_language up [] s \<longleftrightarrow> s = []"
| "in_language up (e # es) [] \<longleftrightarrow> e \<in> {STAR_CHAR, DOS_STAR, DOS_QM, DOS_DOT} \<and> in_language up es []"
| "in_language up (e # es) (c # s) \<longleftrightarrow>
     (if e = STAR_CHAR then in_language up es (c # s) \<or> in_language up (e # es) s
      else if e = DOS_STAR then
        in_language up es (c # s) \<or>
        (if c = DOT_CHAR \<and> DOT_CHAR \<notin> set s then in_language up es s else in_language up (e # es) s)
      else if e = DOS_QM then
        (if c = DOT_CHAR then in_language up es (c # s) \<or> s = [] \<and> set es \<subseteq> {DOS_QM}
         else in_language up es s)
      else if e = DOS_DOT then c = DOT_CHAR \<and> in_language up es s
      else if e = QM_CHAR then in_language up es s
      else e = up c \<and> in_language up es s)"

lemma in_language_star_skip: "in_language up es s \<Longrightarrow> e = STAR_CHAR \<or> e = DOS_STAR \<Longrightarrow> in_language up (e # es) s"
  by (cases s) auto

section \<open>The states added by one character\<close>

text \<open>The expression characters that are passed without the name character.\<close>

definition passes :: "bool \<Rightarrow> ushort \<Rightarrow> ushort \<Rightarrow> bool" where
  "passes finished c e \<longleftrightarrow> e = STAR_CHAR \<or> e = DOS_STAR \<or> e = DOS_QM \<and> (finished \<or> c = DOT_CHAR) \<or> e = DOS_DOT \<and> finished"

text \<open>The states that an expression character at \<open>i\<close> adds, as numbers.\<close>

definition added :: "(ushort \<Rightarrow> ushort) \<Rightarrow> bool \<Rightarrow> ushort \<Rightarrow> ushort list \<Rightarrow> nat \<Rightarrow> ushort \<Rightarrow> nat list" where
  "added up finished c following i e =
     (if e = STAR_CHAR then [4 * i, 4 * i + 3]
      else if e = DOS_STAR then
        (if finished \<or> c \<noteq> DOT_CHAR \<or> DOT_CHAR \<in> set following then [4 * i, 4 * i + 3] else [4 * i + 3])
      else if passes finished c e \<or> finished then []
      else if e = DOS_QM \<or> e = DOS_DOT \<and> c = DOT_CHAR \<or> e = QM_CHAR \<or> e = up c then [4 * i + 4] else [])"

fun chain :: "(ushort \<Rightarrow> ushort) \<Rightarrow> bool \<Rightarrow> ushort \<Rightarrow> ushort list \<Rightarrow> nat \<Rightarrow> ushort list \<Rightarrow> nat list" where
  "chain up finished c following i [] = [4 * i]"
| "chain up finished c following i (e # es) =
     added up finished c following i e @ (if passes finished c e then chain up finished c following (Suc i) es else [])"

text \<open>The words of the matcher stand for these numbers.\<close>

lemma state_at_add: "state_at i + 3 = word_of_nat (4 * i + 3)" "state_at i + 4 = word_of_nat (4 * i + 4)"
  by (simp_all add: state_at_def)

lemma and_then_simps [simp]:
  "and_then (Some (Inr y)) f = f y" "and_then (Some (Inl status)) f = Some (Inl status)" "and_then None f = None"
  by (simp_all add: and_then_def)

text \<open>What an operation on the match arrays may do: the given result, or the exception when there is no pool.\<close>

definition yields :: "matcher \<Rightarrow> 'a outcome \<Rightarrow> ('a \<Rightarrow> bool) \<Rightarrow> bool" where
  "yields x r P \<longleftrightarrow> (\<exists>y. r = Some (Inr y) \<and> P y) \<or> \<not> Pool x \<and> r = Some (Inl STATUS_INSUFFICIENT_RESOURCES)"

lemma yields_then:
  assumes "yields x r P" "\<And>y. P y \<Longrightarrow> yields x (f y) Q"
  shows "yields x (and_then r f) Q"
proof (cases "\<exists>y. r = Some (Inr y) \<and> P y")
  case True
  then show ?thesis using assms(2) by auto
next
  case False
  then show ?thesis using assms(1) by (auto simp: yields_def)
qed

lemma yields_weaken: "yields x r P \<Longrightarrow> (\<And>y. P y \<Longrightarrow> Q y) \<Longrightarrow> yields x r Q"
  by (auto simp: yields_def)

lemma yields_value: "P y \<Longrightarrow> yields x (Some (Inr y)) P"
  by (simp add: yields_def)

lemma reserve_states_yields:
  assumes "i < expression_length x" "length (fst m) \<le> 2 * i"
  shows "yields x (reserve_states x m) (\<lambda>m'. fst m' = fst m \<and> (\<not> snd m' \<longrightarrow> length (fst m') \<le> 13))"
  using assms by (cases m) (auto simp: reserve_states_def yields_def MATCHES_ARRAY_SIZE_def)

lemma store_state_yields:
  assumes "length (fst m) \<le> 2 * expression_length x" "\<not> snd m \<longrightarrow> length (fst m) \<le> 15"
  shows "store_state x s m = Some (Inr (fst m @ [s], snd m))"
  using assms by (cases m) (auto simp: store_state_def MATCHES_ARRAY_SIZE_def)

lemma store_chain_yields:
  assumes "length (fst m) \<le> 2 * i" "i < expression_length x" "\<not> snd m \<longrightarrow> length (fst m) \<le> 13"
  shows "store_state x s m = Some (Inr (fst m @ [s], snd m))"
    and "and_then (store_state x s m) (\<lambda>m. and_then (store_state x t m) f) = f (fst m @ [s, t], snd m)"
proof -
  show s: "store_state x s m = Some (Inr (fst m @ [s], snd m))" using assms by (intro store_state_yields) auto
  have "store_state x t (fst m @ [s], snd m) = Some (Inr ((fst m @ [s]) @ [t], snd m))"
    using assms by (subst store_state_yields) auto
  then show "and_then (store_state x s m) (\<lambda>m. and_then (store_state x t m) f) = f (fst m @ [s, t], snd m)"
    using s by simp
qed

lemma match_chars_yields:
  assumes "i + length es = expression_length x" "length (fst m) \<le> 2 * i"
    "es = [] \<Longrightarrow> \<not> snd m \<longrightarrow> length (fst m) \<le> 15"
  shows "yields x (match_chars x finished c following i es m) (\<lambda>m'.
    fst m' = fst m @ map word_of_nat (chain (Upcase x) finished c following i es))"
  using assms
proof (induction es arbitrary: i m)
  case Nil
  then show ?case by (simp add: store_state_yields yields_def MaxState_def state_at_def)
next
  case (Cons e es)
  have i: "i < expression_length x" using Cons.prems(1) by simp
  let ?chain = "chain (Upcase x) finished c following"
  have IH: "yields x (match_chars x finished c following (Suc i) es m1)
      (\<lambda>m'. fst m' = fst m @ map word_of_nat (ds @ ?chain (Suc i) es))"
    if "fst m1 = fst m @ map word_of_nat ds" "length ds \<le> 2" "\<not> snd m1 \<longrightarrow> length (fst m) \<le> 13" for m1 ds
  proof -
    have "\<not> snd m1 \<longrightarrow> length (fst m1) \<le> 15" using that by auto
    then show ?thesis using Cons.IH [of "Suc i" m1] Cons.prems(1,2) that by simp
  qed
  show ?case
    unfolding match_chars.simps
  proof (rule yields_then [OF reserve_states_yields [OF i Cons.prems(2)]])
    fix m1 assume m1: "fst m1 = fst m \<and> (\<not> snd m1 \<longrightarrow> length (fst m1) \<le> 13)"
    have le: "length (fst m1) \<le> 2 * i" "\<not> snd m1 \<longrightarrow> length (fst m1) \<le> 13" using m1 Cons.prems(2) by auto
    note st = store_chain_yields(1) [OF le(1) i le(2)] and st2 = store_chain_yields(2) [OF le(1) i le(2)]
    let ?next = "match_chars x finished c following (Suc i) es"
    have pair: "yields x (?next (fst m1 @ [state_at i, state_at i + 3], snd m1))
        (\<lambda>m'. fst m' = fst m @ map word_of_nat ([4 * i, 4 * i + 3] @ ?chain (Suc i) es))"
      and one: "yields x (?next (fst m1 @ [state_at i + 3], snd m1))
        (\<lambda>m'. fst m' = fst m @ map word_of_nat ([4 * i + 3] @ ?chain (Suc i) es))"
      and none: "yields x (?next m1) (\<lambda>m'. fst m' = fst m @ map word_of_nat ([] @ ?chain (Suc i) es))"
      using m1 by (intro IH; simp add: state_at_def)+
    consider (star) "e = STAR_CHAR"
      | (eats) "e = DOS_STAR" "finished \<or> c \<noteq> DOT_CHAR \<or> DOT_CHAR \<in> set following"
      | (dot) "e = DOS_STAR" "\<not> finished" "c = DOT_CHAR" "DOT_CHAR \<notin> set following"
      | (pass) "e \<noteq> STAR_CHAR" "e \<noteq> DOS_STAR" "passes finished c e"
      | (one) "\<not> passes finished c e" by (auto simp: passes_def)
    then show "yields x (let currentState = state_at i; nextState = currentState + 4
       in if e = STAR_CHAR then
            and_then (store_state x currentState m1) (\<lambda>m.
            and_then (store_state x (currentState + 3) m) (\<lambda>m.
            match_chars x finished c following (Suc i) es m))
          else if e = DOS_STAR then
            let iCanEatADot = (\<not> finished \<and> c = DOT_CHAR \<and> DOT_CHAR \<in> set following)
            in if finished \<or> c \<noteq> DOT_CHAR \<or> iCanEatADot then
                 and_then (store_state x currentState m1) (\<lambda>m.
                 and_then (store_state x (currentState + 3) m) (\<lambda>m.
                 match_chars x finished c following (Suc i) es m))
               else
                 and_then (store_state x (currentState + 3) m1) (\<lambda>m.
                 match_chars x finished c following (Suc i) es m)
          else if e = DOS_QM \<and> (finished \<or> c = DOT_CHAR) then match_chars x finished c following (Suc i) es m1
          else if e = DOS_QM then store_state x nextState m1
          else if e = DOS_DOT \<and> finished then match_chars x finished c following (Suc i) es m1
          else if e = DOS_DOT \<and> c = DOT_CHAR then store_state x nextState m1
          else if finished then Some (Inr m1)
          else if e = QM_CHAR then store_state x nextState m1
          else if e = Upcase x c then store_state x nextState m1
          else Some (Inr m1))
      (\<lambda>m'. fst m' = fst m @ map word_of_nat (?chain i (e # es)))"
    proof cases
      case star
      then have "?chain i (e # es) = [4 * i, 4 * i + 3] @ ?chain (Suc i) es" by (simp add: added_def passes_def)
      with pair show ?thesis unfolding star Let_def st2 by (simp only: if_True simp_thms)
    next
      case eats
      then have "?chain i (e # es) = [4 * i, 4 * i + 3] @ ?chain (Suc i) es" by (auto simp: added_def passes_def)
      moreover have "finished \<or> c \<noteq> DOT_CHAR \<or> \<not> finished \<and> c = DOT_CHAR \<and> DOT_CHAR \<in> set following"
        using eats(2) by blast
      moreover have "DOS_STAR \<noteq> STAR_CHAR" by simp
      ultimately show ?thesis using pair unfolding eats(1) Let_def st2 by (simp only: if_True if_False simp_thms)
    next
      case dot
      then have "?chain i (e # es) = [4 * i + 3] @ ?chain (Suc i) es" by (auto simp: added_def passes_def)
      with dot one show ?thesis by (simp add: Let_def st)
    next
      case pass
      then have "?chain i (e # es) = [] @ ?chain (Suc i) es" by (auto simp: added_def passes_def)
      moreover have "e = DOS_QM \<and> (finished \<or> c = DOT_CHAR) \<or> e \<noteq> DOS_QM \<and> e = DOS_DOT \<and> finished"
        using pass by (auto simp: passes_def)
      moreover have "DOS_DOT \<noteq> DOS_QM" by simp
      ultimately show ?thesis using none pass(1,2)
        by (elim disjE) (simp_all only: Let_def if_True if_False simp_thms)
    next
      case one
      let ?P = "\<not> finished \<and> (e = DOS_QM \<or> e = DOS_DOT \<and> c = DOT_CHAR \<or> e = QM_CHAR \<or> e = Upcase x c)"
      let ?m = "Some (Inr (fst m1 @ [state_at i + 4], snd m1)) :: match_array outcome"
      have n: "e \<noteq> STAR_CHAR" "e \<noteq> DOS_STAR" "\<not> (e = DOS_QM \<and> (finished \<or> c = DOT_CHAR))"
        "\<not> (e = DOS_DOT \<and> finished)" "e = DOS_QM \<Longrightarrow> \<not> finished" "e = DOS_DOT \<Longrightarrow> \<not> finished"
        using one unfolding passes_def by blast+
      have c: "?chain i (e # es) = (if ?P then [4 * i + 4] else [])"
        unfolding chain.simps added_def using one n(1,2) by (cases finished) (simp_all only: if_False if_True simp_thms append_Nil2)
      have m: "Some (Inr m1) = Some (Inr (fst m1, snd m1))" by simp
      show ?thesis
      proof (cases ?P)
        case True
        then have "yields x ?m (\<lambda>m'. fst m' = fst m @ map word_of_nat (?chain i (e # es)))"
          using c m1 by (intro yields_value) (simp add: state_at_def)
        moreover have "\<not> finished" and P: "e = DOS_QM \<or> e = DOS_DOT \<and> c = DOT_CHAR \<or> e = QM_CHAR \<or> e = Upcase x c"
          using True by blast+
        ultimately show ?thesis using n(1-4) by (simp only: Let_def st if_False if_True simp_thms split: if_split) blast
      next
        case False
        then have "yields x (Some (Inr m1)) (\<lambda>m'. fst m' = fst m @ map word_of_nat (?chain i (e # es)))"
          using c m1 by (intro yields_value) simp
        moreover have "finished \<or> \<not> finished \<and> e \<noteq> DOS_QM \<and> \<not> (e = DOS_DOT \<and> c = DOT_CHAR) \<and> e \<noteq> QM_CHAR \<and> e \<noteq> Upcase x c"
          using False by blast
        ultimately show ?thesis using n by (simp only: Let_def st if_False if_True simp_thms split: if_split) blast
      qed
    qed
  qed
qed

section \<open>Chains\<close>

text \<open>The offset of a state, on numbers; the states that may occur.\<close>

definition offset :: "nat \<Rightarrow> nat" where
  "offset s = (s + 1) div 4"

definition valid_state :: "ushort list \<Rightarrow> nat \<Rightarrow> bool" where
  "valid_state expr s \<longleftrightarrow> s \<le> 4 * length expr \<and>
     (s mod 4 = 0 \<or> s mod 4 = 3 \<and> s div 4 < length expr \<and> expr ! (s div 4) \<in> {STAR_CHAR, DOS_STAR})"

lemma offset_simps [simp]: "offset (4 * i) = i" "offset (4 * i + 3) = Suc i" "offset (4 * i + 4) = Suc i" "offset 0 = 0"
  by (simp_all add: offset_def)

lemma offset_mono: "s \<le> t \<Longrightarrow> offset s \<le> offset t"
  by (simp add: offset_def div_le_mono)

lemma offset_le: "s \<le> 4 * n \<Longrightarrow> offset s \<le> n"
  by (simp add: offset_def)

lemma valid_state_0 [simp]: "valid_state expr 0"
  by (simp add: valid_state_def)

lemma valid_state_offset: "valid_state expr s \<Longrightarrow> offset s \<le> length expr \<and> s \<le> 4 * offset s"
  by (auto simp: valid_state_def offset_def) presburger+

lemma added_cases:
  assumes "d \<in> set (added up finished c following i e)"
  obtains "d = 4 * i" "e \<in> {STAR_CHAR, DOS_STAR}" "passes finished c e"
    "4 * i + 3 \<in> set (added up finished c following i e)"
  | "d = 4 * i + 3" "e \<in> {STAR_CHAR, DOS_STAR}" "passes finished c e"
  | "d = 4 * i + 4" "e \<notin> {STAR_CHAR, DOS_STAR}" "\<not> passes finished c e"
  using assms by (auto simp: added_def passes_def split: if_splits)

lemma added_bounds: "d \<in> set (added up finished c following i e) \<Longrightarrow> 4 * i \<le> d \<and> d \<le> 4 * i + 4"
  by (erule added_cases) simp_all

lemma added_length: "length (added up finished c following i e) \<le> 2"
  by (simp add: added_def)

lemma chain_lower: "d \<in> set (chain up finished c following i es) \<Longrightarrow> 4 * i \<le> d"
proof (induction es arbitrary: i)
  case (Cons e es)
  then show ?case using added_bounds [of d up finished c following i e] by (fastforce split: if_splits)
qed simp

lemma chain_sorted: "sorted (chain up finished c following i es)"
proof (induction es arbitrary: i)
  case (Cons e es)
  have "sorted (added up finished c following i e)" by (simp add: added_def)
  moreover have "d \<le> d'" if "d \<in> set (added up finished c following i e)"
    "d' \<in> set (chain up finished c following (Suc i) es)" for d d'
    using added_bounds [OF that(1)] chain_lower [OF that(2)] by simp
  ultimately show ?case using Cons by (auto simp: sorted_append)
qed simp

lemma chain_length: "length (chain up finished c following i es) \<le> 2 * length es + 1"
proof (induction es arbitrary: i)
  case (Cons e es)
  show ?case using Cons [of "Suc i"] added_length [of up finished c following i e] by simp
qed simp

text \<open>A state that is not below the states added has an offset behind the characters that added them.\<close>

lemma chain_length_offset:
  assumes "\<forall>d \<in> set (chain up finished c following i es). d \<le> s" "offset s < i + length es"
  shows "length (chain up finished c following i es) \<le> 2 * (offset s - i)"
  using assms
proof (induction es arbitrary: i)
  case Nil
  then have "4 * i \<le> s" by simp
  then have "i \<le> offset s" using offset_mono [of "4 * i" s] by simp
  then show ?case using Nil by simp
next
  case (Cons e es)
  let ?a = "added up finished c following i e"
  have "Suc i \<le> offset s" if ne: "?a \<noteq> []"
  proof -
    obtain d where d: "d \<in> set ?a" using ne by (cases ?a) auto
    then have "4 * i + 3 \<in> set ?a \<or> 4 * i + 4 \<in> set ?a" by (rule added_cases) (use d in auto)
    then have "4 * i + 3 \<le> s \<or> 4 * i + 4 \<le> s" using Cons.prems(1) by (elim disjE) auto
    then have "4 * i + 3 \<le> s" by arith
    then show ?thesis using offset_mono [of "4 * i + 3" s] by simp
  qed
  moreover have "length (chain up finished c following (Suc i) es) \<le> 2 * (offset s - Suc i)" if "passes finished c e"
    using Cons.IH [of "Suc i"] Cons.prems that by simp
  moreover note added_length [of up finished c following i e]
  ultimately show ?case by (cases "?a = []"; cases "passes finished c e") auto
qed

text \<open>Where a state comes from.\<close>

definition reaches :: "ushort list \<Rightarrow> bool \<Rightarrow> ushort \<Rightarrow> nat \<Rightarrow> nat \<Rightarrow> bool" where
  "reaches expr finished c i k \<longleftrightarrow> i \<le> k \<and> k \<le> length expr \<and> (\<forall>j. i \<le> j \<and> j < k \<longrightarrow> passes finished c (expr ! j))"

lemma reaches_Suc:
  assumes "i < length expr" "passes finished c (expr ! i)" "reaches expr finished c (Suc i) k"
  shows "reaches expr finished c i k"
  using assms unfolding reaches_def by (metis Suc_leI Suc_leD le_neq_implies_less)

lemma chain_origin:
  assumes "d \<in> set (chain up finished c following i (drop i expr))" "i \<le> length expr"
  shows "\<exists>k. reaches expr finished c i k \<and>
    (k < length expr \<and> d \<in> set (added up finished c following k (expr ! k)) \<or> k = length expr \<and> d = 4 * length expr)"
  using assms
proof (induction "drop i expr" arbitrary: i)
  case Nil
  then have "i = length expr" by simp
  then show ?case using Nil by (intro exI [of _ i]) (auto simp: reaches_def)
next
  case (Cons e es)
  then have i: "i < length expr" "drop i expr = expr ! i # drop (Suc i) expr"
    by (metis drop_all leI list.distinct(1)) (metis Cons.hyps(2) Cons_nth_drop_Suc drop_all leI list.distinct(1))
  then have es: "es = drop (Suc i) expr" "e = expr ! i" using Cons.hyps(2) by simp_all
  consider "d \<in> set (added up finished c following i (expr ! i))"
    | "passes finished c (expr ! i)" "d \<in> set (chain up finished c following (Suc i) (drop (Suc i) expr))"
    using Cons.prems(1) i(2) by (auto split: if_splits)
  then show ?case
  proof cases
    case 1
    then show ?thesis using i(1) by (intro exI [of _ i]) (auto simp: reaches_def)
  next
    case 2
    then show ?thesis using Cons.hyps(1) [OF es(1) 2(2)] i(1) reaches_Suc by (metis Suc_leI)
  qed
qed

lemma chain_suffix:
  assumes "reaches expr finished c i k"
  shows "set (chain up finished c following k (drop k expr)) \<subseteq> set (chain up finished c following i (drop i expr))"
proof -
  have "i \<le> k" using assms by (simp add: reaches_def)
  then show ?thesis using assms
  proof (induction i rule: inc_induct)
    case (step j)
    then have "j < length expr" "passes finished c (expr ! j)" "reaches expr finished c (Suc j) k"
      by (auto simp: reaches_def)
    then show ?case using step.IH by (simp flip: Cons_nth_drop_Suc) blast
  qed simp
qed

lemma chain_valid:
  assumes "d \<in> set (chain up finished c following i (drop i expr))" "i \<le> length expr"
  shows "valid_state expr d"
proof -
  obtain k where "k < length expr \<and> d \<in> set (added up finished c following k (expr ! k)) \<or> d = 4 * length expr"
    using chain_origin [OF assms] by blast
  then show ?thesis
    by (elim disjE conjE) (erule added_cases, auto simp: valid_state_def)
qed

text \<open>The state behind a last star comes with the final state.\<close>

lemma chain_final:
  assumes "d \<in> set (chain up finished c following i (drop i expr))" "i \<le> length expr" "offset d = length expr"
  shows "4 * length expr \<in> set (chain up finished c following i (drop i expr))"
proof (cases "d = 4 * length expr")
  case False
  obtain k where k: "reaches expr finished c i k" "k < length expr" "d \<in> set (added up finished c following k (expr ! k))"
    using chain_origin [OF assms(1,2)] False by blast
  from k(3) show ?thesis
  proof (cases rule: added_cases)
    case 1
    then show ?thesis using assms(3) k(2) by simp
  next
    case 2
    then have "Suc k = length expr" using assms(3) by (metis offset_simps(2))
    moreover from this have "reaches expr finished c i (Suc k)"
      using k 2(3) unfolding reaches_def by (metis Suc_leI le_SucI less_Suc_eq)
    ultimately show ?thesis using chain_suffix [of expr finished c i "Suc k" up following] by auto
  next
    case 3
    then have "Suc k = length expr" using assms(3) by (metis offset_simps(3))
    then show ?thesis using 3 False by simp
  qed
qed (use assms(1) in simp)

text \<open>A source that is below a state already added adds nothing else.\<close>

lemma skipped_source:
  assumes "d \<in> set (chain up finished c following (offset s) (drop (offset s) expr))"
    "valid_state expr s" "valid_state expr t" "s \<le> t" "t < d"
  shows "set (chain up finished c following (offset t) (drop (offset t) expr)) \<subseteq>
    set (chain up finished c following (offset s) (drop (offset s) expr))"
proof -
  have s: "offset s \<le> length expr" and st: "offset s \<le> offset t"
    using valid_state_offset [OF assms(2)] offset_mono [OF assms(4)] by simp_all
  obtain k where k: "reaches expr finished c (offset s) k"
    "k < length expr \<and> d \<in> set (added up finished c following k (expr ! k)) \<or> k = length expr \<and> d = 4 * length expr"
    using chain_origin [OF assms(1) s] by blast
  have "offset t \<le> k"
    using k(2)
  proof (elim disjE conjE)
    assume "k < length expr" "d \<in> set (added up finished c following k (expr ! k))"
    from this(2) show ?thesis
    proof (cases rule: added_cases)
      case 1
      then show ?thesis using assms(5) by (simp add: offset_def)
    next
      case 2
      then show ?thesis using assms(5) by (simp add: offset_def)
    next
      case 3
      have "t \<noteq> 4 * k + 3"
      proof
        assume t: "t = 4 * k + 3"
        then have "t mod 4 = 3" "t div 4 = k" by simp_all
        then show False using assms(3) 3(2) by (simp add: valid_state_def)
      qed
      then show ?thesis using assms(5) 3(1) by (simp add: offset_def)
    qed
  next
    assume "k = length expr"
    then show ?thesis using valid_state_offset [OF assms(3)] by simp
  qed
  then have "reaches expr finished c (offset s) (offset t)" using k(1) st by (auto simp: reaches_def)
  then show ?thesis by (rule chain_suffix)
qed


section \<open>Sources\<close>

text \<open>Below \<open>2\<^sup>1\<^sup>6\<close> the words of the states are as good as their numbers.\<close>

lemma word_state_less: "s < 65536 \<Longrightarrow> t < 65536 \<Longrightarrow> (word_of_nat s < (word_of_nat t :: ushort)) = (s < t)"
  by (simp add: word_less_nat_alt unat_of_nat_range)

lemma word_state_eq: "s < 65536 \<Longrightarrow> t < 65536 \<Longrightarrow> (word_of_nat s = (word_of_nat t :: ushort)) = (s = t)"
  by (simp add: word_unat_eq_iff unat_of_nat_range)

lemma state_offset_word: "s < 65536 \<Longrightarrow> state_offset (word_of_nat s) = offset s"
  by (simp add: state_offset_def offset_def unat_of_nat_range flip: div_mult2_eq)

lemma skip_sources_filter:
  assumes "sorted ns" "\<forall>s \<in> set ns. s < 65536" "\<forall>d \<in> set ds. d < 65536"
  shows "skip_sources (map word_of_nat ns) (map word_of_nat ds) =
    map word_of_nat (filter (\<lambda>s. \<forall>d \<in> set ds. d \<le> s) ns)"
  using assms
proof (induction ds arbitrary: ns)
  case (Cons d ds)
  have "dropWhile (\<lambda>s. s < word_of_nat d) (map word_of_nat ns :: ushort list) = map word_of_nat (filter (\<lambda>s. d \<le> s) ns)"
    using Cons.prems
  proof (induction ns)
    case (Cons s ns)
    show ?case
    proof (cases "s < d")
      case True
      then show ?thesis using Cons word_state_less [of s d] by simp
    next
      case False
      then have "filter (\<lambda>s. d \<le> s) (s # ns) = s # ns" using Cons.prems(1) by (auto simp: filter_id_conv)
      then show ?thesis using False word_state_less [of s d] Cons.prems by simp
    qed
  qed simp
  moreover have "filter (\<lambda>s. \<forall>d \<in> set ds. d \<le> s) (filter (\<lambda>s. d \<le> s) ns) = filter (\<lambda>s. \<forall>d \<in> set (d # ds). d \<le> s) ns"
    by (auto intro!: filter_cong simp: conj_commute)
  ultimately show ?case using Cons.IH [of "filter (\<lambda>s. d \<le> s) ns"] Cons.prems by (simp add: sorted_wrt_filter)
qed simp

text \<open>All the states that the sources \<open>ns\<close> add.\<close>

definition successors :: "matcher \<Rightarrow> bool \<Rightarrow> ushort \<Rightarrow> ushort list \<Rightarrow> nat list \<Rightarrow> nat set" where
  "successors x finished c following ns =
     (\<Union>s \<in> {s \<in> set ns. offset s < expression_length x}.
        set (chain (Upcase x) finished c following (offset s) (drop (offset s) (Expression x))))"

definition sources_ok :: "matcher \<Rightarrow> nat list \<Rightarrow> bool" where
  "sources_ok x ns \<longleftrightarrow> sorted ns \<and> (\<forall>s \<in> set ns. valid_state (Expression x) s)"

lemma skipped_union:
  assumes "R \<subseteq> T" "\<And>t. t \<in> T \<Longrightarrow> t \<notin> R \<Longrightarrow> A t \<subseteq> (if P s then A s else {})"
  shows "(if P s then A s else {}) \<union> (\<Union>t \<in> {t \<in> R. P t}. A t) = (\<Union>t \<in> {t \<in> insert s T. P t}. A t)"
  using assms by (cases "P s") (simp_all, blast+)

lemma match_source_yields:
  assumes "4 * expression_length x < 65536" "valid_state (Expression x) s"
    "offset s < expression_length x \<longrightarrow> length (fst m) \<le> 2 * offset s"
  shows "yields x (match_source x finished c following (word_of_nat s) m) (\<lambda>m'.
    fst m' = fst m @ map word_of_nat (if offset s < expression_length x
      then chain (Upcase x) finished c following (offset s) (drop (offset s) (Expression x)) else []))"
proof -
  have s: "s < 65536" "offset s \<le> expression_length x"
    using assms(1,2) valid_state_offset [OF assms(2)] by (auto simp: valid_state_def expression_length_def)
  show ?thesis
  proof (cases "offset s < expression_length x")
    case True
    then have "yields x (match_chars x finished c following (offset s) (drop (offset s) (Expression x)) m) (\<lambda>m'.
        fst m' = fst m @ map word_of_nat (chain (Upcase x) finished c following (offset s) (drop (offset s) (Expression x))))"
      using assms(3) by (intro match_chars_yields) (simp_all add: expression_length_def)
    then show ?thesis using True s by (simp add: match_source_def Let_def state_offset_word)
  next
    case False
    then show ?thesis using s by (simp add: match_source_def Let_def state_offset_word yields_def)
  qed
qed

lemma match_sources_yields:
  assumes "4 * expression_length x < 65536" "sources_ok x ns" "sources_ok x ds" "fst m = map word_of_nat ds"
    "pd = length ds" "\<forall>s \<in> set ns. \<forall>d \<in> set ds. d \<le> s"
    "\<forall>s \<in> set ns. offset s < expression_length x \<longrightarrow> length ds \<le> 2 * offset s"
  shows "yields x (match_sources x finished c following (map word_of_nat ns) pd m) (\<lambda>m'.
    \<exists>ds'. fst m' = map word_of_nat ds' \<and> sources_ok x ds' \<and> set ds' = set ds \<union> successors x finished c following ns)"
  using assms(2-)
proof (induction ns arbitrary: m ds pd rule: length_induct)
  case (1 ns)
  note bound = assms(1)
  have small: "s < 65536" if "valid_state (Expression x) s" for s
    using that bound by (auto simp: valid_state_def expression_length_def)
  show ?case
  proof (cases ns)
    case Nil
    then show ?thesis using 1 by (auto simp: yields_def successors_def)
  next
    case (Cons s ns')
    let ?chain = "\<lambda>s. chain (Upcase x) finished c following (offset s) (drop (offset s) (Expression x))"
    let ?es = "if offset s < expression_length x then ?chain s else []"
    have s: "valid_state (Expression x) s" and ns': "sorted ns'" "\<forall>t \<in> set ns'. valid_state (Expression x) t \<and> s \<le> t"
      using 1(2) Cons by (auto simp: sources_ok_def)
    have es: "sorted ?es" "\<forall>d \<in> set ?es. valid_state (Expression x) d" "\<forall>d \<in> set ?es. s \<le> d"
    proof -
      show "sorted ?es" by (simp add: chain_sorted)
      show "\<forall>d \<in> set ?es. valid_state (Expression x) d"
        using chain_valid [of _ "Upcase x" finished c following "offset s" "Expression x"]
        by (auto simp: expression_length_def)
      show "\<forall>d \<in> set ?es. s \<le> d"
        using chain_lower [of _ "Upcase x" finished c following "offset s" "drop (offset s) (Expression x)"]
          valid_state_offset [OF s] by fastforce
    qed
    let ?rest = "filter (\<lambda>s. \<forall>d \<in> set ?es. d \<le> s) ns'"
    have step: "yields x (match_source x finished c following (word_of_nat s) m) (\<lambda>m'. fst m' = fst m @ map word_of_nat ?es)"
      by (rule match_source_yields [OF bound s]) (use 1(4,7) Cons in simp)
    have "yields x (and_then (match_source x finished c following (word_of_nat s) m) (\<lambda>m.
       match_sources x finished c following (skip_sources (map word_of_nat ns') (drop pd (fst m))) (length (fst m)) m))
      (\<lambda>m'. \<exists>ds'. fst m' = map word_of_nat ds' \<and> sources_ok x ds' \<and>
         set ds' = set ds \<union> successors x finished c following ns)"
    proof (rule yields_then [OF step])
      fix m1 :: match_array assume m1: "fst m1 = fst m @ map word_of_nat ?es"
      have skip: "skip_sources (map word_of_nat ns') (drop pd (fst m1)) = map word_of_nat ?rest"
        using skip_sources_filter [OF ns'(1), of ?es] ns'(2) es(2) small 1(4,5) m1 by auto
      have "yields x (match_sources x finished c following (map word_of_nat ?rest) (length (fst m1)) m1)
          (\<lambda>m'. \<exists>ds'. fst m' = map word_of_nat ds' \<and> sources_ok x ds' \<and>
            set ds' = set (ds @ ?es) \<union> successors x finished c following ?rest)"
      proof (rule 1(1) [rule_format])
        show "length ?rest < length ns" using Cons by (simp add: le_imp_less_Suc)
        show "sources_ok x ?rest" using ns' by (auto simp: sources_ok_def sorted_wrt_filter)
        show "sources_ok x (ds @ ?es)"
          using 1(3,6) Cons es unfolding sources_ok_def sorted_append by fastforce
        show "fst m1 = map word_of_nat (ds @ ?es)" using m1 1(4) by simp
        show "length (fst m1) = length (ds @ ?es)" using m1 1(4) by simp
        show "d \<le> t" if "t \<in> set ?rest" "d \<in> set (ds @ ?es)" for t d
          using that 1(6) Cons by auto
        show "length (ds @ ?es) \<le> 2 * offset t" if t: "t \<in> set ?rest" "offset t < expression_length x" for t
        proof -
          have le: "offset s \<le> offset t" using ns'(2) t(1) by (auto intro: offset_mono)
          have "length ds \<le> 2 * offset s" using 1(7) Cons le t(2) by auto
          moreover have "length ?es \<le> 2 * (offset t - offset s)"
            using chain_length_offset [of "Upcase x" finished c following "offset s" "drop (offset s) (Expression x)" t] t le
            by (auto simp: expression_length_def)
          ultimately show ?thesis using le by simp
        qed
      qed
      moreover have "set (ds @ ?es) \<union> successors x finished c following ?rest = set ds \<union> successors x finished c following ns"
      proof -
        have "set (?chain t) \<subseteq> set ?es" if t: "t \<in> set ns'" "t \<notin> set ?rest" for t
        proof -
          obtain d where d: "d \<in> set ?es" "t < d" using t by (auto simp: not_le)
          then have "d \<in> set (?chain s)" "offset s < expression_length x" by (auto split: if_splits)
          then show ?thesis using skipped_source [OF _ s, of d "Upcase x" finished c following t] ns'(2) t(1) d(2) by auto
        qed
        then have "set ?es \<union> successors x finished c following ?rest = successors x finished c following ns"
          using skipped_union [of "set ?rest" "set ns'" "\<lambda>t. set (?chain t)" "\<lambda>t. offset t < expression_length x" s]
          unfolding successors_def Cons list.set(2) by (simp only: if_distrib [of set] list.set(1)) force
        then show ?thesis by auto
      qed
      ultimately show "yields x (match_sources x finished c following
          (skip_sources (map word_of_nat ns') (drop pd (fst m1))) (length (fst m1)) m1)
        (\<lambda>m'. \<exists>ds'. fst m' = map word_of_nat ds' \<and> sources_ok x ds' \<and>
            set ds' = set ds \<union> successors x finished c following ns)"
        by (simp only: skip)
    qed
    then show ?thesis unfolding Cons by simp
  qed
qed

end
