(* ===== verification/Name_Match_Theorems.thy ===== *)
theory Name_Match_Theorems
  imports Name_Match_Facts
begin

text \<open>
  The properties of the name routines: the simulation decides the language of the expression, within the
  bounds of its arrays; paths are dissected at their backslashes.
\<close>

section \<open>Chains and the language\<close>

lemma passes_all_end:
  assumes "\<forall>e \<in> set es. passes False c e"
  shows "in_language up es []"
  using assms by (induction es) (auto simp: passes_def)

text \<open>A chain that passes the whole expression has no character left to match, but takes a last one.\<close>

lemma passes_all_last:
  assumes "\<forall>e \<in> set es. passes False c e" "es \<noteq> []"
  shows "in_language up es [c]"
  using assms
proof (induction es)
  case (Cons e es)
  have es: "\<forall>e \<in> set es. passes False c e" and e: "passes False c e" using Cons.prems by simp_all
  consider "e = STAR_CHAR" | "e = DOS_STAR" | "e = DOS_QM" "c = DOT_CHAR" using e by (auto simp: passes_def)
  then show ?case
  proof cases
    case 1
    then show ?thesis using passes_all_end [OF es, of up] by simp
  next
    case 2
    then show ?thesis using passes_all_end [OF es, of up] by simp
  next
    case 3
    then show ?thesis using Cons.IH [OF es] by (cases "es = []") auto
  qed
qed simp

lemma chain_language:
  assumes "up c \<noteq> DOS_DOT" "i \<le> length expr"
  shows "(\<exists>d \<in> set (chain up False c following i (drop i expr)). in_language up (drop (offset d) expr) following) \<longleftrightarrow>
    in_language up (drop i expr) (c # following) \<or> following = [] \<and> (\<forall>e \<in> set (drop i expr). passes False c e)"
  using assms(2)
proof (induction "drop i expr" arbitrary: i)
  case Nil
  then show ?case by auto
next
  case (Cons e es)
  then have i: "i < length expr" by (metis drop_all leI list.distinct(1))
  have es: "es = drop (Suc i) expr" "e = expr ! i"
    using Cons.hyps(2) i by (simp_all flip: Cons_nth_drop_Suc)
  have IH: "(\<exists>d \<in> set (chain up False c following (Suc i) es). in_language up (drop (offset d) expr) following) \<longleftrightarrow>
    in_language up es (c # following) \<or> following = [] \<and> (\<forall>e \<in> set es. passes False c e)"
    using Cons.hyps(1) [of "Suc i"] es(1) i by simp
  have drop: "drop (offset (4 * i)) expr = e # es" "drop (offset (4 * i + 3)) expr = es"
    "drop (offset (4 * i + 4)) expr = es"
    unfolding offset_simps using Cons.hyps(2) es(1) by simp_all
  have skip: "in_language up (e' # es) following" if "in_language up es following" "e' = STAR_CHAR \<or> e' = DOS_STAR" for e'
    using in_language_star_skip that by blast
  have pass: "following = [] \<and> (\<forall>e \<in> set es. passes False c e) \<Longrightarrow> in_language up es following"
    using passes_all_end by blast
  have dot: "following = [] \<and> (\<forall>e \<in> set es. passes False c e) \<Longrightarrow> es \<noteq> [] \<Longrightarrow> in_language up es (c # following)"
    using passes_all_last by blast
  consider (star) "e = STAR_CHAR" | (eats) "e = DOS_STAR" "c \<noteq> DOT_CHAR \<or> DOT_CHAR \<in> set following"
    | (last) "e = DOS_STAR" "c = DOT_CHAR" "DOT_CHAR \<notin> set following"
    | (qm) "e = DOS_QM" "c = DOT_CHAR" | (one) "\<not> passes False c e"
    by (auto simp: passes_def)
  then show ?case
  proof cases
    case star
    then have "chain up False c following i (e # es) = [4 * i, 4 * i + 3] @ chain up False c following (Suc i) es"
      by (simp add: added_def passes_def)
    then show ?thesis unfolding Cons.hyps(2) [symmetric] using star IH drop skip pass by (auto simp: passes_def)
  next
    case eats
    then have "chain up False c following i (e # es) = [4 * i, 4 * i + 3] @ chain up False c following (Suc i) es"
      by (auto simp: added_def passes_def)
    then show ?thesis unfolding Cons.hyps(2) [symmetric] using eats IH drop skip pass by (auto simp: passes_def)
  next
    case last
    then have "chain up False c following i (e # es) = [4 * i + 3] @ chain up False c following (Suc i) es"
      by (simp add: added_def passes_def)
    then show ?thesis unfolding Cons.hyps(2) [symmetric] using last IH drop pass by (auto simp: passes_def)
  next
    case qm
    then have "chain up False c following i (e # es) = chain up False c following (Suc i) es"
      by (simp add: added_def passes_def)
    moreover have "set es \<subseteq> {DOS_QM} \<Longrightarrow> \<forall>e \<in> set es. passes False c e" using qm by (auto simp: passes_def)
    ultimately show ?thesis unfolding Cons.hyps(2) [symmetric] using qm IH dot
      by (cases "es = []") (auto simp: passes_def)
  next
    case one
    then have "chain up False c following i (e # es) = added up False c following i e" by simp
    moreover have "\<not> (\<forall>e \<in> set (e # es). passes False c e)" using one by simp
    moreover have "(\<exists>d \<in> set (added up False c following i e). in_language up (drop (offset d) expr) following) \<longleftrightarrow>
        in_language up (e # es) (c # following)"
      using one drop assms(1) by (auto simp: added_def passes_def)
    ultimately show ?thesis unfolding Cons.hyps(2) [symmetric] by (simp only: simp_thms)
  qed
qed

lemma chain_end:
  assumes "i \<le> length expr"
  shows "4 * length expr \<in> set (chain up True c following i (drop i expr)) \<longleftrightarrow> in_language up (drop i expr) []"
  using assms
proof (induction "drop i expr" arbitrary: i)
  case Nil
  then show ?case by simp
next
  case (Cons e es)
  then have i: "i < length expr" by (metis drop_all leI list.distinct(1))
  have es: "es = drop (Suc i) expr" using Cons.hyps(2) i by (simp flip: Cons_nth_drop_Suc)
  have IH: "4 * length expr \<in> set (chain up True c following (Suc i) es) \<longleftrightarrow> in_language up es []"
    using Cons.hyps(1) [of "Suc i"] es i by simp
  have "4 * length expr \<notin> set (added up True c following i e)"
  proof
    assume a: "4 * length expr \<in> set (added up True c following i e)"
    have "4 * k \<noteq> 4 * m + (3 :: nat)" for k m by presburger
    with a i show False by (auto simp: added_def split: if_splits)
  qed
  then show ?case unfolding Cons.hyps(2) [symmetric] using IH by (auto simp: passes_def)
qed

section \<open>The simulation\<close>

text \<open>A set of sources of the simulation: the state behind a last star comes with the final state.\<close>

definition simulates :: "matcher \<Rightarrow> nat list \<Rightarrow> bool" where
  "simulates x ns \<longleftrightarrow> ns \<noteq> [] \<and> sources_ok x ns \<and>
     (\<forall>s \<in> set ns. offset s = expression_length x \<longrightarrow> 4 * expression_length x \<in> set ns)"

lemma successors_simulate:
  assumes "sources_ok x ds" "set ds = successors x finished c following ns" "ds \<noteq> []"
  shows "simulates x ds"
proof -
  have "4 * expression_length x \<in> set ds" if d: "d \<in> set ds" "offset d = expression_length x" for d
  proof -
    obtain s where s: "s \<in> set ns" "offset s < expression_length x"
      "d \<in> set (chain (Upcase x) finished c following (offset s) (drop (offset s) (Expression x)))"
      using d(1) assms(2) by (auto simp: successors_def)
    then have "4 * expression_length x \<in> set (chain (Upcase x) finished c following (offset s) (drop (offset s) (Expression x)))"
      using chain_final [OF s(3)] d(2) by (simp add: expression_length_def)
    then show ?thesis using s assms(2) by (auto simp: successors_def)
  qed
  then show ?thesis using assms by (simp add: simulates_def)
qed

lemma sorted_le_last: "sorted ns \<Longrightarrow> s \<in> set ns \<Longrightarrow> s \<le> last (ns :: nat list)"
  by (induction ns) auto

lemma last_state:
  assumes "4 * expression_length x < 65536" "sources_ok x ns" "ns \<noteq> []"
  shows "last (map word_of_nat ns) = MaxState x \<longleftrightarrow> 4 * expression_length x \<in> set ns"
proof -
  have bound: "\<forall>s \<in> set ns. s \<le> 4 * expression_length x"
    using assms(2) by (auto simp: sources_ok_def valid_state_def expression_length_def)
  have "last (map word_of_nat ns) = MaxState x \<longleftrightarrow> last ns = 4 * expression_length x"
  proof -
    have "last ns < 65536" using assms(1) bound last_in_set [OF assms(3)] by (meson le_less_trans)
    from word_state_eq [OF this assms(1)] show ?thesis
      using assms(3) by (simp add: last_map MaxState_def state_at_def)
  qed
  also have "\<dots> \<longleftrightarrow> 4 * expression_length x \<in> set ns"
  proof
    assume "4 * expression_length x \<in> set ns"
    then have "4 * expression_length x \<le> last ns"
      using assms(2) by (intro sorted_le_last) (simp_all add: sources_ok_def)
    then show "last ns = 4 * expression_length x" using bound last_in_set [OF assms(3)] by (simp add: order_antisym)
  qed (use last_in_set [OF assms(3)] in auto)
  finally show ?thesis .
qed

lemma match_name_yields:
  assumes "4 * expression_length x < 65536" "\<forall>c \<in> set name. Upcase x c \<noteq> DOS_DOT" "simulates x ns"
  shows "yields x (match_name x name (map word_of_nat ns, aux))
    (\<lambda>b. b \<longleftrightarrow> (\<exists>s \<in> set ns. in_language (Upcase x) (drop (offset s) (Expression x)) name))"
  using assms(2-)
proof (induction name arbitrary: ns aux)
  case Nil
  have ok: "sources_ok x ns" "ns \<noteq> []" using Nil.prems by (simp_all add: simulates_def)
  have valid: "offset s \<le> expression_length x" if "s \<in> set ns" for s
    using that ok(1) valid_state_offset by (auto simp: sources_ok_def expression_length_def)
  show ?case
  proof (cases "4 * expression_length x \<in> set ns")
    case True
    then have "\<exists>s \<in> set ns. in_language (Upcase x) (drop (offset s) (Expression x)) []"
      by (intro bexI [of _ "4 * expression_length x"]) (simp_all add: expression_length_def)
    then show ?thesis using True last_state [OF assms(1) ok] by (simp add: yields_value)
  next
    case False
    let ?b = "\<exists>s \<in> set ns. in_language (Upcase x) (drop (offset s) (Expression x)) []"
    have lt: "offset s < expression_length x" if "s \<in> set ns" for s
      using valid [OF that] that False Nil.prems by (auto simp: simulates_def nat_less_le)
    have succ: "4 * expression_length x \<in> successors x True 0 [] ns \<longleftrightarrow> ?b"
      using lt chain_end [of _ "Expression x" "Upcase x" 0 "[]"] unfolding successors_def expression_length_def
      by (auto simp: less_imp_le)
    have "yields x (match_sources x True 0 [] (map word_of_nat ns) 0 ([], aux)) (\<lambda>m'. \<exists>ds'. fst m' = map word_of_nat ds' \<and>
        sources_ok x ds' \<and> set ds' = set [] \<union> successors x True 0 [] ns)"
      by (rule match_sources_yields [OF assms(1) ok(1)]) (simp_all add: sources_ok_def)
    then have "yields x (and_then (match_sources x True 0 [] (map word_of_nat ns) 0 ([], aux)) (\<lambda>(current, aux).
          if current = [] then Some (Inr False) else Some (Inr (last current = MaxState x)))) (\<lambda>b. b \<longleftrightarrow> ?b)"
    proof (rule yields_then)
      fix m' :: match_array
      assume "\<exists>ds'. fst m' = map word_of_nat ds' \<and> sources_ok x ds' \<and> set ds' = set [] \<union> successors x True 0 [] ns"
      then obtain ds where ds: "fst m' = map word_of_nat ds" "sources_ok x ds" "set ds = successors x True 0 [] ns" by auto
      then show "yields x ((\<lambda>(current, aux). if current = [] then Some (Inr False)
          else Some (Inr (last current = MaxState x))) m') (\<lambda>b. b \<longleftrightarrow> ?b)"
        using succ last_state [OF assms(1) ds(2)] by (cases m') (auto simp: yields_def)
    qed
    then show ?thesis using False last_state [OF assms(1) ok] by simp
  qed
next
  case (Cons c following)
  have ok: "sources_ok x ns" "ns \<noteq> []" using Cons.prems by (simp_all add: simulates_def)
  have valid: "offset s \<le> length (Expression x)" if "s \<in> set ns" for s
    using that ok(1) valid_state_offset by (auto simp: sources_ok_def)
  let ?lang = "\<lambda>s. in_language (Upcase x) (drop (offset s) (Expression x))"
  have succ: "(\<exists>d \<in> successors x False c following ns. ?lang d following) \<longleftrightarrow> (\<exists>s \<in> set ns. ?lang s (c # following))"
  proof -
    have "(\<exists>d \<in> set (chain (Upcase x) False c following (offset s) (drop (offset s) (Expression x))). ?lang d following) \<longleftrightarrow>
        ?lang s (c # following)" if "s \<in> set ns" "offset s < expression_length x" for s
      using chain_language [OF _ valid [OF that(1)], of "Upcase x" c following] Cons.prems(1) that
        passes_all_last [of "drop (offset s) (Expression x)" c "Upcase x"] by (auto simp: expression_length_def)
    moreover have "\<not> ?lang s (c # following)" if "s \<in> set ns" "\<not> offset s < expression_length x" for s
      using that by (simp add: expression_length_def)
    ultimately show ?thesis unfolding successors_def by blast
  qed
  have "yields x (match_sources x False c following (map word_of_nat ns) 0 ([], aux)) (\<lambda>m'. \<exists>ds'.
      fst m' = map word_of_nat ds' \<and> sources_ok x ds' \<and> set ds' = set [] \<union> successors x False c following ns)"
    by (rule match_sources_yields [OF assms(1) ok(1)]) (simp_all add: sources_ok_def)
  then have "yields x (and_then (match_sources x False c following (map word_of_nat ns) 0 ([], aux)) (\<lambda>(current, aux).
       if current = [] then Some (Inr False) else match_name x following (current, aux)))
    (\<lambda>b. b \<longleftrightarrow> (\<exists>s \<in> set ns. ?lang s (c # following)))"
  proof (rule yields_then)
    fix m' :: match_array
    assume "\<exists>ds'. fst m' = map word_of_nat ds' \<and> sources_ok x ds' \<and> set ds' = set [] \<union> successors x False c following ns"
    then obtain ds where ds: "fst m' = map word_of_nat ds" "sources_ok x ds" "set ds = successors x False c following ns" by auto
    show "yields x ((\<lambda>(current, aux). if current = [] then Some (Inr False) else match_name x following (current, aux)) m')
        (\<lambda>b. b \<longleftrightarrow> (\<exists>s \<in> set ns. ?lang s (c # following)))"
    proof (cases "ds = []")
      case True
      then show ?thesis using ds succ by (cases m') (auto simp: yields_def)
    next
      case False
      from Cons.IH [OF _ successors_simulate [OF ds(2,3) False]] Cons.prems(1) ds succ False show ?thesis
        by (cases m') simp
    qed
  qed
  then show ?case by simp
qed


section \<open>The special cases\<close>

lemma in_language_star: "in_language up [STAR_CHAR] s"
  by (induction s) simp_all

lemma in_language_star_suffix: "in_language up (STAR_CHAR # es) s \<longleftrightarrow> (\<exists>k \<le> length s. in_language up es (drop k s))"
proof (induction s)
  case (Cons c s)
  have "(\<exists>k \<le> length (c # s). in_language up es (drop k (c # s))) \<longleftrightarrow>
      in_language up es (c # s) \<or> (\<exists>k \<le> length s. in_language up es (drop k s))"
  proof (intro iffI; elim exE disjE conjE)
    fix k assume "k \<le> length (c # s)" "in_language up es (drop k (c # s))"
    then show "in_language up es (c # s) \<or> (\<exists>k \<le> length s. in_language up es (drop k s))"
      by (cases k) auto
  next
    fix k assume "k \<le> length s" "in_language up es (drop k s)"
    then show "\<exists>k \<le> length (c # s). in_language up es (drop k (c # s))" by (intro exI [of _ "Suc k"]) simp
  qed (auto intro: exI [of _ 0])
  then show ?case using Cons.IH by simp
qed simp

lemma in_language_literal:
  assumes "\<forall>e \<in> set es. e \<notin> {STAR_CHAR, DOS_STAR, DOS_QM, DOS_DOT, QM_CHAR}"
  shows "in_language up es s \<longleftrightarrow> es = map up s"
  using assms
proof (induction es arbitrary: s)
  case (Cons e es)
  then show ?case by (cases s) auto
qed auto

lemma wild_characters: "FsRtlIsUnicodeCharacterWild c \<longleftrightarrow> c \<in> {STAR_CHAR, DOS_STAR, DOS_QM, DOS_DOT, QM_CHAR}"
proof (cases "c < 0x40")
  case True
  then have "unat c < 64" by (simp add: word_less_nat_alt)
  moreover have "\<forall>k \<in> set [0..<64]. FsRtlIsUnicodeCharacterWild (word_of_nat k) \<longleftrightarrow>
      word_of_nat k \<in> {STAR_CHAR, DOS_STAR, DOS_QM, DOS_DOT, QM_CHAR}" by code_simp
  moreover have "word_of_nat (unat c) = c" by simp
  ultimately show ?thesis by (metis atLeastLessThan_iff le0 set_upt)
next
  case False
  then have "c \<ge> 0x40" by simp
  moreover have "c \<notin> {STAR_CHAR, DOS_STAR, DOS_QM, DOS_DOT, QM_CHAR}" using False by auto
  ultimately show ?thesis by (simp add: FsRtlIsUnicodeCharacterWild_def)
qed

lemma wild_scan_iff: "BACKSLASH \<notin> set s \<Longrightarrow> wild_scan s \<longleftrightarrow> (\<exists>c \<in> set s. FsRtlIsUnicodeCharacterWild c)"
  by (induction s) auto

lemma star_suffix_language:
  assumes "\<not> FsRtlDoesNameContainWildCards es" "BACKSLASH \<notin> set es"
  shows "star_suffix ignoreCase table es name \<longleftrightarrow>
    in_language (if ignoreCase then table else (\<lambda>c. c)) (STAR_CHAR # es) name"
proof -
  let ?up = "if ignoreCase then table else (\<lambda>c. c)"
  have "\<forall>e \<in> set es. e \<notin> {STAR_CHAR, DOS_STAR, DOS_QM, DOS_DOT, QM_CHAR}"
    using assms by (simp add: FsRtlDoesNameContainWildCards_def wild_scan_iff wild_characters)
  note lit = in_language_literal [OF this, of ?up]
  have "in_language ?up (STAR_CHAR # es) name \<longleftrightarrow> (\<exists>k \<le> length name. es = map ?up (drop k name))"
    unfolding in_language_star_suffix lit ..
  also have "\<dots> \<longleftrightarrow> length es \<le> length name \<and> es = map ?up (drop (length name - length es) name)"
  proof
    assume "\<exists>k \<le> length name. es = map ?up (drop k name)"
    then obtain k where k: "k \<le> length name" "es = map ?up (drop k name)" by blast
    then have "length name - length es = k" by simp
    then show "length es \<le> length name \<and> es = map ?up (drop (length name - length es) name)" using k by simp
  qed (metis diff_le_self)
  finally show ?thesis by (cases ignoreCase) (auto simp: star_suffix_def Let_def)
qed

text \<open>What the private routine decides.\<close>

lemma FsRtlIsNameInExpressionPrivate_yields:
  assumes "length expr < 16384" "BACKSLASH \<notin> set expr" "name \<noteq> []"
    "\<forall>c \<in> set name. (if ignoreCase then table c else c) \<noteq> DOS_DOT"
  shows "yields \<lparr>Expression = expr, Upcase = (if ignoreCase then table else (\<lambda>c. c)), Pool = pool\<rparr>
    (FsRtlIsNameInExpressionPrivate pool expr name ignoreCase table)
    (\<lambda>b. b \<longleftrightarrow> in_language (if ignoreCase then table else (\<lambda>c. c)) expr name)"
proof -
  let ?up = "if ignoreCase then table else (\<lambda>c. c)"
  let ?x = "\<lparr>Expression = expr, Upcase = ?up, Pool = pool\<rparr>"
  consider "expr = []" | "expr = [STAR_CHAR]"
    | es where "expr = STAR_CHAR # es" "es \<noteq> []" "\<not> FsRtlDoesNameContainWildCards es"
    | "expr \<noteq> []" "expr \<noteq> [STAR_CHAR]" "\<not> (hd expr = STAR_CHAR \<and> \<not> FsRtlDoesNameContainWildCards (tl expr))"
    by (cases expr) auto
  then show ?thesis
  proof cases
    case 1
    then show ?thesis using assms(3) by (simp add: FsRtlIsNameInExpressionPrivate_def yields_value)
  next
    case 2
    then show ?thesis using assms(3)
      by (simp add: FsRtlIsNameInExpressionPrivate_def in_language_star yields_value del: in_language.simps)
  next
    case 3
    then show ?thesis using assms(2,3) star_suffix_language [of es ignoreCase table name]
      by (simp add: FsRtlIsNameInExpressionPrivate_def yields_value del: in_language.simps)
  next
    case 4
    have "yields ?x (match_name ?x name (map word_of_nat [0], False))
        (\<lambda>b. b \<longleftrightarrow> (\<exists>s \<in> set [0]. in_language (Upcase ?x) (drop (offset s) (Expression ?x)) name))"
      by (rule match_name_yields)
        (use assms 4 in \<open>auto simp: expression_length_def simulates_def sources_ok_def\<close>)
    then show ?thesis using assms(3) unfolding FsRtlIsNameInExpressionPrivate_def if_not_P [OF 4(3)]
      using 4(1,2) by (simp only: if_False simp_thms) simp
  qed
qed

section \<open>The language of the comment\<close>

text \<open>
  The wild cards in the words of the comment before \<^verbatim>\<open>FsRtlIsNameInExpressionPrivate\<close>. The first string is
  the expression, the second the name.

  \<^item> \<^verbatim>\<open>*\<close> matches 0 or more characters, and \<^verbatim>\<open>?\<close> exactly 1.
  \<^item> \<^verbatim>\<open>DOS_STAR\<close> matches 0 or more characters until encountering and matching the final period in the name.
  \<^item> \<^verbatim>\<open>DOS_QM\<close> matches any single character, or upon encountering a period or the end of the name string
    advances the expression to the end of the set of contiguous \<^verbatim>\<open>DOS_QM\<close>s.
  \<^item> \<^verbatim>\<open>DOS_DOT\<close> matches either a period or zero characters beyond the name string.
\<close>

function (sequential) described :: "(ushort \<Rightarrow> ushort) \<Rightarrow> ushort list \<Rightarrow> ushort list \<Rightarrow> bool" where
  "described up [] s \<longleftrightarrow> s = []"
| "described up (e # es) [] \<longleftrightarrow>
     (if e = DOS_QM then described up (dropWhile (\<lambda>e. e = DOS_QM) es) []
      else e \<in> {STAR_CHAR, DOS_STAR, DOS_DOT} \<and> described up es [])"
| "described up (e # es) (c # s) \<longleftrightarrow>
     (if e = STAR_CHAR then described up es (c # s) \<or> described up (e # es) s
      else if e = DOS_STAR then
        described up es (c # s) \<or>
        (if c = DOT_CHAR \<and> DOT_CHAR \<notin> set s then described up es s else described up (e # es) s)
      else if e = DOS_QM then
        (if c = DOT_CHAR then described up (dropWhile (\<lambda>e. e = DOS_QM) es) (c # s) else described up es s)
      else if e = DOS_DOT then c = DOT_CHAR \<and> described up es s
      else if e = QM_CHAR then described up es s
      else e = up c \<and> described up es s)"

  by pat_completeness auto

termination
  by (relation "measure (\<lambda>(_, es, s). length es + length s)") (simp_all add: length_dropWhile_le le_imp_less_Suc)



text \<open>
  What the code takes beyond that: \<^verbatim>\<open>DOS_QM\<close>s that end the expression may stand for a \<^verbatim>\<open>DOS_DOT\<close>, so that
  they take a final period.
\<close>

definition with_final_dot :: "(ushort \<Rightarrow> ushort) \<Rightarrow> ushort list \<Rightarrow> ushort list \<Rightarrow> bool" where
  "with_final_dot up es s \<longleftrightarrow> (\<exists>front qms. es = front @ qms \<and> qms \<noteq> [] \<and> set qms \<subseteq> {DOS_QM} \<and>
     described up (front @ [DOS_DOT]) s)"

lemma with_final_dot_Nil [simp]: "\<not> with_final_dot up [] s"
  by (simp add: with_final_dot_def)







text \<open>
  C31: for an expression of fewer than \<open>2\<^sup>1\<^sup>4\<close> characters without a backslash and a name that holds no \<open>"\<close>
  once upcased, no store of \<^verbatim>\<open>FsRtlIsNameInExpressionPrivate\<close> is outside of the local match arrays or of those
  in pool, although a state may be in an array twice: it returns, or raises that there is no pool. For
  longer expressions, whose states do not fit in 16 bits, stores beyond the arrays in pool happen.
\<close>

theorem FsRtlIsNameInExpressionPrivate_in_bounds:
  assumes "length expr < 16384" "BACKSLASH \<notin> set expr" "\<forall>c \<in> set name. (if ignoreCase then table c else c) \<noteq> DOS_DOT"
  shows "FsRtlIsNameInExpressionPrivate pool expr name ignoreCase table \<noteq> None"
proof (cases "name = []")
  case True
  then show ?thesis by (simp add: FsRtlIsNameInExpressionPrivate_def)
next
  case False
  from FsRtlIsNameInExpressionPrivate_yields [OF assms(1,2) False assms(3), of pool] show ?thesis
    by (auto simp: yields_def)
qed

theorem FsRtlIsNameInExpressionPrivate_in_bounds_witness:
  "FsRtlIsNameInExpressionPrivate True (replicate 20 STAR_CHAR @ [0x61]) [0x61, 0x62] False (\<lambda>c. c) \<noteq> None"
  by (rule FsRtlIsNameInExpressionPrivate_in_bounds) simp_all

section \<open>Paths\<close>

lemma to_backslash_split: "to_backslash s = (first, rest) \<Longrightarrow>
   s = first @ rest \<and> BACKSLASH \<notin> set first \<and> (rest = [] \<or> hd rest = BACKSLASH)"
  by (induction s arbitrary: first) (auto split: if_splits prod.splits)

lemma to_backslash_append: "BACKSLASH \<notin> set first \<Longrightarrow> to_backslash (first @ BACKSLASH # rest) = (first, BACKSLASH # rest)"
  by (induction first) auto

lemma to_backslash_none: "BACKSLASH \<notin> set first \<Longrightarrow> to_backslash first = (first, [])"
  by (induction first) auto

lemma FsRtlDissectName_shorter: "path \<noteq> [] \<Longrightarrow> length (snd (FsRtlDissectName path)) < length path"
proof -
  assume "path \<noteq> []"
  then obtain c s where p: "path = c # s" by (cases path) auto
  obtain first rest where f: "to_backslash (if c = BACKSLASH then s else path) = (first, rest)" by force
  have "(if c = BACKSLASH then s else path) = first @ rest" using to_backslash_split [OF f] by blast
  then have "length (if c = BACKSLASH then s else path) = length (first @ rest)" by (rule arg_cong)
  then have "length rest \<le> length (if c = BACKSLASH then s else path)" by simp
  then show ?thesis using p f by (cases rest) (auto simp: FsRtlDissectName_def split: if_splits)
qed

text \<open>Dissecting until nothing is left.\<close>

function path_names :: "ushort list \<Rightarrow> ushort list list" where
  "path_names path =
     (if path = [] then [] else fst (FsRtlDissectName path) # path_names (snd (FsRtlDissectName path)))"
  by pat_completeness auto

termination
  by (relation "measure length") (simp_all add: FsRtlDissectName_shorter)

declare path_names.simps [simp del]

lemma path_names_Nil [simp]: "path_names [] = []"
  by (simp add: path_names.simps)

lemma path_names_Cons: "path \<noteq> [] \<Longrightarrow> FsRtlDissectName path = (first, rest) \<Longrightarrow> path_names path = first # path_names rest"
  by (subst path_names.simps) simp

text \<open>
  C32: dissecting a path again and again gives back the names that were joined with backslashes, with or
  without a leading backslash.
\<close>

theorem path_names_join:
  assumes "names \<noteq> []" "\<forall>n \<in> set names. n \<noteq> [] \<and> BACKSLASH \<notin> set n"
  shows "path_names (concat (map (\<lambda>n. BACKSLASH # n) names)) = names \<and>
    path_names (tl (concat (map (\<lambda>n. BACKSLASH # n) names))) = names"
  using assms
proof (induction names)
  case (Cons n names)
  then obtain c s where n: "n = c # s" "c \<noteq> BACKSLASH" "BACKSLASH \<notin> set n" by (cases n) auto
  let ?rest = "concat (map (\<lambda>n. BACKSLASH # n) names)"
  have split: "to_backslash (n @ ?rest) = (n, ?rest)"
  proof (cases names)
    case Nil
    then show ?thesis using to_backslash_none [OF n(3)] by simp
  next
    case (Cons m ms)
    then show ?thesis using to_backslash_append [OF n(3)] by simp
  qed
  have names: "path_names (case ?rest of [] \<Rightarrow> [] | _ # remaining \<Rightarrow> remaining) = names"
  proof (cases names)
    case Nil
    then show ?thesis by simp
  next
    case (Cons m ms)
    then show ?thesis using Cons.IH Cons.prems by simp
  qed
  have "FsRtlDissectName (BACKSLASH # n @ ?rest) = (n, case ?rest of [] \<Rightarrow> [] | _ # remaining \<Rightarrow> remaining)"
    "FsRtlDissectName (n @ ?rest) = (n, case ?rest of [] \<Rightarrow> [] | _ # remaining \<Rightarrow> remaining)"
    using split n by (simp_all add: FsRtlDissectName_def)
  then have "path_names (BACKSLASH # n @ ?rest) = n # names" "path_names (n @ ?rest) = n # names"
    using names n(1) path_names_Cons [of "BACKSLASH # n @ ?rest"] path_names_Cons [of "n @ ?rest"] by auto
  then show ?case by simp
qed simp

theorem path_names_join_witness:
  "path_names (concat (map (\<lambda>n. BACKSLASH # n) [[0x41], [0x42, 0x43]])) = [[0x41], [0x42, 0x43]] \<and>
   path_names (tl (concat (map (\<lambda>n. BACKSLASH # n) [[0x41], [0x42, 0x43]]))) = [[0x41], [0x42, 0x43]]"
  by (rule path_names_join) simp_all

section \<open>Equality\<close>

text \<open>Names are equal when their characters are, upcased where the case is ignored.\<close>

lemma names_equal_loop_iff:
  "length s = length t \<Longrightarrow> names_equal_loop up s t \<longleftrightarrow> map up s = map up t"
  by (induction s t rule: list_induct2) simp_all

lemma FsRtlAreNamesEqual_iff:
  "FsRtlAreNamesEqual (True, True) delta a b ignoreCase table =
     Inr (if ignoreCase then map (case table of Some up \<Rightarrow> up | None \<Rightarrow> NLS_UPCASE delta) a =
            map (case table of Some up \<Rightarrow> up | None \<Rightarrow> NLS_UPCASE delta) b
          else a = b)"
proof (cases "length a = length b")
  case True
  then show ?thesis
    by (auto simp: FsRtlAreNamesEqual_def RtlUpcaseUnicodeString_def names_equal_loop_iff split: option.split)
next
  case False
  then show ?thesis by (auto simp: FsRtlAreNamesEqual_def dest: map_eq_imp_length_eq)
qed


section \<open>Cases beside the description\<close>

text \<open>
  Some results of the code that the comments do not lead one to expect: a \<^const>\<open>DOS_QM\<close> at the end takes a
  final period; an expression \<open>*?\x\<close> is compared as a literal suffix, because the search for wild cards stops
  at the backslash; and a state can be twice in the array that is said to hold no duplicates.
\<close>

lemma final_period_taken:
  "FsRtlIsNameInExpression True True (\<lambda>c. 0) [0x61, DOS_QM] [0x61, DOT_CHAR] False None = Some (Inr True) \<and>
   \<not> described (\<lambda>c. c) [0x61, DOS_QM] [0x61, DOT_CHAR]"
  by code_simp

lemma backslash_hides_wild_card:
  "FsRtlIsNameInExpression True True (\<lambda>c. 0) [STAR_CHAR, QM_CHAR, BACKSLASH, 0x78] [0x61, BACKSLASH, 0x78] False None =
     Some (Inr False) \<and>
   described (\<lambda>c. c) [STAR_CHAR, QM_CHAR, BACKSLASH, 0x78] [0x61, BACKSLASH, 0x78]"
  by code_simp

lemma states_can_repeat:
  "match_sources \<lparr>Expression = [STAR_CHAR, 0x61, STAR_CHAR, 0x62], Upcase = (\<lambda>c. c), Pool = True\<rparr> False 0x61 []
     [0, 3, 8] 0 ([], False) = Some (Inr ([0, 3, 8, 8, 11], False))"
  by code_simp

end
