(* ===== verification/Rundown.thy ===== *)
theory Rundown
  imports Prelude
begin

text \<open>
  Rundown protection (\<^verbatim>\<open>ex/rundown.c\<close> and the inline routines of \<^verbatim>\<open>inc/ex.h\<close>), as a system of steps: the
  threads that acquire and release protection, the one thread that runs the structure down, and between
  them the rundown references and the wait block on the stack of that thread. A step is one access to shared
  memory, with the computation on local variables that follows it. The references of the cache-aware variant
  are a list, one for each processor; the plain structure is a list of one.
\<close>

unbundle bit_operations_syntax

definition EX_RUNDOWN_ACTIVE :: ulonglong where
  "EX_RUNDOWN_ACTIVE = 0x1"

definition EX_RUNDOWN_COUNT_SHIFT :: nat where
  "EX_RUNDOWN_COUNT_SHIFT = 1"

definition EX_RUNDOWN_COUNT_INC :: ulong where
  "EX_RUNDOWN_COUNT_INC = push_bit EX_RUNDOWN_COUNT_SHIFT 1"

definition rundown_active :: "ulonglong \<Rightarrow> bool" where
  "rundown_active v \<longleftrightarrow> v AND EX_RUNDOWN_ACTIVE \<noteq> 0"

section \<open>One turn of each loop\<close>

text \<open>What an interlocked compare and exchange leaves, and what it returns.\<close>

definition InterlockedCompareExchange :: "ulonglong \<Rightarrow> ulonglong \<Rightarrow> ulonglong \<Rightarrow> ulonglong \<times> ulonglong" where
  "InterlockedCompareExchange target exchange comparand = (if target = comparand then exchange else target, target)"

datatype acquire_result = Refused | Acquired | AcquireAgain ulonglong

text \<open>
  A turn of the loop of \<^verbatim>\<open>ExAcquireRundownProtectionEx\<close> on the current reference, with the value read before;
  the product is one of 32 bits.
\<close>

definition ExAcquireRundownProtectionEx_turn :: "ulong \<Rightarrow> ulonglong \<Rightarrow> ulonglong \<Rightarrow> ulonglong \<times> acquire_result" where
  "ExAcquireRundownProtectionEx_turn count v runRef =
     (if rundown_active v then (runRef, Refused)
      else
        let (runRef', newValue) =
              InterlockedCompareExchange runRef (v + ucast (EX_RUNDOWN_COUNT_INC * count)) v
        in if newValue = v then (runRef', Acquired) else (runRef', AcquireAgain newValue))"

definition ExfAcquireRundownProtection_turn :: "ulonglong \<Rightarrow> ulonglong \<Rightarrow> ulonglong \<times> acquire_result" where
  "ExfAcquireRundownProtection_turn v runRef =
     (if rundown_active v then (runRef, Refused)
      else
        let (runRef', newValue) = InterlockedCompareExchange runRef (v + ucast EX_RUNDOWN_COUNT_INC) v
        in if newValue = v then (runRef', Acquired) else (runRef', AcquireAgain newValue))"

text \<open>The inline \<^verbatim>\<open>ExAcquireRundownProtection\<close>: whether it succeeds without the loop.\<close>

definition ExAcquireRundownProtection_fast :: "ulonglong \<Rightarrow> ulonglong \<Rightarrow> ulonglong \<times> bool" where
  "ExAcquireRundownProtection_fast v runRef =
     (let (runRef', newValue) = InterlockedCompareExchange runRef (v + ucast EX_RUNDOWN_COUNT_INC) v
      in (runRef', newValue = v))"

datatype release_result = Released | ReleaseAgain ulonglong | FollowWaitBlock ulonglong

definition ExReleaseRundownProtectionEx_turn :: "ulong \<Rightarrow> ulonglong \<Rightarrow> ulonglong \<Rightarrow> ulonglong \<times> release_result" where
  "ExReleaseRundownProtectionEx_turn count v runRef =
     (if rundown_active v then (runRef, FollowWaitBlock (v AND NOT EX_RUNDOWN_ACTIVE))
      else
        let (runRef', newValue) =
              InterlockedCompareExchange runRef (v - ucast (EX_RUNDOWN_COUNT_INC * count)) v
        in if newValue = v then (runRef', Released) else (runRef', ReleaseAgain newValue))"

definition ExfReleaseRundownProtection_turn :: "ulonglong \<Rightarrow> ulonglong \<Rightarrow> ulonglong \<times> release_result" where
  "ExfReleaseRundownProtection_turn v runRef =
     (if rundown_active v then (runRef, FollowWaitBlock (v AND NOT EX_RUNDOWN_ACTIVE))
      else
        let (runRef', newValue) = InterlockedCompareExchange runRef (v - ucast EX_RUNDOWN_COUNT_INC) v
        in if newValue = v then (runRef', Released) else (runRef', ReleaseAgain newValue))"

definition ExReleaseRundownProtection_fast :: "ulonglong \<Rightarrow> ulonglong \<Rightarrow> ulonglong \<times> bool" where
  "ExReleaseRundownProtection_fast v runRef =
     (let (runRef', newValue) = InterlockedCompareExchange runRef (v - ucast EX_RUNDOWN_COUNT_INC) v
      in (runRef', newValue = v))"

text \<open>
  The access to the wait block: the new count, and whether the event has to be set. The two routines use
  \<^verbatim>\<open>InterlockedDecrement64\<close> and \<^verbatim>\<open>InterlockedExchangeAdd64\<close>.
\<close>

definition wait_block_decrement :: "ulonglong \<Rightarrow> ulonglong \<times> bool" where
  "wait_block_decrement count = (count - 1, count - 1 = 0)"

definition wait_block_subtract :: "ulong \<Rightarrow> ulonglong \<Rightarrow> ulonglong \<times> bool" where
  "wait_block_subtract n count = (count + - ucast n, count = ucast n)"

section \<open>States\<close>

text \<open>
  The program counter of a thread: before the load or the turn of a loop with the value it read. The number
  of references is None in the routines for a single one.
\<close>

datatype user_pc =
    Idle
  | FastAcquire nat ulonglong
  | AcquireLoad nat "ulong option"
  | Acquire nat "ulong option" ulonglong
  | FastRelease nat ulonglong
  | ReleaseLoad nat "ulong option"
  | Release nat "ulong option" ulonglong
  | Decrement nat "ulong option" ulonglong
  | SetWakeEvent

record user =
  user_pc :: user_pc
  user_held :: nat

text \<open>The program counter of the thread that runs the structure down.\<close>

datatype owner_pc =
    OwnerIdle
  | WaitEntry
  | WaitSlow ulonglong bool
  | MarkLoad nat ulonglong
  | Mark nat ulonglong ulonglong
  | AddCount ulonglong
  | Waiting
  | RundownDone

text \<open>\<open>issued\<close> counts the references that were ever asked for.\<close>

record rundown_state =
  run_refs :: "ulonglong list"
  wait_count :: ulonglong
  wake_event :: bool
  users :: "user list"
  owner :: owner_pc
  issued :: nat

definition references :: "ulong option \<Rightarrow> nat" where
  "references n = (case n of None \<Rightarrow> 1 | Some count \<Rightarrow> unat count)"

text \<open>
  What the callers have to keep: a count that fits when it is doubled, and fewer than \<open>2\<^sup>6\<^sup>2\<close> references in all.
\<close>

definition may_ask :: "rundown_state \<Rightarrow> ulong option \<Rightarrow> bool" where
  "may_ask s n \<longleftrightarrow> 0 < references n \<and> references n < 2 ^ 31 \<and> issued s + references n < 2 ^ 62"

definition set_user :: "nat \<Rightarrow> user_pc \<Rightarrow> rundown_state \<Rightarrow> rundown_state" where
  "set_user i p s = s\<lparr>users := (users s)[i := (users s ! i)\<lparr>user_pc := p\<rparr>]\<rparr>"

definition set_held :: "nat \<Rightarrow> nat \<Rightarrow> rundown_state \<Rightarrow> rundown_state" where
  "set_held i h s = s\<lparr>users := (users s)[i := (users s ! i)\<lparr>user_held := h\<rparr>]\<rparr>"

definition set_ref :: "nat \<Rightarrow> ulonglong \<Rightarrow> rundown_state \<Rightarrow> rundown_state" where
  "set_ref p v s = s\<lparr>run_refs := (run_refs s)[p := v]\<rparr>"

section \<open>Steps of the threads\<close>

definition acquire_turn :: "ulong option \<Rightarrow> ulonglong \<Rightarrow> ulonglong \<Rightarrow> ulonglong \<times> acquire_result" where
  "acquire_turn n = (case n of None \<Rightarrow> ExfAcquireRundownProtection_turn
     | Some count \<Rightarrow> ExAcquireRundownProtectionEx_turn count)"

definition release_turn :: "ulong option \<Rightarrow> ulonglong \<Rightarrow> ulonglong \<Rightarrow> ulonglong \<times> release_result" where
  "release_turn n = (case n of None \<Rightarrow> ExfReleaseRundownProtection_turn
     | Some count \<Rightarrow> ExReleaseRundownProtectionEx_turn count)"

definition wait_block_release :: "ulong option \<Rightarrow> ulonglong \<Rightarrow> ulonglong \<times> bool" where
  "wait_block_release n = (case n of None \<Rightarrow> wait_block_decrement | Some count \<Rightarrow> wait_block_subtract count)"

text \<open>One step of the thread \<open>i\<close> that is inside of a routine.\<close>

definition user_continue :: "nat \<Rightarrow> rundown_state \<Rightarrow> rundown_state" where
  "user_continue i s =
     (let held = user_held (users s ! i) in
      case user_pc (users s ! i) of
        Idle \<Rightarrow> s
      | FastAcquire p v \<Rightarrow>
          (let (runRef, success) = ExAcquireRundownProtection_fast v (run_refs s ! p)
           in if success then set_ref p runRef (set_held i (held + 1) (set_user i Idle s))
              else set_ref p runRef (set_user i (AcquireLoad p None) s))
      | AcquireLoad p n \<Rightarrow> set_user i (Acquire p n (run_refs s ! p)) s
      | Acquire p n v \<Rightarrow>
          (let (runRef, result) = acquire_turn n v (run_refs s ! p)
           in case result of
                Refused \<Rightarrow> set_user i Idle s
              | Acquired \<Rightarrow> set_ref p runRef (set_held i (held + references n) (set_user i Idle s))
              | AcquireAgain v' \<Rightarrow> set_ref p runRef (set_user i (Acquire p n v') s))
      | FastRelease p v \<Rightarrow>
          (let (runRef, success) = ExReleaseRundownProtection_fast v (run_refs s ! p)
           in if success then set_ref p runRef (set_held i (held - 1) (set_user i Idle s))
              else set_ref p runRef (set_user i (ReleaseLoad p None) s))
      | ReleaseLoad p n \<Rightarrow> set_user i (Release p n (run_refs s ! p)) s
      | Release p n v \<Rightarrow>
          (let (runRef, result) = release_turn n v (run_refs s ! p)
           in case result of
                Released \<Rightarrow> set_ref p runRef (set_held i (held - references n) (set_user i Idle s))
              | ReleaseAgain v' \<Rightarrow> set_ref p runRef (set_user i (Release p n v') s)
              | FollowWaitBlock b \<Rightarrow> set_user i (Decrement p n b) s)
      | Decrement p n b \<Rightarrow>
          (let (count, wake) = wait_block_release n (wait_count s)
           in set_held i (held - references n) (set_user i (if wake then SetWakeEvent else Idle) (s\<lparr>wait_count := count\<rparr>)))
      | SetWakeEvent \<Rightarrow> set_user i Idle (s\<lparr>wake_event := True\<rparr>))"

section \<open>Steps of the rundown thread\<close>

text \<open>
  \<^verbatim>\<open>ExWaitForRundownProtectionRelease\<close> and \<^verbatim>\<open>ExfWaitForRundownProtectionRelease\<close> start with the same exchange of
  0 for the active bit; \<open>next\<close> is where the routine goes on when the reference is in use.
\<close>

definition rundown_fast_path :: "owner_pc \<Rightarrow> rundown_state \<Rightarrow> rundown_state" where
  "rundown_fast_path next s =
     (let (runRef, v) = InterlockedCompareExchange (run_refs s ! 0) EX_RUNDOWN_ACTIVE 0
      in set_ref 0 runRef (s\<lparr>owner := if v = 0 \<or> v = EX_RUNDOWN_ACTIVE then RundownDone else next\<rparr>))"

text \<open>The loop of \<^verbatim>\<open>ExfWaitForRundownProtectionRelease\<close>; \<open>event\<close> tells whether the event has been initialised.\<close>

definition ExfWaitForRundownProtectionRelease_turn ::
    "ulonglong \<Rightarrow> ulonglong \<Rightarrow> bool \<Rightarrow> rundown_state \<Rightarrow> rundown_state" where
  "ExfWaitForRundownProtectionRelease_turn block v event s =
     (let waitCount = drop_bit EX_RUNDOWN_COUNT_SHIFT v;
          s1 = s\<lparr>wait_count := waitCount, wake_event := (if waitCount > 0 \<and> \<not> event then False else wake_event s)\<rparr>;
          (runRef, newValue) = InterlockedCompareExchange (run_refs s ! 0) (block OR EX_RUNDOWN_ACTIVE) v
      in set_ref 0 runRef (s1\<lparr>owner :=
           if newValue = v then if waitCount > 0 then Waiting else RundownDone
           else WaitSlow newValue (event \<or> waitCount > 0)\<rparr>))"

text \<open>\<^verbatim>\<open>ExWaitForRundownProtectionReleaseCacheAware\<close>: marking one processor, and adding up.\<close>

definition mark_turn :: "ulonglong \<Rightarrow> nat \<Rightarrow> ulonglong \<Rightarrow> ulonglong \<Rightarrow> rundown_state \<Rightarrow> rundown_state" where
  "mark_turn block index acc v s =
     (let (runRef, newValue) = InterlockedCompareExchange (run_refs s ! index) (block OR EX_RUNDOWN_ACTIVE) v
      in set_ref index runRef (s\<lparr>owner :=
           if newValue = v then MarkLoad (Suc index) (acc + v) else Mark index acc newValue\<rparr>))"

definition marked_all :: "ulonglong \<Rightarrow> rundown_state \<Rightarrow> rundown_state" where
  "marked_all acc s =
     (if acc \<noteq> 0 then s\<lparr>owner := AddCount (drop_bit EX_RUNDOWN_COUNT_SHIFT acc), wake_event := False\<rparr>
      else s\<lparr>owner := RundownDone\<rparr>)"

definition add_count :: "ulonglong \<Rightarrow> rundown_state \<Rightarrow> rundown_state" where
  "add_count n s =
     s\<lparr>wait_count := wait_count s + n, owner := if wait_count s \<noteq> - n then Waiting else RundownDone\<rparr>"

text \<open>One step of the rundown thread inside of a routine; it waits while the event is not set.\<close>

definition owner_continue :: "ulonglong \<Rightarrow> rundown_state \<Rightarrow> rundown_state" where
  "owner_continue block s =
     (case owner s of
        OwnerIdle \<Rightarrow> s
      | WaitEntry \<Rightarrow> rundown_fast_path (WaitSlow (run_refs s ! 0) False) s
      | WaitSlow v event \<Rightarrow> ExfWaitForRundownProtectionRelease_turn block v event s
      | MarkLoad index acc \<Rightarrow>
          if index < length (run_refs s) then s\<lparr>owner := Mark index acc (run_refs s ! index)\<rparr> else marked_all acc s
      | Mark index acc v \<Rightarrow> mark_turn block index acc v s
      | AddCount n \<Rightarrow> add_count n s
      | Waiting \<Rightarrow> if wake_event s then s\<lparr>wake_event := False, owner := RundownDone\<rparr> else s
      | RundownDone \<Rightarrow> s)"

text \<open>
  The cache-aware routines that enable the structure again or mark it completed, one reference at a time.
\<close>

definition ExReInitializeRundownProtectionCacheAware_turn :: "nat \<Rightarrow> rundown_state \<Rightarrow> rundown_state" where
  "ExReInitializeRundownProtectionCacheAware_turn index s = set_ref index 0 s"

definition ExRundownCompletedCacheAware_turn :: "nat \<Rightarrow> rundown_state \<Rightarrow> rundown_state" where
  "ExRundownCompletedCacheAware_turn index s = set_ref index EX_RUNDOWN_ACTIVE s"

section \<open>The system\<close>

text \<open>
  \<open>block\<close> is the address of the wait block. A thread that is idle may call a routine: on any processor, and
  to release no more than it holds. The structure is run down by one thread, which may initialise the plain
  structure again or mark it completed afterwards.
\<close>

inductive rundown_step :: "ulonglong \<Rightarrow> rundown_state \<Rightarrow> rundown_state \<Rightarrow> bool" for block where
  acquire: "i < length (users s) \<Longrightarrow> user_pc (users s ! i) = Idle \<Longrightarrow> p < length (run_refs s) \<Longrightarrow> may_ask s None \<Longrightarrow>
    rundown_step block s
      (set_user i (FastAcquire p (run_refs s ! p AND NOT EX_RUNDOWN_ACTIVE)) (s\<lparr>issued := issued s + 1\<rparr>))"
| acquire_ex: "i < length (users s) \<Longrightarrow> user_pc (users s ! i) = Idle \<Longrightarrow> p < length (run_refs s) \<Longrightarrow>
    may_ask s (Some n) \<Longrightarrow>
    rundown_step block s (set_user i (AcquireLoad p (Some n)) (s\<lparr>issued := issued s + unat n\<rparr>))"
| release: "i < length (users s) \<Longrightarrow> user_pc (users s ! i) = Idle \<Longrightarrow> p < length (run_refs s) \<Longrightarrow>
    0 < user_held (users s ! i) \<Longrightarrow>
    rundown_step block s (set_user i (FastRelease p (run_refs s ! p AND NOT EX_RUNDOWN_ACTIVE)) s)"
| release_ex: "i < length (users s) \<Longrightarrow> user_pc (users s ! i) = Idle \<Longrightarrow> p < length (run_refs s) \<Longrightarrow>
    0 < unat n \<Longrightarrow> unat n < 2 ^ 31 \<Longrightarrow> unat n \<le> user_held (users s ! i) \<Longrightarrow>
    rundown_step block s (set_user i (ReleaseLoad p (Some n)) s)"
| user: "i < length (users s) \<Longrightarrow> rundown_step block s (user_continue i s)"
| wait: "owner s = OwnerIdle \<Longrightarrow> length (run_refs s) = 1 \<Longrightarrow> rundown_step block s (rundown_fast_path WaitEntry s)"
| wait_cache_aware: "owner s = OwnerIdle \<Longrightarrow> \<forall>v \<in> set (run_refs s). \<not> rundown_active v \<Longrightarrow>
    rundown_step block s (s\<lparr>owner := MarkLoad 0 0, wait_count := 0\<rparr>)"
| continue: "rundown_step block s (owner_continue block s)"
| reinitialize: "owner s = RundownDone \<Longrightarrow> length (run_refs s) = 1 \<Longrightarrow>
    rundown_step block s (set_ref 0 0 (s\<lparr>owner := OwnerIdle\<rparr>))"
| completed: "owner s = RundownDone \<Longrightarrow> length (run_refs s) = 1 \<Longrightarrow>
    rundown_step block s (set_ref 0 EX_RUNDOWN_ACTIVE (s\<lparr>owner := OwnerIdle\<rparr>))"

text \<open>\<^verbatim>\<open>ExInitializeRundownProtection\<close> for each of \<open>processors\<close> references and \<open>threads\<close> threads.\<close>

definition rundown_init :: "nat \<Rightarrow> nat \<Rightarrow> rundown_state" where
  "rundown_init processors threads =
     \<lparr>run_refs = replicate processors 0, wait_count = 0, wake_event = False,
      users = replicate threads \<lparr>user_pc = Idle, user_held = 0\<rparr>, owner = OwnerIdle, issued = 0\<rparr>"

definition rundown_reachable :: "ulonglong \<Rightarrow> rundown_state \<Rightarrow> bool" where
  "rundown_reachable block s \<longleftrightarrow>
     (\<exists>processors threads. 0 < processors \<and> (rundown_step block)\<^sup>*\<^sup>* (rundown_init processors threads) s)"

end
