(* ===== verification/Rundown_Facts.thy ===== *)
theory Rundown_Facts
  imports Rundown
begin

text \<open>
  The invariant of the rundown system: how the references, the wait block and the program counter of the
  rundown thread account for the references that are held.
\<close>

section \<open>Words\<close>

lemma rundown_active_odd: "rundown_active v \<longleftrightarrow> odd v"
  by (simp add: rundown_active_def EX_RUNDOWN_ACTIVE_def and_one_eq odd_iff_mod_2_eq_one)

lemma count_inc: "EX_RUNDOWN_COUNT_INC = 2"
  by (simp add: EX_RUNDOWN_COUNT_INC_def EX_RUNDOWN_COUNT_SHIFT_def)

lemma active_block:
  assumes "\<not> rundown_active block"
  shows "rundown_active (block OR EX_RUNDOWN_ACTIVE)" "(block OR EX_RUNDOWN_ACTIVE) AND NOT EX_RUNDOWN_ACTIVE = block"
proof -
  have b: "\<not> bit block 0" using assms by (simp add: rundown_active_odd bit_0)
  show "rundown_active (block OR EX_RUNDOWN_ACTIVE)"
    by (simp add: rundown_active_odd EX_RUNDOWN_ACTIVE_def even_or_iff)
  show "(block OR EX_RUNDOWN_ACTIVE) AND NOT EX_RUNDOWN_ACTIVE = block"
  proof (rule bit_eqI)
    fix n :: nat
    assume "possible_bit TYPE(64 word) n"
    then have "n < 64" by simp
    then show "bit ((block OR EX_RUNDOWN_ACTIVE) AND NOT EX_RUNDOWN_ACTIVE) n = bit block n"
      using b by (cases n) (simp_all add: EX_RUNDOWN_ACTIVE_def bit_and_iff bit_or_iff bit_not_iff bit_1_iff)
  qed
qed

lemma masked_not_active: "\<not> rundown_active (v AND NOT EX_RUNDOWN_ACTIVE)"
  by (simp add: rundown_active_odd EX_RUNDOWN_ACTIVE_def even_and_iff)

definition count_ok :: "ulong option \<Rightarrow> bool" where
  "count_ok n \<longleftrightarrow> 0 < references n \<and> references n < 2 ^ 31"

lemma references_None [simp]: "references None = 1" "count_ok None"
  by (simp_all add: references_def count_ok_def)

lemma references_Some [simp]: "references (Some n) = unat n"
  by (simp add: references_def)

text \<open>The amounts that the routines add and subtract.\<close>

lemma doubled_count:
  assumes "count_ok (Some n)"
  shows "(ucast (EX_RUNDOWN_COUNT_INC * n) :: ulonglong) = word_of_nat (2 * unat n)"
proof -
  have "unat (EX_RUNDOWN_COUNT_INC * n) = 2 * unat n"
    using assms unfolding count_inc by (subst unat_times_range) (simp_all add: count_ok_def)
  then show ?thesis by (metis of_nat_unat)
qed

lemma acquire_turn_eq:
  assumes "count_ok n"
  shows "acquire_turn n v r =
    (if rundown_active v then (r, Refused)
     else if r = v then (r + word_of_nat (2 * references n), Acquired) else (r, AcquireAgain r))"
proof (cases n)
  case None
  then show ?thesis
    by (simp add: acquire_turn_def ExfAcquireRundownProtection_turn_def InterlockedCompareExchange_def count_inc)
next
  case (Some k)
  then show ?thesis using doubled_count [of k] assms
    by (simp add: acquire_turn_def ExAcquireRundownProtectionEx_turn_def InterlockedCompareExchange_def)
qed

lemma release_turn_eq:
  assumes "count_ok n"
  shows "release_turn n v r =
    (if rundown_active v then (r, FollowWaitBlock (v AND NOT EX_RUNDOWN_ACTIVE))
     else if r = v then (r - word_of_nat (2 * references n), Released) else (r, ReleaseAgain r))"
proof (cases n)
  case None
  then show ?thesis
    by (simp add: release_turn_def ExfReleaseRundownProtection_turn_def InterlockedCompareExchange_def count_inc)
next
  case (Some k)
  then show ?thesis using doubled_count [of k] assms
    by (simp add: release_turn_def ExReleaseRundownProtectionEx_turn_def InterlockedCompareExchange_def)
qed

lemma wait_block_release_eq:
  "wait_block_release n c = (c - word_of_nat (references n), c = word_of_nat (references n))"
proof (cases n)
  case None
  then show ?thesis by (auto simp: wait_block_release_def wait_block_decrement_def)
next
  case (Some k)
  have "(ucast k :: ulonglong) = word_of_nat (unat k)" by (rule of_nat_unat [symmetric])
  then show ?thesis using Some by (simp add: wait_block_release_def wait_block_subtract_def)
qed

lemma word_nat_eq_iff: "a < 2 ^ 63 \<Longrightarrow> b < 2 ^ 63 \<Longrightarrow> word_of_nat a = (word_of_nat b :: ulonglong) \<longleftrightarrow> a = b"
  by (simp add: word_unat_eq_iff unat_of_nat_range)

lemma even_word_double: "even (word_of_nat (2 * n) :: ulonglong)"
  by simp

section \<open>Sums of updated lists\<close>

lemma sum_list_add:
  fixes xs :: "'a::ab_group_add list"
  shows "p < length xs \<Longrightarrow> sum_list (xs[p := xs ! p + x]) = sum_list xs + x"
  by (induction xs arbitrary: p) (auto simp: add.assoc add.commute add.left_commute split: nat.split)

lemma sum_list_drop_add:
  fixes xs :: "'a::ab_group_add list"
  assumes "p < length xs" "k \<le> p"
  shows "sum_list (drop k (xs[p := xs ! p + x])) = sum_list (drop k xs) + x"
proof -
  have "drop k (xs[p := xs ! p + x]) = (drop k xs)[p - k := drop k xs ! (p - k) + x]"
    using assms by (simp add: drop_update_swap)
  moreover have "p - k < length (drop k xs)" using assms by simp
  ultimately show ?thesis by (simp only: sum_list_add)
qed

lemma sum_list_user:
  fixes f :: "user \<Rightarrow> nat"
  shows "i < length us \<Longrightarrow> sum_list (map f (us[i := u])) + f (us ! i) = sum_list (map f us) + f u"
  by (induction us arbitrary: i) (auto split: nat.split)

section \<open>The invariant\<close>

definition held_total :: "rundown_state \<Rightarrow> nat" where
  "held_total s = sum_list (map user_held (users s))"

definition waking :: "rundown_state \<Rightarrow> nat" where
  "waking s = sum_list (map (\<lambda>u. of_bool (user_pc u = SetWakeEvent)) (users s))"

definition pending :: "user \<Rightarrow> nat" where
  "pending u = (case user_pc u of FastAcquire p v \<Rightarrow> 1 | AcquireLoad p n \<Rightarrow> references n
     | Acquire p n v \<Rightarrow> references n | _ \<Rightarrow> 0)"

definition pending_total :: "rundown_state \<Rightarrow> nat" where
  "pending_total s = sum_list (map pending (users s))"

text \<open>A thread: what its program counter says of its references, and of the wait block it is about to use.\<close>

definition user_ok :: "ulonglong \<Rightarrow> ulonglong list \<Rightarrow> user \<Rightarrow> bool" where
  "user_ok block refs u \<longleftrightarrow>
     (case user_pc u of
        Idle \<Rightarrow> True
      | FastAcquire p v \<Rightarrow> p < length refs \<and> \<not> rundown_active v
      | AcquireLoad p n \<Rightarrow> p < length refs \<and> count_ok n
      | Acquire p n v \<Rightarrow> p < length refs \<and> count_ok n
      | FastRelease p v \<Rightarrow> p < length refs \<and> \<not> rundown_active v \<and> 0 < user_held u
      | ReleaseLoad p n \<Rightarrow> p < length refs \<and> count_ok n \<and> references n \<le> user_held u
      | Release p n v \<Rightarrow> p < length refs \<and> count_ok n \<and> references n \<le> user_held u \<and>
          (rundown_active v \<longrightarrow> v = block OR EX_RUNDOWN_ACTIVE \<and> refs ! p = v)
      | Decrement p n b \<Rightarrow> p < length refs \<and> count_ok n \<and> references n \<le> user_held u \<and>
          b = block \<and> refs ! p = block OR EX_RUNDOWN_ACTIVE
      | SetWakeEvent \<Rightarrow> True)"

text \<open>
  The phase of the rundown: \<open>H\<close> references are held, \<open>W\<close> threads are about to set the event, and \<open>D\<close>
  references were given back to the wait block before their number was added.
\<close>

definition phase :: "ulonglong \<Rightarrow> ulonglong list \<Rightarrow> ulonglong \<Rightarrow> bool \<Rightarrow> owner_pc \<Rightarrow> nat \<Rightarrow> nat \<Rightarrow> nat \<Rightarrow> bool" where
  "phase block refs count event pc H W D \<longleftrightarrow>
     (case pc of
        OwnerIdle \<Rightarrow> W = 0 \<and>
          ((\<forall>v \<in> set refs. \<not> rundown_active v) \<and> sum_list refs = word_of_nat (2 * H) \<or>
           refs = [EX_RUNDOWN_ACTIVE] \<and> H = 0)
      | WaitEntry \<Rightarrow> W = 0 \<and> length refs = 1 \<and>
          (\<forall>v \<in> set refs. \<not> rundown_active v) \<and> sum_list refs = word_of_nat (2 * H)
      | WaitSlow v event' \<Rightarrow> W = 0 \<and> length refs = 1 \<and> \<not> rundown_active v \<and> (event' \<longrightarrow> \<not> event) \<and>
          (\<forall>v \<in> set refs. \<not> rundown_active v) \<and> sum_list refs = word_of_nat (2 * H)
      | MarkLoad k acc \<Rightarrow> W = 0 \<and> k \<le> length refs \<and> (\<forall>v \<in> set (take k refs). v = block OR EX_RUNDOWN_ACTIVE) \<and>
          (\<forall>v \<in> set (drop k refs). \<not> rundown_active v) \<and>
          acc + sum_list (drop k refs) = word_of_nat (2 * (H + D)) \<and> count = - word_of_nat D
      | Mark k acc v \<Rightarrow> W = 0 \<and> k < length refs \<and> \<not> rundown_active v \<and>
          (\<forall>v \<in> set (take k refs). v = block OR EX_RUNDOWN_ACTIVE) \<and>
          (\<forall>v \<in> set (drop k refs). \<not> rundown_active v) \<and>
          acc + sum_list (drop k refs) = word_of_nat (2 * (H + D)) \<and> count = - word_of_nat D
      | AddCount n \<Rightarrow> W = 0 \<and> \<not> event \<and> (\<forall>v \<in> set refs. v = block OR EX_RUNDOWN_ACTIVE) \<and> n = word_of_nat (H + D) \<and>
          0 < H + D \<and> count = - word_of_nat D
      | Waiting \<Rightarrow> (\<forall>v \<in> set refs. v = block OR EX_RUNDOWN_ACTIVE) \<and> count = word_of_nat H \<and>
          W + of_bool event = of_bool (H = 0)
      | RundownDone \<Rightarrow> W = 0 \<and> (\<forall>v \<in> set refs. rundown_active v) \<and> H = 0)"

definition rundown_inv :: "ulonglong \<Rightarrow> rundown_state \<Rightarrow> bool" where
  "rundown_inv block s \<longleftrightarrow> run_refs s \<noteq> [] \<and> (\<forall>u \<in> set (users s). user_ok block (run_refs s) u) \<and>
     (\<exists>D. held_total s + pending_total s + D \<le> issued s \<and> issued s < 2 ^ 62 \<and>
        phase block (run_refs s) (wait_count s) (wake_event s) (owner s) (held_total s) (waking s) D)"

text \<open>The phases in which a reference is marked, and not.\<close>

lemma phase_unmarked:
  assumes "phase block refs count event pc H W D" "p < length refs" "\<not> rundown_active (refs ! p)" "\<not> rundown_active block"
  shows "pc \<in> {OwnerIdle, WaitEntry} \<or> (\<exists>v e. pc = WaitSlow v e) \<or> (\<exists>k acc. pc = MarkLoad k acc \<and> k \<le> p) \<or>
    (\<exists>k acc v. pc = Mark k acc v \<and> k \<le> p)"
proof -
  have "refs ! p \<noteq> block OR EX_RUNDOWN_ACTIVE" using assms(3,4) active_block by metis
  moreover have "refs ! p \<in> set (take k refs)" if "p < k" for k using assms(2) that by (auto simp: in_set_conv_nth)
  moreover have "refs ! p \<in> set refs" using assms(2) by simp
  ultimately show ?thesis using assms(1,3) unfolding phase_def
    by (cases pc) (auto simp: not_less [symmetric])
qed

text \<open>An unmarked reference changes by the references that are acquired or released there.\<close>

lemma phase_exchange:
  assumes "phase block refs count event pc H W D" "p < length refs" "\<not> rundown_active (refs ! p)" "\<not> rundown_active block"
    "even x" "word_of_nat (2 * H') = word_of_nat (2 * H) + x"
  shows "phase block (refs[p := refs ! p + x]) count event pc H' W D"
proof -
  let ?r = "refs[p := refs ! p + x]"
  have odd: "\<not> rundown_active (refs ! p + x)" using assms(3,5) by (simp add: rundown_active_odd)
  have all: "\<forall>v \<in> set ?r. \<not> rundown_active v" if "\<forall>v \<in> set refs. \<not> rundown_active v"
    using that odd set_update_subset_insert [of refs p "refs ! p + x"] by blast
  have drop: "\<forall>v \<in> set (drop k ?r). \<not> rundown_active v" if "\<forall>v \<in> set (drop k refs). \<not> rundown_active v" "k \<le> p" for k
  proof -
    have "drop k ?r = (drop k refs)[p - k := refs ! p + x]" using that(2) by (simp add: drop_update_swap)
    then show ?thesis using that(1) odd set_update_subset_insert [of "drop k refs" "p - k" "refs ! p + x"] by auto
  qed
  have take: "take k ?r = take k refs" if "k \<le> p" for k using that by simp
  have sum: "sum_list ?r = sum_list refs + x" "k \<le> p \<Longrightarrow> sum_list (drop k ?r) = sum_list (drop k refs) + x" for k
    using assms(2) by (simp_all only: sum_list_add sum_list_drop_add)
  have hd: "refs \<noteq> [EX_RUNDOWN_ACTIVE]" using assms(2,3) by (auto simp: rundown_active_odd EX_RUNDOWN_ACTIVE_def)
  have "word_of_nat (2 * (H' + D)) = word_of_nat (2 * H') + (word_of_nat (2 * D) :: ulonglong)"
    "word_of_nat (2 * (H + D)) = word_of_nat (2 * H) + (word_of_nat (2 * D) :: ulonglong)" by simp_all
  then have D: "word_of_nat (2 * (H' + D)) = word_of_nat (2 * (H + D)) + x" using assms(6) by (simp only: ac_simps)
  from phase_unmarked [OF assms(1-4)]
  consider "pc = OwnerIdle" | "pc = WaitEntry" | v e where "pc = WaitSlow v e" | k acc where "pc = MarkLoad k acc" "k \<le> p"
    | k acc v where "pc = Mark k acc v" "k \<le> p" by blast
  then show ?thesis
  proof cases
    case 1
    then show ?thesis using assms(1,6) hd all sum(1) by (simp add: phase_def del: of_nat_mult)
  next
    case 2
    then show ?thesis using assms(1,6) all sum(1) by (simp add: phase_def del: of_nat_mult)
  next
    case 3
    then show ?thesis using assms(1,6) all sum(1) by (simp add: phase_def del: of_nat_mult)
  next
    case 4
    have "acc + (sum_list (drop k refs) + x) = acc + sum_list (drop k refs) + x" by (simp add: add.assoc)
    then show ?thesis using assms(1) D drop [OF _ 4(2)] take [OF 4(2)] sum(2) [OF 4(2)]
      unfolding phase_def 4(1) owner_pc.case by (simp only: length_list_update simp_thms) blast
  next
    case 5
    have "acc + (sum_list (drop k refs) + x) = acc + sum_list (drop k refs) + x" by (simp add: add.assoc)
    then show ?thesis using assms(1) D drop [OF _ 5(2)] take [OF 5(2)] sum(2) [OF 5(2)]
      unfolding phase_def 5(1) owner_pc.case by (simp only: length_list_update simp_thms) blast
  qed
qed

text \<open>A marked reference means that references go back to the wait block.\<close>

lemma phase_decrement:
  assumes "phase block refs count event pc H W D" "p < length refs" "refs ! p = block OR EX_RUNDOWN_ACTIVE"
    "\<not> rundown_active block" "0 < m" "m \<le> H" "H + D < 2 ^ 62"
  shows "\<exists>D'. H - m + D' \<le> H + D \<and>
    phase block refs (count - word_of_nat m) event pc (H - m) (W + of_bool (count = word_of_nat m)) D'"
proof -
  have odd: "rundown_active (refs ! p)" using active_block [OF assms(4)] assms(3) by simp
  have ne: "- word_of_nat D \<noteq> (word_of_nat m :: ulonglong)"
  proof
    assume eq: "- word_of_nat D = (word_of_nat m :: ulonglong)"
    have "word_of_nat (m + D) = (word_of_nat m :: ulonglong) + word_of_nat D" by (rule of_nat_add)
    also have "\<dots> = word_of_nat 0" unfolding eq [symmetric] by simp
    finally have "word_of_nat (m + D) = (word_of_nat 0 :: ulonglong)" .
    moreover have "m + D < 2 ^ 63" using assms(6,7) by simp
    ultimately have "m + D = 0" by (subst (asm) word_nat_eq_iff) simp_all
    then show False using assms(5) by simp
  qed
  have sum: "H - m + (D + m) = H + D" "- word_of_nat D - word_of_nat m = - (word_of_nat (D + m) :: ulonglong)"
    using assms(6) by simp_all
  have mem: "refs ! p \<in> set refs" using assms(2) by simp
  have "H \<noteq> 0" using assms(5,6) by simp
  consider (mark) "(\<exists>k acc. pc = MarkLoad k acc) \<or> (\<exists>k acc v. pc = Mark k acc v) \<or> (\<exists>n. pc = AddCount n)"
    | (wait) "pc = Waiting"
    using assms(1) odd mem \<open>H \<noteq> 0\<close> unfolding phase_def by (cases pc) auto
  then show ?thesis
  proof cases
    case mark
    then have "count = - word_of_nat D" using assms(1) by (auto simp: phase_def)
    then have "phase block refs (count - word_of_nat m) event pc (H - m) (W + of_bool (count = word_of_nat m)) (D + m)"
      using mark assms(1) sum ne unfolding phase_def
      by (elim disjE exE) (simp_all only: owner_pc.case of_bool_eq add_0_right simp_thms, auto)
    then show ?thesis using sum(1) by (intro exI [of _ "D + m"]) simp
  next
    case wait
    have lt: "H < 2 ^ 63" "m < 2 ^ 63" using assms(6,7) by simp_all
    have c: "count = word_of_nat H" using assms(1) wait by (simp add: phase_def)
    then have "count = word_of_nat m \<longleftrightarrow> H = m" using word_nat_eq_iff [OF lt] by simp
    moreover have "W + of_bool event = 0" using assms(1) wait \<open>H \<noteq> 0\<close> by (simp add: phase_def)
    moreover have "count - word_of_nat m = word_of_nat (H - m)" using c assms(6) by simp
    ultimately have "phase block refs (count - word_of_nat m) event pc (H - m) (W + of_bool (count = word_of_nat m)) D"
      using assms(1,6) wait by (auto simp: phase_def)
    then show ?thesis by (intro exI [of _ D]) simp
  qed
qed

lemma phase_wake:
  assumes "phase block refs count event pc H W D" "0 < W"
  shows "pc = Waiting \<and> phase block refs count True pc H (W - 1) D"
  using assms unfolding phase_def by (cases pc; cases event; cases "H = 0") auto


section \<open>Steps of the threads\<close>

lemma set_simps [simp]:
  "users (set_ref p v s) = users s" "run_refs (set_ref p v s) = (run_refs s)[p := v]"
  "wait_count (set_ref p v s) = wait_count s" "wake_event (set_ref p v s) = wake_event s"
  "owner (set_ref p v s) = owner s" "issued (set_ref p v s) = issued s"
  "run_refs (set_user i q s) = run_refs s" "wait_count (set_user i q s) = wait_count s"
  "wake_event (set_user i q s) = wake_event s" "owner (set_user i q s) = owner s" "issued (set_user i q s) = issued s"
  "run_refs (set_held i h s) = run_refs s" "wait_count (set_held i h s) = wait_count s"
  "wake_event (set_held i h s) = wake_event s" "owner (set_held i h s) = owner s" "issued (set_held i h s) = issued s"
  "users (set_user i q s) = (users s)[i := (users s ! i)\<lparr>user_pc := q\<rparr>]"
  by (simp_all add: set_ref_def set_user_def set_held_def)

lemma users_set_held [simp]:
  "i < length (users s) \<Longrightarrow>
   users (set_held i h (set_user i q s)) = (users s)[i := (users s ! i)\<lparr>user_pc := q, user_held := h\<rparr>]"
  by (simp add: set_held_def)

text \<open>The totals after the thread \<open>i\<close> has changed.\<close>

lemma totals_update:
  assumes "i < length (users s)" "users s' = (users s)[i := u]"
  shows "held_total s' + user_held (users s ! i) = held_total s + user_held u"
    "pending_total s' + pending (users s ! i) = pending_total s + pending u"
    "waking s' + of_bool (user_pc (users s ! i) = SetWakeEvent) = waking s + of_bool (user_pc u = SetWakeEvent)"
  unfolding held_total_def pending_total_def waking_def assms(2) by (rule sum_list_user [OF assms(1)])+

lemma held_le_total: "u \<in> set (users s) \<Longrightarrow> user_held u \<le> held_total s"
  unfolding held_total_def by (intro member_le_sum_list) simp_all

lemma waking_pos: "u \<in> set (users s) \<Longrightarrow> user_pc u = SetWakeEvent \<Longrightarrow> 0 < waking s"
  unfolding waking_def using member_le_sum_list [of 1 "map (\<lambda>u. of_bool (user_pc u = SetWakeEvent)) (users s)"] by force

lemma user_ok_mono:
  assumes "user_ok block refs u" "length refs' = length refs"
    "\<And>q. q < length refs \<Longrightarrow> refs ! q = block OR EX_RUNDOWN_ACTIVE \<Longrightarrow> refs' ! q = block OR EX_RUNDOWN_ACTIVE"
  shows "user_ok block refs' u"
  using assms unfolding user_ok_def by (cases "user_pc u") auto

text \<open>A change of the thread \<open>i\<close>, given its effect on the phase.\<close>

lemma inv_update:
  assumes "rundown_inv block s" "i < length (users s)" "users s' = (users s)[i := u]" "length (run_refs s') = length (run_refs s)"
    "\<And>q. q < length (run_refs s) \<Longrightarrow> run_refs s ! q = block OR EX_RUNDOWN_ACTIVE \<Longrightarrow>
       run_refs s' ! q = block OR EX_RUNDOWN_ACTIVE"
    "user_ok block (run_refs s') u"
    "\<And>D. phase block (run_refs s) (wait_count s) (wake_event s) (owner s) (held_total s) (waking s) D \<Longrightarrow>
       held_total s + pending_total s + D \<le> issued s \<Longrightarrow> issued s < 2 ^ 62 \<Longrightarrow>
       \<exists>D'. held_total s' + pending_total s' + D' \<le> issued s' \<and> issued s' < 2 ^ 62 \<and>
         phase block (run_refs s') (wait_count s') (wake_event s') (owner s') (held_total s') (waking s') D'"
  shows "rundown_inv block s'"
proof -
  have "\<forall>u \<in> set (users s'). user_ok block (run_refs s') u"
    using assms(1,3,6) user_ok_mono [OF _ assms(4,5)] set_update_subset_insert [of "users s" i u]
    unfolding rundown_inv_def by auto
  moreover have "run_refs s' \<noteq> []" using assms(1,4) unfolding rundown_inv_def by force
  ultimately show ?thesis using assms(1,7) unfolding rundown_inv_def by blast
qed

text \<open>The four kinds of change: a local one, an exchange that acquires, one that releases, one of the wait block.\<close>

lemma inv_local:
  assumes "rundown_inv block s" "i < length (users s)" "users s' = (users s)[i := u]" "run_refs s' = run_refs s"
    "wait_count s' = wait_count s" "wake_event s' = wake_event s" "owner s' = owner s" "issued s' < 2 ^ 62"
    "user_held u = user_held (users s ! i)" "pending u + issued s \<le> pending (users s ! i) + issued s'"
    "user_pc u \<noteq> SetWakeEvent" "user_pc (users s ! i) \<noteq> SetWakeEvent" "user_ok block (run_refs s) u"
  shows "rundown_inv block s'"
proof (rule inv_update [OF assms(1-3)])
  fix D
  assume D: "phase block (run_refs s) (wait_count s) (wake_event s) (owner s) (held_total s) (waking s) D"
    "held_total s + pending_total s + D \<le> issued s"
  have "held_total s' = held_total s" "waking s' = waking s"
    "pending_total s' + pending (users s ! i) = pending_total s + pending u"
    using totals_update [OF assms(2,3)] assms(9,11,12) by simp_all
  then show "\<exists>D'. held_total s' + pending_total s' + D' \<le> issued s' \<and> issued s' < 2 ^ 62 \<and>
      phase block (run_refs s') (wait_count s') (wake_event s') (owner s') (held_total s') (waking s') D'"
    using D assms(4-8,10) by (intro exI [of _ D]) simp
qed (use assms in simp_all)

lemma inv_exchange:
  assumes "rundown_inv block s" "\<not> rundown_active block" "i < length (users s)" "users s' = (users s)[i := u]"
    "p < length (run_refs s)" "\<not> rundown_active (run_refs s ! p)" "even x" "run_refs s' = (run_refs s)[p := run_refs s ! p + x]"
    "wait_count s' = wait_count s" "wake_event s' = wake_event s" "owner s' = owner s" "issued s' = issued s"
    "user_held u + pending u \<le> user_held (users s ! i) + pending (users s ! i)"
    "word_of_nat (2 * user_held u) = word_of_nat (2 * user_held (users s ! i)) + x"
    "user_pc u = Idle" "user_pc (users s ! i) \<noteq> SetWakeEvent"
  shows "rundown_inv block s'"
proof (rule inv_update [OF assms(1,3,4)])
  fix D
  assume D: "phase block (run_refs s) (wait_count s) (wake_event s) (owner s) (held_total s) (waking s) D"
    "held_total s + pending_total s + D \<le> issued s" "issued s < 2 ^ 62"
  note totals = totals_update [OF assms(3,4)]
  have w: "waking s' = waking s" using totals(3) assms(15,16) by simp
  have "word_of_nat (2 * held_total s') + word_of_nat (2 * user_held (users s ! i)) =
      word_of_nat (2 * held_total s) + (word_of_nat (2 * user_held u) :: ulonglong)"
    using arg_cong [OF totals(1), of "\<lambda>n. word_of_nat (2 * n) :: ulonglong"] by (simp add: distrib_left)
  then have "word_of_nat (2 * held_total s') = word_of_nat (2 * held_total s) + x"
    unfolding assms(14) by (simp add: algebra_simps)
  from phase_exchange [OF D(1) assms(5,6,2,7) this]
  show "\<exists>D'. held_total s' + pending_total s' + D' \<le> issued s' \<and> issued s' < 2 ^ 62 \<and>
      phase block (run_refs s') (wait_count s') (wake_event s') (owner s') (held_total s') (waking s') D'"
    using D totals(1,2) assms(8-13) w by (intro exI [of _ D]) simp
next
  fix q
  assume "q < length (run_refs s)" "run_refs s ! q = block OR EX_RUNDOWN_ACTIVE"
  then show "run_refs s' ! q = block OR EX_RUNDOWN_ACTIVE"
    using assms(2,6,8) active_block(1) by (cases "q = p") auto
qed (use assms in \<open>simp_all add: user_ok_def\<close>)

lemma inv_decrement:
  assumes "rundown_inv block s" "\<not> rundown_active block" "i < length (users s)" "users s' = (users s)[i := u]"
    "p < length (run_refs s)" "run_refs s ! p = block OR EX_RUNDOWN_ACTIVE" "0 < m" "m \<le> user_held (users s ! i)"
    "run_refs s' = run_refs s" "wait_count s' = wait_count s - word_of_nat m" "wake_event s' = wake_event s"
    "owner s' = owner s" "issued s' = issued s" "user_held u = user_held (users s ! i) - m"
    "user_pc u = (if wait_count s = word_of_nat m then SetWakeEvent else Idle)"
    "user_pc (users s ! i) \<noteq> SetWakeEvent" "pending (users s ! i) = 0"
  shows "rundown_inv block s'"
proof (rule inv_update [OF assms(1,3,4)])
  fix D
  assume D: "phase block (run_refs s) (wait_count s) (wake_event s) (owner s) (held_total s) (waking s) D"
    "held_total s + pending_total s + D \<le> issued s" "issued s < 2 ^ 62"
  note totals = totals_update [OF assms(3,4)]
  have "user_held (users s ! i) \<le> held_total s" using assms(3) by (simp add: held_le_total)
  then have H: "m \<le> held_total s" "held_total s' = held_total s - m" using totals(1) assms(8,14) by simp_all
  have W: "waking s' = waking s + of_bool (wait_count s = word_of_nat m)" using totals(3) assms(15,16) by simp
  have A: "pending_total s' = pending_total s" using totals(2) assms(15,17) by (simp add: pending_def)
  have "held_total s + D < 2 ^ 62" using D(2,3) by simp
  from phase_decrement [OF D(1) assms(5,6,2,7) H(1) this]
  obtain D' where "held_total s - m + D' \<le> held_total s + D"
    "phase block (run_refs s) (wait_count s - word_of_nat m) (wake_event s) (owner s) (held_total s - m)
       (waking s + of_bool (wait_count s = word_of_nat m)) D'" by blast
  then show "\<exists>D'. held_total s' + pending_total s' + D' \<le> issued s' \<and> issued s' < 2 ^ 62 \<and>
      phase block (run_refs s') (wait_count s') (wake_event s') (owner s') (held_total s') (waking s') D'"
    using D(2,3) H(2) W A assms(9-13) by (intro exI [of _ D']) simp
qed (use assms in \<open>simp_all add: user_ok_def\<close>)

lemma inv_wake:
  assumes "rundown_inv block s" "i < length (users s)" "user_pc (users s ! i) = SetWakeEvent"
  shows "rundown_inv block (set_user i Idle (s\<lparr>wake_event := True\<rparr>))"
proof (rule inv_update [OF assms(1,2), where u = "(users s ! i)\<lparr>user_pc := Idle\<rparr>"])
  let ?s = "set_user i Idle (s\<lparr>wake_event := True\<rparr>)" and ?u = "(users s ! i)\<lparr>user_pc := Idle\<rparr>"
  fix D
  assume D: "phase block (run_refs s) (wait_count s) (wake_event s) (owner s) (held_total s) (waking s) D"
    "held_total s + pending_total s + D \<le> issued s" "issued s < 2 ^ 62"
  have users: "users ?s = (users s)[i := ?u]" by simp
  note totals = totals_update [OF assms(2) users]
  have "0 < waking s" using assms(2,3) by (intro waking_pos [of "users s ! i"]) simp_all
  moreover from totals(3) assms(3) have "waking ?s = waking s - 1" by simp
  ultimately have w: "0 < waking s" "waking s - 1 = waking ?s" by simp_all
  from conjunct2 [OF phase_wake [OF D(1) w(1)]] show "\<exists>D'. held_total ?s + pending_total ?s + D' \<le> issued ?s \<and> issued ?s < 2 ^ 62 \<and>
      phase block (run_refs ?s) (wait_count ?s) (wake_event ?s) (owner ?s) (held_total ?s) (waking ?s) D'"
    using D(2,3) totals(1,2) assms(3) unfolding w(2) by (intro exI [of _ D]) (simp add: pending_def)
qed (use assms in \<open>simp_all add: user_ok_def\<close>)


lemma inv_user_ok: "rundown_inv block s \<Longrightarrow> i < length (users s) \<Longrightarrow> user_ok block (run_refs s) (users s ! i)"
  by (simp add: rundown_inv_def)

lemma inv_issued: "rundown_inv block s \<Longrightarrow> issued s < 2 ^ 62"
  by (auto simp: rundown_inv_def)

text \<open>While references are held, the active bit of a reference comes with the address of the wait block.\<close>

lemma inv_active_ref:
  assumes "rundown_inv block s" "\<not> rundown_active block" "p < length (run_refs s)" "rundown_active (run_refs s ! p)"
    "0 < held_total s"
  shows "run_refs s ! p = block OR EX_RUNDOWN_ACTIVE"
proof -
  obtain D where ph: "phase block (run_refs s) (wait_count s) (wake_event s) (owner s) (held_total s) (waking s) D"
    using assms(1) by (auto simp: rundown_inv_def)
  have mem: "run_refs s ! p \<in> set (run_refs s)" using assms(3) by simp
  have split: "run_refs s ! p \<in> set (take k (run_refs s)) \<or> run_refs s ! p \<in> set (drop k (run_refs s))" for k
    using mem append_take_drop_id [of k "run_refs s"] by (metis UnE set_append)
  show ?thesis
  proof (cases "owner s")
    case (MarkLoad k acc)
    then show ?thesis using ph assms(4) split [of k] by (auto simp: phase_def)
  next
    case (Mark k acc v)
    then show ?thesis using ph assms(4) split [of k] by (auto simp: phase_def)
  qed (use ph assms(4,5) mem in \<open>auto simp: phase_def\<close>)
qed

lemma inv_user_continue:
  assumes inv: "rundown_inv block s" and block: "\<not> rundown_active block" and i: "i < length (users s)"
  shows "rundown_inv block (user_continue i s)"
proof -
  let ?u = "users s ! i"
  note ok = inv_user_ok [OF inv i] and issued = inv_issued [OF inv]
  have held: "0 < user_held ?u \<Longrightarrow> 0 < held_total s" using held_le_total [of ?u s] i by simp
  show ?thesis
  proof (cases "user_pc ?u")
    case Idle
    then show ?thesis using inv by (simp add: user_continue_def)
  next
    case (FastAcquire p v)
    then have p: "p < length (run_refs s)" "\<not> rundown_active v" using ok by (simp_all add: user_ok_def)
    show ?thesis
    proof (cases "run_refs s ! p = v")
      case True
      then show ?thesis
        by (intro inv_exchange [OF inv block i, where p = p and x = 2 and u = "?u\<lparr>user_pc := Idle, user_held := user_held ?u + 1\<rparr>"])
          (use i p FastAcquire in \<open>simp_all add: user_continue_def Let_def ExAcquireRundownProtection_fast_def
             InterlockedCompareExchange_def count_inc pending_def\<close>)
    next
      case False
      then show ?thesis
        by (intro inv_local [OF inv i, where u = "?u\<lparr>user_pc := AcquireLoad p None\<rparr>"])
          (use p FastAcquire issued in \<open>simp_all add: user_continue_def Let_def ExAcquireRundownProtection_fast_def
             InterlockedCompareExchange_def pending_def user_ok_def\<close>)
    qed
  next
    case (AcquireLoad p n)
    then show ?thesis
      by (intro inv_local [OF inv i, where u = "?u\<lparr>user_pc := Acquire p n (run_refs s ! p)\<rparr>"])
        (use ok issued in \<open>simp_all add: user_continue_def Let_def pending_def user_ok_def\<close>)
  next
    case (Acquire p n v)
    then have p: "p < length (run_refs s)" "count_ok n" using ok by (simp_all add: user_ok_def)
    consider "rundown_active v" | "\<not> rundown_active v" "run_refs s ! p = v" | "\<not> rundown_active v" "run_refs s ! p \<noteq> v" by blast
    then show ?thesis
    proof cases
      case 1
      then show ?thesis
        by (intro inv_local [OF inv i, where u = "?u\<lparr>user_pc := Idle\<rparr>"])
          (use p Acquire issued in \<open>simp_all add: user_continue_def Let_def acquire_turn_eq pending_def user_ok_def\<close>)
    next
      case 2
      then show ?thesis
        by (intro inv_exchange [OF inv block i, where p = p and x = "word_of_nat (2 * references n)"
              and u = "?u\<lparr>user_pc := Idle, user_held := user_held ?u + references n\<rparr>"])
          (use i p Acquire in \<open>simp_all add: user_continue_def Let_def acquire_turn_eq pending_def distrib_left\<close>)
    next
      case 3
      then show ?thesis
        by (intro inv_local [OF inv i, where u = "?u\<lparr>user_pc := Acquire p n (run_refs s ! p)\<rparr>"])
          (use p Acquire issued in \<open>simp_all add: user_continue_def Let_def acquire_turn_eq pending_def user_ok_def\<close>)
    qed
  next
    case (FastRelease p v)
    then have p: "p < length (run_refs s)" "\<not> rundown_active v" "0 < user_held ?u" using ok by (simp_all add: user_ok_def)
    show ?thesis
    proof (cases "run_refs s ! p = v")
      case True
      have "word_of_nat (2 * (user_held ?u - 1)) = word_of_nat (2 * user_held ?u) + (- 2 :: ulonglong)"
        using p(3) by (simp add: of_nat_diff algebra_simps)
      with True show ?thesis
        by (intro inv_exchange [OF inv block i, where p = p and x = "- 2" and u = "?u\<lparr>user_pc := Idle, user_held := user_held ?u - 1\<rparr>"])
          (use i p FastRelease in \<open>simp_all add: user_continue_def Let_def ExReleaseRundownProtection_fast_def
             InterlockedCompareExchange_def count_inc pending_def\<close>)
    next
      case False
      then show ?thesis
        by (intro inv_local [OF inv i, where u = "?u\<lparr>user_pc := ReleaseLoad p None\<rparr>"])
          (use p FastRelease issued in \<open>simp_all add: user_continue_def Let_def ExReleaseRundownProtection_fast_def
             InterlockedCompareExchange_def pending_def user_ok_def\<close>)
    qed
  next
    case (ReleaseLoad p n)
    then have p: "p < length (run_refs s)" "count_ok n" "references n \<le> user_held ?u" "0 < user_held ?u"
      using ok by (auto simp: user_ok_def count_ok_def)
    have "rundown_active (run_refs s ! p) \<Longrightarrow> run_refs s ! p = block OR EX_RUNDOWN_ACTIVE"
      using inv_active_ref [OF inv block p(1)] held p(4) by simp
    then show ?thesis
      by (intro inv_local [OF inv i, where u = "?u\<lparr>user_pc := Release p n (run_refs s ! p)\<rparr>"])
        (use p ReleaseLoad issued in \<open>simp_all add: user_continue_def Let_def pending_def user_ok_def\<close>)
  next
    case (Release p n v)
    then have p: "p < length (run_refs s)" "count_ok n" "references n \<le> user_held ?u" "0 < user_held ?u"
        and v: "rundown_active v \<longrightarrow> v = block OR EX_RUNDOWN_ACTIVE \<and> run_refs s ! p = v"
      using ok by (auto simp: user_ok_def count_ok_def)
    consider "rundown_active v" | "\<not> rundown_active v" "run_refs s ! p = v" | "\<not> rundown_active v" "run_refs s ! p \<noteq> v" by blast
    then show ?thesis
    proof cases
      case 1
      then show ?thesis
        by (intro inv_local [OF inv i, where u = "?u\<lparr>user_pc := Decrement p n block\<rparr>"])
          (use p v Release issued active_block [OF block] in
            \<open>simp_all add: user_continue_def Let_def release_turn_eq pending_def user_ok_def\<close>)
    next
      case 2
      have "word_of_nat (2 * (user_held ?u - references n)) = word_of_nat (2 * user_held ?u) + - (word_of_nat (2 * references n) :: ulonglong)"
        using p(3) by (simp add: of_nat_diff algebra_simps)
      with 2 show ?thesis
        by (intro inv_exchange [OF inv block i, where p = p and x = "- word_of_nat (2 * references n)"
              and u = "?u\<lparr>user_pc := Idle, user_held := user_held ?u - references n\<rparr>"])
          (use i p Release in \<open>simp_all add: user_continue_def Let_def release_turn_eq pending_def\<close>)
    next
      case 3
      have "rundown_active (run_refs s ! p) \<Longrightarrow> run_refs s ! p = block OR EX_RUNDOWN_ACTIVE"
        using inv_active_ref [OF inv block p(1)] held p(4) by simp
      with 3 show ?thesis
        by (intro inv_local [OF inv i, where u = "?u\<lparr>user_pc := Release p n (run_refs s ! p)\<rparr>"])
          (use p Release issued in \<open>simp_all add: user_continue_def Let_def release_turn_eq pending_def user_ok_def\<close>)
    qed
  next
    case (Decrement p n b)
    then have p: "p < length (run_refs s)" "count_ok n" "references n \<le> user_held ?u" "run_refs s ! p = block OR EX_RUNDOWN_ACTIVE"
      using ok by (auto simp: user_ok_def)
    show ?thesis
      by (rule inv_decrement [OF inv block i _ p(1,4) _ p(3), where u = "?u\<lparr>user_pc := if wait_count s = word_of_nat (references n)
            then SetWakeEvent else Idle, user_held := user_held ?u - references n\<rparr>"])
        (use i p Decrement in \<open>simp_all add: user_continue_def Let_def wait_block_release_eq count_ok_def pending_def\<close>)
  next
    case SetWakeEvent
    then show ?thesis using inv_wake [OF inv i SetWakeEvent] by (simp add: user_continue_def Let_def)
  qed
qed


section \<open>Steps of the rundown thread\<close>

text \<open>A step that leaves the threads alone, given its effect on the phase.\<close>

lemma inv_owner:
  assumes "rundown_inv block s" "users s' = users s" "issued s' = issued s" "length (run_refs s') = length (run_refs s)"
    "held_total s = 0 \<or> (\<forall>q < length (run_refs s). run_refs s ! q = block OR EX_RUNDOWN_ACTIVE \<longrightarrow>
       run_refs s' ! q = block OR EX_RUNDOWN_ACTIVE)"
    "\<And>D. phase block (run_refs s) (wait_count s) (wake_event s) (owner s) (held_total s) (waking s) D \<Longrightarrow>
       held_total s + D < 2 ^ 62 \<Longrightarrow>
       \<exists>D' \<le> D. phase block (run_refs s') (wait_count s') (wake_event s') (owner s') (held_total s) (waking s) D'"
  shows "rundown_inv block s'"
proof -
  obtain D where D: "held_total s + pending_total s + D \<le> issued s" "issued s < 2 ^ 62"
    "phase block (run_refs s) (wait_count s) (wake_event s) (owner s) (held_total s) (waking s) D"
    using assms(1) by (auto simp: rundown_inv_def)
  have totals: "held_total s' = held_total s" "pending_total s' = pending_total s" "waking s' = waking s"
    using assms(2) by (simp_all add: held_total_def pending_total_def waking_def)
  obtain D' where D': "D' \<le> D" "phase block (run_refs s') (wait_count s') (wake_event s') (owner s') (held_total s) (waking s) D'"
    using assms(6) [OF D(3)] D(1,2) by auto
  have "user_ok block (run_refs s') u" if u: "u \<in> set (users s)" for u
  proof (cases "held_total s = 0")
    case True
    then have "user_held u = 0" using held_le_total [OF u] by simp
    then show ?thesis using assms(1,4) u unfolding rundown_inv_def user_ok_def count_ok_def
      by (cases "user_pc u") force+
  next
    case False
    then show ?thesis using assms(1,4,5) u user_ok_mono by (auto simp: rundown_inv_def)
  qed
  moreover have "run_refs s' \<noteq> []" using assms(1,4) unfolding rundown_inv_def by force
  moreover have "held_total s' + pending_total s' + D' \<le> issued s' \<and> issued s' < 2 ^ 62 \<and>
      phase block (run_refs s') (wait_count s') (wake_event s') (owner s') (held_total s') (waking s') D'"
    using D D' totals assms(3) by simp
  ultimately show ?thesis unfolding rundown_inv_def assms(2) by blast
qed

text \<open>A single reference that is not active is twice the number of references.\<close>

lemma single_ref:
  fixes refs :: "ulonglong list"
  assumes "length refs = 1" "sum_list refs = word_of_nat (2 * H)" "H < 2 ^ 62"
  shows "unat (refs ! 0) = 2 * H" "drop_bit EX_RUNDOWN_COUNT_SHIFT (refs ! 0) = word_of_nat H"
    "refs ! 0 = 0 \<longleftrightarrow> H = 0"
proof -
  obtain v where v: "refs = [v]" using assms(1) by (cases refs) auto
  then have "v = word_of_nat (2 * H)" using assms(2) by simp
  moreover have "unat (word_of_nat (2 * H) :: ulonglong) = 2 * H" using assms(3) by (intro unat_of_nat_range) simp
  ultimately show u: "unat (refs ! 0) = 2 * H" using v by (simp only: nth_Cons_0)
  have "unat (drop_bit EX_RUNDOWN_COUNT_SHIFT v) = H"
    using u v by (simp add: EX_RUNDOWN_COUNT_SHIFT_def unat_drop_bit_eq drop_bit_eq_div unat_div_distrib)
  then show "drop_bit EX_RUNDOWN_COUNT_SHIFT (refs ! 0) = word_of_nat H"
    using v by (metis nth_Cons_0 word_nat_cases unat_of_nat_range of_nat_unat ucast_id)
  show "refs ! 0 = 0 \<longleftrightarrow> H = 0" using u by (metis unat_eq_zero mult_eq_0_iff zero_neq_numeral)
qed

lemma not_block_zero: "\<not> rundown_active block \<Longrightarrow> block OR EX_RUNDOWN_ACTIVE \<noteq> 0"
proof
  assume "\<not> rundown_active block" "block OR EX_RUNDOWN_ACTIVE = 0"
  then have "rundown_active 0" using active_block(1) [of block] by simp
  then show False by (simp add: rundown_active_odd)
qed

lemma inv_fast_path:
  assumes inv: "rundown_inv block s" and block: "\<not> rundown_active block"
    and len: "length (run_refs s) = 1" and pc: "owner s \<in> {OwnerIdle, WaitEntry}"
    and next_ok: "next = WaitEntry \<or> next = WaitSlow (run_refs s ! 0) False"
  shows "rundown_inv block (rundown_fast_path next s)"
proof -
  obtain v where v: "run_refs s = [v]" using len by (cases "run_refs s") auto
  show ?thesis
  proof (rule inv_owner [OF inv])
    fix D
    assume ph: "phase block (run_refs s) (wait_count s) (wake_event s) (owner s) (held_total s) (waking s) D"
      and H: "held_total s + D < 2 ^ 62"
    have "waking s = 0 \<and> (\<not> rundown_active v \<and> v = word_of_nat (2 * held_total s) \<or> v = EX_RUNDOWN_ACTIVE \<and> held_total s = 0)"
      using ph pc v by (auto simp: phase_def)
    moreover have "v = 0 \<longleftrightarrow> held_total s = 0" if "v = word_of_nat (2 * held_total s)"
      using single_ref(3) [of "[v]" "held_total s"] that H by simp
    moreover have "rundown_active EX_RUNDOWN_ACTIVE" "EX_RUNDOWN_ACTIVE \<noteq> 0" by (simp_all add: rundown_active_odd EX_RUNDOWN_ACTIVE_def)
    ultimately show "\<exists>D' \<le> D. phase block (run_refs (rundown_fast_path next s)) (wait_count (rundown_fast_path next s))
        (wake_event (rundown_fast_path next s)) (owner (rundown_fast_path next s)) (held_total s) (waking s) D'"
      using v next_ok by (intro exI [of _ D])
        (auto simp: rundown_fast_path_def Let_def InterlockedCompareExchange_def phase_def split: if_splits)
  next
    show "held_total s = 0 \<or> (\<forall>q < length (run_refs s). run_refs s ! q = block OR EX_RUNDOWN_ACTIVE \<longrightarrow>
       run_refs (rundown_fast_path next s) ! q = block OR EX_RUNDOWN_ACTIVE)"
      using v not_block_zero [OF block]
      by (auto simp: rundown_fast_path_def Let_def InterlockedCompareExchange_def)
  qed (simp_all add: rundown_fast_path_def Let_def InterlockedCompareExchange_def)
qed


lemma inv_slow_path:
  assumes inv: "rundown_inv block s" and block: "\<not> rundown_active block" and pc: "owner s = WaitSlow v event"
  shows "rundown_inv block (ExfWaitForRundownProtectionRelease_turn block v event s)"
proof -
  let ?s = "ExfWaitForRundownProtectionRelease_turn block v event s"
  obtain D0 where "phase block (run_refs s) (wait_count s) (wake_event s) (owner s) (held_total s) (waking s) D0"
    using inv by (auto simp: rundown_inv_def)
  then have "length (run_refs s) = 1" "\<not> rundown_active v" using pc by (auto simp: phase_def)
  then obtain r where r: "run_refs s = [r]" "\<not> rundown_active v" by (cases "run_refs s") auto
  let ?count = "drop_bit EX_RUNDOWN_COUNT_SHIFT v"
  show ?thesis
  proof (rule inv_owner [OF inv])
    fix D
    assume ph: "phase block (run_refs s) (wait_count s) (wake_event s) (owner s) (held_total s) (waking s) D"
      and H: "held_total s + D < 2 ^ 62"
    then have r': "\<not> rundown_active r" "r = word_of_nat (2 * held_total s)" "waking s = 0" "event \<longrightarrow> \<not> wake_event s"
      using pc r by (auto simp: phase_def)
    show "\<exists>D' \<le> D. phase block (run_refs ?s) (wait_count ?s) (wake_event ?s) (owner ?s) (held_total s) (waking s) D'"
    proof (cases "r = v")
      case True
      have count: "?count = word_of_nat (held_total s)" "?count > 0 \<longleftrightarrow> held_total s \<noteq> 0"
        using single_ref(2) [of "[r]" "held_total s"] r' H True word_nat_eq_iff [of "held_total s" 0]
        by (simp_all add: word_gt_0)
      then show ?thesis using True r r' active_block(1) [OF block]
        by (intro exI [of _ D]) (auto simp: ExfWaitForRundownProtectionRelease_turn_def Let_def
            InterlockedCompareExchange_def phase_def)
    next
      case False
      then show ?thesis using r r'
        by (intro exI [of _ D]) (auto simp: ExfWaitForRundownProtectionRelease_turn_def Let_def
            InterlockedCompareExchange_def phase_def)
    qed
  next
    show "held_total s = 0 \<or> (\<forall>q < length (run_refs s). run_refs s ! q = block OR EX_RUNDOWN_ACTIVE \<longrightarrow>
       run_refs ?s ! q = block OR EX_RUNDOWN_ACTIVE)"
      using r by (auto simp: ExfWaitForRundownProtectionRelease_turn_def Let_def InterlockedCompareExchange_def)
  qed (simp_all add: ExfWaitForRundownProtectionRelease_turn_def Let_def InterlockedCompareExchange_def)
qed

text \<open>The cache-aware routine: loading, marking and adding up.\<close>

lemma drop_Suc_sum:
  fixes xs :: "ulonglong list"
  assumes "k < length xs"
  shows "sum_list (drop k xs) = xs ! k + sum_list (drop (Suc k) xs)"
  using assms by (simp flip: Cons_nth_drop_Suc)

lemma inv_mark_load:
  assumes inv: "rundown_inv block s" and block: "\<not> rundown_active block" and pc: "owner s = MarkLoad k acc"
  shows "rundown_inv block (if k < length (run_refs s) then s\<lparr>owner := Mark k acc (run_refs s ! k)\<rparr> else marked_all acc s)"
    (is "rundown_inv block ?s")
proof (rule inv_owner [OF inv])
  fix D
  assume ph: "phase block (run_refs s) (wait_count s) (wake_event s) (owner s) (held_total s) (waking s) D"
    and H: "held_total s + D < 2 ^ 62"
  show "\<exists>D' \<le> D. phase block (run_refs ?s) (wait_count ?s) (wake_event ?s) (owner ?s) (held_total s) (waking s) D'"
  proof (cases "k < length (run_refs s)")
    case True
    then have "run_refs s ! k \<in> set (drop k (run_refs s))" by (simp flip: Cons_nth_drop_Suc)
    then show ?thesis using True ph pc by (intro exI [of _ D]) (auto simp: phase_def)
  next
    case False
    then have all: "\<forall>v \<in> set (run_refs s). v = block OR EX_RUNDOWN_ACTIVE" "acc = word_of_nat (2 * (held_total s + D))"
      "wait_count s = - word_of_nat D" "waking s = 0"
      using ph pc by (auto simp: phase_def)
    have acc: "drop_bit EX_RUNDOWN_COUNT_SHIFT acc = word_of_nat (held_total s + D)" "acc = 0 \<longleftrightarrow> held_total s + D = 0"
      using single_ref(2,3) [of "[acc]" "held_total s + D"] all(2) H by simp_all
    then show ?thesis using False all active_block(1) [OF block]
      by (intro exI [of _ D]) (auto simp: marked_all_def phase_def)
  qed
qed (auto simp: marked_all_def)

lemma inv_mark:
  assumes inv: "rundown_inv block s" and block: "\<not> rundown_active block" and pc: "owner s = Mark k acc v"
  shows "rundown_inv block (mark_turn block k acc v s)"
proof -
  obtain D0 where "phase block (run_refs s) (wait_count s) (wake_event s) (owner s) (held_total s) (waking s) D0"
    using inv by (auto simp: rundown_inv_def)
  then have k: "k < length (run_refs s)" "\<not> rundown_active v" "\<forall>v \<in> set (drop k (run_refs s)). \<not> rundown_active v"
    using pc by (auto simp: phase_def)
  then have ref: "\<not> rundown_active (run_refs s ! k)" by (simp flip: Cons_nth_drop_Suc)
  show ?thesis
  proof (rule inv_owner [OF inv])
    fix D
    assume ph: "phase block (run_refs s) (wait_count s) (wake_event s) (owner s) (held_total s) (waking s) D"
    let ?r = "(run_refs s)[k := block OR EX_RUNDOWN_ACTIVE]"
    have "take (Suc k) ?r = take k (run_refs s) @ [block OR EX_RUNDOWN_ACTIVE]"
      using k(1) by (simp add: take_Suc_conv_app_nth)
    moreover have "drop (Suc k) ?r = drop (Suc k) (run_refs s)" by simp
    moreover have "drop k (run_refs s) = run_refs s ! k # drop (Suc k) (run_refs s)" using k(1) by (simp flip: Cons_nth_drop_Suc)
    ultimately show "\<exists>D' \<le> D. phase block (run_refs (mark_turn block k acc v s)) (wait_count (mark_turn block k acc v s))
        (wake_event (mark_turn block k acc v s)) (owner (mark_turn block k acc v s)) (held_total s) (waking s) D'"
      using ph pc k ref by (intro exI [of _ D])
        (auto simp: mark_turn_def Let_def InterlockedCompareExchange_def phase_def add.assoc)
  next
    show "held_total s = 0 \<or> (\<forall>q < length (run_refs s). run_refs s ! q = block OR EX_RUNDOWN_ACTIVE \<longrightarrow>
       run_refs (mark_turn block k acc v s) ! q = block OR EX_RUNDOWN_ACTIVE)"
      using k(1) by (auto simp: mark_turn_def Let_def InterlockedCompareExchange_def nth_list_update)
  qed (simp_all add: mark_turn_def Let_def InterlockedCompareExchange_def)
qed

lemma inv_add_count:
  assumes inv: "rundown_inv block s" and block: "\<not> rundown_active block" and pc: "owner s = AddCount n"
  shows "rundown_inv block (add_count n s)"
proof (rule inv_owner [OF inv])
  fix D
  assume ph: "phase block (run_refs s) (wait_count s) (wake_event s) (owner s) (held_total s) (waking s) D"
    and H: "held_total s + D < 2 ^ 62"
  then have all: "\<forall>v \<in> set (run_refs s). v = block OR EX_RUNDOWN_ACTIVE" "n = word_of_nat (held_total s + D)"
      "wait_count s = - word_of_nat D" "waking s = 0" "\<not> wake_event s"
    using pc by (auto simp: phase_def)
  have "wait_count s = - n \<longleftrightarrow> D = held_total s + D"
    using word_nat_eq_iff [of D "held_total s + D"] H all(2,3) by (simp only: neg_equal_iff_equal) simp
  moreover have "wait_count s + n = word_of_nat (held_total s)" using all(2,3) by simp
  ultimately show "\<exists>D' \<le> D. phase block (run_refs (add_count n s)) (wait_count (add_count n s)) (wake_event (add_count n s))
      (owner (add_count n s)) (held_total s) (waking s) D'"
    using all active_block(1) [OF block] by (intro exI [of _ D]) (auto simp: add_count_def phase_def)
qed (simp_all add: add_count_def)

lemma inv_owner_continue:
  assumes inv: "rundown_inv block s" and block: "\<not> rundown_active block"
  shows "rundown_inv block (owner_continue block s)"
proof (cases "owner s")
  case WaitEntry
  obtain D where "phase block (run_refs s) (wait_count s) (wake_event s) (owner s) (held_total s) (waking s) D"
    using inv by (auto simp: rundown_inv_def)
  then have "length (run_refs s) = 1" using WaitEntry by (simp add: phase_def)
  from inv_fast_path [OF inv block this] WaitEntry show ?thesis by (simp add: owner_continue_def)
next
  case Waiting
  have "rundown_inv block (s\<lparr>wake_event := False, owner := RundownDone\<rparr>)" if "wake_event s"
  proof (rule inv_owner [OF inv])
    fix D
    assume "phase block (run_refs s) (wait_count s) (wake_event s) (owner s) (held_total s) (waking s) D"
    then show "\<exists>D' \<le> D. phase block (run_refs (s\<lparr>wake_event := False, owner := RundownDone\<rparr>))
        (wait_count (s\<lparr>wake_event := False, owner := RundownDone\<rparr>)) (wake_event (s\<lparr>wake_event := False, owner := RundownDone\<rparr>))
        (owner (s\<lparr>wake_event := False, owner := RundownDone\<rparr>)) (held_total s) (waking s) D'"
      using that Waiting active_block(1) [OF block]
      by (intro exI [of _ D]) (auto simp: phase_def of_bool_def split: if_splits)
  qed simp_all
  then show ?thesis using Waiting inv by (simp add: owner_continue_def)
qed (use inv inv_slow_path [OF inv block] inv_mark_load [OF inv block] inv_mark [OF inv block] inv_add_count [OF inv block]
      in \<open>simp_all add: owner_continue_def\<close>)


section \<open>Reachable states\<close>

lemma inv_init: "0 < processors \<Longrightarrow> rundown_inv block (rundown_init processors threads)"
  by (auto simp: rundown_inv_def rundown_init_def held_total_def pending_total_def pending_def waking_def user_ok_def
      phase_def rundown_active_odd map_replicate_const sum_list_replicate intro!: exI [of _ 0])

lemma inv_step: "rundown_step block s s' \<Longrightarrow> \<not> rundown_active block \<Longrightarrow> rundown_inv block s \<Longrightarrow> rundown_inv block s'"
proof (induction rule: rundown_step.induct)
  case (acquire i s p)
  from inv_issued [OF acquire.prems(2)] inv_user_ok [OF acquire.prems(2) acquire.hyps(1)] show ?case
    by (intro inv_local [OF acquire.prems(2) acquire.hyps(1), where u = "(users s ! i)\<lparr>user_pc := FastAcquire p (run_refs s ! p AND NOT EX_RUNDOWN_ACTIVE)\<rparr>"])
      (use acquire.hyps in \<open>simp_all add: may_ask_def pending_def user_ok_def masked_not_active\<close>)
next
  case (acquire_ex i s p n)
  from inv_issued [OF acquire_ex.prems(2)] inv_user_ok [OF acquire_ex.prems(2) acquire_ex.hyps(1)] show ?case
    by (intro inv_local [OF acquire_ex.prems(2) acquire_ex.hyps(1), where u = "(users s ! i)\<lparr>user_pc := AcquireLoad p (Some n)\<rparr>"])
      (use acquire_ex.hyps in \<open>simp_all add: may_ask_def pending_def user_ok_def count_ok_def\<close>)
next
  case (release i s p)
  from inv_issued [OF release.prems(2)] inv_user_ok [OF release.prems(2) release.hyps(1)] show ?case
    by (intro inv_local [OF release.prems(2) release.hyps(1), where u = "(users s ! i)\<lparr>user_pc := FastRelease p (run_refs s ! p AND NOT EX_RUNDOWN_ACTIVE)\<rparr>"])
      (use release.hyps in \<open>simp_all add: pending_def user_ok_def masked_not_active\<close>)
next
  case (release_ex i s p n)
  from inv_issued [OF release_ex.prems(2)] inv_user_ok [OF release_ex.prems(2) release_ex.hyps(1)] show ?case
    by (intro inv_local [OF release_ex.prems(2) release_ex.hyps(1), where u = "(users s ! i)\<lparr>user_pc := ReleaseLoad p (Some n)\<rparr>"])
      (use release_ex.hyps in \<open>simp_all add: pending_def user_ok_def count_ok_def\<close>)
next
  case (user i s)
  then show ?case by (simp add: inv_user_continue)
next
  case (wait s)
  then show ?case by (intro inv_fast_path) simp_all
next
  case (wait_cache_aware s)
  show ?case
  proof (rule inv_owner [OF wait_cache_aware.prems(2)])
    fix D
    assume "phase block (run_refs s) (wait_count s) (wake_event s) (owner s) (held_total s) (waking s) D"
    then show "\<exists>D' \<le> D. phase block (run_refs (s\<lparr>owner := MarkLoad 0 0, wait_count := 0\<rparr>))
        (wait_count (s\<lparr>owner := MarkLoad 0 0, wait_count := 0\<rparr>)) (wake_event (s\<lparr>owner := MarkLoad 0 0, wait_count := 0\<rparr>))
        (owner (s\<lparr>owner := MarkLoad 0 0, wait_count := 0\<rparr>)) (held_total s) (waking s) D'"
      using wait_cache_aware.hyps by (intro exI [of _ 0]) (auto simp: phase_def rundown_active_odd EX_RUNDOWN_ACTIVE_def)
  qed simp_all
next
  case (continue s)
  then show ?case by (simp add: inv_owner_continue)
next
  case (reinitialize s)
  have "held_total s = 0" using reinitialize.prems(2) reinitialize.hyps(1) by (auto simp: rundown_inv_def phase_def)
  moreover obtain r where "run_refs s = [r]" using reinitialize.hyps(2) by (cases "run_refs s") auto
  ultimately show ?case using reinitialize.hyps(1)
    by (intro inv_owner [OF reinitialize.prems(2)]) (auto simp: phase_def rundown_active_odd)
next
  case (completed s)
  have "held_total s = 0" using completed.prems(2) completed.hyps(1) by (auto simp: rundown_inv_def phase_def)
  moreover obtain r where "run_refs s = [r]" using completed.hyps(2) by (cases "run_refs s") auto
  ultimately show ?case using completed.hyps(1)
    by (intro inv_owner [OF completed.prems(2)]) (auto simp: phase_def)
qed

lemma inv_reachable:
  assumes "rundown_reachable block s" "\<not> rundown_active block"
  shows "rundown_inv block s"
proof -
  obtain processors threads where "0 < processors" "(rundown_step block)\<^sup>*\<^sup>* (rundown_init processors threads) s"
    using assms(1) by (auto simp: rundown_reachable_def)
  from this(2) show ?thesis
    by (induction rule: rtranclp_induct) (use \<open>0 < processors\<close> assms(2) inv_init inv_step in blast)+
qed

end
