(* ===== verification/Rundown_Theorems.thy ===== *)
theory Rundown_Theorems
  imports Rundown_Facts
begin

text \<open>
  What rundown protection promises, for every interleaving of the threads, and where the cache-aware variant
  does not keep it.
\<close>

section \<open>Traces\<close>

text \<open>Concrete runs for the witnesses.\<close>

lemma reachable_init: "0 < processors \<Longrightarrow> rundown_reachable block (rundown_init processors threads)"
  by (auto simp: rundown_reachable_def)

lemma reachable_step: "rundown_reachable block s \<Longrightarrow> rundown_step block s s' \<Longrightarrow> rundown_reachable block s'"
  by (meson rtranclp.rtrancl_into_rtrancl rundown_reachable_def)

lemma reachable_user: "rundown_reachable block s \<Longrightarrow> i < length (users s) \<Longrightarrow> rundown_reachable block (user_continue i s)"
  by (erule reachable_step) (rule rundown_step.user)

lemma reachable_continue: "rundown_reachable block s \<Longrightarrow> rundown_reachable block (owner_continue block s)"
  by (erule reachable_step) (rule rundown_step.continue)

lemma length_users_continue [simp]: "length (users (user_continue i s)) = length (users s)"
  by (auto simp: user_continue_def Let_def set_held_def set_user_def split: user_pc.split prod.split acquire_result.split
      release_result.split)

lemma reachable_user_steps:
  "rundown_reachable block s \<Longrightarrow> i < length (users s) \<Longrightarrow>
   rundown_reachable block ((user_continue i ^^ k) s) \<and> i < length (users ((user_continue i ^^ k) s))"
  by (induction k) (simp_all add: reachable_user)

text \<open>One reference is acquired, the rundown starts and waits, and the reference is released.\<close>

definition acquired_state :: rundown_state where
  "acquired_state =
     user_continue 0 (set_user 0 (FastAcquire 0 0) ((rundown_init 1 1)\<lparr>issued := 1\<rparr>))"

definition waiting_state :: "ulonglong \<Rightarrow> rundown_state" where
  "waiting_state block = owner_continue block (owner_continue block (rundown_fast_path WaitEntry acquired_state))"

definition releasing_state :: "ulonglong \<Rightarrow> rundown_state" where
  "releasing_state block =
     (user_continue 0 ^^ 3) (set_user 0 (FastRelease 0 (run_refs (waiting_state block) ! 0 AND NOT EX_RUNDOWN_ACTIVE))
       (waiting_state block))"

lemma waiting_state_reachable: "rundown_reachable 0x1000 (waiting_state 0x1000)"
proof -
  have "rundown_step 0x1000 (rundown_init 1 1) (set_user 0 (FastAcquire 0 (run_refs (rundown_init 1 1) ! 0 AND NOT EX_RUNDOWN_ACTIVE))
      ((rundown_init 1 1)\<lparr>issued := issued (rundown_init 1 1) + 1\<rparr>))"
    by (rule rundown_step.acquire) (simp_all add: rundown_init_def may_ask_def)
  then have "rundown_step 0x1000 (rundown_init 1 1) (set_user 0 (FastAcquire 0 0) ((rundown_init 1 1)\<lparr>issued := 1\<rparr>))"
    by (simp add: rundown_init_def)
  from reachable_step [OF reachable_init this] have "rundown_reachable 0x1000 acquired_state"
    unfolding acquired_state_def by (intro reachable_user) (simp_all add: rundown_init_def)
  then have "rundown_reachable 0x1000 (rundown_fast_path WaitEntry acquired_state)"
    by (rule reachable_step) (rule rundown_step.wait, code_simp, code_simp)
  then show ?thesis unfolding waiting_state_def by (intro reachable_continue)
qed

lemma releasing_state_reachable: "rundown_reachable 0x1000 (releasing_state 0x1000)"
proof -
  have "rundown_step 0x1000 (waiting_state 0x1000)
     (set_user 0 (FastRelease 0 (run_refs (waiting_state 0x1000) ! 0 AND NOT EX_RUNDOWN_ACTIVE)) (waiting_state 0x1000))"
    by (rule rundown_step.release) code_simp+
  from reachable_step [OF waiting_state_reachable this] show ?thesis
    unfolding releasing_state_def by (rule conjunct1 [OF reachable_user_steps]) code_simp
qed

section \<open>Properties\<close>

text \<open>
  C33: when \<^verbatim>\<open>ExWaitForRundownProtectionRelease\<close>, plain or cache-aware, has returned, no thread holds a
  reference: every one that was granted has been released.
\<close>

theorem rundown_waits_for_references:
  assumes "\<not> rundown_active block" "rundown_reachable block s" "owner s = RundownDone" "u \<in> set (users s)"
  shows "user_held u = 0"
proof -
  obtain D where "phase block (run_refs s) (wait_count s) (wake_event s) (owner s) (held_total s) (waking s) D"
    using inv_reachable [OF assms(2,1)] by (auto simp: rundown_inv_def)
  then have "held_total s = 0" using assms(3) by (simp add: phase_def)
  then show ?thesis using held_le_total [OF assms(4)] by simp
qed

theorem rundown_waits_for_references_witness:
  "user_held (hd (users (rundown_fast_path WaitEntry (rundown_init 1 1)))) = 0"
proof -
  have "rundown_step 0x1000 (rundown_init 1 1) (rundown_fast_path WaitEntry (rundown_init 1 1))"
    by (rule rundown_step.wait) (simp_all add: rundown_init_def)
  from reachable_step [OF reachable_init this]
  have "rundown_reachable 0x1000 (rundown_fast_path WaitEntry (rundown_init 1 1))" by simp
  moreover have "owner (rundown_fast_path WaitEntry (rundown_init 1 1)) = RundownDone" by code_simp
  moreover have "\<not> rundown_active 0x1000" by code_simp
  moreover have "hd (users (rundown_fast_path WaitEntry (rundown_init 1 1))) \<in>
      set (users (rundown_fast_path WaitEntry (rundown_init 1 1)))" by code_simp
  ultimately show ?thesis using rundown_waits_for_references by blast
qed

text \<open>The wait block is on the stack of the rundown thread: it exists while that thread is inside of the routine.\<close>

definition wait_block_exists :: "rundown_state \<Rightarrow> bool" where
  "wait_block_exists s = (case owner s of
     MarkLoad _ _ \<Rightarrow> True | Mark _ _ _ \<Rightarrow> True | AddCount _ \<Rightarrow> True | Waiting \<Rightarrow> True | _ \<Rightarrow> False)"

definition about_to_use :: "user \<Rightarrow> ulonglong \<Rightarrow> bool" where
  "about_to_use u b = (case user_pc u of Decrement p n b' \<Rightarrow> b = b' | _ \<Rightarrow> False)"

text \<open>
  C34: a thread that is about to decrement the count of a wait block, or to set its event, uses the wait block
  of the rundown thread, which is still waiting: the pointer it followed does not dangle.
\<close>

theorem wait_block_not_dangling:
  assumes "\<not> rundown_active block" "rundown_reachable block s" "u \<in> set (users s)"
    "about_to_use u b \<or> user_pc u = SetWakeEvent \<and> b = block"
  shows "b = block \<and> wait_block_exists s"
proof -
  have inv: "rundown_inv block s" by (rule inv_reachable [OF assms(2,1)])
  then obtain D where ph: "phase block (run_refs s) (wait_count s) (wake_event s) (owner s) (held_total s) (waking s) D"
    and ok: "user_ok block (run_refs s) u" using assms(3) by (auto simp: rundown_inv_def)
  from assms(4) show ?thesis
  proof (elim disjE conjE)
    assume "about_to_use u b"
    then obtain p n where u: "user_pc u = Decrement p n b" by (auto simp: about_to_use_def split: user_pc.splits)
    then have d: "b = block" "p < length (run_refs s)" "run_refs s ! p = block OR EX_RUNDOWN_ACTIVE" "0 < user_held u"
      using ok by (auto simp: user_ok_def count_ok_def)
    then have "0 < held_total s" "rundown_active (run_refs s ! p)"
      using held_le_total [OF assms(3)] active_block [OF assms(1)] by simp_all
    moreover have "run_refs s ! p \<in> set (run_refs s)" using d(2) by simp
    ultimately show ?thesis using d(1) ph unfolding phase_def wait_block_exists_def by (cases "owner s") auto
  next
    assume "user_pc u = SetWakeEvent" "b = block"
    then show ?thesis using phase_wake [OF ph waking_pos [OF assms(3)]] by (simp add: wait_block_exists_def)
  qed
qed

theorem wait_block_not_dangling_witness:
  "0x1000 = (0x1000 :: ulonglong) \<and> wait_block_exists (releasing_state 0x1000)"
proof -
  have "about_to_use (hd (users (releasing_state 0x1000))) 0x1000" "\<not> rundown_active 0x1000"
    "hd (users (releasing_state 0x1000)) \<in> set (users (releasing_state 0x1000))" by code_simp+
  then show ?thesis using wait_block_not_dangling releasing_state_reachable by blast
qed

text \<open>
  C35: no wakeup is lost: when the rundown thread waits, nobody holds a reference and nobody is about to set
  the event, then the event is set and the wait ends.
\<close>

theorem rundown_wakes_up:
  assumes "\<not> rundown_active block" "rundown_reachable block s" "owner s = Waiting"
    "\<forall>u \<in> set (users s). user_held u = 0 \<and> user_pc u \<noteq> SetWakeEvent"
  shows "owner (owner_continue block s) = RundownDone"
proof -
  obtain D where ph: "phase block (run_refs s) (wait_count s) (wake_event s) (owner s) (held_total s) (waking s) D"
    using inv_reachable [OF assms(2,1)] by (auto simp: rundown_inv_def)
  have "held_total s = 0" using assms(4) by (simp add: held_total_def)
  moreover have "waking s = 0" using assms(4) by (simp add: waking_def)
  ultimately have "wake_event s" using ph assms(3) by (cases "wake_event s") (simp_all add: phase_def)
  then show ?thesis using assms(3) by (simp add: owner_continue_def)
qed

theorem rundown_wakes_up_witness:
  "owner (owner_continue 0x1000 ((user_continue 0 ^^ 2) (releasing_state 0x1000))) = RundownDone"
proof -
  have "rundown_reachable 0x1000 ((user_continue 0 ^^ 2) (releasing_state 0x1000))"
    by (rule conjunct1 [OF reachable_user_steps [OF releasing_state_reachable]]) code_simp
  moreover have "owner ((user_continue 0 ^^ 2) (releasing_state 0x1000)) = Waiting" "\<not> rundown_active 0x1000"
    "\<forall>u \<in> set (users ((user_continue 0 ^^ 2) (releasing_state 0x1000))). user_held u = 0 \<and> user_pc u \<noteq> SetWakeEvent"
    by code_simp+
  ultimately show ?thesis by (intro rundown_wakes_up)
qed

section \<open>Where the cache-aware variant fails\<close>

text \<open>
  A count of \<open>2\<^sup>3\<^sup>1\<close> is doubled to 0: protection is granted and nothing is counted.
\<close>

lemma acquire_count_wraps: "ExAcquireRundownProtectionEx_turn 0x80000000 4 4 = (4, Acquired)"
  by code_simp

text \<open>
  After \<^verbatim>\<open>ExRundownCompletedCacheAware\<close> on two processors a second wait adds the two active bits up to a
  count of one, and waits for a reference that nobody holds.
\<close>

lemma completed_cache_aware_adds:
  "(owner_continue 0x1000 ^^ 5)
     ((ExRundownCompletedCacheAware_turn 1 (ExRundownCompletedCacheAware_turn 0 (rundown_init 2 0)))
        \<lparr>owner := MarkLoad 0 0, wait_count := 0\<rparr>) =
   \<lparr>run_refs = [0x1001, 0x1001], wait_count = 0, wake_event = False, users = [], owner = AddCount 1, issued = 0\<rparr>"
  by code_simp

lemma completed_cache_aware_blocks:
  "(let s = (owner_continue 0x1000 ^^ 5)
        ((ExRundownCompletedCacheAware_turn 1 (ExRundownCompletedCacheAware_turn 0 (rundown_init 2 0)))
           \<lparr>owner := MarkLoad 0 0, wait_count := 0\<rparr>);
        s' = owner_continue 0x1000 s
    in owner s' = Waiting \<and> users s' = [] \<and> owner_continue 0x1000 s' = s')"
  unfolding completed_cache_aware_adds by (simp add: Let_def owner_continue_def add_count_def)

text \<open>
  The structure is enabled again one processor after the other: a thread that acquires on the first and
  releases on the second in between follows the stale pointer to the wait block, which is gone.
\<close>

lemma reinitialize_cache_aware_dangles:
  "(let done = (rundown_init 2 1)\<lparr>run_refs := [0x1001, 0x1001], owner := RundownDone\<rparr>;
        s = ExReInitializeRundownProtectionCacheAware_turn 0 done;
        held = user_continue 0 (set_user 0 (FastAcquire 0 (run_refs s ! 0 AND NOT EX_RUNDOWN_ACTIVE)) s);
        s' = (user_continue 0 ^^ 3) (set_user 0 (FastRelease 1 (run_refs held ! 1 AND NOT EX_RUNDOWN_ACTIVE)) held)
    in about_to_use (users s' ! 0) 0x1000 \<and> \<not> wait_block_exists s')"
  by code_simp

end
