(* ===== verification/Bitmap.thy ===== *)
theory Bitmap
  imports Prelude "HOL-Library.Monad_Syntax"
begin

text \<open>
  The bitmap package of \<^verbatim>\<open>rtl/bitmap.c\<close>, for the 64-bit build (\<^verbatim>\<open>_WIN64\<close>, \<^verbatim>\<open>_AMD64_\<close>): a
  \<^verbatim>\<open>CHUNK\<close> is a 64-bit word.  Where the source has a second branch for other processors (the
  single-bit operations and the bit scans), that branch is a definition of its own, marked
  \<^verbatim>\<open>_portable\<close>.

  Memory is a function from addresses to bytes.  The routines read the buffer as bytes,
  \<^verbatim>\<open>ULONG\<close>s and chunks, and some of them read whole aligned chunks past the ends of the buffer,
  so the model does not bound the memory by the buffer; which bits a routine writes is
  proved.  A pointer into an array of chunks is the index from the start of the array.
\<close>

section \<open>Memory\<close>

type_synonym memory = "int \<Rightarrow> uchar"

text \<open>Little endian reads of a \<^verbatim>\<open>ULONG\<close> and of a \<^verbatim>\<open>CHUNK\<close>.\<close>

definition read_ulong :: "memory \<Rightarrow> int \<Rightarrow> ulong" where
  "read_ulong m a = ucast (m a) OR push_bit 8 (ucast (m (a + 1)))
     OR push_bit 16 (ucast (m (a + 2))) OR push_bit 24 (ucast (m (a + 3)))"

definition read_chunk :: "memory \<Rightarrow> int \<Rightarrow> ulonglong" where
  "read_chunk m a = ucast (read_ulong m a) OR push_bit 32 (ucast (read_ulong m (a + 4)))"

text \<open>\<^verbatim>\<open>RtlFillMemory\<close> and, with the byte 0, \<^verbatim>\<open>RtlZeroMemory\<close>.\<close>

definition RtlFillMemory :: "memory \<Rightarrow> int \<Rightarrow> nat \<Rightarrow> uchar \<Rightarrow> memory" where
  "RtlFillMemory m a n b = (\<lambda>x. if a \<le> x \<and> x < a + int n then b else m x)"

section \<open>The header and the tables\<close>

record RTL_BITMAP =
  SizeOfBitMap :: ulong
  Buffer :: int

definition RtlInitializeBitMap :: "int \<Rightarrow> ulong \<Rightarrow> RTL_BITMAP" where
  "RtlInitializeBitMap buffer bits = \<lparr>SizeOfBitMap = bits, Buffer = buffer\<rparr>"

definition RtlpBitsClearAnywhere :: "nat list" where
  "RtlpBitsClearAnywhere =
    [8,7,6,6,5,5,5,5,4,4,4,4,4,4,4,4,
     4,3,3,3,3,3,3,3,3,3,3,3,3,3,3,3,
     5,4,3,3,2,2,2,2,3,2,2,2,2,2,2,2,
     4,3,2,2,2,2,2,2,3,2,2,2,2,2,2,2,
     6,5,4,4,3,3,3,3,3,2,2,2,2,2,2,2,
     4,3,2,2,2,1,1,1,3,2,1,1,2,1,1,1,
     5,4,3,3,2,2,2,2,3,2,1,1,2,1,1,1,
     4,3,2,2,2,1,1,1,3,2,1,1,2,1,1,1,
     7,6,5,5,4,4,4,4,3,3,3,3,3,3,3,3,
     4,3,2,2,2,2,2,2,3,2,2,2,2,2,2,2,
     5,4,3,3,2,2,2,2,3,2,1,1,2,1,1,1,
     4,3,2,2,2,1,1,1,3,2,1,1,2,1,1,1,
     6,5,4,4,3,3,3,3,3,2,2,2,2,2,2,2,
     4,3,2,2,2,1,1,1,3,2,1,1,2,1,1,1,
     5,4,3,3,2,2,2,2,3,2,1,1,2,1,1,1,
     4,3,2,2,2,1,1,1,3,2,1,1,2,1,1,0]"

definition RtlpBitsClearLow :: "nat list" where
  "RtlpBitsClearLow =
    [8,0,1,0,2,0,1,0,3,0,1,0,2,0,1,0,
     4,0,1,0,2,0,1,0,3,0,1,0,2,0,1,0,
     5,0,1,0,2,0,1,0,3,0,1,0,2,0,1,0,
     4,0,1,0,2,0,1,0,3,0,1,0,2,0,1,0,
     6,0,1,0,2,0,1,0,3,0,1,0,2,0,1,0,
     4,0,1,0,2,0,1,0,3,0,1,0,2,0,1,0,
     5,0,1,0,2,0,1,0,3,0,1,0,2,0,1,0,
     4,0,1,0,2,0,1,0,3,0,1,0,2,0,1,0,
     7,0,1,0,2,0,1,0,3,0,1,0,2,0,1,0,
     4,0,1,0,2,0,1,0,3,0,1,0,2,0,1,0,
     5,0,1,0,2,0,1,0,3,0,1,0,2,0,1,0,
     4,0,1,0,2,0,1,0,3,0,1,0,2,0,1,0,
     6,0,1,0,2,0,1,0,3,0,1,0,2,0,1,0,
     4,0,1,0,2,0,1,0,3,0,1,0,2,0,1,0,
     5,0,1,0,2,0,1,0,3,0,1,0,2,0,1,0,
     4,0,1,0,2,0,1,0,3,0,1,0,2,0,1,0]"

definition RtlpBitsClearHigh :: "nat list" where
  "RtlpBitsClearHigh =
    [8,7,6,6,5,5,5,5,4,4,4,4,4,4,4,4,
     3,3,3,3,3,3,3,3,3,3,3,3,3,3,3,3,
     2,2,2,2,2,2,2,2,2,2,2,2,2,2,2,2,
     2,2,2,2,2,2,2,2,2,2,2,2,2,2,2,2,
     1,1,1,1,1,1,1,1,1,1,1,1,1,1,1,1,
     1,1,1,1,1,1,1,1,1,1,1,1,1,1,1,1,
     1,1,1,1,1,1,1,1,1,1,1,1,1,1,1,1,
     1,1,1,1,1,1,1,1,1,1,1,1,1,1,1,1,
     0,0,0,0,0,0,0,0,0,0,0,0,0,0,0,0,
     0,0,0,0,0,0,0,0,0,0,0,0,0,0,0,0,
     0,0,0,0,0,0,0,0,0,0,0,0,0,0,0,0,
     0,0,0,0,0,0,0,0,0,0,0,0,0,0,0,0,
     0,0,0,0,0,0,0,0,0,0,0,0,0,0,0,0,
     0,0,0,0,0,0,0,0,0,0,0,0,0,0,0,0,
     0,0,0,0,0,0,0,0,0,0,0,0,0,0,0,0,
     0,0,0,0,0,0,0,0,0,0,0,0,0,0,0,0]"

definition RtlpBitsClearTotal :: "nat list" where
  "RtlpBitsClearTotal =
    [8,7,7,6,7,6,6,5,7,6,6,5,6,5,5,4,
     7,6,6,5,6,5,5,4,6,5,5,4,5,4,4,3,
     7,6,6,5,6,5,5,4,6,5,5,4,5,4,4,3,
     6,5,5,4,5,4,4,3,5,4,4,3,4,3,3,2,
     7,6,6,5,6,5,5,4,6,5,5,4,5,4,4,3,
     6,5,5,4,5,4,4,3,5,4,4,3,4,3,3,2,
     6,5,5,4,5,4,4,3,5,4,4,3,4,3,3,2,
     5,4,4,3,4,3,3,2,4,3,3,2,3,2,2,1,
     7,6,6,5,6,5,5,4,6,5,5,4,5,4,4,3,
     6,5,5,4,5,4,4,3,5,4,4,3,4,3,3,2,
     6,5,5,4,5,4,4,3,5,4,4,3,4,3,3,2,
     5,4,4,3,4,3,3,2,4,3,3,2,3,2,2,1,
     6,5,5,4,5,4,4,3,5,4,4,3,4,3,3,2,
     5,4,4,3,4,3,3,2,4,3,3,2,3,2,2,1,
     5,4,4,3,4,3,3,2,4,3,3,2,3,2,2,1,
     4,3,3,2,3,2,2,1,3,2,2,1,2,1,1,0]"

definition FillMask :: "uchar list" where
  "FillMask = [0x00, 0x01, 0x03, 0x07, 0x0F, 0x1F, 0x3F, 0x7F, 0xFF]"

definition ZeroMask :: "uchar list" where
  "ZeroMask = [0xFF, 0xFE, 0xFC, 0xF8, 0xf0, 0xe0, 0xc0, 0x80, 0x00]"

text \<open>\<^verbatim>\<open>RtlpBitsSetTotal\<close> of \<^verbatim>\<open>ntrtlp.h\<close>.\<close>

definition RtlpBitsSetTotal :: "uchar \<Rightarrow> nat" where
  "RtlpBitsSetTotal byte = RtlpBitsClearTotal ! unat (NOT byte)"

section \<open>Single bits and whole maps\<close>

text \<open>The compiler's bit test instructions on memory (the bit offset is a signed \<^verbatim>\<open>LONG\<close>).\<close>

definition BitTest :: "memory \<Rightarrow> int \<Rightarrow> long \<Rightarrow> bool" where
  "BitTest m base offset = bit (m (base + sint offset div 8)) (nat (sint offset mod 8))"

definition BitTestAndSet :: "memory \<Rightarrow> int \<Rightarrow> long \<Rightarrow> memory" where
  "BitTestAndSet m base offset =
     (let a = base + sint offset div 8 in m(a := set_bit (nat (sint offset mod 8)) (m a)))"

definition BitTestAndReset :: "memory \<Rightarrow> int \<Rightarrow> long \<Rightarrow> memory" where
  "BitTestAndReset m base offset =
     (let a = base + sint offset div 8 in m(a := unset_bit (nat (sint offset mod 8)) (m a)))"

definition RtlClearBit :: "memory \<Rightarrow> RTL_BITMAP \<Rightarrow> ulong \<Rightarrow> memory" where
  "RtlClearBit m bm number = BitTestAndReset m (Buffer bm) number"

definition RtlSetBit :: "memory \<Rightarrow> RTL_BITMAP \<Rightarrow> ulong \<Rightarrow> memory" where
  "RtlSetBit m bm number = BitTestAndSet m (Buffer bm) number"

definition RtlTestBit :: "memory \<Rightarrow> RTL_BITMAP \<Rightarrow> ulong \<Rightarrow> bool" where
  "RtlTestBit m bm number = BitTest m (Buffer bm) number"

text \<open>The other processors: the byte at \<^verbatim>\<open>BitNumber >> 3\<close> and the mask \<^verbatim>\<open>1 << (BitNumber & 7)\<close>.\<close>

definition RtlClearBit_portable :: "memory \<Rightarrow> RTL_BITMAP \<Rightarrow> ulong \<Rightarrow> memory" where
  "RtlClearBit_portable m bm number =
     (let a = Buffer bm + int (unat (drop_bit 3 number)); shift = unat (number AND 0x7)
      in m(a := m a AND NOT (push_bit shift 1)))"

definition RtlSetBit_portable :: "memory \<Rightarrow> RTL_BITMAP \<Rightarrow> ulong \<Rightarrow> memory" where
  "RtlSetBit_portable m bm number =
     (let a = Buffer bm + int (unat (drop_bit 3 number)); shift = unat (number AND 0x7)
      in m(a := m a OR push_bit shift 1))"

definition RtlTestBit_portable :: "memory \<Rightarrow> RTL_BITMAP \<Rightarrow> ulong \<Rightarrow> bool" where
  "RtlTestBit_portable m bm number =
     (let a = Buffer bm + int (unat (drop_bit 3 number)); shift = unat (number AND 0x7)
      in drop_bit shift (m a) AND 1 \<noteq> 0)"

definition RtlClearAllBits :: "memory \<Rightarrow> RTL_BITMAP \<Rightarrow> memory" where
  "RtlClearAllBits m bm = RtlFillMemory m (Buffer bm) (unat ((SizeOfBitMap bm + 31) div 32 * 4)) 0"

definition RtlSetAllBits :: "memory \<Rightarrow> RTL_BITMAP \<Rightarrow> memory" where
  "RtlSetAllBits m bm = RtlFillMemory m (Buffer bm) (unat ((SizeOfBitMap bm + 31) div 32 * 4)) 0xFF"

text \<open>\<^verbatim>\<open>RtlCheckBit\<close> of \<^verbatim>\<open>ntrtl.h\<close>.\<close>

definition RtlCheckBit :: "memory \<Rightarrow> RTL_BITMAP \<Rightarrow> ulong \<Rightarrow> bool" where
  "RtlCheckBit m bm bp \<longleftrightarrow>
     drop_bit (unat (bp mod 32)) (read_ulong m (Buffer bm + 4 * int (unat (bp div 32)))) AND 0x1 \<noteq> 0"

section \<open>Ranges of bits\<close>

definition RtlClearBits :: "memory \<Rightarrow> RTL_BITMAP \<Rightarrow> ulong \<Rightarrow> ulong \<Rightarrow> memory" where
  "RtlClearBits m bm start number =
    (if number = 0 then m
     else let cur = Buffer bm + int (unat (start div 8)); off = start mod 8 in
       if off + number \<le> 8
       then m(cur := m cur AND NOT (push_bit (unat off) (FillMask ! unat number)))
       else
         let (m, cur, number) =
               (if 0 < off
                then (m(cur := m cur AND FillMask ! unat off), cur + 1, number - (8 - off))
                else (m, cur, number));
             (m, cur, number) =
               (if 8 < number
                then (RtlFillMemory m cur (unat (number div 8)) 0, cur + int (unat (number div 8)), number mod 8)
                else (m, cur, number))
         in if 0 < number then m(cur := m cur AND ZeroMask ! unat number) else m)"

definition RtlSetBits :: "memory \<Rightarrow> RTL_BITMAP \<Rightarrow> ulong \<Rightarrow> ulong \<Rightarrow> memory" where
  "RtlSetBits m bm start number =
    (if number = 0 then m
     else let cur = Buffer bm + int (unat (start div 8)); off = start mod 8 in
       if off + number \<le> 8
       then m(cur := m cur OR push_bit (unat off) (FillMask ! unat number))
       else
         let (m, cur, number) =
               (if 0 < off
                then (m(cur := m cur OR ZeroMask ! unat off), cur + 1, number - (8 - off))
                else (m, cur, number));
             (m, cur, number) =
               (if 8 < number
                then (RtlFillMemory m cur (unat (number div 8)) 0xFF, cur + int (unat (number div 8)), number mod 8)
                else (m, cur, number))
         in if 0 < number then m(cur := m cur OR FillMask ! unat number) else m)"

section \<open>Bits of a chunk\<close>

text \<open>The compiler's bit scans: \<^const>\<open>None\<close> where they return false.\<close>

definition BitScanForward64 :: "ulonglong \<Rightarrow> ulong option" where
  "BitScanForward64 w = map_option of_nat (find (bit w) [0..<64])"

definition BitScanReverse64 :: "ulonglong \<Rightarrow> ulong option" where
  "BitScanReverse64 w = map_option of_nat (find (bit w) (rev [0..<64]))"

abbreviation CHUNK_BITS :: ulong where "CHUNK_BITS \<equiv> 64"
abbreviation CHUNK_CLEAR :: ulonglong where "CHUNK_CLEAR \<equiv> 0"
abbreviation CHUNK_SET :: ulonglong where "CHUNK_SET \<equiv> - 1"
abbreviation CHUNK_HIGH_BIT :: ulonglong where "CHUNK_HIGH_BIT \<equiv> push_bit 63 1"
abbreviation RTL_INVALID_INDEX :: ulong where "RTL_INVALID_INDEX \<equiv> - 1"

text \<open>The loop of \<^verbatim>\<open>RtlpFindClearRunInChunk\<close> on the mask and the shifts that remain.\<close>

function shift_and_mask :: "ulonglong \<Rightarrow> ulong \<Rightarrow> ulonglong option" where
  "shift_and_mask chunkMask shiftsRemaining =
    (let shift = shiftsRemaining div 2;
         chunkMask = chunkMask AND drop_bit (unat shift) chunkMask
     in if chunkMask = 0 then None
        else let shiftsRemaining = shiftsRemaining - shift in
          if 1 < shiftsRemaining then shift_and_mask chunkMask shiftsRemaining
          else Some chunkMask)"
  by pat_completeness auto
termination
proof (relation "measure (\<lambda>(_, r). unat r)", simp, goal_cases)
  case (1 chunkMask r)
  have "unat (r - r div 2) = unat r - unat r div 2"
    by (subst unat_minus_range) (simp_all add: unat_div)
  moreover have "1 < unat (r - r div 2)" using 1 by (simp add: word_less_nat_alt)
  ultimately show ?case using 1 by simp
qed

definition RtlpFindClearRunInChunk :: "ulonglong \<Rightarrow> ulong \<Rightarrow> ulong option" where
  "RtlpFindClearRunInChunk chunk runLength =
    (case shift_and_mask (NOT chunk) runLength of
       None \<Rightarrow> None
     | Some chunkMask \<Rightarrow> BitScanForward64 chunkMask)"

definition RtlpClearMSBInChunk :: "ulonglong \<Rightarrow> ulong" where
  "RtlpClearMSBInChunk chunk =
    (case BitScanReverse64 chunk of None \<Rightarrow> CHUNK_BITS | Some i \<Rightarrow> CHUNK_BITS - i - 1)"

definition RtlpClearLSBInChunk :: "ulonglong \<Rightarrow> ulong" where
  "RtlpClearLSBInChunk chunk = (case BitScanForward64 chunk of None \<Rightarrow> CHUNK_BITS | Some i \<Rightarrow> i)"

end
