(* ===== verification/Bitmap_Search.thy ===== *)
theory Bitmap_Search
  imports Bitmap
begin

text \<open>
  \<^verbatim>\<open>RtlpFindClearBitsRange\<close> and the routines over it.  Each of the four search strategies is a
  definition of its own.  The chunk array is a function \<open>rd\<close> from chunk indices, which is
  \<^verbatim>\<open>READ_CHUNK\<close> with the complement that \<^verbatim>\<open>Invert\<close> asks for; a \<^verbatim>\<open>PCHUNK\<close> is the index of its
  chunk.  The loops are partial functions: \<^const>\<open>None\<close> is a search that does not return.
\<close>

definition READ_CHUNK :: "memory \<Rightarrow> int \<Rightarrow> bool \<Rightarrow> nat \<Rightarrow> ulonglong" where
  "READ_CHUNK m bitMap invert n =
     (let chunk = read_chunk m (bitMap + 8 * int n) in if invert then NOT chunk else chunk)"

section \<open>Runs that contain a whole chunk\<close>

text \<open>The loop over the chunks that must be clear, up to \<^verbatim>\<open>clearChunkRunEnd\<close>: the index at which
  it stops.\<close>

partial_function (option) clear_chunks :: "(nat \<Rightarrow> ulonglong) \<Rightarrow> nat \<Rightarrow> nat \<Rightarrow> nat option" where
  "clear_chunks rd runEnd chunkPtr =
    (if chunkPtr \<noteq> runEnd
     then if rd chunkPtr \<noteq> CHUNK_CLEAR then Some chunkPtr
          else clear_chunks rd runEnd (chunkPtr + 1)
     else Some chunkPtr)"

declare clear_chunks.simps [code]

text \<open>From \<^verbatim>\<open>largeLoopEntry\<close>: the value returned, or the index with which the code goes back to
  \<^verbatim>\<open>findRunStartLarge\<close>.\<close>

definition largeLoopEntry ::
  "(nat \<Rightarrow> ulonglong) \<Rightarrow> ulong \<Rightarrow> ulong \<Rightarrow> ulong \<Rightarrow> nat \<Rightarrow> (ulong + nat) option" where
  "largeLoopEntry rd number lastPossibleStartBit headClearBits chunkPtr =
    (let runStartBit = of_nat (chunkPtr * 64) - headClearBits in
     if lastPossibleStartBit < runStartBit then Some (Inl RTL_INVALID_INDEX)
     else
       let clearChunksRequired = (number - headClearBits) div CHUNK_BITS;
           clearChunkRunEnd = chunkPtr + unat clearChunksRequired in
       clear_chunks rd clearChunkRunEnd (chunkPtr + 1) \<bind> (\<lambda>chunkPtr.
         if chunkPtr \<noteq> clearChunkRunEnd then Some (Inr chunkPtr)
         else
           let tailClearBits = (number - headClearBits) mod CHUNK_BITS in
           if tailClearBits \<noteq> 0 \<and> RtlpClearLSBInChunk (rd chunkPtr) < tailClearBits
           then Some (Inr chunkPtr)
           else Some (Inl runStartBit)))"

partial_function (option) findRunStartLarge ::
  "(nat \<Rightarrow> ulonglong) \<Rightarrow> ulong \<Rightarrow> ulong \<Rightarrow> nat \<Rightarrow> nat \<Rightarrow> ulong option" where
  "findRunStartLarge rd number lastPossibleStartBit lastPossibleClearChunk chunkPtr =
    (if lastPossibleClearChunk < chunkPtr then Some RTL_INVALID_INDEX
     else
       let chunkPtr = chunkPtr + 1 in
       if rd chunkPtr = CHUNK_CLEAR
       then largeLoopEntry rd number lastPossibleStartBit (RtlpClearMSBInChunk (rd (chunkPtr - 1))) chunkPtr
              \<bind> (\<lambda>next. case next of
                       Inl index \<Rightarrow> Some index
                     | Inr chunkPtr \<Rightarrow>
                         findRunStartLarge rd number lastPossibleStartBit lastPossibleClearChunk chunkPtr)
       else findRunStartLarge rd number lastPossibleStartBit lastPossibleClearChunk chunkPtr)"

declare findRunStartLarge.simps [code]

definition find_large_run ::
  "(nat \<Rightarrow> ulonglong) \<Rightarrow> ulonglong \<Rightarrow> ulong \<Rightarrow> ulong \<Rightarrow> nat \<Rightarrow> nat \<Rightarrow> ulong option" where
  "find_large_run rd firstChunk number lastPossibleStartBit lastPossibleStartChunk chunkPtr =
    (let lastPossibleClearChunk =
           (if lastPossibleStartBit mod CHUNK_BITS \<noteq> 0 then lastPossibleStartChunk + 1
            else lastPossibleStartChunk);
         entry = (\<lambda>headClearBits chunkPtr.
           largeLoopEntry rd number lastPossibleStartBit headClearBits chunkPtr \<bind> (\<lambda>next.
             case next of
               Inl index \<Rightarrow> Some index
             | Inr chunkPtr \<Rightarrow>
                 findRunStartLarge rd number lastPossibleStartBit lastPossibleClearChunk chunkPtr))
     in if firstChunk = CHUNK_CLEAR then entry 0 chunkPtr
        else
          let chunkPtr = chunkPtr + 1 in
          if rd chunkPtr = CHUNK_CLEAR then entry (RtlpClearMSBInChunk firstChunk) chunkPtr
          else findRunStartLarge rd number lastPossibleStartBit lastPossibleClearChunk chunkPtr)"

section \<open>Runs of one to two chunks\<close>

text \<open>The inner loop: the first chunk, from the current one, with a clear high bit, and its index;
  \<^term>\<open>Some None\<close> when the search is over.\<close>

partial_function (option) find_clear_tail ::
  "(nat \<Rightarrow> ulonglong) \<Rightarrow> nat \<Rightarrow> ulonglong \<Rightarrow> nat \<Rightarrow> (ulonglong \<times> nat) option option" where
  "find_clear_tail rd lastPossibleStartChunk chunk chunkPtr =
    (if chunk AND CHUNK_HIGH_BIT = 0 then Some (Some (chunk, chunkPtr))
     else
       let chunkPtr = chunkPtr + 1 in
       if lastPossibleStartChunk < chunkPtr then Some None
       else find_clear_tail rd lastPossibleStartChunk (rd chunkPtr) chunkPtr)"

declare find_clear_tail.simps [code]

partial_function (option) find_medium_run ::
  "(nat \<Rightarrow> ulonglong) \<Rightarrow> ulong \<Rightarrow> ulong \<Rightarrow> nat \<Rightarrow> ulonglong \<Rightarrow> nat \<Rightarrow> ulong option" where
  "find_medium_run rd number lastPossibleStartBit lastPossibleStartChunk chunk chunkPtr =
    (find_clear_tail rd lastPossibleStartChunk chunk chunkPtr \<bind> (\<lambda>found.
      case found of
        None \<Rightarrow> Some RTL_INVALID_INDEX
      | Some (chunk, chunkPtr) \<Rightarrow>
          let headClearBits = RtlpClearMSBInChunk chunk;
              runStartBit = of_nat (chunkPtr * 64) + (CHUNK_BITS - headClearBits) in
          if lastPossibleStartBit < runStartBit then Some RTL_INVALID_INDEX
          else
            let bitsRemaining = number - headClearBits in
            if bitsRemaining = 0 then Some runStartBit
            else
              let chunkPtr = chunkPtr + 1; chunk = rd chunkPtr in
              if CHUNK_BITS \<le> bitsRemaining
              then if chunk \<noteq> CHUNK_CLEAR
                   then find_medium_run rd number lastPossibleStartBit lastPossibleStartChunk chunk chunkPtr
                   else
                     let bitsRemaining = bitsRemaining - CHUNK_BITS in
                     if bitsRemaining = 0 then Some runStartBit
                     else
                       let chunkPtr = chunkPtr + 1; chunk = rd chunkPtr in
                       if bitsRemaining \<le> RtlpClearLSBInChunk chunk then Some runStartBit
                       else find_medium_run rd number lastPossibleStartBit lastPossibleStartChunk
                              chunk chunkPtr
              else if bitsRemaining \<le> RtlpClearLSBInChunk chunk then Some runStartBit
              else find_medium_run rd number lastPossibleStartBit lastPossibleStartChunk chunk chunkPtr))"

declare find_medium_run.simps [code]

section \<open>Runs shorter than a chunk\<close>

text \<open>The loop over chunks without a clear bit: the chunk it stops at, and its index.\<close>

partial_function (option) find_not_set ::
  "(nat \<Rightarrow> ulonglong) \<Rightarrow> nat \<Rightarrow> ulonglong \<Rightarrow> nat \<Rightarrow> (ulonglong \<times> nat) option option" where
  "find_not_set rd lastPossibleStartChunk chunk chunkPtr =
    (if chunk = CHUNK_SET
     then
       let chunkPtr = chunkPtr + 1 in
       if lastPossibleStartChunk < chunkPtr then Some None
       else find_not_set rd lastPossibleStartChunk (rd chunkPtr) chunkPtr
     else Some (Some (chunk, chunkPtr)))"

declare find_not_set.simps [code]

partial_function (option) find_short_run ::
  "(nat \<Rightarrow> ulonglong) \<Rightarrow> ulong \<Rightarrow> ulong \<Rightarrow> nat \<Rightarrow> nat \<Rightarrow> ulong \<Rightarrow> ulonglong \<Rightarrow> nat \<Rightarrow> ulong option" where
  "find_short_run rd number lastPossibleStartBit lastPossibleStartChunk rangeEndChunk
      tailClearBits chunk chunkPtr =
    (find_not_set rd lastPossibleStartChunk chunk chunkPtr \<bind> (\<lambda>found.
      case found of
        None \<Rightarrow> Some RTL_INVALID_INDEX
      | Some (chunk', chunkPtr) \<Rightarrow>
          let tailClearBits = (if chunk = CHUNK_SET then 0 else tailClearBits);
              chunk = chunk';
              headClearBits = RtlpClearLSBInChunk chunk;
              found = (if number \<le> headClearBits + tailClearBits then Some (0 - tailClearBits)
                       else RtlpFindClearRunInChunk chunk number) in
          case found of
            None \<Rightarrow>
              if chunkPtr = rangeEndChunk then Some RTL_INVALID_INDEX
              else
                let tailClearBits = RtlpClearMSBInChunk chunk; chunkPtr = chunkPtr + 1 in
                find_short_run rd number lastPossibleStartBit lastPossibleStartChunk rangeEndChunk
                  tailClearBits (rd chunkPtr) chunkPtr
          | Some runStartBit \<Rightarrow>
              let runStartBit = runStartBit + of_nat (chunkPtr * 64) in
              if lastPossibleStartBit < runStartBit then Some RTL_INVALID_INDEX
              else Some runStartBit))"

declare find_short_run.simps [code]

section \<open>A single clear bit\<close>

definition find_single_bit ::
  "(nat \<Rightarrow> ulonglong) \<Rightarrow> ulong \<Rightarrow> nat \<Rightarrow> ulonglong \<Rightarrow> nat \<Rightarrow> ulong option" where
  "find_single_bit rd lastPossibleStartBit lastPossibleStartChunk chunk chunkPtr =
    (find_not_set rd lastPossibleStartChunk chunk chunkPtr \<bind> (\<lambda>found.
      case found of
        None \<Rightarrow> Some RTL_INVALID_INDEX
      | Some (chunk, chunkPtr) \<Rightarrow>
          let runStartBit = the (BitScanForward64 (NOT chunk)) + of_nat (chunkPtr * 64) in
          if lastPossibleStartBit < runStartBit then Some RTL_INVALID_INDEX
          else Some runStartBit))"

section \<open>The search over a range\<close>

definition find_run_in_chunks ::
  "(nat \<Rightarrow> ulonglong) \<Rightarrow> ulong \<Rightarrow> ulong \<Rightarrow> ulong \<Rightarrow> ulong option" where
  "find_run_in_chunks rd number rangeStart rangeEnd =
    (if rangeEnd - rangeStart + 1 < number then Some RTL_INVALID_INDEX
     else
       let rangeStartChunk = unat (rangeStart div CHUNK_BITS);
           lastPossibleStartBit = rangeEnd - number + 1;
           lastPossibleStartChunk = unat (lastPossibleStartBit div CHUNK_BITS);
           headChunkMask = push_bit (unat (rangeStart mod CHUNK_BITS)) (1 :: ulonglong) - 1;
           chunkPtr = rangeStartChunk;
           firstChunk = rd chunkPtr OR headChunkMask
       in if 2 * CHUNK_BITS - 1 < number
          then find_large_run rd firstChunk number lastPossibleStartBit lastPossibleStartChunk chunkPtr
          else if CHUNK_BITS \<le> number
          then find_medium_run rd number lastPossibleStartBit lastPossibleStartChunk firstChunk chunkPtr
          else if 1 < number
          then let rangeEndChunk = unat (rangeEnd div CHUNK_BITS) in
               find_short_run rd number lastPossibleStartBit lastPossibleStartChunk rangeEndChunk
                 0 firstChunk chunkPtr
          else find_single_bit rd lastPossibleStartBit lastPossibleStartChunk firstChunk chunkPtr)"

definition RtlpFindClearBitsRange ::
  "memory \<Rightarrow> int \<Rightarrow> ulong \<Rightarrow> ulong \<Rightarrow> ulong \<Rightarrow> bool \<Rightarrow> ulong option" where
  "RtlpFindClearBitsRange m bitMap number rangeStart rangeEnd invert =
     find_run_in_chunks (READ_CHUNK m bitMap invert) number rangeStart rangeEnd"

text \<open>The common body of \<^verbatim>\<open>RtlFindClearBits\<close> and \<^verbatim>\<open>RtlFindSetBits\<close>, which differ in the last argument
  of the call.  The loop runs at most twice, since the second time \<^verbatim>\<open>RangeStart\<close> is 0.\<close>

definition find_bits :: "bool \<Rightarrow> memory \<Rightarrow> RTL_BITMAP \<Rightarrow> ulong \<Rightarrow> ulong \<Rightarrow> ulong option" where
  "find_bits invert m bm number hint =
    (let rangeStart = (if SizeOfBitMap bm \<le> hint then 0 else hint);
         rangeEnd = SizeOfBitMap bm - 1 in
     if number = 0 then Some (rangeStart AND NOT 7)
     else
       let (bufferAdjust, bufferAdjustBits) = (if Buffer bm AND 0x4 \<noteq> 0 then (1, 32) else (0, 0));
           search = (\<lambda>rangeStart rangeEnd.
             RtlpFindClearBitsRange m (Buffer bm - 4 * bufferAdjust) number
               (rangeStart + bufferAdjustBits) (rangeEnd + bufferAdjustBits) invert)
       in search rangeStart rangeEnd \<bind> (\<lambda>bitIndex.
            if bitIndex \<noteq> RTL_INVALID_INDEX \<or> rangeStart = 0 then Some bitIndex
            else let rangeEnd = hint + number;
                     rangeEnd = (if SizeOfBitMap bm < rangeEnd then SizeOfBitMap bm else rangeEnd)
                 in search 0 (rangeEnd - 1))
          \<bind> (\<lambda>bitIndex. if bitIndex \<noteq> RTL_INVALID_INDEX then Some (bitIndex - bufferAdjustBits)
                         else Some bitIndex))"

definition RtlFindClearBits :: "memory \<Rightarrow> RTL_BITMAP \<Rightarrow> ulong \<Rightarrow> ulong \<Rightarrow> ulong option" where
  "RtlFindClearBits m bm number hint = find_bits False m bm number hint"

definition RtlFindSetBits :: "memory \<Rightarrow> RTL_BITMAP \<Rightarrow> ulong \<Rightarrow> ulong \<Rightarrow> ulong option" where
  "RtlFindSetBits m bm number hint = find_bits True m bm number hint"

definition RtlFindClearBitsAndSet ::
  "memory \<Rightarrow> RTL_BITMAP \<Rightarrow> ulong \<Rightarrow> ulong \<Rightarrow> (ulong \<times> memory) option" where
  "RtlFindClearBitsAndSet m bm number hint =
    RtlFindClearBits m bm number hint \<bind> (\<lambda>startingIndex.
      if startingIndex \<noteq> 0xffffffff
      then Some (startingIndex, RtlSetBits m bm startingIndex number)
      else Some (startingIndex, m))"

definition RtlFindSetBitsAndClear ::
  "memory \<Rightarrow> RTL_BITMAP \<Rightarrow> ulong \<Rightarrow> ulong \<Rightarrow> (ulong \<times> memory) option" where
  "RtlFindSetBitsAndClear m bm number hint =
    RtlFindSetBits m bm number hint \<bind> (\<lambda>startingIndex.
      if startingIndex \<noteq> 0xffffffff
      then Some (startingIndex, RtlClearBits m bm startingIndex number)
      else Some (startingIndex, m))"

end
