(* ===== verification/Bitmap_Facts.thy ===== *)
theory Bitmap_Facts
  imports Bitmap_Search
begin

text \<open>
  The bit of a map at an index, and how the byte, \<^verbatim>\<open>ULONG\<close> and chunk operations act on it; the
  bit scans and the search for a run inside a chunk.
\<close>

section \<open>The bits of an array in memory\<close>

definition bit_at :: "memory \<Rightarrow> int \<Rightarrow> nat \<Rightarrow> bool" where
  "bit_at m base i = bit (m (base + int (i div 8))) (i mod 8)"

lemma bit_read_ulong: "bit (read_ulong m a) n \<longleftrightarrow> n < 32 \<and> bit_at m a n"
proof (cases "n < 32")
  case True
  then consider "n < 8" | "8 \<le> n" "n < 16" | "16 \<le> n" "n < 24" | "24 \<le> n" "n < 32" by linarith
  then show ?thesis
  proof cases
    case 1
    then show ?thesis
      by (auto simp: read_ulong_def bit_at_def bit_or_iff bit_ucast_iff bit_push_bit_iff)
  next
    case 2
    then have "n div 8 = 1" "n mod 8 = n - 8" by (auto simp: mod_if)
    then show ?thesis using 2
      by (auto simp: read_ulong_def bit_at_def bit_or_iff bit_ucast_iff bit_push_bit_iff
          dest: bit_imp_le_length)
  next
    case 3
    then have "n div 8 = 2" "n mod 8 = n - 16" by (auto simp: mod_if)
    then show ?thesis using 3
      by (auto simp: read_ulong_def bit_at_def bit_or_iff bit_ucast_iff bit_push_bit_iff
          dest: bit_imp_le_length)
  next
    case 4
    then have "n div 8 = 3" "n mod 8 = n - 24" by (auto simp: mod_if)
    then show ?thesis using 4
      by (auto simp: read_ulong_def bit_at_def bit_or_iff bit_ucast_iff bit_push_bit_iff
          dest: bit_imp_le_length)
  qed
qed (auto dest: bit_imp_le_length)

lemma bit_at_shift: "bit_at m (a + int k) n = bit_at m a (8 * k + n)"
  by (simp add: bit_at_def algebra_simps)

lemma bit_read_chunk: "bit (read_chunk m a) n \<longleftrightarrow> n < 64 \<and> bit_at m a n"
proof (cases "n < 32")
  case True
  then show ?thesis
    by (auto simp: read_chunk_def bit_or_iff bit_ucast_iff bit_push_bit_iff bit_read_ulong)
next
  case False
  then have "bit_at m (a + 4) (n - 32) = bit_at m a n"
    using bit_at_shift [of m a 4 "n - 32"] by simp
  then show ?thesis using False
    by (auto simp: read_chunk_def bit_or_iff bit_ucast_iff bit_push_bit_iff bit_read_ulong
        dest: bit_imp_le_length)
qed

lemma bit_read_chunk_at:
  assumes "j < 64"
  shows "bit (read_chunk m (a + 8 * int n)) j = bit_at m a (64 * n + j)"
  using assms bit_at_shift [of m a "8 * n" j] by (simp add: bit_read_chunk)

lemma bit_READ_CHUNK:
  assumes "j < 64"
  shows "bit (READ_CHUNK m a invert n) j = (bit_at m a (64 * n + j) \<noteq> invert)"
  using assms by (simp add: READ_CHUNK_def Let_def bit_read_chunk_at bit_not_iff)

section \<open>The mask tables\<close>

lemma mask_tables:
  "\<forall>k \<in> set [0..<9]. \<forall>j \<in> set [0..<8].
     bit (FillMask ! k) j = (j < k) \<and> bit (ZeroMask ! k) j = (k \<le> j)"
  by code_simp

lemma bit_FillMask:
  assumes "k \<le> 8"
  shows "bit (FillMask ! k) j \<longleftrightarrow> j < k"
proof (cases "j < 8")
  case True
  then show ?thesis using mask_tables assms by simp
qed (use assms in \<open>auto dest: bit_imp_le_length\<close>)

lemma bit_ZeroMask:
  assumes "k \<le> 8"
  shows "bit (ZeroMask ! k) j \<longleftrightarrow> k \<le> j \<and> j < 8"
proof (cases "j < 8")
  case True
  then show ?thesis using mask_tables assms by simp
qed (auto dest: bit_imp_le_length)

section \<open>Assigning a range of bits\<close>

text \<open>The bits \<open>lo\<close> to \<open>hi - 1\<close>, counted from the byte at \<open>base\<close>, have the value \<open>v\<close> in \<open>m'\<close>; every
  other bit of memory is the one of \<open>m\<close>.\<close>

definition bits_assigned :: "bool \<Rightarrow> int \<Rightarrow> int \<Rightarrow> int \<Rightarrow> memory \<Rightarrow> memory \<Rightarrow> bool" where
  "bits_assigned v base lo hi m m' \<longleftrightarrow>
    (\<forall>x. \<forall>j < 8. bit (m' x) j =
       (let i = 8 * (x - base) + int j in if lo \<le> i \<and> i < hi then v else bit (m x) j))"

lemma bits_assigned_trans:
  assumes "bits_assigned v base lo mid m m1" "bits_assigned v base mid hi m1 m2" "lo \<le> mid" "mid \<le> hi"
  shows "bits_assigned v base lo hi m m2"
  using assms by (auto simp: bits_assigned_def Let_def)

lemma bits_assigned_refl: "hi \<le> lo \<Longrightarrow> bits_assigned v base lo hi m m"
  by (auto simp: bits_assigned_def Let_def)

lemma bits_assigned_byte:
  assumes "\<forall>j < 8. bit b j = (if k \<le> j \<and> j < l then v else bit (m (base + q)) j)"
    and "lo = 8 * q + int k" "hi = 8 * q + int l" "k \<le> 8" "l \<le> 8"
  shows "bits_assigned v base lo hi m (m(base + q := b))"
  unfolding bits_assigned_def Let_def
proof (intro allI impI)
  fix x :: int and j :: nat
  assume j: "j < 8"
  show "bit ((m(base + q := b)) x) j =
    (if lo \<le> 8 * (x - base) + int j \<and> 8 * (x - base) + int j < hi then v else bit (m x) j)"
  proof (cases "x = base + q")
    case True
    then show ?thesis using assms j by auto
  next
    case False
    then consider "x - base \<le> q - 1" | "q + 1 \<le> x - base" by linarith
    then have "8 * (x - base) + int j < 8 * q \<or> 8 * q + 8 \<le> 8 * (x - base) + int j"
      using j by cases auto
    then have "\<not> (lo \<le> 8 * (x - base) + int j \<and> 8 * (x - base) + int j < hi)"
      using assms by linarith
    then show ?thesis using False by auto
  qed
qed

lemma bits_assigned_fill:
  assumes "\<forall>j < 8. bit b j = v" "lo = 8 * q" "hi = 8 * (q + int n)"
  shows "bits_assigned v base lo hi m (RtlFillMemory m (base + q) n b)"
  using assms by (auto simp: bits_assigned_def RtlFillMemory_def Let_def)

lemma bits_assigned_bit_at:
  assumes "bits_assigned v base (int lo) (int hi) m m'"
  shows "bit_at m' base i = (if lo \<le> i \<and> i < hi then v else bit_at m base i)"
proof -
  have i: "8 * (base + int (i div 8) - base) + int (i mod 8) = int i"
    using of_nat_add [of "8 * (i div 8)" "i mod 8", where 'a = int] by simp
  have "i mod 8 < 8" by simp
  then have "bit (m' (base + int (i div 8))) (i mod 8) =
      (if int lo \<le> int i \<and> int i < int hi then v else bit (m (base + int (i div 8))) (i mod 8))"
    using assms unfolding bits_assigned_def Let_def by (metis i)
  then show ?thesis by (simp only: bit_at_def of_nat_le_iff of_nat_less_iff)
qed

text \<open>Bytes that hold no bit of the range are the same.\<close>

lemma bits_assigned_outside:
  assumes "bits_assigned v base lo hi m m'" "8 * (x - base) + 8 \<le> lo \<or> hi \<le> 8 * (x - base)"
  shows "m' x = m x"
proof (rule bit_word_eqI)
  fix j assume "j < LENGTH(8)"
  then show "bit (m' x) j = bit (m x) j" using assms by (auto simp: bits_assigned_def Let_def)
qed

text \<open>What the two range operations have in common: the bytes they store, in order.\<close>

locale range_writer =
  fixes put :: "memory \<Rightarrow> RTL_BITMAP \<Rightarrow> ulong \<Rightarrow> ulong \<Rightarrow> memory"
    and v :: bool
    and short first last :: "nat \<Rightarrow> nat \<Rightarrow> uchar \<Rightarrow> uchar"
    and full :: uchar
  assumes put: "put m bm start number =
    (if number = 0 then m
     else let cur = Buffer bm + int (unat (start div 8)); off = start mod 8 in
       if off + number \<le> 8
       then m(cur := short (unat off) (unat number) (m cur))
       else
         let (m, cur, number) =
               (if 0 < off
                then (m(cur := first (unat off) 0 (m cur)), cur + 1, number - (8 - off))
                else (m, cur, number));
             (m, cur, number) =
               (if 8 < number
                then (RtlFillMemory m cur (unat (number div 8)) full, cur + int (unat (number div 8)), number mod 8)
                else (m, cur, number))
         in if 0 < number then m(cur := last (unat number) 0 (m cur)) else m)"
    and short: "k + l \<le> 8 \<Longrightarrow> j < 8 \<Longrightarrow> bit (short k l b) j = (if k \<le> j \<and> j < k + l then v else bit b j)"
    and first: "k \<le> 8 \<Longrightarrow> j < 8 \<Longrightarrow> bit (first k z b) j = (if k \<le> j then v else bit b j)"
    and last: "l \<le> 8 \<Longrightarrow> j < 8 \<Longrightarrow> bit (last l z b) j = (if j < l then v else bit b j)"
    and full: "j < 8 \<Longrightarrow> bit full j = v"
begin

lemma assigns_range:
  assumes "unat start + unat number < 2 ^ 32"
  shows "bits_assigned v (Buffer bm) (int (unat start)) (int (unat start + unat number)) m
           (put m bm start number)"
proof -
  let ?B = "Buffer bm"
  define q off n where "q = unat start div 8" and "off = unat start mod 8" and "n = unat number"
  have s: "unat start = 8 * q + off" "off < 8" by (simp_all add: q_def off_def)
  have uo: "unat (start mod 8) = off" and uq: "unat (start div 8) = q"
    by (simp_all add: off_def q_def unat_mod unat_div)
  have on: "unat (start mod 8 + number) = off + n"
    using assms s unat_plus_range [of "start mod 8" number] by (simp add: uo n_def)
  have goal: ?thesis if "number \<noteq> 0" "\<not> off + n \<le> 8"
  proof -
    define m1 cur1 number1 where
      "m1 = (if 0 < off then m(?B + int q := first off 0 (m (?B + int q))) else m)"
      and "cur1 = (if 0 < off then ?B + int q + 1 else ?B + int q)"
      and "number1 = (if 0 < off then number - (8 - start mod 8) else number)"
    define q1 where "q1 = (if 0 < off then q + 1 else q)"
    have cur1: "cur1 = ?B + int q1" by (simp add: cur1_def q1_def)
    have "unat (8 - start mod 8 :: ulong) = 8 - off"
      using s(2) by (subst unat_minus_range) (simp_all add: uo)
    then have un1: "unat number1 + 8 * q1 = 8 * q + off + n"
      using that s(2) unat_minus_range [of "8 - start mod 8" number] 
      by (auto simp: number1_def q1_def n_def)
    have a1: "bits_assigned v ?B (int (8 * q + off)) (int (8 * q1)) m m1"
    proof (cases "0 < off")
      case True
      have "bits_assigned v ?B (int (8 * q + off)) (int (8 * q1)) m
              (m(?B + int q := first off 0 (m (?B + int q))))"
        using s(2) True by (intro bits_assigned_byte [where k = off and l = 8]) (auto simp: first q1_def)
      then show ?thesis using True by (simp add: m1_def)
    qed (simp add: m1_def q1_def bits_assigned_refl)
    have stage1: "(if 0 < start mod 8 then (m(?B + int q := first off 0 (m (?B + int q))), ?B + int q + 1,
        number - (8 - start mod 8)) else (m, ?B + int q, number)) = (m1, cur1, number1)"
      by (simp add: m1_def cur1_def number1_def word_less_nat_alt uo)
    define m2 cur2 number2 where
      "m2 = (if 8 < number1 then RtlFillMemory m1 cur1 (unat (number1 div 8)) full else m1)"
      and "cur2 = (if 8 < number1 then cur1 + int (unat (number1 div 8)) else cur1)"
      and "number2 = (if 8 < number1 then number1 mod 8 else number1)"
    define q2 where "q2 = (if 8 < number1 then q1 + unat number1 div 8 else q1)"
    have cur2: "cur2 = ?B + int q2" by (simp add: cur2_def q2_def cur1 unat_div)
    have un2: "unat number2 + 8 * q2 = 8 * q + off + n" "unat number2 \<le> 8"
      using un1 by (auto simp: number2_def q2_def unat_mod word_less_nat_alt)
    have a2: "bits_assigned v ?B (int (8 * q1)) (int (8 * q2)) m1 m2"
    proof (cases "8 < number1")
      case True
      have "bits_assigned v ?B (int (8 * q1)) (int (8 * q2)) m1
              (RtlFillMemory m1 (?B + int q1) (unat (number1 div 8)) full)"
        using True by (intro bits_assigned_fill) (auto simp: full q2_def unat_div)
      then show ?thesis using True by (simp add: m2_def cur1)
    qed (simp add: m2_def q2_def bits_assigned_refl)
    have stage2: "(if 8 < number1 then (RtlFillMemory m1 cur1 (unat (number1 div 8)) full,
        cur1 + int (unat (number1 div 8)), number1 mod 8) else (m1, cur1, number1)) = (m2, cur2, number2)"
      by (simp add: m2_def cur2_def number2_def)
    have a3: "bits_assigned v ?B (int (8 * q2)) (int (8 * q + off + n)) m2
                (if 0 < number2 then m2(cur2 := last (unat number2) 0 (m2 cur2)) else m2)"
    proof (cases "0 < number2")
      case True
      have "int (8 * q + off + n) = int (unat number2 + 8 * q2)" using un2(1) by (simp only:)
      then have hi: "int (8 * q + off + n) = 8 * int q2 + int (unat number2)"
        by (simp only: of_nat_add of_nat_mult of_nat_numeral add.commute)
      have "bits_assigned v ?B (int (8 * q2)) (int (8 * q + off + n)) m2
              (m2(?B + int q2 := last (unat number2) 0 (m2 (?B + int q2))))"
        using un2(2) by (intro bits_assigned_byte [where k = 0 and l = "unat number2"] hi)
          (auto simp: last)
      then show ?thesis using True by (simp add: cur2)
    next
      case False
      then show ?thesis using un2 by (simp add: word_gt_0 bits_assigned_refl)
    qed
    have "put m bm start number =
            (if 0 < number2 then m2(cur2 := last (unat number2) 0 (m2 cur2)) else m2)"
      unfolding put Let_def uo uq stage1 using that on
      by (simp add: word_le_nat_alt stage2)
    moreover have "8 * q + off \<le> 8 * q1" "8 * q1 \<le> 8 * q2" "8 * q2 \<le> 8 * q + off + n"
      using s(2) un2 by (auto simp: q1_def q2_def)
    ultimately have "bits_assigned v ?B (int (8 * q + off)) (int (8 * q + off + n)) m (put m bm start number)"
      using bits_assigned_trans [OF bits_assigned_trans [OF a1 a2] a3] by (simp only: of_nat_le_iff)
    then show ?thesis by (simp only: s(1) n_def)
  qed
  show ?thesis
  proof (cases "number = 0")
    case False
    note nz = this
    show ?thesis
    proof (cases "off + n \<le> 8")
      case True
      have "bits_assigned v ?B (int (8 * q + off)) (int (8 * q + off + n)) m
              (m(?B + int q := short off n (m (?B + int q))))"
        using True by (intro bits_assigned_byte [where k = off and l = "off + n"]) (auto simp: short)
      moreover have "put m bm start number = m(?B + int q := short off n (m (?B + int q)))"
        unfolding put Let_def uo uq using nz True on by (simp add: word_le_nat_alt n_def)
      ultimately show ?thesis using s by (simp add: n_def)
    next
      case large: False
      show ?thesis by (rule goal [OF nz large])
    qed
  qed (simp add: put bits_assigned_refl)
qed

end

interpretation set_range: range_writer RtlSetBits True
  "\<lambda>k l b. b OR push_bit k (FillMask ! l)" "\<lambda>k _ b. b OR ZeroMask ! k" "\<lambda>l _ b. b OR FillMask ! l" "0xFF"
proof
  fix j :: nat
  assume "j < 8"
  then have "j \<in> set [0..<8]" by simp
  moreover have "\<forall>j \<in> set [0..<8]. bit (0xFF :: uchar) j = True" by code_simp
  ultimately show "bit (0xFF :: uchar) j = True" by blast
qed (auto simp: RtlSetBits_def bit_or_iff bit_push_bit_iff bit_FillMask bit_ZeroMask)

interpretation clear_range: range_writer RtlClearBits False
  "\<lambda>k l b. b AND NOT (push_bit k (FillMask ! l))" "\<lambda>k _ b. b AND FillMask ! k" "\<lambda>l _ b. b AND ZeroMask ! l" 0
  by unfold_locales
    (auto simp: RtlClearBits_def bit_and_iff bit_not_iff bit_push_bit_iff bit_FillMask bit_ZeroMask)

section \<open>Bit scans\<close>

lemma find_upt_Some:
  "find P [a..<b] = Some i \<longleftrightarrow> a \<le> i \<and> i < b \<and> P i \<and> (\<forall>j. a \<le> j \<longrightarrow> j < i \<longrightarrow> \<not> P j)"
proof -
  have "(\<forall>j < i - a. \<not> P (a + j)) \<longleftrightarrow> (\<forall>j. a \<le> j \<longrightarrow> j < i \<longrightarrow> \<not> P j)" if "a \<le> i"
    using that by (auto simp: less_diff_conv2 dest!: le_Suc_ex)
  then show ?thesis
    by (auto simp: find_Some_iff less_diff_conv2 intro!: exI [of _ "i - a"])
qed

lemma find_upt_None: "find P [a..<b] = None \<longleftrightarrow> (\<forall>i. a \<le> i \<longrightarrow> i < b \<longrightarrow> \<not> P i)"
  by (auto simp: find_None_iff)

lemma find_rev_upt_Some:
  "find P (rev [0..<b]) = Some i \<longleftrightarrow> i < b \<and> P i \<and> (\<forall>j. i < j \<longrightarrow> j < b \<longrightarrow> \<not> P j)"
proof -
  have "find P (rev [0..<b]) = Some i \<longleftrightarrow>
      (\<exists>k < b. P (b - 1 - k) \<and> i = b - 1 - k \<and> (\<forall>j < k. \<not> P (b - 1 - j)))"
    by (auto simp: find_Some_iff rev_nth)
  also have "\<dots> \<longleftrightarrow> i < b \<and> P i \<and> (\<forall>j. i < j \<longrightarrow> j < b \<longrightarrow> \<not> P j)" (is "?l \<longleftrightarrow> ?r")
  proof
    assume ?l
    then obtain k where k: "k < b" "P (b - 1 - k)" "i = b - 1 - k" "\<forall>j < k. \<not> P (b - 1 - j)" by blast
    have "\<not> P j" if "i < j" "j < b" for j
      using k(4) [rule_format, of "b - 1 - j"] that k(1,3) by simp
    then show ?r using k by simp
  next
    assume r: ?r
    then have "\<forall>j < b - 1 - i. \<not> P (b - 1 - j)" by simp
    with r show ?l by (intro exI [of _ "b - 1 - i"]) simp
  qed
  finally show ?thesis .
qed

lemma bit_chunk_less: "bit (w :: ulonglong) n \<Longrightarrow> n < 64"
  by (auto dest: bit_imp_le_length)

lemma BitScanForward64_None: "BitScanForward64 w = None \<longleftrightarrow> w = 0"
  by (auto simp: BitScanForward64_def find_upt_None mask_zero_iff dest: bit_chunk_less)

lemma BitScanReverse64_None: "BitScanReverse64 w = None \<longleftrightarrow> w = 0"
  by (auto simp: BitScanReverse64_def find_None_iff mask_zero_iff dest: bit_chunk_less)

lemma BitScanForward64_Some:
  assumes "BitScanForward64 w = Some i"
  shows "unat i < 64" "bit w (unat i)" "\<And>j. j < unat i \<Longrightarrow> \<not> bit w j"
  using assms by (auto simp: BitScanForward64_def find_upt_Some unat_of_nat_range)

lemma BitScanReverse64_Some:
  assumes "BitScanReverse64 w = Some i"
  shows "unat i < 64" "bit w (unat i)" "\<And>j. unat i < j \<Longrightarrow> \<not> bit w j"
  using assms
  by (auto simp: BitScanReverse64_def find_rev_upt_Some unat_of_nat_range dest: bit_chunk_less)

text \<open>The number of clear bits at either end of a chunk; 64 for a clear chunk.\<close>

lemma RtlpClearLSBInChunk_spec:
  shows "unat (RtlpClearLSBInChunk w) \<le> 64"
    and "j < unat (RtlpClearLSBInChunk w) \<Longrightarrow> \<not> bit w j"
    and "unat (RtlpClearLSBInChunk w) < 64 \<Longrightarrow> bit w (unat (RtlpClearLSBInChunk w))"
    and "unat (RtlpClearLSBInChunk w) = 64 \<longleftrightarrow> w = 0"
proof -
  consider (none) "w = 0" "unat (RtlpClearLSBInChunk w) = 64"
    | (some) i where "w \<noteq> 0" "BitScanForward64 w = Some i" "RtlpClearLSBInChunk w = i"
  proof (cases "BitScanForward64 w")
    case None
    then have "w = 0" by (simp only: BitScanForward64_None)
    then show ?thesis using that(1) None by (simp add: RtlpClearLSBInChunk_def)
  next
    case (Some i)
    then have "w \<noteq> 0" by (metis BitScanForward64_None option.distinct(1))
    then show ?thesis using that(2) Some by (simp add: RtlpClearLSBInChunk_def)
  qed
  note cs = this
  show "unat (RtlpClearLSBInChunk w) \<le> 64"
    by (rule cs) (auto dest: BitScanForward64_Some)
  show "j < unat (RtlpClearLSBInChunk w) \<Longrightarrow> \<not> bit w j"
    by (rule cs) (auto dest: BitScanForward64_Some)
  show "unat (RtlpClearLSBInChunk w) < 64 \<Longrightarrow> bit w (unat (RtlpClearLSBInChunk w))"
    by (rule cs) (auto dest: BitScanForward64_Some)
  show "unat (RtlpClearLSBInChunk w) = 64 \<longleftrightarrow> w = 0"
    by (rule cs) (auto dest: BitScanForward64_Some)
qed

lemma RtlpClearMSBInChunk_spec:
  shows "unat (RtlpClearMSBInChunk w) \<le> 64"
    and "64 - unat (RtlpClearMSBInChunk w) \<le> j \<Longrightarrow> \<not> bit w j"
    and "unat (RtlpClearMSBInChunk w) < 64 \<Longrightarrow> bit w (63 - unat (RtlpClearMSBInChunk w))"
    and "unat (RtlpClearMSBInChunk w) = 64 \<longleftrightarrow> w = 0"
proof -
  consider (none) "w = 0" "unat (RtlpClearMSBInChunk w) = 64"
    | (some) i where "w \<noteq> 0" "BitScanReverse64 w = Some i" "unat (RtlpClearMSBInChunk w) = 63 - unat i"
  proof (cases "BitScanReverse64 w")
    case None
    then have "w = 0" by (simp only: BitScanReverse64_None)
    then show ?thesis using that(1) None by (simp add: RtlpClearMSBInChunk_def)
  next
    case (Some i)
    then have "unat (64 - i - 1) = 63 - unat i"
      using BitScanReverse64_Some(1) [OF Some]
      by (subst unat_minus_range; subst unat_minus_range) simp_all
    then show ?thesis using that(2) Some
      by (metis RtlpClearMSBInChunk_def BitScanReverse64_None option.distinct(1) option.simps(5))
  qed
  note cs = this
  show "unat (RtlpClearMSBInChunk w) \<le> 64"
    by (rule cs) (auto dest: BitScanReverse64_Some)
  show "64 - unat (RtlpClearMSBInChunk w) \<le> j \<Longrightarrow> \<not> bit w j"
  proof (rule cs)
    fix i
    assume a: "64 - unat (RtlpClearMSBInChunk w) \<le> j" "BitScanReverse64 w = Some i"
      "unat (RtlpClearMSBInChunk w) = 63 - unat i"
    then have "unat i < j" using BitScanReverse64_Some(1) [OF a(2)] by linarith
    then show ?thesis using BitScanReverse64_Some(3) [OF a(2)] by blast
  qed simp
  show "unat (RtlpClearMSBInChunk w) < 64 \<Longrightarrow> bit w (63 - unat (RtlpClearMSBInChunk w))"
  proof (rule cs)
    fix i
    assume a: "BitScanReverse64 w = Some i" "unat (RtlpClearMSBInChunk w) = 63 - unat i"
    then have "63 - unat (RtlpClearMSBInChunk w) = unat i" using BitScanReverse64_Some(1) [OF a(1)] by linarith
    then show ?thesis using BitScanReverse64_Some(2) [OF a(1)] by simp
  qed simp
  show "unat (RtlpClearMSBInChunk w) = 64 \<longleftrightarrow> w = 0"
    by (rule cs) (auto dest: BitScanReverse64_Some)
qed

section \<open>A run inside a chunk\<close>

text \<open>The mask that is left has a bit for every start of a run of set bits of the given length: the
  shifts \<open>s\<close> with \<open>s \<le> r - s\<close> never leave a gap.\<close>

declare shift_and_mask.simps [simp del]

lemma shift_and_mask_bits:
  assumes "1 < unat r"
  shows "case shift_and_mask w r of
           None \<Rightarrow> \<forall>i. \<exists>j < unat r. \<not> bit w (i + j)
         | Some w' \<Rightarrow> w' \<noteq> 0 \<and> (\<forall>i. bit w' i \<longleftrightarrow> (\<forall>j < unat r. bit w (i + j)))"
  using assms
proof (induction w r rule: shift_and_mask.induct)
  case (1 w r)
  define s where "s = unat r div 2"
  define w1 where "w1 = w AND drop_bit s w"
  have us: "unat (r div 2) = s" by (simp add: s_def unat_div)
  have ur: "unat (r - r div 2) = unat r - s"
    by (subst unat_minus_range) (simp_all add: us s_def)
  have s: "0 < s" "s \<le> unat r - s" using 1(2) by (auto simp: s_def)
  have windows: "(\<forall>j < unat r - s. bit w1 (i + j)) \<longleftrightarrow> (\<forall>j < unat r. bit w (i + j))" for i
  proof
    assume a: "\<forall>j < unat r - s. bit w1 (i + j)"
    show "\<forall>j < unat r. bit w (i + j)"
    proof (intro allI impI)
      fix j assume "j < unat r"
      show "bit w (i + j)"
      proof (cases "j < unat r - s")
        case True
        then show ?thesis using a by (auto simp: w1_def bit_and_iff)
      next
        case False
        then have "j - s < unat r - s" "s + (i + (j - s)) = i + j" using s \<open>j < unat r\<close> by auto
        then show ?thesis using a by (metis bit_and_iff bit_drop_bit_eq comp_apply w1_def)
      qed
    qed
  next
    assume a: "\<forall>j < unat r. bit w (i + j)"
    show "\<forall>j < unat r - s. bit w1 (i + j)"
    proof (intro allI impI)
      fix j assume j: "j < unat r - s"
      then have "bit w (i + j)" "bit w (i + (s + j))" using a by auto
      then show "bit w1 (i + j)" by (simp add: w1_def bit_and_iff bit_drop_bit_eq ac_simps)
    qed
  qed
  have step: "shift_and_mask w r =
      (if w1 = 0 then None
       else if 1 < r - r div 2 then shift_and_mask w1 (r - r div 2) else Some w1)"
    by (simp add: shift_and_mask.simps [of w r] Let_def us w1_def)
  show ?case
  proof (cases "w1 = 0")
    case True
    have "0 < unat r - s" using s by simp
    then have "\<exists>j < unat r. \<not> bit w (i + j)" for i
      using windows [of i] True by (metis bit_0_eq bot_apply bot_bool_def)
    then show ?thesis using step True by simp
  next
    case False
    note nz = this
    show ?thesis
    proof (cases "1 < r - r div 2")
      case True
      then have "1 < unat (r - r div 2)" by (simp add: word_less_nat_alt)
      moreover have w1: "w AND drop_bit (unat (r div 2)) w = w1" by (simp only: w1_def us)
      ultimately have "case shift_and_mask w1 (r - r div 2) of
           None \<Rightarrow> \<forall>i. \<exists>j < unat (r - r div 2). \<not> bit w1 (i + j)
         | Some w' \<Rightarrow> w' \<noteq> 0 \<and> (\<forall>i. bit w' i \<longleftrightarrow> (\<forall>j < unat (r - r div 2). bit w1 (i + j)))"
        using 1(1) [OF refl refl _ refl True] nz unfolding w1 by blast
      then show ?thesis using step nz True
        by (simp add: ur windows split: option.splits) (metis windows)
    next
      case False
      then have "unat r - s = 1" using s ur by (simp add: word_less_nat_alt)
      then have "bit w1 i \<longleftrightarrow> (\<forall>j < unat r. bit w (i + j))" for i using windows [of i] by simp
      then show ?thesis using step nz False by simp
    qed
  qed
qed

lemma RtlpFindClearRunInChunk_None:
  assumes "RtlpFindClearRunInChunk chunk r = None" "1 < unat r"
  shows "\<exists>j < unat r. i + j < 64 \<longrightarrow> bit chunk (i + j)"
proof -
  have "shift_and_mask (NOT chunk) r = None"
    using assms shift_and_mask_bits [OF assms(2), of "NOT chunk"]
    by (auto simp: RtlpFindClearRunInChunk_def BitScanForward64_None split: option.splits)
  then obtain j where "j < unat r" "\<not> bit (NOT chunk) (i + j)"
    using shift_and_mask_bits [OF assms(2), of "NOT chunk"] by auto
  then show ?thesis by (auto simp: bit_not_iff)
qed

lemma RtlpFindClearRunInChunk_Some:
  assumes "RtlpFindClearRunInChunk chunk r = Some k" "1 < unat r"
  shows "unat k + unat r \<le> 64"
    and "\<And>j. j < unat r \<Longrightarrow> \<not> bit chunk (unat k + j)"
    and "\<And>i. i < unat k \<Longrightarrow> \<exists>j < unat r. i + j < 64 \<longrightarrow> bit chunk (i + j)"
proof -
  obtain w' where m: "shift_and_mask (NOT chunk) r = Some w'" "BitScanForward64 w' = Some k"
    using assms by (auto simp: RtlpFindClearRunInChunk_def split: option.splits)
  have b: "bit w' i \<longleftrightarrow> (\<forall>j < unat r. bit (NOT chunk) (i + j))" for i
    using shift_and_mask_bits [OF assms(2), of "NOT chunk"] m by simp
  have k: "\<forall>j < unat r. bit (NOT chunk) (unat k + j)" using b BitScanForward64_Some(2) [OF m(2)] by blast
  have "bit (NOT chunk) (unat k + (unat r - 1))" using k assms(2) by (metis diff_less less_trans zero_less_one)
  then have "unat k + (unat r - 1) < 64" by (auto simp: bit_not_iff)
  then show "unat k + unat r \<le> 64" by linarith
  show "\<not> bit chunk (unat k + j)" if "j < unat r" for j using k that by (auto simp: bit_not_iff)
  show "\<exists>j < unat r. i + j < 64 \<longrightarrow> bit chunk (i + j)" if "i < unat k" for i
    using b [of i] BitScanForward64_Some(3) [OF m(2) that] by (auto simp: bit_not_iff)
qed

end
