(* ===== verification/Bitmap_Runs.thy ===== *)
theory Bitmap_Runs
  imports Bitmap_Facts
begin

text \<open>
  The search over chunks against its specification: the first index, from the start of the
  range, at which the wanted number of clear bits follows one another.  \<open>C i\<close> is that bit \<open>i\<close> is
  in the range and clear.  Each strategy keeps the invariant that no run starts before the
  clear bits at the end of the chunk it has reached.
\<close>

section \<open>Runs\<close>

definition run :: "(nat \<Rightarrow> bool) \<Rightarrow> nat \<Rightarrow> nat \<Rightarrow> bool" where
  "run C n i \<longleftrightarrow> (\<forall>j < n. C (i + j))"

definition no_run :: "(nat \<Rightarrow> bool) \<Rightarrow> nat \<Rightarrow> nat \<Rightarrow> bool" where
  "no_run C n x \<longleftrightarrow> (\<forall>i < x. \<not> run C n i)"

text \<open>What a search that must start no later than \<open>lim\<close> returns.\<close>

definition first_run :: "(nat \<Rightarrow> bool) \<Rightarrow> nat \<Rightarrow> nat \<Rightarrow> ulong \<Rightarrow> bool" where
  "first_run C n lim r \<longleftrightarrow>
     (if r = RTL_INVALID_INDEX then no_run C n (Suc lim)
      else unat r \<le> lim \<and> run C n (unat r) \<and> no_run C n (unat r))"

lemma no_run_past:
  assumes "no_run C n x" "\<not> C k" "k < x + n"
  shows "no_run C n (Suc k)"
  unfolding no_run_def
proof (intro allI impI)
  fix i assume "i < Suc k"
  show "\<not> run C n i"
  proof (cases "i < x")
    case False
    then have "k - i < n" "i + (k - i) = k" using assms(3) \<open>i < Suc k\<close> by auto
    then show ?thesis using assms(2) by (metis run_def)
  qed (use assms(1) in \<open>simp add: no_run_def\<close>)
qed

lemma no_run_mono: "no_run C n x \<Longrightarrow> y \<le> x \<Longrightarrow> no_run C n y"
  by (auto simp: no_run_def)

lemma runI:
  assumes "\<And>k. i \<le> k \<Longrightarrow> k < i + n \<Longrightarrow> C k"
  shows "run C n i"
  using assms by (simp add: run_def)

lemma first_run_invalid: "no_run C n x \<Longrightarrow> lim < x \<Longrightarrow> first_run C n lim RTL_INVALID_INDEX"
  by (auto simp: first_run_def no_run_def)

lemma first_run_found:
  assumes "run C n (unat r)" "no_run C n (unat r)" "unat r \<le> lim" "lim + 1 < 2 ^ 32"
  shows "first_run C n lim r"
proof -
  have "unat (- 1 :: ulong) = 4294967295"
    by (simp add: unsigned_minus_1_eq_mask mask_eq_exp_minus_1)
  then have "r \<noteq> - 1" using assms(3,4) by auto
  then show ?thesis using assms by (simp add: first_run_def)
qed

section \<open>Chunks that show the bits\<close>

definition shows_bits :: "(nat \<Rightarrow> bool) \<Rightarrow> ulonglong \<Rightarrow> nat \<Rightarrow> bool" where
  "shows_bits C w p \<longleftrightarrow> (\<forall>j < 64. bit w j \<longleftrightarrow> \<not> C (64 * p + j))"

lemma shows_bits_iff:
  assumes "shows_bits C w p" "64 * p \<le> k" "k < 64 * p + 64"
  shows "bit w (k - 64 * p) \<longleftrightarrow> \<not> C k"
proof -
  have "k - 64 * p < 64" "64 * p + (k - 64 * p) = k" using assms by auto
  then show ?thesis using assms(1) by (metis shows_bits_def)
qed

lemma shows_clear: "shows_bits C 0 p \<Longrightarrow> 64 * p \<le> k \<Longrightarrow> k < 64 * p + 64 \<Longrightarrow> C k"
  using shows_bits_iff [of C 0 p k] by simp

lemma shows_set: "shows_bits C (- 1) p \<Longrightarrow> 64 * p \<le> k \<Longrightarrow> k < 64 * p + 64 \<Longrightarrow> \<not> C k"
  using shows_bits_iff [of C "- 1" p k] by (simp add: less_diff_conv2)

text \<open>The clear bits at the end of a chunk, and the last set bit before them.\<close>

lemma shows_tail:
  assumes "shows_bits C w p" "64 * p + 64 - unat (RtlpClearMSBInChunk w) \<le> k" "k < 64 * p + 64"
  shows "C k"
proof -
  have "64 * p \<le> k" "64 - unat (RtlpClearMSBInChunk w) \<le> k - 64 * p"
    using assms(2) RtlpClearMSBInChunk_spec(1) [of w] by linarith+
  then show ?thesis
    using shows_bits_iff [OF assms(1) _ assms(3)] RtlpClearMSBInChunk_spec(2) [of w "k - 64 * p"] by blast
qed

lemma shows_before_tail:
  assumes "shows_bits C w p" "w \<noteq> 0"
  shows "unat (RtlpClearMSBInChunk w) < 64" and "\<not> C (64 * p + 63 - unat (RtlpClearMSBInChunk w))"
proof -
  show l: "unat (RtlpClearMSBInChunk w) < 64"
    using RtlpClearMSBInChunk_spec(1,4) [of w] assms(2) by linarith
  then have "bit w (63 - unat (RtlpClearMSBInChunk w))" by (rule RtlpClearMSBInChunk_spec(3))
  moreover have "64 * p + 63 - unat (RtlpClearMSBInChunk w) - 64 * p = 63 - unat (RtlpClearMSBInChunk w)"
    using l by linarith
  ultimately show "\<not> C (64 * p + 63 - unat (RtlpClearMSBInChunk w))"
    using shows_bits_iff [OF assms(1), of "64 * p + 63 - unat (RtlpClearMSBInChunk w)"] l by simp
qed

lemma shows_head:
  assumes "shows_bits C w p" "64 * p \<le> k" "k < 64 * p + unat (RtlpClearLSBInChunk w)"
  shows "C k"
proof -
  have "k < 64 * p + 64" "k - 64 * p < unat (RtlpClearLSBInChunk w)"
    using assms(2,3) RtlpClearLSBInChunk_spec(1) [of w] by linarith+
  then show ?thesis
    using shows_bits_iff [OF assms(1,2)] RtlpClearLSBInChunk_spec(2) [of "k - 64 * p" w] by blast
qed

lemma shows_after_head:
  assumes "shows_bits C w p" "unat (RtlpClearLSBInChunk w) < 64"
  shows "\<not> C (64 * p + unat (RtlpClearLSBInChunk w))"
  using shows_bits_iff [OF assms(1), of "64 * p + unat (RtlpClearLSBInChunk w)"] assms(2)
    RtlpClearLSBInChunk_spec(3) [of w] by simp

text \<open>The invariant of the searches: no run starts before the clear bits at the end of chunk \<open>p\<close>.\<close>

definition reached :: "(nat \<Rightarrow> bool) \<Rightarrow> nat \<Rightarrow> ulonglong \<Rightarrow> nat \<Rightarrow> bool" where
  "reached C n w p \<longleftrightarrow> no_run C n (64 * p + 64 - unat (RtlpClearMSBInChunk w))"

lemma reachedI:
  assumes "shows_bits C w p" "no_run C n x" "64 * p \<le> x" "64 \<le> n"
  shows "reached C n w p"
proof (cases "w = 0")
  case True
  then have "unat (RtlpClearMSBInChunk w) = 64" by (simp add: RtlpClearMSBInChunk_spec(4))
  then show ?thesis using assms(2,3) by (simp add: reached_def no_run_mono)
next
  case False
  note t = shows_before_tail [OF assms(1) False]
  have "no_run C n (Suc (64 * p + 63 - unat (RtlpClearMSBInChunk w)))"
    by (rule no_run_past [OF assms(2) t(2)]) (use assms(3,4) t(1) in linarith)
  moreover have "Suc (64 * p + 63 - unat (RtlpClearMSBInChunk w)) = 64 * p + 64 - unat (RtlpClearMSBInChunk w)"
    using t(1) by linarith
  ultimately show ?thesis by (simp only: reached_def)
qed

text \<open>A set bit in the chunk, before the end of a run that would start at \<open>x\<close>.\<close>

lemma reached_after:
  assumes "shows_bits C w p" "no_run C n x" "\<not> C k" "64 * p \<le> k" "k < 64 * p + 64" "k < x + n" "64 \<le> n"
  shows "reached C n w p"
proof -
  have "no_run C n (Suc k)" by (rule no_run_past [OF assms(2,3,6)])
  moreover have "64 * p \<le> Suc k" using assms(4) by simp
  ultimately show ?thesis by (rule reachedI [OF assms(1) _ _ assms(7)])
qed

section \<open>Runs that contain a whole chunk\<close>

declare clear_chunks.simps [simp del]

lemma clear_chunks_ok:
  assumes "p \<le> e"
  shows "\<exists>p'. clear_chunks rd e p = Some p' \<and> p \<le> p' \<and> p' \<le> e \<and>
           (\<forall>n. p \<le> n \<longrightarrow> n < p' \<longrightarrow> rd n = 0) \<and> (p' \<noteq> e \<longrightarrow> rd p' \<noteq> 0)"
  using assms
proof (induction "e - p" arbitrary: p)
  case 0
  then have "e = p" by simp
  moreover have "clear_chunks rd p p = Some p" by (simp add: clear_chunks.simps [of rd p p])
  ultimately show ?case by auto
next
  case (Suc d)
  show ?case
  proof (cases "rd p = 0")
    case True
    have "d = e - Suc p" "Suc p \<le> e" using Suc.hyps(2) by auto
    from Suc.hyps(1) [OF this]
    obtain p' where "clear_chunks rd e (Suc p) = Some p'" "Suc p \<le> p'" "p' \<le> e"
      "\<forall>n. Suc p \<le> n \<longrightarrow> n < p' \<longrightarrow> rd n = 0" "p' \<noteq> e \<longrightarrow> rd p' \<noteq> 0"
      by blast
    note rest = this
    have "rd n = 0" if "p \<le> n" "n < p'" for n
      using rest(4) True that by (cases "n = p") auto
    moreover have "p \<noteq> e" using Suc.hyps(2) by auto
    then have "clear_chunks rd e p = Some p'"
      using True rest(1) by (simp add: clear_chunks.simps [of rd e p])
    ultimately show ?thesis using rest by (intro exI [of _ p']) auto
  next
    case False
    then have "clear_chunks rd e p = Some p" by (simp add: clear_chunks.simps [of rd e p])
    then show ?thesis using Suc.hyps(2) False by (intro exI [of _ p]) auto
  qed
qed

lemma unat_bit_index: "64 * p < 2 ^ 32 \<Longrightarrow> unat (of_nat (p * 64) :: ulong) = 64 * p"
  by (simp add: unat_of_nat_range mult.commute del: of_nat_mult)

lemma largeLoopEntry_ok:
  assumes rd: "\<And>n. start < n \<Longrightarrow> shows_bits C (rd n) n"
    and n: "n = unat number" "128 \<le> n"
    and l: "l = unat lim" "l + n + 256 \<le> 2 ^ 32"
    and q: "start \<le> q" "64 * q \<le> l + 128"
    and head: "h = unat head" "h < 64" "h \<le> 64 * q"
    and clear: "\<And>k. 64 * q - h \<le> k \<Longrightarrow> k < 64 * q + 64 \<Longrightarrow> C k"
    and before: "no_run C n (64 * q - h)"
  shows "case largeLoopEntry rd number lim head q of
           None \<Rightarrow> False
         | Some (Inl r) \<Rightarrow> first_run C n l r
         | Some (Inr p) \<Rightarrow> q < p \<and> rd p \<noteq> 0 \<and> reached C n (rd p) p"
proof -
  define s where "s = of_nat (q * 64) - head"
  define req where "req = unat ((number - head) div CHUNK_BITS)"
  have us: "unat s = 64 * q - h"
    using q l head unat_bit_index [of q] unat_minus_range [of head "of_nat (q * 64)"] by (simp add: s_def)
  have un: "unat (number - head) = n - h" using n head by (simp add: unat_minus_range)
  have req: "req = (n - h) div 64" by (simp add: req_def unat_div un)
  have tail: "unat ((number - head) mod CHUNK_BITS) = (n - h) mod 64" by (simp add: unat_mod un)
  have "64 \<le> n - h" using n head by linarith
  then have r1: "1 \<le> req" by (simp add: req)
  show ?thesis
  proof (cases "lim < s")
    case True
    then have "l < 64 * q - h" using us l by (simp add: word_less_nat_alt)
    then have "first_run C n l RTL_INVALID_INDEX" by (rule first_run_invalid [OF before])
    then show ?thesis using True by (simp add: largeLoopEntry_def s_def)
  next
    case False
    then have sl: "64 * q - h \<le> l" using us l by (simp add: word_less_nat_alt)
    have "Suc q \<le> q + req" using r1 by simp
    from clear_chunks_ok [OF this, of rd]
    obtain p where p: "clear_chunks rd (q + req) (q + 1) = Some p" "Suc q \<le> p" "p \<le> q + req"
      "\<forall>n. Suc q \<le> n \<longrightarrow> n < p \<longrightarrow> rd n = 0" "p \<noteq> q + req \<longrightarrow> rd p \<noteq> 0" by auto
    have C: "C k" if "64 * q - h \<le> k" "k < 64 * p" for k
    proof (cases "k < 64 * q + 64")
      case False
      then have "Suc q \<le> k div 64" "k div 64 < p" using that(2) by auto
      then have "rd (k div 64) = 0" using p(4) by blast
      moreover have "shows_bits C (rd (k div 64)) (k div 64)" using rd q(1) \<open>Suc q \<le> k div 64\<close> by simp
      ultimately have "shows_bits C 0 (k div 64)" by simp
      then show ?thesis using shows_clear [of C "k div 64" k] by simp
    qed (use clear that in blast)
    have sp: "shows_bits C (rd p) p" using rd q(1) p(2) by simp
    have e: "largeLoopEntry rd number lim head q =
        (if p \<noteq> q + req then Some (Inr p)
         else if (number - head) mod CHUNK_BITS \<noteq> 0
                 \<and> RtlpClearLSBInChunk (rd p) < (number - head) mod CHUNK_BITS
         then Some (Inr p) else Some (Inl s))"
      unfolding largeLoopEntry_def Let_def
      unfolding s_def [symmetric] req_def [symmetric] p(1) bind.bind_lunit
      using False by simp
    have split: "64 * req + (n - h) mod 64 = n - h" by (simp add: req)
    consider (stop) "p \<noteq> q + req"
      | (tail) "p = q + req" "RtlpClearLSBInChunk (rd p) < (number - head) mod CHUNK_BITS"
      | (found) "p = q + req" "(number - head) mod CHUNK_BITS \<noteq> 0 \<Longrightarrow>
            (number - head) mod CHUNK_BITS \<le> RtlpClearLSBInChunk (rd p)"
      by (meson not_less)
    then show ?thesis
    proof cases
      case stop
      then have nz: "rd p \<noteq> 0" using p(5) by simp
      note t = shows_before_tail [OF sp nz]
      have "64 * p + 64 \<le> 64 * q + 64 * req" using stop p(3) by simp
      then have "64 * p + 63 - unat (RtlpClearMSBInChunk (rd p)) < (64 * q - h) + n"
        using split n head by linarith
      then have "reached C n (rd p) p"
        using reached_after [OF sp before t(2)] t(1) n by simp
      then show ?thesis using e stop nz p(2) by simp
    next
      case tail
      then have lt: "unat (RtlpClearLSBInChunk (rd p)) < (n - h) mod 64"
        by (simp add: word_less_nat_alt \<open>unat ((number - head) mod CHUNK_BITS) = (n - h) mod 64\<close>)
      then have l64: "unat (RtlpClearLSBInChunk (rd p)) < 64" using mod_less_divisor [of 64 "n - h"] by linarith
      then have nz: "rd p \<noteq> 0" using RtlpClearLSBInChunk_spec(4) [of "rd p"] by auto
      have "64 * p + unat (RtlpClearLSBInChunk (rd p)) < (64 * q - h) + n"
        using lt split tail(1) n head by (simp add: algebra_simps)
      then have "reached C n (rd p) p"
        using reached_after [OF sp before shows_after_head [OF sp l64]] l64 n by simp
      moreover have "(number - head) mod CHUNK_BITS \<noteq> 0"
        using tail(2) word_not_simps(1) by (metis (no_types))
      ultimately show ?thesis using e tail nz p(2) by simp
    next
      case found
      have rest: "(n - h) mod 64 \<le> unat (RtlpClearLSBInChunk (rd p))"
      proof (cases "(number - head) mod CHUNK_BITS = 0")
        case True
        then show ?thesis using tail by simp
      next
        case False
        then show ?thesis using found(2) tail by (simp add: word_le_nat_alt)
      qed
      have "run C n (unat s)"
      proof (rule runI)
        fix k assume k: "unat s \<le> k" "k < unat s + n"
        show "C k"
        proof (cases "k < 64 * p")
          case True
          then show ?thesis using C k(1) us by simp
        next
          case False
          have "k < 64 * p + unat (RtlpClearLSBInChunk (rd p))"
            using k(2) us rest split found(1) head n by (simp add: algebra_simps)
          then show ?thesis using shows_head [OF sp] False by simp
        qed
      qed
      then have "first_run C n l s"
        using first_run_found [of C n s l] before us sl l(2) by simp
      moreover have "\<not> ((number - head) mod CHUNK_BITS \<noteq> 0
          \<and> RtlpClearLSBInChunk (rd p) < (number - head) mod CHUNK_BITS)"
        using found(2) by (meson not_less)
      then have "largeLoopEntry rd number lim head q = Some (Inl s)"
        unfolding e using found(1) by (simp only: if_False simp_thms)
      ultimately show ?thesis by simp
    qed
  qed
qed


declare findRunStartLarge.simps [simp del]

lemma findRunStartLarge_ok:
  assumes rd: "\<And>n. start < n \<Longrightarrow> shows_bits C (rd n) n"
    and n: "n = unat number" "128 \<le> n"
    and l: "l = unat lim" "l + n + 256 \<le> 2 ^ 32"
    and c: "l \<le> 64 * c" "64 * c < l + 64"
    and p: "start < p" "rd p \<noteq> 0" "reached C n (rd p) p"
  shows "\<exists>r. findRunStartLarge rd number lim c p = Some r \<and> first_run C n l r"
  using p
proof (induction "Suc c - p" arbitrary: p rule: less_induct)
  case (less p)
  have sp: "shows_bits C (rd p) p" and sq: "shows_bits C (rd (Suc p)) (Suc p)"
    using rd less.prems(1) by simp_all
  note t = shows_before_tail [OF sp less.prems(2)]
  have nr: "no_run C n (64 * Suc p - unat (RtlpClearMSBInChunk (rd p)))"
    using less.prems(3) by (simp add: reached_def algebra_simps)
  show ?case
  proof (cases "c < p")
    case True
    have "first_run C n l RTL_INVALID_INDEX"
      by (rule first_run_invalid [OF nr]) (use True c(1) t(1) in simp)
    then show ?thesis using True by (simp add: findRunStartLarge.simps [of rd number lim c p])
  next
    case False
    note step = findRunStartLarge.simps [of rd number lim c p]
    have IH: "\<exists>r. findRunStartLarge rd number lim c q = Some r \<and> first_run C n l r"
      if "p < q" "rd q \<noteq> 0" "reached C n (rd q) q" for q
      using less.hyps [of q] that less.prems(1) False by simp
    show ?thesis
    proof (cases "rd (Suc p) = 0")
      case zero: True
      have clear: "C k" if "64 * Suc p - unat (RtlpClearMSBInChunk (rd p)) \<le> k" "k < 64 * Suc p + 64" for k
      proof (cases "k < 64 * Suc p")
        case True
        then show ?thesis using shows_tail [OF sp, of k] that(1) by simp
      next
        case k: False
        then show ?thesis using shows_clear [of C "Suc p" k] sq zero that(2) by simp
      qed
      have "case largeLoopEntry rd number lim (RtlpClearMSBInChunk (rd p)) (Suc p) of
           None \<Rightarrow> False
         | Some (Inl r) \<Rightarrow> first_run C n l r
         | Some (Inr q) \<Rightarrow> Suc p < q \<and> rd q \<noteq> 0 \<and> reached C n (rd q) q"
        by (rule largeLoopEntry_ok [OF rd n l le_SucI [OF less_imp_le [OF less.prems(1)]] _ refl t(1) _ clear nr])
          (use False c(2) t(1) in simp_all)
      then consider r where "largeLoopEntry rd number lim (RtlpClearMSBInChunk (rd p)) (Suc p) = Some (Inl r)"
          "first_run C n l r"
        | q where "largeLoopEntry rd number lim (RtlpClearMSBInChunk (rd p)) (Suc p) = Some (Inr q)"
          "p < q" "rd q \<noteq> 0" "reached C n (rd q) q"
        by (auto split: option.splits sum.splits)
      then show ?thesis
      proof cases
        case 1
        then show ?thesis using step False zero by simp
      next
        case 2
        then show ?thesis using step False zero IH [of q] by simp
      qed
    next
      case nz: False
      have "reached C n (rd (Suc p)) (Suc p)"
      proof -
        note t' = shows_before_tail [OF sq nz]
        show ?thesis
          by (rule reached_after [OF sq nr t'(2)]) (use t(1) t'(1) n in simp_all)
      qed
      then show ?thesis using step False nz IH [of "Suc p"] by simp
    qed
  qed
qed

lemma find_large_run_ok:
  assumes first: "shows_bits C first start" "\<And>i. i < 64 * start \<Longrightarrow> \<not> C i"
    and rd: "\<And>n. start < n \<Longrightarrow> shows_bits C (rd n) n"
    and n: "n = unat number" "128 \<le> n"
    and l: "l = unat lim" "l + n + 256 \<le> 2 ^ 32" "64 * start \<le> l + 64"
  shows "\<exists>r. find_large_run rd first number lim (unat (lim div CHUNK_BITS)) start = Some r
           \<and> first_run C n l r"
proof -
  define c where "c = (if lim mod CHUNK_BITS \<noteq> 0 then unat (lim div CHUNK_BITS) + 1
                       else unat (lim div CHUNK_BITS))"
  have lm: "lim mod CHUNK_BITS = 0 \<longleftrightarrow> l mod 64 = 0"
  proof -
    have "unat (lim mod CHUNK_BITS) = l mod 64" by (simp add: unat_mod l(1))
    then show ?thesis by (metis unat_0 unat_eq_zero)
  qed
  have c: "l \<le> 64 * c" "64 * c < l + 64"
  proof -
    have "l = 64 * (l div 64) + l mod 64" "l mod 64 < 64" by simp_all
    moreover have "c = (if l mod 64 \<noteq> 0 then l div 64 + 1 else l div 64)"
      by (simp add: c_def lm unat_div l(1))
    ultimately show "l \<le> 64 * c" "64 * c < l + 64" by (cases "l mod 64 = 0"; simp; linarith)+
  qed
  have nr0: "no_run C n (64 * start)"
    using first(2) n(2) by (auto simp: no_run_def run_def intro!: exI [of _ 0])
  have go: "\<exists>r. (largeLoopEntry rd number lim head q \<bind> (\<lambda>next. case next of
               Inl index \<Rightarrow> Some index
             | Inr chunkPtr \<Rightarrow> findRunStartLarge rd number lim c chunkPtr)) = Some r \<and> first_run C n l r"
    if "case largeLoopEntry rd number lim head q of
           None \<Rightarrow> False
         | Some (Inl r) \<Rightarrow> first_run C n l r
         | Some (Inr p) \<Rightarrow> q < p \<and> rd p \<noteq> 0 \<and> reached C n (rd p) p" "start \<le> q" for head q
  proof -
    from that(1) consider r where "largeLoopEntry rd number lim head q = Some (Inl r)" "first_run C n l r"
      | p where "largeLoopEntry rd number lim head q = Some (Inr p)" "q < p" "rd p \<noteq> 0" "reached C n (rd p) p"
      by (auto split: option.splits sum.splits)
    then show ?thesis
    proof cases
      case (2 p)
      then have "start < p" using that(2) by simp
      from findRunStartLarge_ok [OF rd n l(1,2) c this 2(3,4)] show ?thesis using 2 by simp
    qed simp
  qed
  have def: "find_large_run rd first number lim (unat (lim div CHUNK_BITS)) start =
    (if first = 0
     then largeLoopEntry rd number lim 0 start \<bind> (\<lambda>next. case next of
               Inl index \<Rightarrow> Some index
             | Inr chunkPtr \<Rightarrow> findRunStartLarge rd number lim c chunkPtr)
     else if rd (Suc start) = 0
     then largeLoopEntry rd number lim (RtlpClearMSBInChunk first) (Suc start) \<bind> (\<lambda>next. case next of
               Inl index \<Rightarrow> Some index
             | Inr chunkPtr \<Rightarrow> findRunStartLarge rd number lim c chunkPtr)
     else findRunStartLarge rd number lim c (Suc start))"
    unfolding find_large_run_def Let_def c_def [symmetric] by simp
  have sq: "shows_bits C (rd (Suc start)) (Suc start)" using rd by simp
  show ?thesis
  proof (cases "first = 0")
    case True
    have "case largeLoopEntry rd number lim 0 start of
           None \<Rightarrow> False
         | Some (Inl r) \<Rightarrow> first_run C n l r
         | Some (Inr p) \<Rightarrow> start < p \<and> rd p \<noteq> 0 \<and> reached C n (rd p) p"
      by (rule largeLoopEntry_ok [OF rd n l(1,2) le_refl, where h = 0])
        (use l(3) nr0 True shows_clear [of C start] first(1) in simp_all)
    then show ?thesis using def True go by simp
  next
    case nz: False
    note t = shows_before_tail [OF first(1) nz]
    have "reached C n first start" by (rule reachedI [OF first(1) nr0]) (use n in simp_all)
    then have nr: "no_run C n (64 * Suc start - unat (RtlpClearMSBInChunk first))"
      by (simp add: reached_def algebra_simps)
    show ?thesis
    proof (cases "rd (Suc start) = 0")
      case zero: True
      have clear: "C k" if "64 * Suc start - unat (RtlpClearMSBInChunk first) \<le> k" "k < 64 * Suc start + 64" for k
      proof (cases "k < 64 * Suc start")
        case True
        then show ?thesis using shows_tail [OF first(1), of k] that(1) by simp
      next
        case k: False
        then show ?thesis using shows_clear [of C "Suc start" k] sq zero that(2) by simp
      qed
      have "case largeLoopEntry rd number lim (RtlpClearMSBInChunk first) (Suc start) of
           None \<Rightarrow> False
         | Some (Inl r) \<Rightarrow> first_run C n l r
         | Some (Inr p) \<Rightarrow> Suc start < p \<and> rd p \<noteq> 0 \<and> reached C n (rd p) p"
        by (rule largeLoopEntry_ok [OF rd n l(1,2) le_SucI [OF le_refl] _ refl t(1) _ clear nr])
          (use l(3) t(1) in simp_all)
      then show ?thesis using def nz zero go [where q = "Suc start"] by simp
    next
      case False
      note t' = shows_before_tail [OF sq False]
      have "reached C n (rd (Suc start)) (Suc start)"
        by (rule reached_after [OF sq nr t'(2)]) (use t(1) t'(1) n in simp_all)
      then show ?thesis
        using def nz False findRunStartLarge_ok [OF rd n l(1,2) c, where p = "Suc start"] by simp
    qed
  qed
qed

end
