(* ===== verification/Bitmap_Short_Runs.thy ===== *)
theory Bitmap_Short_Runs
  imports Bitmap_Runs
begin

text \<open>
  The strategies for runs of at most 127 bits, and the four of them together: the search over a
  range returns the first run.
\<close>

section \<open>Runs of one to two chunks\<close>

declare find_clear_tail.simps [simp del]
declare find_medium_run.simps [simp del]
declare find_not_set.simps [simp del]
declare find_short_run.simps [simp del]

lemma high_bit_clear: "w AND CHUNK_HIGH_BIT = 0 \<longleftrightarrow> \<not> bit w 63"
  by (simp only: bit_iff_and_push_bit_not_eq_0 not_not)

lemma high_bit_set:
  assumes "bit w 63"
  shows "unat (RtlpClearMSBInChunk w) = 0"
  using RtlpClearMSBInChunk_spec(1) [of w] RtlpClearMSBInChunk_spec(2) [of w 63] assms by linarith

lemma find_clear_tail_ok:
  assumes rd: "\<And>n. start < n \<Longrightarrow> shows_bits C (rd n) n" and n: "64 \<le> n"
    and p: "start \<le> p" "shows_bits C w p" "reached C n w p"
  shows "\<exists>x. find_clear_tail rd c w p = Some x \<and>
    (case x of None \<Rightarrow> no_run C n (64 * c + 64)
     | Some (w', p') \<Rightarrow> p \<le> p' \<and> p' \<le> max p c \<and> shows_bits C w' p' \<and> reached C n w' p')"
  using p
proof (induction "c - p" arbitrary: p w rule: less_induct)
  case (less p w)
  note step = find_clear_tail.simps [of rd c w p, unfolded high_bit_clear]
  show ?case
  proof (cases "bit w 63")
    case False
    then show ?thesis using step less.prems by auto
  next
    case True
    have nr: "no_run C n (64 * Suc p)"
      using less.prems(3) high_bit_set [OF True] by (simp add: reached_def algebra_simps)
    show ?thesis
    proof (cases "c < Suc p")
      case last: True
      have "no_run C n (64 * c + 64)" by (rule no_run_mono [OF nr]) (use last in simp)
      then show ?thesis using step True last by simp
    next
      case False
      have sq: "shows_bits C (rd (Suc p)) (Suc p)" using rd less.prems(1) by simp
      have rq: "reached C n (rd (Suc p)) (Suc p)" by (rule reachedI [OF sq nr _ n]) simp
      have "c - Suc p < c - p" "start \<le> Suc p" using False less.prems(1) by simp_all
      from less.hyps [OF this sq rq] obtain x where "find_clear_tail rd c (rd (Suc p)) (Suc p) = Some x"
          "case x of None \<Rightarrow> no_run C n (64 * c + 64)
           | Some (w', p') \<Rightarrow> Suc p \<le> p' \<and> p' \<le> max (Suc p) c \<and> shows_bits C w' p' \<and> reached C n w' p'"
        by blast
      moreover have "find_clear_tail rd c w p = find_clear_tail rd c (rd (Suc p)) (Suc p)"
        using step True False by simp
      ultimately show ?thesis using False by (intro exI [of _ x]) (auto split: option.splits)
    qed
  qed
qed

lemma find_medium_run_ok:
  assumes rd: "\<And>n. start < n \<Longrightarrow> shows_bits C (rd n) n"
    and n: "n = unat number" "64 \<le> n" "n < 128"
    and l: "l = unat lim" "l + n + 256 \<le> 2 ^ 32"
    and c: "c = l div 64"
    and p: "start \<le> p" "p \<le> c + 2" "shows_bits C w p" "reached C n w p"
  shows "\<exists>r. find_medium_run rd number lim c w p = Some r \<and> first_run C n l r"
  using p
proof (induction "c + 3 - p" arbitrary: p w rule: less_induct)
  case (less p w)
  note step = find_medium_run.simps [of rd number lim c w p]
  have cl: "64 * c \<le> l" "l < 64 * c + 64" using c by simp_all
  obtain x where x: "find_clear_tail rd c w p = Some x" and
    x': "case x of None \<Rightarrow> no_run C n (64 * c + 64)
     | Some (w', p') \<Rightarrow> p \<le> p' \<and> p' \<le> max p c \<and> shows_bits C w' p' \<and> reached C n w' p'"
    using find_clear_tail_ok [OF rd n(2) less.prems(1,3,4)] by blast
  show ?case
  proof (cases x)
    case None
    then have "first_run C n l RTL_INVALID_INDEX" using x' cl by (auto intro: first_run_invalid)
    then show ?thesis using step x None by simp
  next
    case (Some wp)
    then obtain w' q where wq: "x = Some (w', q)" by (cases wp) auto
    then have q: "p \<le> q" "q \<le> max p c" "shows_bits C w' q" "reached C n w' q" using x' by auto
    define head where "head = RtlpClearMSBInChunk w'"
    define t where "t = unat head"
    define s where "s = of_nat (q * 64) + (CHUNK_BITS - head)"
    have t: "t \<le> 64" using RtlpClearMSBInChunk_spec(1) [of w'] by (simp add: t_def head_def)
    have q64: "64 * q \<le> l + 128" using q(2) less.prems(2) cl by simp
    have us: "unat s = 64 * q + 64 - t"
    proof -
      have "unat (CHUNK_BITS - head) = 64 - t" using t by (simp add: unat_minus_range t_def)
      moreover have "unat (of_nat (q * 64) :: ulong) = 64 * q"
        using q64 l by (intro unat_bit_index) simp
      ultimately show ?thesis
        unfolding s_def using q64 l t by (subst unat_plus_range) (simp_all del: of_nat_mult)
    qed
    have nr: "no_run C n (unat s)" using q(4) by (simp add: reached_def us t_def head_def)
    have tail: "C k" if "unat s \<le> k" "k < 64 * q + 64" for k
      using shows_tail [OF q(3), of k] that by (simp add: us t_def head_def)
    have un: "unat (number - head) = n - t" using n(1,2) t by (simp add: unat_minus_range t_def)
    show ?thesis
    proof (cases "lim < s")
      case True
      then have "first_run C n l RTL_INVALID_INDEX"
        using first_run_invalid [OF nr] l(1) by (simp add: word_less_nat_alt)
      then show ?thesis using step x wq True by (simp add: s_def head_def)
    next
      case False
      then have sl: "unat s \<le> l" using l(1) by (simp add: word_less_nat_alt)
      have found: "first_run C n l s" if "\<And>k. 64 * q + 64 \<le> k \<Longrightarrow> k < unat s + n \<Longrightarrow> C k"
      proof (rule first_run_found [OF _ nr sl])
        show "run C n (unat s)" by (rule runI) (meson linorder_not_le tail that)
      qed (use l in simp)
      have qc: "q \<le> c" using sl us t cl by linarith
      have s1: "shows_bits C (rd (Suc q)) (Suc q)" "shows_bits C (rd (Suc (Suc q))) (Suc (Suc q))"
        using rd less.prems(1) q(1) by simp_all
      have IH: "\<exists>r. find_medium_run rd number lim c (rd q') q' = Some r \<and> first_run C n l r"
        if "q < q'" "q' \<le> q + 2" "reached C n (rd q') q'" for q'
        using less.hyps [of q' "rd q'"] that q(1) qc less.prems(1) rd [of q'] by simp
      have body: "find_medium_run rd number lim c w p =
        (if number - head = 0 then Some s
         else if CHUNK_BITS \<le> number - head
         then if rd (Suc q) \<noteq> 0 then find_medium_run rd number lim c (rd (Suc q)) (Suc q)
              else if number - head - CHUNK_BITS = 0 then Some s
              else if number - head - CHUNK_BITS \<le> RtlpClearLSBInChunk (rd (Suc (Suc q))) then Some s
              else find_medium_run rd number lim c (rd (Suc (Suc q))) (Suc (Suc q))
         else if number - head \<le> RtlpClearLSBInChunk (rd (Suc q)) then Some s
         else find_medium_run rd number lim c (rd (Suc q)) (Suc q))"
        unfolding step x wq bind.bind_lunit option.case prod.case Let_def head_def [symmetric] s_def [symmetric]
        using False by simp
      consider (one) "n - t = 0"
        | (short) "0 < n - t" "n - t < 64" "n - t \<le> unat (RtlpClearLSBInChunk (rd (Suc q)))"
        | (short_no) "0 < n - t" "n - t < 64" "unat (RtlpClearLSBInChunk (rd (Suc q))) < n - t"
        | (full_no) "64 \<le> n - t" "rd (Suc q) \<noteq> 0"
        | (full) "64 \<le> n - t" "rd (Suc q) = 0" "n - t = 64"
        | (long) "64 < n - t" "rd (Suc q) = 0" "n - t - 64 \<le> unat (RtlpClearLSBInChunk (rd (Suc (Suc q))))"
        | (long_no) "64 < n - t" "rd (Suc q) = 0" "unat (RtlpClearLSBInChunk (rd (Suc (Suc q)))) < n - t - 64"
        by linarith
      then show ?thesis
      proof cases
        case one
        then have "number - head = 0" using un by (simp add: unat_eq_zero)
        moreover have "first_run C n l s" by (rule found) (use one us t n in linarith)
        ultimately show ?thesis using body by simp
      next
        case short
        have "number - head \<noteq> 0" "\<not> CHUNK_BITS \<le> number - head"
          "number - head \<le> RtlpClearLSBInChunk (rd (Suc q))"
          using short un by (auto simp: word_le_nat_alt unat_eq_zero [symmetric])
        moreover have "first_run C n l s"
        proof (rule found)
          fix k assume "64 * q + 64 \<le> k" "k < unat s + n"
          then show "C k" using shows_head [OF s1(1), of k] short us t by simp
        qed
        ultimately show ?thesis using body by simp
      next
        case short_no
        have "number - head \<noteq> 0" "\<not> CHUNK_BITS \<le> number - head"
          "\<not> number - head \<le> RtlpClearLSBInChunk (rd (Suc q))"
          using short_no un by (auto simp: word_le_nat_alt unat_eq_zero [symmetric])
        moreover have "reached C n (rd (Suc q)) (Suc q)"
          by (rule reached_after [OF s1(1) nr shows_after_head [OF s1(1)]]) (use short_no us t n in simp_all)
        ultimately show ?thesis using body IH [of "Suc q"] by simp
      next
        case full_no
        have "number - head \<noteq> 0" "CHUNK_BITS \<le> number - head"
          using full_no un by (auto simp: word_le_nat_alt unat_eq_zero [symmetric])
        note t' = shows_before_tail [OF s1(1) full_no(2)]
        have "reached C n (rd (Suc q)) (Suc q)"
          by (rule reached_after [OF s1(1) nr t'(2)]) (use full_no us t t'(1) n in simp_all)
        then show ?thesis using body IH [of "Suc q"] full_no \<open>number - head \<noteq> 0\<close> \<open>CHUNK_BITS \<le> number - head\<close> by simp
      next
        case full
        have a: "number - head \<noteq> 0" "CHUNK_BITS \<le> number - head"
          using full un by (auto simp: word_le_nat_alt unat_eq_zero [symmetric])
        have "unat (number - head - CHUNK_BITS) = 0"
          using full un a(2) by (simp add: unat_minus_range)
        then have "number - head - CHUNK_BITS = 0" by (simp add: unat_eq_zero)
        moreover have "first_run C n l s"
        proof (rule found)
          fix k assume "64 * q + 64 \<le> k" "k < unat s + n"
          then show "C k" using shows_clear [of C "Suc q" k] s1(1) full us t by simp
        qed
        ultimately show ?thesis using body a full by simp
      next
        case long
        have a: "number - head \<noteq> 0" "CHUNK_BITS \<le> number - head"
          using long un by (auto simp: word_le_nat_alt unat_eq_zero [symmetric])
        have u: "unat (number - head - CHUNK_BITS) = n - t - 64"
          using un a(2) by (simp add: unat_minus_range word_le_nat_alt)
        have "number - head - CHUNK_BITS \<le> RtlpClearLSBInChunk (rd (Suc (Suc q)))"
          "number - head - CHUNK_BITS \<noteq> 0"
          using long u by (auto simp: word_le_nat_alt unat_eq_zero [symmetric])
        moreover have "first_run C n l s"
        proof (rule found)
          fix k assume k: "64 * q + 64 \<le> k" "k < unat s + n"
          show "C k"
          proof (cases "k < 64 * Suc (Suc q)")
            case True
            then show ?thesis using shows_clear [of C "Suc q" k] s1(1) long k by simp
          next
            case False
            then show ?thesis using shows_head [OF s1(2), of k] long us t k by simp
          qed
        qed
        ultimately show ?thesis using body a long by simp
      next
        case long_no
        have a: "number - head \<noteq> 0" "CHUNK_BITS \<le> number - head"
          using long_no un by (auto simp: word_le_nat_alt unat_eq_zero [symmetric])
        have u: "unat (number - head - CHUNK_BITS) = n - t - 64"
          using un a(2) by (simp add: unat_minus_range word_le_nat_alt)
        have "\<not> number - head - CHUNK_BITS \<le> RtlpClearLSBInChunk (rd (Suc (Suc q)))"
          "number - head - CHUNK_BITS \<noteq> 0"
          using long_no u by (auto simp: word_le_nat_alt unat_eq_zero [symmetric])
        moreover have "reached C n (rd (Suc (Suc q))) (Suc (Suc q))"
          by (rule reached_after [OF s1(2) nr shows_after_head [OF s1(2)]]) (use long_no us t n in simp_all)
        ultimately show ?thesis using body a long_no IH [of "Suc (Suc q)"] by simp
      qed
    qed
  qed
qed

section \<open>Runs shorter than a chunk\<close>

lemma find_not_set_ok:
  assumes rd: "\<And>n. start < n \<Longrightarrow> shows_bits C (rd n) n" and p: "start \<le> p" "shows_bits C w p"
  shows "\<exists>x. find_not_set rd c w p = Some x \<and>
    (case x of None \<Rightarrow> w = CHUNK_SET \<and> (\<forall>k. 64 * p \<le> k \<longrightarrow> k < 64 * c + 64 \<longrightarrow> \<not> C k)
     | Some (w', p') \<Rightarrow> shows_bits C w' p' \<and> w' \<noteq> CHUNK_SET \<and>
         (if w = CHUNK_SET then p < p' \<and> p' \<le> c \<and> (\<forall>k. 64 * p \<le> k \<longrightarrow> k < 64 * p' \<longrightarrow> \<not> C k)
          else w' = w \<and> p' = p))"
  using p
proof (induction "c - p" arbitrary: p w rule: less_induct)
  case (less p w)
  note step = find_not_set.simps [of rd c w p]
  show ?case
  proof (cases "w = CHUNK_SET")
    case False
    then show ?thesis using step less.prems(2) by (intro exI [of _ "Some (w, p)"]) simp
  next
    case True
    have set: "\<not> C k" if "64 * p \<le> k" "k < 64 * p + 64" for k
      using shows_set [of C p k] less.prems(2) True that by simp
    show ?thesis
    proof (cases "c < Suc p")
      case last: True
      then have "\<not> C k" if "64 * p \<le> k" "k < 64 * c + 64" for k using set that by simp
      then show ?thesis using step True last by (intro exI [of _ None]) simp
    next
      case False
      have d: "c - Suc p < c - p" "start \<le> Suc p" using False less.prems(1) by simp_all
      have sq: "shows_bits C (rd (Suc p)) (Suc p)" using rd less.prems(1) by simp
      obtain x where x: "find_not_set rd c (rd (Suc p)) (Suc p) = Some x"
        "case x of None \<Rightarrow> rd (Suc p) = CHUNK_SET \<and> (\<forall>k. 64 * Suc p \<le> k \<longrightarrow> k < 64 * c + 64 \<longrightarrow> \<not> C k)
         | Some (w', p') \<Rightarrow> shows_bits C w' p' \<and> w' \<noteq> CHUNK_SET \<and>
             (if rd (Suc p) = CHUNK_SET
              then Suc p < p' \<and> p' \<le> c \<and> (\<forall>k. 64 * Suc p \<le> k \<longrightarrow> k < 64 * p' \<longrightarrow> \<not> C k)
              else w' = rd (Suc p) \<and> p' = Suc p)"
        using less.hyps [OF d sq] by blast
      have e: "find_not_set rd c w p = Some x" using step True False x(1) by simp
      show ?thesis
      proof (cases x)
        case None
        have "\<not> C k" if "64 * p \<le> k" "k < 64 * c + 64" for k
          using set [of k] x(2) None that by (cases "k < 64 * p + 64") simp_all
        then show ?thesis using e None True by simp
      next
        case (Some wp)
        then obtain w' p' where wp: "x = Some (w', p')" by (cases wp) auto
        have p': "shows_bits C w' p'" "w' \<noteq> CHUNK_SET" "p < p'" "p' \<le> c"
          "\<forall>k. 64 * Suc p \<le> k \<longrightarrow> k < 64 * p' \<longrightarrow> \<not> C k"
          using x(2) wp False by (auto split: if_splits)
        have "\<not> C k" if "64 * p \<le> k" "k < 64 * p'" for k
          using set [of k] p'(5) that by (cases "k < 64 * p + 64") simp_all
        then show ?thesis using e wp True p' by simp
      qed
    qed
  qed
qed

lemma no_run_clear:
  assumes "no_run C n x" "0 < n" "\<And>k. x \<le> k \<Longrightarrow> k < y \<Longrightarrow> \<not> C k"
  shows "no_run C n y"
  unfolding no_run_def
proof (intro allI impI)
  fix i assume "i < y"
  show "\<not> run C n i"
  proof (cases "i < x")
    case False
    then have "\<not> C (i + 0)" using assms(3) \<open>i < y\<close> by simp
    then show ?thesis using assms(2) by (auto simp: run_def intro!: exI [of _ 0])
  qed (use assms(1) in \<open>simp add: no_run_def\<close>)
qed

lemma find_short_run_ok:
  assumes rd: "\<And>n. start < n \<Longrightarrow> shows_bits C (rd n) n"
    and n: "n = unat number" "1 < n" "n < 64"
    and l: "l = unat lim" "l + n + 256 \<le> 2 ^ 32"
    and c: "c = l div 64" and e: "e = (l + n - 1) div 64"
    and p: "start \<le> p" "p \<le> e" "shows_bits C w p"
    and tail: "unat tail < n" "unat tail \<le> 64 * p"
      "\<And>k. 64 * p - unat tail \<le> k \<Longrightarrow> k < 64 * p \<Longrightarrow> C k" "no_run C n (64 * p - unat tail)"
  shows "\<exists>r. find_short_run rd number lim c e tail w p = Some r \<and> first_run C n l r"
  using p tail
proof (induction "e - p" arbitrary: p w tail rule: less_induct)
  case (less p w tail)
  note step = find_short_run.simps [of rd number lim c e tail w p]
  have cl: "64 * c \<le> l" "l < 64 * c + 64" using c by simp_all
  have ce: "c \<le> e" using c e n(2) by (simp add: div_le_mono)
  have el: "64 * e \<le> l + n - 1" "l + n - 1 < 64 * e + 64" using e by simp_all
  obtain x where x: "find_not_set rd c w p = Some x"
    "case x of None \<Rightarrow> w = CHUNK_SET \<and> (\<forall>k. 64 * p \<le> k \<longrightarrow> k < 64 * c + 64 \<longrightarrow> \<not> C k)
     | Some (w', p') \<Rightarrow> shows_bits C w' p' \<and> w' \<noteq> CHUNK_SET \<and>
         (if w = CHUNK_SET then p < p' \<and> p' \<le> c \<and> (\<forall>k. 64 * p \<le> k \<longrightarrow> k < 64 * p' \<longrightarrow> \<not> C k)
          else w' = w \<and> p' = p)"
    using find_not_set_ok [OF rd less.prems(1,3)] by blast
  have skip: "no_run C n y" if "w = CHUNK_SET" "\<forall>k. 64 * p \<le> k \<longrightarrow> k < y \<longrightarrow> \<not> C k" for y
  proof -
    have "\<not> C (64 * p)" using shows_set [of C p "64 * p"] less.prems(3) that(1) by simp
    then have "no_run C n (Suc (64 * p))"
      using no_run_past [OF less.prems(7)] less.prems(4,5) by simp
    then show ?thesis by (rule no_run_clear) (use n(2) that(2) in auto)
  qed
  show ?case
  proof (cases x)
    case None
    then have "no_run C n (64 * c + 64)" using x(2) skip by simp
    then have "first_run C n l RTL_INVALID_INDEX" using cl(2) by (rule first_run_invalid)
    then show ?thesis using step x(1) None by simp
  next
    case (Some wp)
    then obtain w' q where wq: "x = Some (w', q)" by (cases wp) auto
    define tail' where "tail' = (if w = CHUNK_SET then 0 else tail)"
    define t where "t = unat tail'"
    define h where "h = unat (RtlpClearLSBInChunk w')"
    have q: "shows_bits C w' q" "p \<le> q" "q \<le> e" using x(2) wq less.prems(2) ce by (auto split: if_splits)
    have t: "t < n" "t \<le> 64 * q" "no_run C n (64 * q - t)"
      and tC: "\<And>k. 64 * q - t \<le> k \<Longrightarrow> k < 64 * q \<Longrightarrow> C k"
      using x(2) wq less.prems(4-7) n(2) skip by (auto simp: t_def tail'_def split: if_splits)
    have h: "h \<le> 64" using RtlpClearLSBInChunk_spec(1) [of w'] by (simp add: h_def)
    have cond: "number \<le> RtlpClearLSBInChunk w' + tail' \<longleftrightarrow> n \<le> h + t"
    proof -
      have "unat (RtlpClearLSBInChunk w' + tail') = h + t"
        using h t(1) n(3) by (subst unat_plus_range) (simp_all add: h_def t_def)
      then show ?thesis by (simp add: word_le_nat_alt n(1))
    qed
    have q64: "64 * q \<le> l + n" using q(3) el(1) by linarith
    have uq: "unat (of_nat (q * 64) :: ulong) = 64 * q" using q64 l(2) by (intro unat_bit_index) simp
    have answer: "\<exists>r. (if lim < s then Some RTL_INVALID_INDEX else Some s) = Some r \<and> first_run C n l r"
      if "no_run C n (unat s)" "run C n (unat s)" for s
    proof (cases "lim < s")
      case True
      then have "first_run C n l RTL_INVALID_INDEX"
        using first_run_invalid [OF that(1)] l(1) by (simp add: word_less_nat_alt)
      then show ?thesis using True by simp
    next
      case False
      then have "first_run C n l s"
        using first_run_found [OF that(2,1)] l by (simp add: word_less_nat_alt)
      then show ?thesis using False by simp
    qed
    have body: "find_short_run rd number lim c e tail w p =
      (case (if n \<le> h + t then Some (0 - tail') else RtlpFindClearRunInChunk w' number) of
         None \<Rightarrow> if q = e then Some RTL_INVALID_INDEX
                 else find_short_run rd number lim c e (RtlpClearMSBInChunk w') (rd (q + 1)) (q + 1)
       | Some r \<Rightarrow> if lim < r + of_nat (q * 64) then Some RTL_INVALID_INDEX else Some (r + of_nat (q * 64)))"
      unfolding step x(1) wq bind.bind_lunit option.case prod.case Let_def tail'_def [symmetric] cond ..
    show ?thesis
    proof (cases "n \<le> h + t")
      case True
      define s where "s = 0 - tail' + of_nat (q * 64)"
      have "s = of_nat (q * 64) - tail'" by (simp add: s_def)
      then have us: "unat s = 64 * q - t" using uq t(2) by (simp add: unat_minus_range t_def)
      have "run C n (unat s)"
      proof (rule runI)
        fix k assume k: "unat s \<le> k" "k < unat s + n"
        show "C k"
        proof (cases "k < 64 * q")
          case False
          then show ?thesis using shows_head [OF q(1), of k] k us True t(2) by (simp add: h_def)
        qed (use tC k us in simp)
      qed
      moreover have "find_short_run rd number lim c e tail w p =
          (if lim < s then Some RTL_INVALID_INDEX else Some s)"
        unfolding body s_def using True by (simp only: if_True option.case)
      ultimately show ?thesis using answer [of s] t(3) us by simp
    next
      case False
      then have h64: "h < 64" using n(3) by linarith
      have past: "no_run C n (Suc (64 * q + h))"
        by (rule no_run_past [OF t(3)]) (use shows_after_head [OF q(1)] h64 False t(2) in \<open>simp_all add: h_def\<close>)
      have inside: "\<not> run C n i" if "64 * q \<le> i" "i + n \<le> 64 * q + 64"
        "\<exists>j < n. i - 64 * q + j < 64 \<longrightarrow> bit w' (i - 64 * q + j)" for i
      proof -
        from that(3) obtain j where j: "j < n" "i - 64 * q + j < 64 \<longrightarrow> bit w' (i - 64 * q + j)" by blast
        have "i + j - 64 * q = i - 64 * q + j" using that(1) by simp
        then have "bit w' (i + j - 64 * q)" using j that(1,2) by simp
        then have "\<not> C (i + j)" using shows_bits_iff [OF q(1), of "i + j"] that(1,2) j(1) by simp
        then show ?thesis using j(1) by (auto simp: run_def)
      qed
      have n1: "1 < unat number" using n by simp
      show ?thesis
      proof (cases "RtlpFindClearRunInChunk w' number")
        case None
        note none = RtlpFindClearRunInChunk_None [OF None n1, folded n(1)]
        have none_inside: "\<not> run C n i" if "i + n \<le> 64 * q + 64" for i
        proof (cases "i < Suc (64 * q + h)")
          case True
          then show ?thesis using past by (simp add: no_run_def)
        next
          case False
          then show ?thesis using inside [of i] none [of "i - 64 * q"] that by simp
        qed
        show ?thesis
        proof (cases "q = e")
          case True
          have "no_run C n (Suc l)"
            unfolding no_run_def using none_inside el(2) True n(2) by auto
          then have "first_run C n l RTL_INVALID_INDEX" by (rule first_run_invalid) simp
          then show ?thesis using body False None True by simp
        next
          case qe: False
          define t' where "t' = unat (RtlpClearMSBInChunk w')"
          have nz: "w' \<noteq> 0" using h64 RtlpClearLSBInChunk_spec(4) [of w'] by (auto simp: h_def)
          note m = shows_before_tail [OF q(1) nz, folded t'_def]
          have tn: "t' < n"
          proof (rule ccontr)
            assume "\<not> t' < n"
            moreover obtain j where "j < n" "64 - t' + j < 64 \<longrightarrow> bit w' (64 - t' + j)" using none by blast
            ultimately have "bit w' (64 - t' + j)" using m(1) by simp
            then show False
              using RtlpClearMSBInChunk_spec(2) [of w' "64 - t' + j"] by (simp add: t'_def)
          qed
          have nr: "no_run C n (64 * Suc q - t')"
            unfolding no_run_def
          proof (intro allI impI)
            fix i assume i: "i < 64 * Suc q - t'"
            show "\<not> run C n i"
            proof (cases "i + n \<le> 64 * q + 64")
              case False
              define k where "k = 64 * q + 63 - t'"
              have "k - i < n" "i + (k - i) = k" using False i m(1) by (auto simp: k_def)
              then show ?thesis using m(2) unfolding k_def run_def by metis
            qed (rule none_inside)
          qed
          have "e - Suc q < e - p" "start \<le> Suc q" "Suc q \<le> e" "shows_bits C (rd (Suc q)) (Suc q)"
            using q(2,3) qe less.prems(1) rd [of "Suc q"] by simp_all
          moreover have "C k" if "64 * Suc q - t' \<le> k" "k < 64 * Suc q" for k
            using shows_tail [OF q(1), of k] that by (simp add: t'_def)
          ultimately have "\<exists>r. find_short_run rd number lim c e (RtlpClearMSBInChunk w') (rd (Suc q)) (Suc q) = Some r
              \<and> first_run C n l r"
            using less.hyps [of "Suc q" "rd (Suc q)" "RtlpClearMSBInChunk w'"] tn nr m(1)
            by (simp add: t'_def)
          then show ?thesis using body False None qe by simp
        qed
      next
        case (Some r)
        note some = RtlpFindClearRunInChunk_Some [OF Some n1, folded n(1)]
        have us: "unat (r + of_nat (q * 64)) = 64 * q + unat r"
          using uq some(1) q64 l(2) by (subst unat_plus_range) (simp_all del: of_nat_mult)
        have "run C n (64 * q + unat r)"
        proof (rule runI)
          fix k assume k: "64 * q + unat r \<le> k" "k < 64 * q + unat r + n"
          have "\<not> bit w' (unat r + (k - 64 * q - unat r))" by (rule some(2)) (use k in simp)
          moreover have "unat r + (k - 64 * q - unat r) = k - 64 * q" using k(1) by simp
          ultimately show "C k" using shows_bits_iff [OF q(1), of k] k some(1) by simp
        qed
        moreover have "no_run C n (64 * q + unat r)"
          unfolding no_run_def
        proof (intro allI impI)
          fix i assume i: "i < 64 * q + unat r"
          show "\<not> run C n i"
          proof (cases "i < Suc (64 * q + h)")
            case True
            then show ?thesis using past by (simp add: no_run_def)
          next
            case False
            then show ?thesis using inside [of i] some(3) [of "i - 64 * q"] some(1) i by simp
          qed
        qed
        ultimately show ?thesis using body False Some answer [of "r + of_nat (q * 64)"] us by simp
      qed
    qed
  qed
qed

section \<open>A single clear bit\<close>

lemma find_single_bit_ok:
  assumes rd: "\<And>n. start < n \<Longrightarrow> shows_bits C (rd n) n"
    and l: "l = unat lim" "l + 256 \<le> 2 ^ 32" "64 * start \<le> l + 64" and c: "c = l div 64"
    and w: "shows_bits C w start" "no_run C 1 (64 * start)"
  shows "\<exists>r. find_single_bit rd lim c w start = Some r \<and> first_run C 1 l r"
proof -
  have cl: "64 * c \<le> l" "l < 64 * c + 64" using c by simp_all
  obtain x where x: "find_not_set rd c w start = Some x"
    "case x of None \<Rightarrow> w = CHUNK_SET \<and> (\<forall>k. 64 * start \<le> k \<longrightarrow> k < 64 * c + 64 \<longrightarrow> \<not> C k)
     | Some (w', p') \<Rightarrow> shows_bits C w' p' \<and> w' \<noteq> CHUNK_SET \<and>
         (if w = CHUNK_SET then start < p' \<and> p' \<le> c \<and> (\<forall>k. 64 * start \<le> k \<longrightarrow> k < 64 * p' \<longrightarrow> \<not> C k)
          else w' = w \<and> p' = start)"
    using find_not_set_ok [OF rd le_refl w(1)] by blast
  show ?thesis
  proof (cases x)
    case None
    have "no_run C 1 (64 * c + 64)" by (rule no_run_clear [OF w(2)]) (use x(2) None in auto)
    then have "first_run C 1 l RTL_INVALID_INDEX" using cl(2) by (rule first_run_invalid)
    then show ?thesis using x(1) None by (simp add: find_single_bit_def)
  next
    case (Some wp)
    then obtain w' q where wq: "x = Some (w', q)" by (cases wp) auto
    have q: "shows_bits C w' q" "w' \<noteq> CHUNK_SET" "64 * q \<le> l + 64"
      using x(2) wq l(3) cl(1) by (auto split: if_splits)
    have nq: "no_run C 1 (64 * q)"
      by (rule no_run_clear [OF w(2)]) (use x(2) wq in \<open>auto split: if_splits\<close>)
    have "NOT w' \<noteq> 0" using q(2) by (metis bit.double_compl bit.compl_zero)
    then obtain k where k: "BitScanForward64 (NOT w') = Some k"
      by (metis BitScanForward64_None option.exhaust)
    note s = BitScanForward64_Some [OF k]
    have us: "unat (k + of_nat (q * 64)) = 64 * q + unat k"
      using unat_bit_index [of q] s(1) q(3) l(2) by (subst unat_plus_range) (simp_all del: of_nat_mult)
    have "C (64 * q + unat k)"
      using shows_bits_iff [OF q(1), of "64 * q + unat k"] s(1,2) by (simp add: bit_not_iff)
    then have run: "run C 1 (unat (k + of_nat (q * 64)))" unfolding us by (simp add: run_def)
    have "no_run C 1 (64 * q + unat k)"
    proof (rule no_run_clear [OF nq])
      fix i assume i: "64 * q \<le> i" "i < 64 * q + unat k"
      then have "bit w' (i - 64 * q)" using s(3) [of "i - 64 * q"] s(1) by (auto simp: bit_not_iff)
      then show "\<not> C i" using shows_bits_iff [OF q(1), of i] i s(1) by simp
    qed simp
    then have nr: "no_run C 1 (unat (k + of_nat (q * 64)))" unfolding us .
    have body: "find_single_bit rd lim c w start =
      (if lim < k + of_nat (q * 64) then Some RTL_INVALID_INDEX else Some (k + of_nat (q * 64)))"
      by (simp add: find_single_bit_def x(1) wq k)
    show ?thesis
    proof (cases "lim < k + of_nat (q * 64)")
      case True
      then have "first_run C 1 l RTL_INVALID_INDEX"
        using first_run_invalid [OF nr] l(1) by (simp add: word_less_nat_alt)
      then show ?thesis using body True by simp
    next
      case False
      then have "first_run C 1 l (k + of_nat (q * 64))"
        using first_run_found [OF run nr] l by (simp add: word_less_nat_alt)
      then show ?thesis using body False by simp
    qed
  qed
qed

section \<open>The search over a range\<close>

lemma find_run_in_chunks_ok:
  assumes rd: "\<And>n j. j < 64 \<Longrightarrow> bit (rd n) j \<longleftrightarrow> \<not> clear (64 * n + j)"
    and s: "s = unat rangeStart" and e: "s \<le> Suc (unat rangeEnd)" "unat rangeEnd + 512 \<le> 2 ^ 32"
    and n: "n = unat number" "0 < n" "n \<le> unat rangeEnd + 1 - s"
  shows "\<exists>r. find_run_in_chunks rd number rangeStart rangeEnd = Some r \<and>
           first_run (\<lambda>i. s \<le> i \<and> clear i) n (unat rangeEnd + 1 - n) r"
proof -
  let ?C = "\<lambda>i. s \<le> i \<and> clear i"
  define start where "start = unat (rangeStart div CHUNK_BITS)"
  define lim where "lim = rangeEnd - number + 1"
  define l where "l = unat rangeEnd + 1 - n"
  define head where "head = push_bit (unat (rangeStart mod CHUNK_BITS)) (1 :: ulonglong) - 1"
  have start: "start = s div 64" by (simp add: start_def s unat_div)
  have ul: "unat lim = l"
  proof -
    have "lim = rangeEnd + 1 - number" by (simp add: lim_def)
    moreover have "unat (rangeEnd + 1) = unat rangeEnd + 1"
      using e(2) by (subst unat_plus_range) simp_all
    ultimately show ?thesis using n by (simp add: unat_minus_range l_def)
  qed
  have ln: "l + n = unat rangeEnd + 1" using n by (simp add: l_def)
  have head: "bit (rd start OR head) j \<longleftrightarrow> \<not> ?C (64 * start + j)" if "j < 64" for j
  proof -
    have "head = mask (s mod 64)" by (simp add: head_def mask_eq_exp_minus_1 unat_mod s push_bit_of_1)
    then have "bit head j \<longleftrightarrow> j < s mod 64"
      using that by (auto simp: bit_mask_iff)
    moreover have "j < s mod 64 \<longleftrightarrow> \<not> s \<le> 64 * start + j"
      using div_mult_mod_eq [of s 64] unfolding start by linarith
    ultimately show ?thesis using rd that by (auto simp: bit_or_iff)
  qed
  then have first: "shows_bits ?C (rd start OR head) start" by (simp add: shows_bits_def)
  have rest: "shows_bits ?C (rd n) n" if "start < n" for n
  proof -
    have "s < 64 * n" using that div_mult_mod_eq [of s 64] mod_less_divisor [of 64 s] unfolding start by linarith
    then show ?thesis using rd by (simp add: shows_bits_def)
  qed
  have below: "\<not> ?C i" if "i < 64 * start" for i
    using that div_mult_mod_eq [of s 64] unfolding start by linarith
  have "s \<le> l" using n ln by simp
  then have start_l: "64 * start \<le> l + 64" using div_mult_mod_eq [of s 64] unfolding start by linarith
  have nr: "no_run ?C n (64 * start)"
    by (rule no_run_clear [where x = 0]) (use below n(2) in \<open>auto simp: no_run_def\<close>)
  have lb: "l + n + 256 \<le> 2 ^ 32" using ln e(2) by simp
  have c: "unat (lim div CHUNK_BITS) = l div 64" by (simp add: unat_div ul)
  have ec: "unat (rangeEnd div CHUNK_BITS) = (l + n - 1) div 64" by (simp add: unat_div ln)
  have "\<not> rangeEnd - rangeStart + 1 < number"
  proof -
    have "rangeEnd - rangeStart + 1 = rangeEnd + 1 - rangeStart" by simp
    moreover have "unat (rangeEnd + 1) = unat rangeEnd + 1"
      using e(2) by (subst unat_plus_range) simp_all
    ultimately have "unat (rangeEnd - rangeStart + 1) = unat rangeEnd + 1 - s"
      using e(1) unat_minus_range [of rangeStart "rangeEnd + 1"] by (simp only: s)
    then show ?thesis using n by (simp add: word_less_nat_alt)
  qed
  then have body: "find_run_in_chunks rd number rangeStart rangeEnd =
    (if 2 * CHUNK_BITS - 1 < number
     then find_large_run rd (rd start OR head) number lim (unat (lim div CHUNK_BITS)) start
     else if CHUNK_BITS \<le> number
     then find_medium_run rd number lim (unat (lim div CHUNK_BITS)) (rd start OR head) start
     else if 1 < number
     then find_short_run rd number lim (unat (lim div CHUNK_BITS)) (unat (rangeEnd div CHUNK_BITS)) 0
            (rd start OR head) start
     else find_single_bit rd lim (unat (lim div CHUNK_BITS)) (rd start OR head) start)"
    unfolding find_run_in_chunks_def Let_def start_def [symmetric] lim_def [symmetric] head_def [symmetric]
    by (simp only: if_False)
  have cmp: "2 * CHUNK_BITS - 1 < number \<longleftrightarrow> 128 \<le> n" "CHUNK_BITS \<le> number \<longleftrightarrow> 64 \<le> n"
    "1 < number \<longleftrightarrow> 1 < n" by (auto simp: word_less_nat_alt word_le_nat_alt n(1))
  consider "128 \<le> n" | "64 \<le> n" "n < 128" | "1 < n" "n < 64" | "n = 1" using n(2) by linarith
  then have "\<exists>r. find_run_in_chunks rd number rangeStart rangeEnd = Some r \<and> first_run ?C n l r"
  proof cases
    case 1
    then show ?thesis unfolding body cmp
      using find_large_run_ok [OF first below rest n(1) 1 ul [symmetric] lb start_l] by simp
  next
    case 2
    have sc: "start \<le> l div 64 + 2" using start_l by linarith
    have "reached ?C n (rd start OR head) start" by (rule reachedI [OF first nr le_refl 2(1)])
    then show ?thesis unfolding body cmp
      using find_medium_run_ok [OF rest n(1) 2 ul [symmetric] lb refl le_refl sc first] 2 c by simp
  next
    case 3
    have "s \<le> l + n - 1" using n ln by simp
    then have se: "start \<le> (l + n - 1) div 64" by (simp add: start div_le_mono)
    have "\<exists>r. find_short_run rd number lim (l div 64) ((l + n - 1) div 64) 0 (rd start OR head) start = Some r
        \<and> first_run ?C n l r"
      by (rule find_short_run_ok [OF rest n(1) 3 ul [symmetric] lb refl refl le_refl se first])
        (use 3 nr in simp_all)
    then show ?thesis unfolding body cmp c ec using 3 by simp
  next
    case 4
    have "\<exists>r. find_single_bit rd lim (l div 64) (rd start OR head) start = Some r \<and> first_run ?C 1 l r"
      by (rule find_single_bit_ok [OF rest ul [symmetric] _ start_l refl first]) (use lb nr 4 in simp_all)
    then show ?thesis unfolding body cmp c using 4 by simp
  qed
  then show ?thesis by (simp only: l_def)
qed

end
