(* ===== verification/Bitmap_Find.thy ===== *)
theory Bitmap_Find
  imports Bitmap_Short_Runs
begin

text \<open>
  \<^const>\<open>RtlFindClearBits\<close> and its companions against their specification: the first index, going
  once round the map from the hint, at which the wanted run fits.
\<close>

section \<open>The specification\<close>

definition run_fits :: "bool \<Rightarrow> memory \<Rightarrow> RTL_BITMAP \<Rightarrow> nat \<Rightarrow> nat \<Rightarrow> nat \<Rightarrow> bool" where
  "run_fits v m bm n hi i \<longleftrightarrow> i + n \<le> hi \<and> (\<forall>j < n. bit_at m (Buffer bm) (i + j) = v)"

definition circular_first_fit :: "bool \<Rightarrow> memory \<Rightarrow> RTL_BITMAP \<Rightarrow> nat \<Rightarrow> nat \<Rightarrow> nat option" where
  "circular_first_fit v m bm n h =
     find (run_fits v m bm n (unat (SizeOfBitMap bm))) ([h..<unat (SizeOfBitMap bm)] @ [0..<h])"

definition index_or_invalid :: "nat option \<Rightarrow> ulong" where
  "index_or_invalid x = (case x of None \<Rightarrow> RTL_INVALID_INDEX | Some i \<Rightarrow> of_nat i)"

lemma find_append: "find P (xs @ ys) = (case find P xs of None \<Rightarrow> find P ys | Some x \<Rightarrow> Some x)"
  by (induction xs) simp_all

lemma find_upt_eqI:
  assumes "\<And>i. a \<le> i \<Longrightarrow> i < b \<and> P i \<longleftrightarrow> i < c \<and> Q i"
  shows "find P [a..<b] = find Q [a..<c]"
proof (cases "find P [a..<b]")
  case None
  then have "find Q [a..<c] = None" using assms by (auto simp: find_upt_None)
  then show ?thesis using None by simp
next
  case (Some i)
  then have i: "a \<le> i" "i < b \<and> P i" "\<And>j. a \<le> j \<Longrightarrow> j < i \<Longrightarrow> \<not> P j"
    by (simp_all add: find_upt_Some)
  have "\<not> Q j" if "a \<le> j" "j < i" for j
    using assms [OF that(1)] assms [OF i(1)] i(2) i(3) [OF that] that(2) by auto
  then have "find Q [a..<c] = Some i" using assms [OF i(1)] i(1,2) by (simp add: find_upt_Some)
  then show ?thesis using Some by simp
qed

lemma find_upt_shift:
  "find P [s + a..<hi + a] = map_option (\<lambda>i. i + a) (find (\<lambda>i. P (i + a)) [s..<hi])"
proof (cases "find (\<lambda>i. P (i + a)) [s..<hi]")
  case None
  have "\<not> P i" if "s + a \<le> i" "i < hi + a" for i
    using None that by (auto simp: find_upt_None dest: spec [of _ "i - a"])
  then have "find P [s + a..<hi + a] = None" by (simp add: find_upt_None)
  then show ?thesis using None by simp
next
  case (Some i)
  then have i: "s \<le> i" "i < hi" "P (i + a)" "\<forall>j. s \<le> j \<longrightarrow> j < i \<longrightarrow> \<not> P (j + a)"
    by (simp_all add: find_upt_Some)
  have "\<not> P j" if "s + a \<le> j" "j < i + a" for j
    using i(4) [rule_format, of "j - a"] that by simp
  then have "find P [s + a..<hi + a] = Some (i + a)" using i by (simp add: find_upt_Some)
  then show ?thesis using Some by simp
qed

section \<open>One search\<close>

lemma bit_at_adjust: "bit_at m (base - 4) (32 + i) = bit_at m base i"
  using bit_at_shift [of m "base - 4" 4 i] by simp

text \<open>The first run of the search over chunks, as a search through the indices.\<close>

lemma first_run_find:
  assumes "first_run (\<lambda>i. s \<le> i \<and> P i) n (hi - n) r" "0 < n" "n \<le> hi" "hi < 2 ^ 32" "s \<le> hi"
  shows "r = index_or_invalid (find (\<lambda>i. i + n \<le> hi \<and> (\<forall>j < n. P (i + j))) [s..<hi])"
proof -
  let ?Q = "\<lambda>i. i + n \<le> hi \<and> (\<forall>j < n. P (i + j))"
  have run: "run (\<lambda>i. s \<le> i \<and> P i) n i \<longleftrightarrow> s \<le> i \<and> (\<forall>j < n. P (i + j))" for i
    using assms(2) by (auto simp: run_def)
  show ?thesis
  proof (cases "r = RTL_INVALID_INDEX")
    case True
    have "\<not> ?Q i" if "s \<le> i" for i
      using assms(1,3) True that by (auto simp: first_run_def no_run_def run less_Suc_eq_le le_diff_conv2)
    then have "find ?Q [s..<hi] = None" by (simp add: find_upt_None)
    then show ?thesis using True by (simp add: index_or_invalid_def)
  next
    case False
    then have r: "unat r \<le> hi - n" "s \<le> unat r" "\<forall>j < n. P (unat r + j)"
      "\<And>i. i < unat r \<Longrightarrow> s \<le> i \<Longrightarrow> \<not> (\<forall>j < n. P (i + j))"
      using assms(1) by (auto simp: first_run_def no_run_def run)
    have "find ?Q [s..<hi] = Some (unat r)"
      using r assms(2,3) by (auto simp: find_upt_Some)
    then show ?thesis by (simp add: index_or_invalid_def)
  qed
qed

text \<open>The buffer aligned down by \<open>a\<close> bits, and a range of the map.\<close>

lemma RtlpFindClearBitsRange_ok:
  assumes a: "a = 0 \<and> base = Buffer bm \<or> a = 32 \<and> base = Buffer bm - 4"
    and n: "n = unat number" "0 < n"
    and range: "s = unat rangeStart" "s \<le> hi" "rangeEnd + 1 = of_nat hi" "hi + 1024 \<le> 2 ^ 32"
  shows "RtlpFindClearBitsRange m base number (rangeStart + of_nat a) (rangeEnd + of_nat a) v =
    Some (index_or_invalid (map_option (\<lambda>i. i + a) (find (run_fits v m bm n hi) [s..<hi])))"
proof -
  define rs re where "rs = rangeStart + of_nat a" and "re = rangeEnd + of_nat a"
  have a32: "a \<le> 32" using a by auto
  have ua: "unat (of_nat a :: ulong) = a" using a32 by (simp add: unat_of_nat_range)
  have urs: "unat rs = s + a"
    using range ua a32 unfolding rs_def by (subst unat_plus_range) simp_all
  have ure1: "unat (re + 1) = hi + a"
  proof -
    have "re + 1 = of_nat hi + of_nat a" using range(3) by (simp add: re_def algebra_simps)
    then show ?thesis using range(4) a32 unat_of_nat_range [of "hi + a", where 'a = 32] by simp
  qed
  show ?thesis
  proof (cases "n \<le> hi - s")
    case False
    have "re - rs + 1 = re + 1 - rs" by simp
    then have "unat (re - rs + 1) = hi - s"
      using unat_minus_range [of rs "re + 1"] range(2) urs ure1 by (simp only:)
    then have "re - rs + 1 < number" using False n by (simp add: word_less_nat_alt)
    then have "RtlpFindClearBitsRange m base number rs re v = Some RTL_INVALID_INDEX"
      by (simp add: RtlpFindClearBitsRange_def find_run_in_chunks_def)
    moreover have "find (run_fits v m bm n hi) [s..<hi] = None"
      using False by (auto simp: find_upt_None run_fits_def)
    ultimately show ?thesis by (simp add: rs_def re_def index_or_invalid_def)
  next
    case True
    define P where "P = (\<lambda>i. bit_at m base i = v)"
    have hp: "0 < hi + a" using True n(2) by (cases hi) simp_all
    have ure: "unat re = hi + a - 1"
    proof -
      have "re = (re + 1) - 1" by simp
      moreover have "1 \<le> hi + a" using hp by linarith
      ultimately show ?thesis using ure1 unat_minus_range [of 1 "re + 1"] by simp
    qed
    have rd: "bit (READ_CHUNK m base v k) j \<longleftrightarrow> \<not> P (64 * k + j)" if "j < 64" for k j
      using bit_READ_CHUNK [OF that] by (auto simp: P_def)
    have "\<exists>r. find_run_in_chunks (READ_CHUNK m base v) number rs re = Some r \<and>
        first_run (\<lambda>i. s + a \<le> i \<and> P i) n (unat re + 1 - n) r"
      by (rule find_run_in_chunks_ok [OF rd urs [symmetric] _ _ n])
        (use True n range(2,4) ure hp a32 in simp_all)
    then obtain r where r: "find_run_in_chunks (READ_CHUNK m base v) number rs re = Some r"
      "first_run (\<lambda>i. s + a \<le> i \<and> P i) n (hi + a - n) r" using ure hp by auto
    have "r = index_or_invalid (find (\<lambda>i. i + n \<le> hi + a \<and> (\<forall>j < n. P (i + j))) [s + a..<hi + a])"
      by (rule first_run_find [OF r(2) n(2)]) (use True range(2,4) a32 in simp_all)
    also have "find (\<lambda>i. i + n \<le> hi + a \<and> (\<forall>j < n. P (i + j))) [s + a..<hi + a] =
        map_option (\<lambda>i. i + a) (find (run_fits v m bm n hi) [s..<hi])"
    proof -
      have "bit_at m base (a + k) = bit_at m (Buffer bm) k" for k
        using a
      proof (elim disjE conjE)
        assume "a = 32" and b: "base = Buffer bm - 4"
        then show ?thesis unfolding b by (simp add: bit_at_adjust)
      qed simp
      then have "P (i + a + j) \<longleftrightarrow> bit_at m (Buffer bm) (i + j) = v" for i j
        by (metis P_def add.assoc add.commute)
      then have "(\<lambda>i. i + a + n \<le> hi + a \<and> (\<forall>j < n. P (i + a + j))) = run_fits v m bm n hi"
        by (auto simp: fun_eq_iff run_fits_def)
      then show ?thesis by (simp only: find_upt_shift)
    qed
    finally show ?thesis using r(1) by (simp add: RtlpFindClearBitsRange_def rs_def re_def)
  qed
qed

section \<open>Once round the map\<close>

lemma find_bits_ok:
  assumes n: "number \<noteq> 0" and small: "unat (SizeOfBitMap bm) < 2 ^ 31"
  shows "find_bits v m bm number hint =
    Some (index_or_invalid (circular_first_fit v m bm (unat number)
            (if hint < SizeOfBitMap bm then unat hint else 0)))"
proof -
  define bits where "bits = unat (SizeOfBitMap bm)"
  define h where "h = (if hint < SizeOfBitMap bm then hint else 0)"
  define n' where "n' = unat number"
  obtain adjust abits where adj: "(if Buffer bm AND 0x4 \<noteq> 0 then (1, 32) else (0 :: int, 0 :: ulong)) = (adjust, abits)"
    by (cases "Buffer bm AND 0x4 \<noteq> 0") auto
  define a where "a = unat abits"
  have a: "a = 0 \<and> Buffer bm - 4 * adjust = Buffer bm \<or> a = 32 \<and> Buffer bm - 4 * adjust = Buffer bm - 4"
    and ab: "abits = of_nat a"
    using adj by (auto simp: a_def split: if_splits)
  have n'0: "0 < n'" using n by (simp add: n'_def unat_gt_0)
  define search where "search = (\<lambda>rangeStart rangeEnd.
      RtlpFindClearBitsRange m (Buffer bm - 4 * adjust) number (rangeStart + abits) (rangeEnd + abits) v)"
  have search: "search rs re = Some (index_or_invalid (map_option (\<lambda>i. i + a) (find (run_fits v m bm n' hi) [unat rs..<hi])))"
    if "unat rs \<le> hi" "re + 1 = of_nat hi" "hi \<le> bits" for rs re hi
    unfolding search_def ab
    by (rule RtlpFindClearBitsRange_ok [OF a _ n'0 refl that(1,2)]) (use that(3) small in \<open>simp_all add: n'_def bits_def\<close>)
  have hb: "unat h \<le> bits" by (simp add: h_def bits_def word_less_nat_alt)
  define first where "first = find (run_fits v m bm n' bits) [unat h..<bits]"
  have s1: "search h (SizeOfBitMap bm - 1) = Some (index_or_invalid (map_option (\<lambda>i. i + a) first))"
    unfolding first_def by (rule search [OF hb]) (simp_all add: bits_def)
  define hi where "hi = (if SizeOfBitMap bm < hint + number then SizeOfBitMap bm else hint + number)"
  have s2: "search 0 (hi - 1) =
      Some (index_or_invalid (map_option (\<lambda>i. i + a) (find (run_fits v m bm n' (unat hi)) [0..<unat hi])))"
    using search [of 0 "unat hi" "hi - 1"] by (simp add: hi_def bits_def word_less_nat_alt)
  define res where "res = (if first \<noteq> None \<or> h = 0 then first
      else find (run_fits v m bm n' (unat hi)) [0..<unat hi])"
  have ind: "i < bits" if "res = Some i" for i
    using that n'0 by (auto simp: res_def first_def find_upt_Some hi_def bits_def word_less_nat_alt split: if_splits)
  have valid: "index_or_invalid (map_option (\<lambda>i. i + a) x) \<noteq> RTL_INVALID_INDEX \<longleftrightarrow> x \<noteq> None"
    "index_or_invalid (map_option (\<lambda>i. i + a) x) - abits =
       (if x = None then RTL_INVALID_INDEX - abits else index_or_invalid x)"
    if "\<And>i. x = Some i \<Longrightarrow> i < bits" for x
  proof -
    have "(of_nat (i + a) :: ulong) \<noteq> - 1" if "i < bits" for i
    proof -
      have "unat (of_nat (i + a) :: ulong) = i + a"
        using that small a by (intro unat_of_nat_range) (auto simp: bits_def)
      moreover have "unat (- 1 :: ulong) = 4294967295"
        by (simp add: unsigned_minus_1_eq_mask mask_eq_exp_minus_1)
      moreover have "i + a < 4294967295" using that small a by (auto simp: bits_def)
      ultimately show ?thesis by (metis less_irrefl)
    qed
    then show "index_or_invalid (map_option (\<lambda>i. i + a) x) \<noteq> RTL_INVALID_INDEX \<longleftrightarrow> x \<noteq> None"
      using that by (cases x) (auto simp: index_or_invalid_def)
    show "index_or_invalid (map_option (\<lambda>i. i + a) x) - abits =
       (if x = None then RTL_INVALID_INDEX - abits else index_or_invalid x)"
      by (cases x) (auto simp: index_or_invalid_def ab)
  qed
  have h0: "(if SizeOfBitMap bm \<le> hint then 0 else hint) = h"
    by (simp add: h_def linorder_not_less [symmetric])
  have first_ind: "i < bits" if "first = Some i" for i using that by (simp add: first_def find_upt_Some)
  have both: "(search h (SizeOfBitMap bm - 1) \<bind> (\<lambda>bitIndex.
      if bitIndex \<noteq> RTL_INVALID_INDEX \<or> h = 0 then Some bitIndex else search 0 (hi - 1)))
      = Some (index_or_invalid (map_option (\<lambda>i. i + a) res))"
    unfolding s1 s2 bind.bind_lunit using valid(1) [of first] first_ind by (auto simp: res_def)
  have "find_bits v m bm number hint =
    (search h (SizeOfBitMap bm - 1) \<bind> (\<lambda>bitIndex.
      if bitIndex \<noteq> RTL_INVALID_INDEX \<or> h = 0 then Some bitIndex else search 0 (hi - 1)))
    \<bind> (\<lambda>bitIndex. if bitIndex \<noteq> RTL_INVALID_INDEX then Some (bitIndex - abits) else Some bitIndex)"
    using n unfolding find_bits_def Let_def h0 adj prod.case search_def hi_def by simp
  also have "\<dots> = Some (index_or_invalid res)"
    unfolding both bind.bind_lunit using valid [of res] ind by (cases res) (auto simp: index_or_invalid_def)
  also have "res = circular_first_fit v m bm n' (unat h)"
  proof (cases "first = None \<and> h \<noteq> 0")
    case False
    then show ?thesis
      by (auto simp: res_def circular_first_fit_def find_append first_def bits_def split: option.splits)
  next
    case True
    then have hh: "h = hint" "unat h < bits" by (auto simp: h_def bits_def word_less_nat_alt split: if_splits)
    have nf: "\<not> run_fits v m bm n' bits i" if "unat h \<le> i" "i < bits" for i
      using True that by (simp add: first_def find_upt_None)
    have "find (run_fits v m bm n' (unat hi)) [0..<unat hi] = find (run_fits v m bm n' bits) [0..<unat h]"
    proof (rule find_upt_eqI)
      fix i :: nat
      show "i < unat hi \<and> run_fits v m bm n' (unat hi) i \<longleftrightarrow> i < unat h \<and> run_fits v m bm n' bits i"
      proof (cases "n' \<le> bits")
        case n'b: True
        then have "unat (hint + number) = unat h + n'"
          using hh small by (subst unat_plus_range) (simp_all add: n'_def bits_def)
        then have "unat hi = min bits (unat h + n')"
          by (auto simp: hi_def bits_def word_less_nat_alt)
        moreover have "\<not> run_fits v m bm n' bits (unat h)" using nf hh(2) by simp
        ultimately show ?thesis using n'0 hh(2) by (cases "i = unat h") (auto simp: run_fits_def not_less)
      next
        case False
        have "unat hi \<le> bits" by (auto simp: hi_def bits_def word_less_nat_alt)
        then show ?thesis using False by (auto simp: run_fits_def)
      qed
    qed
    then show ?thesis using True
      by (simp add: res_def circular_first_fit_def find_append first_def bits_def)
  qed
  finally show ?thesis by (simp add: h_def n'_def if_distrib [of unat])
qed

end
