(* ===== verification/Bitmap_Scan.thy ===== *)
theory Bitmap_Scan
  imports Bitmap_Facts
begin

text \<open>
  The routines of \<^verbatim>\<open>rtl/bitmap.c\<close> that test and count bits, scan forward and backward for a run
  of clear bits, and find the most and the least significant bit of a 64-bit set.
\<close>

section \<open>Testing a range\<close>

text \<open>
  \<^verbatim>\<open>RtlAreBitsClear\<close> and \<^verbatim>\<open>RtlAreBitsSet\<close> differ in the complement of the byte and in the value of a
  whole byte.
\<close>

definition are_bits :: "(uchar \<Rightarrow> uchar) \<Rightarrow> uchar \<Rightarrow> memory \<Rightarrow> RTL_BITMAP \<Rightarrow> ulong \<Rightarrow> ulong \<Rightarrow> bool" where
  "are_bits f whole m bm startingIndex len =
    (if SizeOfBitMap bm < startingIndex + len \<or> len = 0 then False
     else
       let endingIndex = startingIndex + len - 1;
           startingByte = unat (startingIndex div 8); endingByte = unat (endingIndex div 8);
           startingOffset = unat (startingIndex mod 8); endingOffset = unat (endingIndex mod 8);
           byte = (\<lambda>i. m (Buffer bm + int i))
       in if startingByte = endingByte
          then ZeroMask ! startingOffset AND FillMask ! (endingOffset + 1) AND f (byte startingByte) = 0
          else if ZeroMask ! startingOffset AND f (byte startingByte) \<noteq> 0 then False
          else if list_ex (\<lambda>i. byte i \<noteq> whole) [startingByte + 1..<endingByte] then False
          else FillMask ! (endingOffset + 1) AND f (byte endingByte) = 0)"

definition RtlAreBitsClear :: "memory \<Rightarrow> RTL_BITMAP \<Rightarrow> ulong \<Rightarrow> ulong \<Rightarrow> bool" where
  "RtlAreBitsClear = are_bits (\<lambda>byte. byte) 0"

definition RtlAreBitsSet :: "memory \<Rightarrow> RTL_BITMAP \<Rightarrow> ulong \<Rightarrow> ulong \<Rightarrow> bool" where
  "RtlAreBitsSet = are_bits (\<lambda>byte. NOT byte) 0xFF"

section \<open>Counting\<close>

definition RtlpNumberOfSetBitsInChunk :: "ulonglong \<Rightarrow> ulong" where
  "RtlpNumberOfSetBitsInChunk target =
    (let target = target - (drop_bit 1 target AND 0x5555555555555555);
         target = (target AND 0x3333333333333333) + (drop_bit 2 target AND 0x3333333333333333);
         target = (target + drop_bit 4 target) AND 0x0F0F0F0F0F0F0F0F;
         target = drop_bit 56 (target * 0x0101010101010101)
     in ucast target)"

text \<open>The two loops: over single bytes (the head and the tail) and over chunks.  They return the
  address they reach and the count.\<close>

partial_function (option) count_bytes :: "memory \<Rightarrow> ulong \<Rightarrow> int \<Rightarrow> ulong \<Rightarrow> (int \<times> ulong) option" where
  "count_bytes m bytes pos totalSet =
    (if 0 < bytes
     then count_bytes m (bytes - 1) (pos + 1) (totalSet + of_nat (RtlpBitsSetTotal (m pos)))
     else Some (pos, totalSet))"

declare count_bytes.simps [code]

partial_function (option) count_chunks :: "memory \<Rightarrow> ulong \<Rightarrow> int \<Rightarrow> ulong \<Rightarrow> (int \<times> ulong) option" where
  "count_chunks m bytes pos totalSet =
    (if 0 < bytes
     then count_chunks m (bytes - 8) (pos + 8) (totalSet + RtlpNumberOfSetBitsInChunk (read_chunk m pos))
     else Some (pos, totalSet))"

declare count_chunks.simps [code]

definition RtlNumberOfSetBits :: "memory \<Rightarrow> RTL_BITMAP \<Rightarrow> (ulong \<times> memory) option" where
  "RtlNumberOfSetBits m bm =
    (let bits = SizeOfBitMap bm;
         sizeInBytes = (bits + 7) div 8;
         lastByte = Buffer bm + int (unat (sizeInBytes - 1));
         m = (if bits mod 8 \<noteq> 0 then m(lastByte := m lastByte AND FillMask ! unat (bits mod 8)) else m);
         bytesHead = (word_of_int (- Buffer bm AND 7) :: ulong);
         bytesTail = (sizeInBytes - bytesHead) mod 8;
         bytesMiddle = sizeInBytes - (bytesHead + bytesTail)
     in count_bytes m bytesHead (Buffer bm) 0 \<bind> (\<lambda>(pos, totalSet).
        count_chunks m bytesMiddle pos totalSet \<bind> (\<lambda>(pos, totalSet).
        count_bytes m bytesTail pos totalSet \<bind> (\<lambda>(pos, totalSet).
        Some (totalSet, m)))))"

definition RtlNumberOfClearBits :: "memory \<Rightarrow> RTL_BITMAP \<Rightarrow> (ulong \<times> memory) option" where
  "RtlNumberOfClearBits m bm =
     RtlNumberOfSetBits m bm \<bind> (\<lambda>(set, m). Some (SizeOfBitMap bm - set, m))"

section \<open>Scanning for a run of clear bits\<close>

definition FillMaskUlong :: "ulong list" where
  "FillMaskUlong = [
    0x00000000, 0x00000001, 0x00000003, 0x00000007,
    0x0000000f, 0x0000001f, 0x0000003f, 0x0000007f,
    0x000000ff, 0x000001ff, 0x000003ff, 0x000007ff,
    0x00000fff, 0x00001fff, 0x00003fff, 0x00007fff,
    0x0000ffff, 0x0001ffff, 0x0003ffff, 0x0007ffff,
    0x000fffff, 0x001fffff, 0x003fffff, 0x007fffff,
    0x00ffffff, 0x01ffffff, 0x03ffffff, 0x07ffffff,
    0x0fffffff, 0x1fffffff, 0x3fffffff, 0x7fffffff,
    0xffffffff]"

text \<open>A \<^verbatim>\<open>PULONG\<close> into the buffer is the index of its \<^verbatim>\<open>ULONG\<close>; before the buffer it is negative.\<close>

definition hunk :: "memory \<Rightarrow> RTL_BITMAP \<Rightarrow> int \<Rightarrow> ulong" where
  "hunk m bm p = read_ulong m (Buffer bm + 4 * p)"

text \<open>The big steps: past the words that have the value \<open>skip\<close>.\<close>

function forward_hunks :: "memory \<Rightarrow> RTL_BITMAP \<Rightarrow> ulong \<Rightarrow> int \<Rightarrow> int \<Rightarrow> ulong \<Rightarrow> int \<times> ulong" where
  "forward_hunks m bm skip bitMapEnd pHunk index =
    (if pHunk < bitMapEnd
     then if hunk m bm pHunk \<noteq> skip then (pHunk, index)
          else forward_hunks m bm skip bitMapEnd (pHunk + 1) (index + 32)
     else (pHunk, index))"
  by pat_completeness auto
termination by (relation "measure (\<lambda>(_, _, _, e, p, _). nat (e - p))") auto

function backward_hunks :: "memory \<Rightarrow> RTL_BITMAP \<Rightarrow> ulong \<Rightarrow> int \<Rightarrow> ulong \<Rightarrow> int \<times> ulong" where
  "backward_hunks m bm skip pHunk index =
    (if 0 < pHunk
     then if hunk m bm pHunk \<noteq> skip then (pHunk, index)
          else backward_hunks m bm skip (pHunk - 1) (index - 32)
     else (pHunk, index))"
  by pat_completeness auto
termination by (relation "measure (\<lambda>(_, _, _, p, _). nat p)") auto

text \<open>The bitwise searches.\<close>

function forward_bits :: "memory \<Rightarrow> RTL_BITMAP \<Rightarrow> bool \<Rightarrow> ulong \<Rightarrow> ulong" where
  "forward_bits m bm v index =
    (if index < SizeOfBitMap bm \<and> RtlCheckBit m bm index = v then forward_bits m bm v (index + 1)
     else index)"
  by pat_completeness auto
termination
proof (relation "measure (\<lambda>(_, bm, _, i). unat (SizeOfBitMap bm) - unat i)", simp, goal_cases)
  case (1 m bm v i)
  then have "unat i < unat (SizeOfBitMap bm)" by (simp add: word_less_nat_alt)
  moreover from this have "unat (i + 1) = unat i + 1"
    using unat_ulong_less [of "SizeOfBitMap bm"] by (subst unat_plus_range) simp_all
  ultimately show ?case by simp
qed

function backward_bits :: "memory \<Rightarrow> RTL_BITMAP \<Rightarrow> bool \<Rightarrow> ulong \<Rightarrow> ulong" where
  "backward_bits m bm v index =
    (if index \<noteq> - 1 \<and> RtlCheckBit m bm index = v then backward_bits m bm v (index - 1) else index)"
  by pat_completeness auto
termination
proof (relation "measure (\<lambda>(_, _, _, i). unat (i + 1))", simp, goal_cases)
  case (1 m bm v i)
  then have "i + 1 \<noteq> 0" by (metis add.commute add_eq_0_iff)
  then show ?case using unatSuc [of i] by (simp add: add.commute)
qed

definition RtlFindNextForwardRunClear :: "memory \<Rightarrow> RTL_BITMAP \<Rightarrow> ulong \<Rightarrow> ulong \<times> ulong" where
  "RtlFindNextForwardRunClear m bm fromIndex =
    (if SizeOfBitMap bm = 0 then (0, fromIndex)
     else
       let bitMapEnd = int (unat ((SizeOfBitMap bm - 1) div 32));
           start = fromIndex;
           pHunk = int (unat (start div 32));
           (pHunk, start) =
             (if pHunk \<noteq> bitMapEnd \<and> hunk m bm pHunk OR FillMaskUlong ! unat (start mod 32) = - 1
              then forward_hunks m bm (- 1) bitMapEnd (pHunk + 1) (start + (32 - start mod 32))
              else (pHunk, start));
           start = forward_bits m bm True start;
           end = start;
           (pHunk, end) =
             (if pHunk \<noteq> bitMapEnd \<and> hunk m bm pHunk AND NOT (FillMaskUlong ! unat (end mod 32)) = 0
              then forward_hunks m bm 0 bitMapEnd (pHunk + 1) (end + (32 - end mod 32))
              else (pHunk, end));
           end = forward_bits m bm False end
       in (end - start, start))"

definition RtlFindFirstRunClear :: "memory \<Rightarrow> RTL_BITMAP \<Rightarrow> ulong \<times> ulong" where
  "RtlFindFirstRunClear m bm = RtlFindNextForwardRunClear m bm 0"

definition RtlFindLastBackwardRunClear :: "memory \<Rightarrow> RTL_BITMAP \<Rightarrow> ulong \<Rightarrow> ulong \<times> ulong" where
  "RtlFindLastBackwardRunClear m bm fromIndex =
    (if SizeOfBitMap bm = 0 then (0, fromIndex)
     else
       let end = fromIndex;
           pHunk = int (unat (end div 32));
           (pHunk, end) =
             (if hunk m bm pHunk OR NOT (FillMaskUlong ! unat (end mod 32 + 1)) = - 1
              then backward_hunks m bm (- 1) (pHunk - 1) (end - (end mod 32 + 1))
              else (pHunk, end));
           end = backward_bits m bm True end;
           start = end;
           (pHunk, start) =
             (if hunk m bm pHunk AND FillMaskUlong ! unat (start mod 32) = 0
              then backward_hunks m bm 0 (pHunk - 1) (start - (start mod 32 + 1))
              else (pHunk, start));
           start = backward_bits m bm False start
       in (end - start, start + 1))"

section \<open>The most and the least significant bit\<close>

definition RtlFindMostSignificantBit :: "ulonglong \<Rightarrow> int" where
  "RtlFindMostSignificantBit bits = (case BitScanReverse64 bits of Some i \<Rightarrow> int (unat i) | None \<Rightarrow> - 1)"

definition RtlFindLeastSignificantBit :: "ulonglong \<Rightarrow> int" where
  "RtlFindLeastSignificantBit bits = (case BitScanForward64 bits of Some i \<Rightarrow> int (unat i) | None \<Rightarrow> - 1)"

definition RtlFindMostSignificantBit_portable :: "ulonglong \<Rightarrow> int" where
  "RtlFindMostSignificantBit_portable bits =
    (let bitOffset =
       (if bits AND 0xFFFFFFFF00000000 \<noteq> 0
        then if bits AND 0xFFFF000000000000 \<noteq> 0
             then if bits AND 0xFF00000000000000 \<noteq> 0 then Some (7 * 8) else Some (6 * 8)
             else if bits AND 0x0000FF0000000000 \<noteq> 0 then Some (5 * 8) else Some (4 * 8)
        else if bits AND 0x00000000FFFF0000 \<noteq> 0
             then if bits AND 0x00000000FF000000 \<noteq> 0 then Some (3 * 8) else Some (2 * 8)
             else if bits AND 0x000000000000FF00 \<noteq> 0 then Some (1 * 8)
             else if bits = 0 then None else Some (0 * 8))
     in case bitOffset of
          None \<Rightarrow> - 1
        | Some bitOffset \<Rightarrow>
            let lookup = (ucast (drop_bit bitOffset bits) :: uchar)
            in int (7 - RtlpBitsClearHigh ! unat lookup + bitOffset))"

definition RtlFindLeastSignificantBit_portable :: "ulonglong \<Rightarrow> int" where
  "RtlFindLeastSignificantBit_portable bits =
    (let bitOffset =
       (if bits AND 0x00000000FFFFFFFF \<noteq> 0
        then if bits AND 0x000000000000FFFF \<noteq> 0
             then if bits AND 0x00000000000000FF \<noteq> 0 then Some (0 * 8) else Some (1 * 8)
             else if bits AND 0x0000000000FF0000 \<noteq> 0 then Some (2 * 8) else Some (3 * 8)
        else if bits AND 0x0000FFFF00000000 \<noteq> 0
             then if bits AND 0x000000FF00000000 \<noteq> 0 then Some (4 * 8) else Some (5 * 8)
             else if bits AND 0x00FF000000000000 \<noteq> 0 then Some (6 * 8)
             else if bits = 0 then None else Some (7 * 8))
     in case bitOffset of
          None \<Rightarrow> - 1
        | Some bitOffset \<Rightarrow>
            let lookup = (ucast (drop_bit bitOffset bits) :: uchar)
            in int (RtlpBitsClearLow ! unat lookup + bitOffset))"

end
