(* ===== verification/Bitmap_Scan_Facts.thy ===== *)
theory Bitmap_Scan_Facts
  imports Bitmap_Scan
begin

text \<open>
  The tests of a range of bits, the counts and the bit scans against the bits of the map.
\<close>

section \<open>Testing a range\<close>

lemma bit_byte_less: "bit (b :: uchar) n \<Longrightarrow> n < 8"
  by (auto dest: bit_imp_le_length)

locale range_reader =
  fixes f :: "uchar \<Rightarrow> uchar" and whole :: uchar and v :: bool
  assumes f: "j < 8 \<Longrightarrow> bit (f b) j \<longleftrightarrow> bit b j \<noteq> v"
    and whole: "b = whole \<longleftrightarrow> (\<forall>j < 8. bit b j = v)"
begin

lemma masked:
  assumes "k \<le> 8" "l \<le> 8"
  shows "ZeroMask ! k AND FillMask ! l AND f b = 0 \<longleftrightarrow> (\<forall>j < 8. k \<le> j \<longrightarrow> j < l \<longrightarrow> bit b j = v)"
    and "ZeroMask ! k AND f b = 0 \<longleftrightarrow> (\<forall>j < 8. k \<le> j \<longrightarrow> bit b j = v)"
    and "FillMask ! l AND f b = 0 \<longleftrightarrow> (\<forall>j < 8. j < l \<longrightarrow> bit b j = v)"
  using assms f [of _ b]
  by (auto simp: mask_zero_iff bit_and_iff bit_ZeroMask bit_FillMask dest: bit_imp_le_length)

lemma are_bits_iff:
  assumes "unat start + unat len < 2 ^ 32"
  shows "are_bits f whole m bm start len \<longleftrightarrow>
    len \<noteq> 0 \<and> unat start + unat len \<le> unat (SizeOfBitMap bm) \<and>
    (\<forall>i. unat start \<le> i \<longrightarrow> i < unat start + unat len \<longrightarrow> bit_at m (Buffer bm) i = v)"
proof (cases "len = 0 \<or> unat (SizeOfBitMap bm) < unat start + unat len")
  case True
  then show ?thesis using assms
    by (auto simp: are_bits_def word_less_nat_alt unat_plus_range)
next
  case False
  define last where "last = start + len - 1"
  have sum: "unat (start + len) = unat start + unat len" using assms by (simp add: unat_plus_range)
  have "1 \<le> unat len" using False by (simp add: Suc_le_eq unat_gt_0)
  then have ul: "unat last = unat start + unat len - 1"
    unfolding last_def using sum by (subst unat_minus_range) simp_all
  define sb so eb eo where "sb = unat start div 8" and "so = unat start mod 8"
    and "eb = unat last div 8" and "eo = unat last mod 8"
  have s: "unat start = 8 * sb + so" "so < 8" and e: "unat last = 8 * eb + eo" "eo < 8"
    by (simp_all add: sb_def so_def eb_def eo_def)
  have se: "sb \<le> eb" using ul \<open>1 \<le> unat len\<close> unfolding sb_def eb_def by (intro div_le_mono) simp
  have "\<not> (SizeOfBitMap bm < start + len \<or> len = 0)" using False sum by (simp add: word_less_nat_alt)
  then have body: "are_bits f whole m bm start len \<longleftrightarrow>
     (if sb = eb then ZeroMask ! so AND FillMask ! (eo + 1) AND f (m (Buffer bm + int sb)) = 0
      else if ZeroMask ! so AND f (m (Buffer bm + int sb)) \<noteq> 0 then False
      else if list_ex (\<lambda>i. m (Buffer bm + int i) \<noteq> whole) [sb + 1..<eb] then False
      else FillMask ! (eo + 1) AND f (m (Buffer bm + int eb)) = 0)"
    by (simp add: are_bits_def Let_def last_def [symmetric] unat_div unat_mod
        sb_def [symmetric] so_def [symmetric] eb_def [symmetric] eo_def [symmetric])
  define P where "P q j \<longleftrightarrow> bit (m (Buffer bm + int q)) j = v" for q j
  have all: "(\<forall>i. unat start \<le> i \<longrightarrow> i < unat start + unat len \<longrightarrow> bit_at m (Buffer bm) i = v) \<longleftrightarrow>
      (\<forall>q. \<forall>j < 8. 8 * sb + so \<le> 8 * q + j \<longrightarrow> 8 * q + j \<le> 8 * eb + eo \<longrightarrow> P q j)" (is "?l \<longleftrightarrow> ?r")
  proof
    assume l: ?l
    show ?r
    proof (intro allI impI)
      fix q j :: nat
      assume "j < 8" "8 * sb + so \<le> 8 * q + j" "8 * q + j \<le> 8 * eb + eo"
      then show "P q j" using l [rule_format, of "8 * q + j"] s(1) e(1) ul \<open>1 \<le> unat len\<close>
        by (simp add: P_def bit_at_def)
    qed
  next
    assume r: ?r
    show ?l
    proof (intro allI impI)
      fix i assume "unat start \<le> i" "i < unat start + unat len"
      then show "bit_at m (Buffer bm) i = v"
        using r [rule_format, of "i mod 8" "i div 8"] s(1) e(1) ul
        unfolding P_def bit_at_def by simp
    qed
  qed
  have "are_bits f whole m bm start len \<longleftrightarrow> ?r"
  proof (cases "sb = eb")
    case True
    have "?r \<longleftrightarrow> (\<forall>j < 8. so \<le> j \<longrightarrow> j < eo + 1 \<longrightarrow> P eb j)"
    proof
      assume r: "\<forall>j < 8. so \<le> j \<longrightarrow> j < eo + 1 \<longrightarrow> P eb j"
      show ?r
      proof (intro allI impI)
        fix q j :: nat
        assume a: "j < 8" "8 * sb + so \<le> 8 * q + j" "8 * q + j \<le> 8 * eb + eo"
        then have "q = eb" using True s(2) e(2) by linarith
        then show "P q j" using r a True by simp
      qed
    qed (use True in auto)
    then show ?thesis using body True masked(1) [of so "eo + 1"] s(2) e(2) by (simp add: P_def)
  next
    case False
    have "?r \<longleftrightarrow> (\<forall>j < 8. so \<le> j \<longrightarrow> P sb j) \<and> (\<forall>q. sb < q \<longrightarrow> q < eb \<longrightarrow> (\<forall>j < 8. P q j)) \<and>
        (\<forall>j < 8. j < eo + 1 \<longrightarrow> P eb j)" (is "_ \<longleftrightarrow> ?parts")
    proof
      assume r: ?r
      show ?parts
      proof (intro conjI allI impI)
        fix j :: nat assume "j < 8" "so \<le> j"
        then show "P sb j" using r se False by simp
      next
        fix q j :: nat assume "sb < q" "q < eb" "j < 8"
        then show "P q j" using r s(2) by simp
      next
        fix j :: nat assume "j < 8" "j < eo + 1"
        then show "P eb j" using r se False s(2) by simp
      qed
    next
      assume p: ?parts
      show ?r
      proof (intro allI impI)
        fix q j :: nat
        assume a: "j < 8" "8 * sb + so \<le> 8 * q + j" "8 * q + j \<le> 8 * eb + eo"
        then have "sb \<le> q" "q \<le> eb" using s(2) e(2) by linarith+
        then consider "q = sb" | "sb < q" "q < eb" | "q = eb" by linarith
        then show "P q j" using p a by cases auto
      qed
    qed
    also have "\<dots> \<longleftrightarrow> are_bits f whole m bm start len"
    proof -
      have first: "ZeroMask ! so AND f (m (Buffer bm + int sb)) = 0 \<longleftrightarrow> (\<forall>j < 8. so \<le> j \<longrightarrow> P sb j)"
        using masked(2) [of so so] s(2) by (simp add: P_def)
      have middle: "list_ex (\<lambda>i. m (Buffer bm + int i) \<noteq> whole) [sb + 1..<eb] \<longleftrightarrow>
          \<not> (\<forall>q. sb < q \<longrightarrow> q < eb \<longrightarrow> (\<forall>j < 8. P q j))"
        by (auto simp: list_ex_iff whole P_def Suc_le_eq)
      have final: "FillMask ! (eo + 1) AND f (m (Buffer bm + int eb)) = 0 \<longleftrightarrow> (\<forall>j < 8. j < eo + 1 \<longrightarrow> P eb j)"
        using masked(3) [of "eo + 1" "eo + 1"] e(2) by (simp add: P_def)
      show ?thesis unfolding body first middle final using False by (simp only: if_False split: if_split) blast
    qed
    finally show ?thesis by blast
  qed
  then show ?thesis using all False by auto
qed

end

interpretation clear_reader: range_reader "\<lambda>byte. byte" 0 False
  by unfold_locales (auto simp: mask_zero_iff dest: bit_byte_less)

lemma not_byte_zero: "b = 0xFF \<longleftrightarrow> NOT b = (0 :: uchar)"
proof -
  have "(0xFF :: uchar) = NOT 0" by simp
  then show ?thesis by (metis bit.double_compl)
qed

interpretation set_reader: range_reader "\<lambda>byte. NOT byte" "0xFF" True
proof
  fix b :: uchar
  show "b = 0xFF \<longleftrightarrow> (\<forall>j < 8. bit b j = True)"
    unfolding not_byte_zero by (auto simp: mask_zero_iff bit_not_iff)
qed (simp add: bit_not_iff)

lemmas RtlAreBitsClear_iff = clear_reader.are_bits_iff [folded RtlAreBitsClear_def]
lemmas RtlAreBitsSet_iff = set_reader.are_bits_iff [folded RtlAreBitsSet_def]

text \<open>
  The sum is a \<^verbatim>\<open>ULONG\<close>: a range that wraps is taken for one inside the map, and memory far past
  the buffer is read.
\<close>

lemma RtlAreBitsClear_wraps:
  "RtlAreBitsClear (\<lambda>_. 0) \<lparr>SizeOfBitMap = 8, Buffer = base\<rparr> 1 0xFFFFFFFF"
  by (simp add: RtlAreBitsClear_def are_bits_def Let_def list_ex_iff)

section \<open>The bit tables\<close>

definition low_clear :: "uchar \<Rightarrow> nat" where
  "low_clear b = length (takeWhile (\<lambda>j. \<not> bit b j) [0..<8])"

definition high_clear :: "uchar \<Rightarrow> nat" where
  "high_clear b = length (takeWhile (\<lambda>j. \<not> bit b j) (rev [0..<8]))"

definition total_clear :: "uchar \<Rightarrow> nat" where
  "total_clear b = length (filter (\<lambda>j. \<not> bit b j) [0..<8])"

lemma tables:
  "RtlpBitsClearLow = map (\<lambda>i. low_clear (of_nat i)) [0..<256]"
  "RtlpBitsClearHigh = map (\<lambda>i. high_clear (of_nat i)) [0..<256]"
  "RtlpBitsClearTotal = map (\<lambda>i. total_clear (of_nat i)) [0..<256]"
  by code_simp+

lemma table_entries:
  "RtlpBitsClearLow ! unat b = low_clear b"
  "RtlpBitsClearHigh ! unat b = high_clear b"
  "RtlpBitsClearTotal ! unat b = total_clear b"
proof -
  have "unat b < 2 ^ LENGTH(8)" by (rule unsigned_less)
  then have "unat b < 256" by simp
  then show "RtlpBitsClearLow ! unat b = low_clear b" "RtlpBitsClearHigh ! unat b = high_clear b"
    "RtlpBitsClearTotal ! unat b = total_clear b"
    by (simp_all add: tables)
qed

section \<open>Single bits\<close>

lemma set_bit_assigns:
  assumes "unat number < 2 ^ 31"
  shows "bits_assigned True (Buffer bm) (int (unat number)) (int (unat number) + 1) m (RtlSetBit m bm number)"
    and "bits_assigned False (Buffer bm) (int (unat number)) (int (unat number) + 1) m (RtlClearBit m bm number)"
    and "RtlTestBit m bm number = bit_at m (Buffer bm) (unat number)"
proof -
  define n where "n = unat number"
  have s: "sint number = int n" using sint_small [of number] assms by (simp add: n_def)
  have d: "int n div 8 = int (n div 8)" "nat (int n mod 8) = n mod 8"
    by (simp_all add: zdiv_int nat_mod_distrib)
  have m8: "n mod 8 < 8" "Suc (n mod 8) \<le> 8" by (simp_all add: Suc_le_eq)
  have n: "int n = 8 * int (n div 8) + int (n mod 8)"
    using of_nat_add [of "8 * (n div 8)" "n mod 8", where 'a = int] by simp
  have "bits_assigned True (Buffer bm) (int n) (int n + 1) m
      (m(Buffer bm + int (n div 8) := set_bit (n mod 8) (m (Buffer bm + int (n div 8)))))"
    by (rule bits_assigned_byte [where k = "n mod 8" and l = "Suc (n mod 8)"])
      (use n m8 in \<open>auto simp: bit_set_bit_iff\<close>)
  then show "bits_assigned True (Buffer bm) (int (unat number)) (int (unat number) + 1) m (RtlSetBit m bm number)"
    by (simp only: RtlSetBit_def BitTestAndSet_def Let_def s d n_def [symmetric])
  have "bits_assigned False (Buffer bm) (int n) (int n + 1) m
      (m(Buffer bm + int (n div 8) := unset_bit (n mod 8) (m (Buffer bm + int (n div 8)))))"
    by (rule bits_assigned_byte [where k = "n mod 8" and l = "Suc (n mod 8)"])
      (use n m8 in \<open>auto simp: bit_unset_bit_iff\<close>)
  then show "bits_assigned False (Buffer bm) (int (unat number)) (int (unat number) + 1) m (RtlClearBit m bm number)"
    by (simp only: RtlClearBit_def BitTestAndReset_def Let_def s d n_def [symmetric])
  show "RtlTestBit m bm number = bit_at m (Buffer bm) (unat number)"
    by (simp only: RtlTestBit_def BitTest_def bit_at_def s d n_def [symmetric])
qed

text \<open>The code for the other processors does the same.\<close>

lemma portable_bits:
  assumes "unat number < 2 ^ 31"
  shows "RtlSetBit_portable m bm number = RtlSetBit m bm number"
    and "RtlClearBit_portable m bm number = RtlClearBit m bm number"
    and "RtlTestBit_portable m bm number = RtlTestBit m bm number"
proof -
  define n where "n = unat number"
  have s: "sint number = int n" using sint_small [of number] assms by (simp add: n_def)
  have d: "int n div 8 = int (n div 8)" "nat (int n mod 8) = n mod 8"
    by (simp_all add: zdiv_int nat_mod_distrib)
  have q: "unat (drop_bit 3 number) = n div 8"
    by (simp add: n_def unat_drop_bit_eq drop_bit_eq_div unat_div)
  have r: "unat (number AND 7) = n mod 8"
    using take_bit_eq_mask [of 3 n] by (simp add: n_def unsigned_and_eq mask_eq_exp_minus_1 take_bit_eq_mod)
  have "b OR push_bit k 1 = set_bit k b" for b :: uchar and k by (simp add: set_bit_eq_or)
  then show "RtlSetBit_portable m bm number = RtlSetBit m bm number"
    by (simp only: RtlSetBit_portable_def RtlSetBit_def BitTestAndSet_def Let_def q r s d)
  have "b AND NOT (push_bit k 1) = unset_bit k b" for b :: uchar and k by (simp add: unset_bit_eq_and_not)
  then show "RtlClearBit_portable m bm number = RtlClearBit m bm number"
    by (simp only: RtlClearBit_portable_def RtlClearBit_def BitTestAndReset_def Let_def q r s d)
  have "drop_bit k b AND 1 \<noteq> 0 \<longleftrightarrow> bit b k" for b :: uchar and k
    by (simp add: and_one_eq odd_iff_mod_2_eq_one [symmetric] flip: bit_iff_odd_drop_bit)
  then show "RtlTestBit_portable m bm number = RtlTestBit m bm number"
    by (simp only: RtlTestBit_portable_def RtlTestBit_def BitTest_def Let_def q r s d)
qed

section \<open>The most and the least significant bit\<close>

text \<open>The masks of the portable code test ranges of bits.\<close>

lemma and_range:
  fixes w :: ulonglong
  assumes "r = push_bit s (mask k)" "s + k \<le> 64"
  shows "w AND r \<noteq> 0 \<longleftrightarrow> (\<exists>n. s \<le> n \<and> n < s + k \<and> bit w n)"
proof -
  have "bit (w AND r) n \<longleftrightarrow> s \<le> n \<and> n < s + k \<and> bit w n" for n
    using assms(2) by (auto simp: assms(1) bit_and_iff bit_push_bit_iff bit_mask_iff dest: bit_chunk_less)
  then show ?thesis unfolding mask_zero_iff by blast
qed

lemma range_masks:
  "(0xFFFFFFFF00000000 :: ulonglong) = push_bit 32 (mask 32)" "(0xFFFF000000000000 :: ulonglong) = push_bit 48 (mask 16)"
  "(0xFF00000000000000 :: ulonglong) = push_bit 56 (mask 8)" "(0x0000FF0000000000 :: ulonglong) = push_bit 40 (mask 8)"
  "(0x00000000FFFF0000 :: ulonglong) = push_bit 16 (mask 16)" "(0x00000000FF000000 :: ulonglong) = push_bit 24 (mask 8)"
  "(0x000000000000FF00 :: ulonglong) = push_bit 8 (mask 8)" "(0x00000000FFFFFFFF :: ulonglong) = push_bit 0 (mask 32)"
  "(0x000000000000FFFF :: ulonglong) = push_bit 0 (mask 16)" "(0x00000000000000FF :: ulonglong) = push_bit 0 (mask 8)"
  "(0x0000000000FF0000 :: ulonglong) = push_bit 16 (mask 8)" "(0x0000FFFF00000000 :: ulonglong) = push_bit 32 (mask 16)"
  "(0x000000FF00000000 :: ulonglong) = push_bit 32 (mask 8)" "(0x00FF000000000000 :: ulonglong) = push_bit 48 (mask 8)"
  by (simp_all add: mask_eq_exp_minus_1 push_bit_eq_mult)

lemmas range_tests = range_masks [THEN and_range, simplified]

lemma byte_ends:
  "\<forall>i \<in> set [1..<256]. bit (of_nat i :: uchar) (7 - high_clear (of_nat i)) \<and> high_clear (of_nat i) \<le> 7 \<and>
     (\<forall>j \<in> set [0..<8]. 7 - high_clear (of_nat i) < j \<longrightarrow> \<not> bit (of_nat i :: uchar) j) \<and>
     bit (of_nat i :: uchar) (low_clear (of_nat i)) \<and>
     (\<forall>j \<in> set [0..<8]. j < low_clear (of_nat i) \<longrightarrow> \<not> bit (of_nat i :: uchar) j)"
  by code_simp


lemma byte_end_bits:
  assumes "b \<noteq> (0 :: uchar)"
  shows "bit b (7 - high_clear b)" "high_clear b \<le> 7" "\<And>j. 7 - high_clear b < j \<Longrightarrow> \<not> bit b j"
    "bit b (low_clear b)" "\<And>j. j < low_clear b \<Longrightarrow> \<not> bit b j"
proof -
  have "unat b < 2 ^ LENGTH(8)" by (rule unsigned_less)
  then have "unat b \<in> set [1..<256]" using assms by (simp add: Suc_le_eq unat_gt_0)
  from bspec [OF byte_ends this]
  have e: "bit b (7 - high_clear b) \<and> high_clear b \<le> 7 \<and>
     (\<forall>j \<in> set [0..<8]. 7 - high_clear b < j \<longrightarrow> \<not> bit b j) \<and> bit b (low_clear b) \<and>
     (\<forall>j \<in> set [0..<8]. j < low_clear b \<longrightarrow> \<not> bit b j)" by simp
  then show "bit b (7 - high_clear b)" "high_clear b \<le> 7" "bit b (low_clear b)" by simp_all
  show "\<not> bit b j" if "7 - high_clear b < j" for j
    using e that bit_byte_less [of b j] by (cases "j < 8") auto
  show "\<not> bit b j" if "j < low_clear b" for j
    using e that bit_byte_less [of b j] by (cases "j < 8") auto
qed

lemma bit_byte_at:
  fixes w :: ulonglong
  shows "bit (ucast (drop_bit k w) :: uchar) j \<longleftrightarrow> j < 8 \<and> bit w (k + j)"
  by (simp add: bit_ucast_iff bit_drop_bit_eq)

lemma most_significant_bit:
  assumes "bit bits i" "\<And>j. i < j \<Longrightarrow> \<not> bit bits j"
  shows "RtlFindMostSignificantBit bits = int i"
proof -
  have "i < 64" using assms(1) by (rule bit_chunk_less)
  moreover from this have "find (bit bits) (rev [0..<64]) = Some i" using assms by (simp add: find_rev_upt_Some)
  ultimately show ?thesis
    by (simp only: RtlFindMostSignificantBit_def BitScanReverse64_def option.map option.case)
      (simp add: unat_of_nat_range)
qed

lemma least_significant_bit:
  assumes "bit bits i" "\<And>j. j < i \<Longrightarrow> \<not> bit bits j"
  shows "RtlFindLeastSignificantBit bits = int i"
proof -
  have "i < 64" using assms(1) by (rule bit_chunk_less)
  moreover from this have "find (bit bits) [0..<64] = Some i" using assms by (simp add: find_upt_Some)
  ultimately show ?thesis
    by (simp only: RtlFindLeastSignificantBit_def BitScanForward64_def option.map option.case)
      (simp add: unat_of_nat_range)
qed

lemma most_significant_byte:
  assumes "\<exists>n. k \<le> n \<and> n < k + 8 \<and> bit bits n" "\<And>n. k + 8 \<le> n \<Longrightarrow> \<not> bit bits n"
  shows "RtlFindMostSignificantBit bits =
    int (7 - RtlpBitsClearHigh ! unat (ucast (drop_bit k bits) :: uchar) + k)"
proof -
  define b where "b = (ucast (drop_bit k bits) :: uchar)"
  have b: "bit b j \<longleftrightarrow> j < 8 \<and> bit bits (k + j)" for j by (simp add: b_def bit_byte_at)
  from assms(1) obtain n where "k \<le> n" "n < k + 8" "bit bits n" by blast
  then have "bit b (n - k)" by (simp add: b)
  then have "b \<noteq> 0" by auto
  note e = byte_end_bits [OF this]
  have i: "bit bits (k + (7 - high_clear b))" using e(1) b by simp
  have above: "\<not> bit bits j" if "k + (7 - high_clear b) < j" for j
  proof (cases "k + 8 \<le> j")
    case False
    then show ?thesis using e(3) [of "j - k"] b [of "j - k"] that by simp
  qed (rule assms(2))
  have "RtlFindMostSignificantBit bits = int (k + (7 - high_clear b))"
    by (rule most_significant_bit [OF i above])
  then show ?thesis by (simp add: table_entries(2) add.commute flip: b_def)
qed

lemma least_significant_byte:
  assumes "\<exists>n. k \<le> n \<and> n < k + 8 \<and> bit bits n" "\<And>n. n < k \<Longrightarrow> \<not> bit bits n"
  shows "RtlFindLeastSignificantBit bits =
    int (RtlpBitsClearLow ! unat (ucast (drop_bit k bits) :: uchar) + k)"
proof -
  define b where "b = (ucast (drop_bit k bits) :: uchar)"
  have b: "bit b j \<longleftrightarrow> j < 8 \<and> bit bits (k + j)" for j by (simp add: b_def bit_byte_at)
  from assms(1) obtain n where "k \<le> n" "n < k + 8" "bit bits n" by blast
  then have "bit b (n - k)" by (simp add: b)
  then have "b \<noteq> 0" by auto
  note e = byte_end_bits [OF this]
  have i: "bit bits (k + low_clear b)" using e(4) b by simp
  have below: "\<not> bit bits j" if "j < k + low_clear b" for j
  proof (cases "j < k")
    case False
    then show ?thesis using e(5) [of "j - k"] b [of "j - k"] that b e(4) by (simp add: less_diff_conv2)
  qed (rule assms(2))
  have "RtlFindLeastSignificantBit bits = int (k + low_clear b)"
    by (rule least_significant_bit [OF i below])
  then show ?thesis by (simp add: table_entries(1) add.commute flip: b_def)
qed


lemma no_bits: "RtlFindMostSignificantBit 0 = - 1" "RtlFindLeastSignificantBit 0 = - 1"
  using BitScanReverse64_None [of 0] BitScanForward64_None [of 0]
  by (simp_all add: RtlFindMostSignificantBit_def RtlFindLeastSignificantBit_def)

text \<open>Which bytes of the set have a bit.\<close>

definition byte_used :: "ulonglong \<Rightarrow> nat \<Rightarrow> bool" where
  "byte_used bits k \<longleftrightarrow> (\<exists>n. 8 * k \<le> n \<and> n < 8 * k + 8 \<and> bit bits n)"

lemma byte_used_bit: "bit bits n \<Longrightarrow> byte_used bits (n div 8) \<and> n div 8 < 8"
  using bit_chunk_less [of bits n] by (auto simp: byte_used_def intro!: exI [of _ n])

lemma bytes_used:
  fixes k l :: nat
  shows "(\<exists>n. 8 * k \<le> n \<and> n < 8 * l \<and> bit bits n) \<longleftrightarrow> (\<exists>q. k \<le> q \<and> q < l \<and> byte_used bits q)"
proof
  assume "\<exists>n. 8 * k \<le> n \<and> n < 8 * l \<and> bit bits n"
  then obtain n where n: "8 * k \<le> n" "n < 8 * l" "bit bits n" by blast
  then have "k \<le> n div 8" "n div 8 < l" by auto
  then show "\<exists>q. k \<le> q \<and> q < l \<and> byte_used bits q" using byte_used_bit [OF n(3)] by blast
next
  assume "\<exists>q. k \<le> q \<and> q < l \<and> byte_used bits q"
  then obtain q n where "k \<le> q" "q < l" "8 * q \<le> n" "n < 8 * q + 8" "bit bits n"
    unfolding byte_used_def by blast
  then have "8 * k \<le> n \<and> n < 8 * l \<and> bit bits n" by simp
  then show "\<exists>n. 8 * k \<le> n \<and> n < 8 * l \<and> bit bits n" by blast
qed

lemma byte_tests:
  "bits AND 0xFFFFFFFF00000000 \<noteq> 0 \<longleftrightarrow> byte_used bits 4 \<or> byte_used bits 5 \<or> byte_used bits 6 \<or> byte_used bits 7"
  "bits AND 0xFFFF000000000000 \<noteq> 0 \<longleftrightarrow> byte_used bits 6 \<or> byte_used bits 7"
  "bits AND 0xFF00000000000000 \<noteq> 0 \<longleftrightarrow> byte_used bits 7"
  "bits AND 0x0000FF0000000000 \<noteq> 0 \<longleftrightarrow> byte_used bits 5"
  "bits AND 0x00000000FFFF0000 \<noteq> 0 \<longleftrightarrow> byte_used bits 2 \<or> byte_used bits 3"
  "bits AND 0x00000000FF000000 \<noteq> 0 \<longleftrightarrow> byte_used bits 3"
  "bits AND 0x000000000000FF00 \<noteq> 0 \<longleftrightarrow> byte_used bits 1"
  "bits AND 0x00000000FFFFFFFF \<noteq> 0 \<longleftrightarrow> byte_used bits 0 \<or> byte_used bits 1 \<or> byte_used bits 2 \<or> byte_used bits 3"
  "bits AND 0x000000000000FFFF \<noteq> 0 \<longleftrightarrow> byte_used bits 0 \<or> byte_used bits 1"
  "bits AND 0x00000000000000FF \<noteq> 0 \<longleftrightarrow> byte_used bits 0"
  "bits AND 0x0000000000FF0000 \<noteq> 0 \<longleftrightarrow> byte_used bits 2"
  "bits AND 0x0000FFFF00000000 \<noteq> 0 \<longleftrightarrow> byte_used bits 4 \<or> byte_used bits 5"
  "bits AND 0x000000FF00000000 \<noteq> 0 \<longleftrightarrow> byte_used bits 4"
  "bits AND 0x00FF000000000000 \<noteq> 0 \<longleftrightarrow> byte_used bits 6"
proof -
  have r: "bits AND r \<noteq> 0 \<longleftrightarrow> (\<exists>q \<in> set [k..<l]. byte_used bits q)"
    if "r = push_bit (8 * k) (mask (8 * (l - k)))" "k \<le> l" "l \<le> 8" for r k l
  proof -
    have "bits AND r \<noteq> 0 \<longleftrightarrow> (\<exists>n. 8 * k \<le> n \<and> n < 8 * k + 8 * (l - k) \<and> bit bits n)"
      by (rule and_range [OF that(1)]) (use that in simp)
    also have "8 * k + 8 * (l - k) = 8 * l" using that by simp
    finally show ?thesis unfolding bytes_used by auto
  qed
  show "bits AND 0xFFFFFFFF00000000 \<noteq> 0 \<longleftrightarrow> byte_used bits 4 \<or> byte_used bits 5 \<or> byte_used bits 6 \<or> byte_used bits 7"
    by (subst r [of _ 4 8]) (simp_all add: range_masks upt_rec)
  show "bits AND 0xFFFF000000000000 \<noteq> 0 \<longleftrightarrow> byte_used bits 6 \<or> byte_used bits 7"
    by (subst r [of _ 6 8]) (simp_all add: range_masks upt_rec)
  show "bits AND 0xFF00000000000000 \<noteq> 0 \<longleftrightarrow> byte_used bits 7"
    by (subst r [of _ 7 8]) (simp_all add: range_masks upt_rec)
  show "bits AND 0x0000FF0000000000 \<noteq> 0 \<longleftrightarrow> byte_used bits 5"
    by (subst r [of _ 5 6]) (simp_all add: range_masks upt_rec)
  show "bits AND 0x00000000FFFF0000 \<noteq> 0 \<longleftrightarrow> byte_used bits 2 \<or> byte_used bits 3"
    by (subst r [of _ 2 4]) (simp_all add: range_masks upt_rec)
  show "bits AND 0x00000000FF000000 \<noteq> 0 \<longleftrightarrow> byte_used bits 3"
    by (subst r [of _ 3 4]) (simp_all add: range_masks upt_rec)
  show "bits AND 0x000000000000FF00 \<noteq> 0 \<longleftrightarrow> byte_used bits 1"
    by (subst r [of _ 1 2]) (simp_all add: range_masks upt_rec)
  show "bits AND 0x00000000FFFFFFFF \<noteq> 0 \<longleftrightarrow> byte_used bits 0 \<or> byte_used bits 1 \<or> byte_used bits 2 \<or> byte_used bits 3"
    by (subst r [of _ 0 4]) (simp_all add: range_masks upt_rec numeral_2_eq_2 numeral_3_eq_3)
  show "bits AND 0x000000000000FFFF \<noteq> 0 \<longleftrightarrow> byte_used bits 0 \<or> byte_used bits 1"
    by (subst r [of _ 0 2]) (simp_all add: range_masks upt_rec)
  show "bits AND 0x00000000000000FF \<noteq> 0 \<longleftrightarrow> byte_used bits 0"
    by (subst r [of _ 0 1]) (simp_all add: range_masks upt_rec)
  show "bits AND 0x0000000000FF0000 \<noteq> 0 \<longleftrightarrow> byte_used bits 2"
    by (subst r [of _ 2 3]) (simp_all add: range_masks upt_rec)
  show "bits AND 0x0000FFFF00000000 \<noteq> 0 \<longleftrightarrow> byte_used bits 4 \<or> byte_used bits 5"
    by (subst r [of _ 4 6]) (simp_all add: range_masks upt_rec)
  show "bits AND 0x000000FF00000000 \<noteq> 0 \<longleftrightarrow> byte_used bits 4"
    by (subst r [of _ 4 5]) (simp_all add: range_masks upt_rec)
  show "bits AND 0x00FF000000000000 \<noteq> 0 \<longleftrightarrow> byte_used bits 6"
    by (subst r [of _ 6 7]) (simp_all add: range_masks upt_rec)
qed


lemma top_byte:
  assumes "bits \<noteq> 0"
  shows "\<exists>k < 8. byte_used bits k \<and> (\<forall>l. k < l \<longrightarrow> \<not> byte_used bits l)"
proof -
  obtain n where "bit bits n" using assms by (auto simp: mask_zero_iff)
  then have u: "byte_used bits (n div 8)" using byte_used_bit by blast
  have b: "\<forall>k. byte_used bits k \<longrightarrow> k \<le> 8" 
    by (auto simp: byte_used_def dest!: bit_chunk_less)
  obtain k where k: "byte_used bits k" "\<forall>l. byte_used bits l \<longrightarrow> l \<le> k"
    using Nat.ex_has_greatest_nat [of "byte_used bits" "n div 8" 8, OF u] b by blast
  moreover have "k < 8" using k(1) by (auto simp: byte_used_def dest!: bit_chunk_less)
  ultimately show ?thesis by (meson not_less)
qed

lemma bottom_byte:
  assumes "bits \<noteq> 0"
  shows "\<exists>k < 8. byte_used bits k \<and> (\<forall>l < k. \<not> byte_used bits l)"
proof -
  obtain n where "bit bits n" using assms by (auto simp: mask_zero_iff)
  then have u: "byte_used bits (n div 8)" using byte_used_bit by blast
  define k where "k = (LEAST k. byte_used bits k)"
  have "byte_used bits k" unfolding k_def by (rule LeastI [of _ "n div 8"]) (rule u)
  moreover from this have "k < 8" by (auto simp: byte_used_def dest!: bit_chunk_less)
  moreover have "\<forall>l < k. \<not> byte_used bits l" unfolding k_def using not_less_Least by blast
  ultimately show ?thesis by blast
qed

lemma RtlFindMostSignificantBit_portable_eq:
  "RtlFindMostSignificantBit_portable bits = RtlFindMostSignificantBit bits"
proof (cases "bits = 0")
  case True
  then show ?thesis by (simp add: RtlFindMostSignificantBit_portable_def no_bits)
next
  case False
  from top_byte [OF this] obtain k where k: "k < 8" "byte_used bits k" "\<forall>l. k < l \<longrightarrow> \<not> byte_used bits l" by blast
  have "\<not> bit bits n" if "8 * k + 8 \<le> n" for n
    using k(3) byte_used_bit [of bits n] that by (metis Suc_le_eq add.commute div_le_mono mult_Suc_right
        nonzero_mult_div_cancel_left zero_neq_numeral)
  then have v: "RtlFindMostSignificantBit bits =
      int (7 - RtlpBitsClearHigh ! unat (ucast (drop_bit (8 * k) bits) :: uchar) + 8 * k)"
    using k(2) by (intro most_significant_byte) (simp_all add: byte_used_def)
  consider "k = 0" | "k = 1" | "k = 2" | "k = 3" | "k = 4" | "k = 5" | "k = 6" | "k = 7" using k(1) by linarith
  then show ?thesis
    using k(2,3) False v unfolding RtlFindMostSignificantBit_portable_def byte_tests Let_def
    by cases simp_all
qed

lemma RtlFindLeastSignificantBit_portable_eq:
  "RtlFindLeastSignificantBit_portable bits = RtlFindLeastSignificantBit bits"
proof (cases "bits = 0")
  case True
  then show ?thesis by (simp add: RtlFindLeastSignificantBit_portable_def no_bits)
next
  case False
  from bottom_byte [OF this] obtain k where k: "k < 8" "byte_used bits k" "\<forall>l < k. \<not> byte_used bits l" by blast
  have "\<not> bit bits n" if "n < 8 * k" for n
  proof -
    have "n div 8 < k" using that by (simp add: less_mult_imp_div_less mult.commute)
    then show ?thesis using k(3) byte_used_bit by blast
  qed
  then have v: "RtlFindLeastSignificantBit bits =
      int (RtlpBitsClearLow ! unat (ucast (drop_bit (8 * k) bits) :: uchar) + 8 * k)"
    using k(2) by (intro least_significant_byte) (simp_all add: byte_used_def)
  consider "k = 0" | "k = 1" | "k = 2" | "k = 3" | "k = 4" | "k = 5" | "k = 6" | "k = 7" using k(1) by linarith
  then show ?thesis
    using k(2,3) False v unfolding RtlFindLeastSignificantBit_portable_def byte_tests Let_def
    by cases simp_all
qed

end
