(* ===== verification/Bitmap_Count.thy ===== *)
theory Bitmap_Count
  imports Bitmap_Scan_Facts
begin

text \<open>
  The count of the set bits of a map.  The parallel count of a chunk is followed byte by byte: a
  chunk is a list of bytes, and each of its steps acts on the bytes one at a time.
\<close>

section \<open>A chunk as a list of bytes\<close>

primrec pack :: "nat list \<Rightarrow> nat" where
  "pack [] = 0"
| "pack (x # xs) = x + 256 * pack xs"

lemma and_low:
  assumes "x < 256" "y < 256"
  shows "(x + 256 * p) AND (y + 256 * q) = (x AND y) + 256 * (p AND q :: nat)"
proof -
  have t: "take_bit 8 (x + 256 * p) = x" "drop_bit 8 (x + 256 * p) = p" if "x < 256" for x p :: nat
    using that by (simp_all add: take_bit_eq_mod drop_bit_eq_div unat_div)
  have "(x + 256 * p) AND (y + 256 * q) =
      push_bit 8 (drop_bit 8 ((x + 256 * p) AND (y + 256 * q))) + take_bit 8 ((x + 256 * p) AND (y + 256 * q))"
    by (simp only: bits_ident)
  then show ?thesis using assms by (simp add: t push_bit_eq_mult)
qed

lemma pack_less: "(\<forall>x \<in> set xs. x < 256) \<Longrightarrow> pack xs < 256 ^ length xs"
proof (induction xs)
  case (Cons x xs)
  then have "Suc (pack xs) \<le> 256 ^ length xs" by simp
  then have "256 * Suc (pack xs) \<le> 256 * 256 ^ length xs" by (rule mult_le_mono2)
  then show ?case using Cons.prems by simp
qed simp

text \<open>A shift to the right and a mask that drops what came from the next byte.\<close>

lemma pack_shift_and:
  assumes "\<forall>x \<in> set xs. x < 256" "c < 2 ^ (8 - s)" "s \<le> 8"
  shows "(pack xs div 2 ^ s) AND pack (replicate (length xs) c) = pack (map (\<lambda>x. (x div 2 ^ s) AND c) xs)"
  using assms(1)
proof (induction xs)
  case (Cons x xs)
  define r where "r = x div 2 ^ s + 2 ^ (8 - s) * (pack xs mod 2 ^ s)"
  have e: "(256 :: nat) = 2 ^ s * 2 ^ (8 - s)" using assms(3) by (simp flip: power_add)
  have xs: "x div 2 ^ s < 2 ^ (8 - s)" using Cons.prems e by (simp add: less_mult_imp_div_less mult.commute)
  have "pack (x # xs) = x + 2 ^ s * (2 ^ (8 - s) * pack xs)" by (simp only: pack.simps e mult.assoc)
  moreover have "(x + 2 ^ s * k) div 2 ^ s = x div 2 ^ s + k" for k by simp
  ultimately have "pack (x # xs) div 2 ^ s = x div 2 ^ s + 2 ^ (8 - s) * pack xs" by (simp only:)
  also have "pack xs = pack xs mod 2 ^ s + 2 ^ s * (pack xs div 2 ^ s)" by simp
  also have "x div 2 ^ s + 2 ^ (8 - s) * (pack xs mod 2 ^ s + 2 ^ s * (pack xs div 2 ^ s)) =
      r + 256 * (pack xs div 2 ^ s)" unfolding r_def e by (simp only: algebra_simps)
  finally have d: "pack (x # xs) div 2 ^ s = r + 256 * (pack xs div 2 ^ s)" .
  have "pack xs mod 2 ^ s < 2 ^ s" by simp
  then have "Suc (pack xs mod 2 ^ s) \<le> 2 ^ s" by (rule Suc_leI)
  then have "2 ^ (8 - s) * Suc (pack xs mod 2 ^ s) \<le> 2 ^ (8 - s) * 2 ^ s" by (rule mult_le_mono2)
  then have r: "r < 256" unfolding r_def e using xs by (simp add: mult.commute)
  have c: "c < 256"
    using assms(2,3) power_increasing [of "8 - s" 8 "2 :: nat"] by simp
  have "r AND c = (x div 2 ^ s) AND c"
  proof -
    have "take_bit (8 - s) c = c" using assms(2) by (simp add: take_bit_nat_eq_self)
    then have "r AND c = take_bit (8 - s) r AND c"
      by (metis and.assoc and.commute take_bit_eq_mask)
    moreover have "take_bit (8 - s) r = x div 2 ^ s" using xs by (simp add: r_def take_bit_eq_mod)
    ultimately show ?thesis by simp
  qed
  then show ?case using Cons d and_low [OF r c] by simp
qed simp

lemma pack_add: "length xs = length ys \<Longrightarrow> pack xs + pack ys = pack (map2 (+) xs ys)"
  by (induction xs ys rule: list_induct2) simp_all

text \<open>The third step: the nibbles of a byte are added in its low nibble, without a carry out of the
  byte.\<close>

lemma pack_nibbles:
  assumes "\<forall>x \<in> set xs. x \<le> 68 \<and> x mod 16 \<le> 4"
  shows "(pack xs + pack xs div 16) AND pack (replicate (length xs) 15) =
    pack (map (\<lambda>x. (x + x div 16) AND 15) xs)"
  using assms
proof (induction xs)
  case (Cons x xs)
  define r where "r = x + x div 16 + 16 * (pack xs mod 16)"
  have m: "pack xs mod 16 \<le> 4" using Cons.prems by (cases xs) (simp_all add: mod_add_eq flip: mod_add_right_eq)
  have "pack (x # xs) div 16 = x div 16 + 16 * pack xs"
  proof -
    have "pack (x # xs) = x + 16 * (16 * pack xs)" by simp
    then show ?thesis by (simp only: div_mult_self2)
  qed
  moreover have "pack xs = pack xs mod 16 + 16 * (pack xs div 16)" by simp
  then have "16 * pack xs = 16 * (pack xs mod 16) + 256 * (pack xs div 16)" by linarith
  ultimately have d: "pack (x # xs) + pack (x # xs) div 16 = r + 256 * (pack xs + pack xs div 16)"
    by (simp only: r_def pack.simps algebra_simps)
  have "x div 16 \<le> 68 div 16" using Cons.prems by (intro div_le_mono) simp
  then have r: "r < 256" using Cons.prems m by (simp add: r_def)
  have "r AND 15 = (x + x div 16) AND 15"
  proof -
    have "z AND 15 = z mod 16" for z :: nat 
      using take_bit_eq_mask [of 4 z] by (simp add: mask_eq_exp_minus_1 take_bit_eq_mod)
    then show ?thesis by (simp add: r_def)
  qed
  note low = this
  have c: "pack (replicate (length (x # xs)) 15) = 15 + 256 * pack (replicate (length xs) 15)" by simp
  have "15 < (256 :: nat)" by simp
  define p where "p = pack xs + pack xs div 16"
  have "p AND pack (replicate (length xs) 15) = pack (map (\<lambda>x. (x + x div 16) AND 15) xs)"
    unfolding p_def using Cons by simp
  moreover from \<open>15 < 256\<close>
  have "(r + 256 * p) AND (15 + 256 * pack (replicate (length xs) 15)) =
      ((x + x div 16) AND 15) + 256 * (p AND pack (replicate (length xs) 15))"
    unfolding low [symmetric] by (rule and_low [OF r])
  ultimately show ?case unfolding d c p_def [symmetric] by simp
qed simp


text \<open>The multiplication: the sum of the eight bytes is the highest byte of the product.\<close>

lemma pack_sum:
  assumes "length xs = 8" "\<forall>x \<in> set xs. x \<le> 8"
  shows "pack xs * pack (replicate 8 1) mod 2 ^ 64 div 2 ^ 56 = sum_list xs"
proof -
  obtain a b c d e f g h where xs: "xs = [a, b, c, d, e, f, g, h]"
    using assms(1) by (auto simp: numeral_eq_Suc length_Suc_conv)
  have le: "a \<le> 8" "b \<le> 8" "c \<le> 8" "d \<le> 8" "e \<le> 8" "f \<le> 8" "g \<le> 8" "h \<le> 8"
    using assms(2) xs by auto
  define low where "low = a + 256 * (a + b) + 256 ^ 2 * (a + b + c) + 256 ^ 3 * (a + b + c + d) +
      256 ^ 4 * (a + b + c + d + e) + 256 ^ 5 * (a + b + c + d + e + f) + 256 ^ 6 * (a + b + c + d + e + f + g)"
  define high where "high = (b + c + d + e + f + g + h) + 256 * (c + d + e + f + g + h) +
      256 ^ 2 * (d + e + f + g + h) + 256 ^ 3 * (e + f + g + h) + 256 ^ 4 * (f + g + h) + 256 ^ 5 * (g + h) +
      256 ^ 6 * h"
  have "replicate 8 (1 :: nat) = [1, 1, 1, 1, 1, 1, 1, 1]" by (simp add: numeral_eq_Suc)
  then have ones: "pack (replicate 8 1) = 72340172838076673" by simp
  have p: "pack xs * pack (replicate 8 1) = (low + 2 ^ 56 * sum_list xs) + 2 ^ 64 * high"
    unfolding ones xs low_def high_def by simp
  have low: "low < 2 ^ 56" using le by (simp add: low_def)
  have sum: "sum_list xs < 2 ^ 8" using le by (simp add: xs)
  have "2 ^ 56 * Suc (sum_list xs) \<le> 2 ^ 56 * 2 ^ 8" using sum by (intro mult_le_mono2) simp
  then have "low + 2 ^ 56 * sum_list xs < 2 ^ 64" using low by simp
  then have "pack xs * pack (replicate 8 1) mod 2 ^ 64 = low + 2 ^ 56 * sum_list xs"
    unfolding p by simp
  then show ?thesis using low by simp
qed


section \<open>The count of a chunk\<close>

text \<open>The number of the first \<open>k\<close> bits from an address that are set.\<close>

definition bits_set :: "memory \<Rightarrow> int \<Rightarrow> nat \<Rightarrow> nat" where
  "bits_set m a k = length (filter (bit_at m a) [0..<k])"

lemma bits_set_0 [simp]: "bits_set m a 0 = 0"
  by (simp add: bits_set_def)

lemma bits_set_add: "bits_set m a (8 * p + k) = bits_set m a (8 * p) + bits_set m (a + int p) k"
proof -
  have "[0..<8 * p + k] = [0..<8 * p] @ map (\<lambda>i. 8 * p + i) [0..<k]"
    using upt_add_eq_append [of 0 "8 * p" k] map_add_upt [of "8 * p" k] by (simp add: add.commute)
  moreover have "bit_at m (a + int p) = (\<lambda>i. bit_at m a (8 * p + i))" by (rule ext) (rule bit_at_shift)
  ultimately show ?thesis by (simp add: bits_set_def filter_map comp_def)
qed

lemma bits_set_bytes: "bits_set m a (8 * n) = sum_list (map (\<lambda>k. bits_set m (a + int k) 8) [0..<n])"
proof (induction n)
  case (Suc n)
  then show ?case using bits_set_add [of m a n 8] by (simp add: add.commute)
qed simp

definition byte_set :: "nat \<Rightarrow> nat" where
  "byte_set b = length (filter (bit b) [0..<8])"

lemma byte_set_bits: "byte_set (unat (m a)) = bits_set m a 8"
proof -
  have "bit (unat (m a)) i = bit_at m a i" if "i < 8" for i
    using that by (simp add: bit_at_def bit_unsigned_iff)
  then show ?thesis unfolding byte_set_def bits_set_def
    by (intro arg_cong [where f = length] filter_cong) auto
qed

lemma RtlpBitsSetTotal_eq: "RtlpBitsSetTotal (m a) = bits_set m a 8"
proof -
  have "bit (NOT (m a)) i \<longleftrightarrow> \<not> bit_at m a i" if "i < 8" for i
    using that by (simp add: bit_at_def bit_not_iff)
  then show ?thesis unfolding RtlpBitsSetTotal_def table_entries total_clear_def bits_set_def
    by (intro arg_cong [where f = length] filter_cong) auto
qed

text \<open>The three steps on a byte, for every byte.\<close>

definition step1 :: "nat \<Rightarrow> nat" where "step1 b = b - ((b div 2) AND 0x55)"
definition step2 :: "nat \<Rightarrow> nat" where "step2 b = (b AND 0x33) + ((b div 4) AND 0x33)"
definition step3 :: "nat \<Rightarrow> nat" where "step3 b = (b + b div 16) AND 15"

lemma byte_steps_int:
  "\<forall>b \<in> set [0..255]. (let b1 = b - ((b div 2) AND 0x55); b2 = (b1 AND 0x33) + ((b1 div 4) AND 0x33)
     in (b div 2) AND 0x55 \<le> b \<and> b2 \<le> 68 \<and> b2 mod 16 \<le> (4 :: int) \<and>
        (b2 + b2 div 16) AND 15 = int (length (filter (bit b) [0..<8])))"
  by code_simp

lemma byte_steps:
  assumes "b < 256"
  shows "(b div 2) AND 0x55 \<le> b" "step2 (step1 b) \<le> 68" "step2 (step1 b) mod 16 \<le> 4"
    "step3 (step2 (step1 b)) = byte_set b"
proof -
  define b1 b2 where "b1 = step1 b" and "b2 = step2 b1"
  have "int b \<in> set [0..255]" using assms by simp
  note i = bspec [OF byte_steps_int this, unfolded Let_def]
  have of: "int (x AND numeral k) = int x AND numeral k" for x k by (simp add: of_nat_and_eq)
  have "int ((b div 2) AND 0x55) \<le> int b" unfolding of zdiv_int using i by simp
  then show l: "(b div 2) AND 0x55 \<le> b" by (simp only: of_nat_le_iff)
  have b1: "int b1 = int b - ((int b div 2) AND 0x55)"
    unfolding b1_def step1_def using l by (simp add: of_nat_diff of zdiv_int)
  have b2: "int b2 = (int b1 AND 0x33) + ((int b1 div 4) AND 0x33)"
    by (simp add: b2_def step2_def of zdiv_int)
  have "int b2 \<le> 68" "int b2 mod 16 \<le> 4"
    and c: "(int b2 + int b2 div 16) AND 15 = int (length (filter (bit (int b)) [0..<8]))"
    using i unfolding b1 [symmetric] b2 [symmetric] by blast+
  moreover from this have "int (b2 mod 16) \<le> int 4" unfolding zmod_int by simp
  then have "b2 mod 16 \<le> 4" by (simp only: of_nat_le_iff)
  ultimately show "step2 (step1 b) \<le> 68" "step2 (step1 b) mod 16 \<le> 4"
    by (simp_all flip: b1_def b2_def)
  have "bit (int b) = bit b" by (rule ext) (simp add: bit_of_nat_iff_bit)
  then have "int (step3 b2) = int (byte_set b)"
    using c by (simp add: step3_def of zdiv_int byte_set_def)
  then show "step3 (step2 (step1 b)) = byte_set b" by (simp flip: b1_def b2_def)
qed


lemma byte_set_le: "byte_set b \<le> 8"
  unfolding byte_set_def by (rule order_trans [OF length_filter_le]) simp

lemma bit_pack:
  assumes "\<forall>x \<in> set xs. x < 256"
  shows "bit (pack xs) n \<longleftrightarrow> n div 8 < length xs \<and> bit (xs ! (n div 8)) (n mod 8)"
  using assms
proof (induction xs arbitrary: n)
  case (Cons x xs)
  have x: "x < 2 ^ 8" using Cons.prems by simp
  show ?case
  proof (cases "n < 8")
    case True
    have "take_bit 8 (pack (x # xs)) = x" using x by (simp add: take_bit_eq_mod)
    then have "bit (pack (x # xs)) n \<longleftrightarrow> bit x n" using True by (metis bit_take_bit_iff)
    then show ?thesis using True by simp
  next
    case False
    have "drop_bit 8 (pack (x # xs)) = pack xs" using x by (simp add: drop_bit_eq_div unat_div)
    then have "bit (pack (x # xs)) (8 + (n - 8)) \<longleftrightarrow> bit (pack xs) (n - 8)" by (metis bit_drop_bit_eq comp_apply)
    moreover have "8 + (n - 8) = n" "n div 8 = Suc ((n - 8) div 8)" "n mod 8 = (n - 8) mod 8"
      using False by (simp_all add: le_div_geq le_mod_geq)
    ultimately show ?thesis using Cons by simp
  qed
qed simp

lemma unat_byte_less: "unat (b :: uchar) < 256"
proof -
  have "unat b < 2 ^ LENGTH(8)" by (rule unsigned_less)
  then show ?thesis by simp
qed

lemma unat_read_chunk: "unat (read_chunk m a) = pack (map (\<lambda>k. unat (m (a + int k))) [0..<8])"
proof (rule bit_eqI)
  fix n
  have u: "unat (m x) < 256" for x by (rule unat_byte_less)
  show "bit (unat (read_chunk m a)) n = bit (pack (map (\<lambda>k. unat (m (a + int k))) [0..<8])) n"
  proof (cases "n < 64")
    case True
    then have "n div 8 < 8" by (simp add: less_mult_imp_div_less)
    then show ?thesis using True u
      by (simp add: bit_pack bit_unsigned_iff bit_read_chunk bit_at_def)
  next
    case False
    then have "\<not> n div 8 < 8" by simp
    moreover have "\<not> bit (read_chunk m a) n" using False by (auto dest: bit_chunk_less)
    ultimately show ?thesis using u by (simp add: bit_pack bit_unsigned_iff)
  qed
qed

lemma masks:
  "pack (replicate 8 0x55) = 0x5555555555555555" "pack (replicate 8 0x33) = 0x3333333333333333"
  "pack (replicate 8 15) = 0x0F0F0F0F0F0F0F0F" "pack (replicate 8 1) = 0x0101010101010101"
proof -
  have "replicate 8 x = [x, x, x, x, x, x, x, x]" for x :: nat by (simp add: numeral_eq_Suc)
  then show "pack (replicate 8 0x55) = 0x5555555555555555" "pack (replicate 8 0x33) = 0x3333333333333333"
    "pack (replicate 8 15) = 0x0F0F0F0F0F0F0F0F" "pack (replicate 8 1) = 0x0101010101010101" by simp_all
qed

lemma pack_le: "(\<forall>x \<in> set xs. x \<le> c) \<Longrightarrow> pack xs \<le> c * pack (replicate (length xs) 1)"
  by (induction xs) (simp_all add: add_mono algebra_simps)

lemma pack_map_add: "pack (map f xs) + pack (map g xs) = pack (map (\<lambda>x. f x + g x) xs)"
  by (induction xs) simp_all

lemma RtlpNumberOfSetBitsInChunk_eq:
  assumes w: "unat w = pack xs" "length xs = 8" "\<forall>x \<in> set xs. x < 256"
  shows "RtlpNumberOfSetBitsInChunk w = of_nat (sum_list (map byte_set xs))"
proof -
  note st = byte_steps [OF w(3) [rule_format]]
  define w1 w2 w3 w4 where "w1 = w - (drop_bit 1 w AND 0x5555555555555555)"
    and "w2 = (w1 AND 0x3333333333333333) + (drop_bit 2 w1 AND 0x3333333333333333)"
    and "w3 = (w2 + drop_bit 4 w2) AND 0x0F0F0F0F0F0F0F0F"
    and "w4 = drop_bit 56 (w3 * 0x0101010101010101)"
  define x1 x2 where "x1 = map step1 xs" and "x2 = map step2 x1"
  have half: "unat (drop_bit 1 w AND 0x5555555555555555) = pack (map (\<lambda>b. (b div 2) AND 0x55) xs)"
    using pack_shift_and [OF w(3), of "0x55" 1] w(1,2) masks(1)
    by (simp add: unsigned_and_eq unat_drop_bit_eq drop_bit_eq_div unat_div)
  have "pack x1 + pack (map (\<lambda>b. (b div 2) AND 0x55) xs) = pack xs"
    unfolding x1_def pack_map_add using st(1) by (intro arg_cong [where f = pack] map_idI) (simp add: step1_def)
  then have "unat w = pack x1 + unat (drop_bit 1 w AND 0x5555555555555555)" by (simp only: half w(1))
  then have u1: "unat w1 = pack x1"
    unfolding w1_def using unat_minus_range [of "drop_bit 1 w AND 0x5555555555555555" w]
    by (simp only: le_add2 diff_add_inverse2)
  have x1: "length x1 = 8" "\<forall>x \<in> set x1. x < 256"
    using w(2,3) by (auto simp: x1_def step1_def intro: le_less_trans [OF diff_le_self])
  have x2: "length x2 = 8" "\<forall>x \<in> set x2. x \<le> 68 \<and> x mod 16 \<le> 4"
    using w(2) st(2,3) by (auto simp: x1_def x2_def)
  have p2: "pack x2 \<le> 4919131752989213764" using pack_le [of x2 68] x2 masks(4) by simp
  have u2: "unat w2 = pack x2"
  proof -
    have "unat (w1 AND 0x3333333333333333) = pack (map (\<lambda>b. b AND 0x33) x1)"
      using pack_shift_and [OF x1(2), of "0x33" 0] u1 x1(1) masks(2) by (simp add: unsigned_and_eq)
    moreover have "unat (drop_bit 2 w1 AND 0x3333333333333333) = pack (map (\<lambda>b. (b div 4) AND 0x33) x1)"
      using pack_shift_and [OF x1(2), of "0x33" 2] u1 x1(1) masks(2)
      by (simp add: unsigned_and_eq unat_drop_bit_eq drop_bit_eq_div unat_div)
    moreover have "pack (map (\<lambda>b. b AND 0x33) x1) + pack (map (\<lambda>b. (b div 4) AND 0x33) x1) = pack x2"
      unfolding x2_def pack_map_add step2_def ..
    ultimately show ?thesis unfolding w2_def using p2 by (subst unat_plus_range) simp_all
  qed
  have u3: "unat w3 = pack (map step3 x2)"
  proof -
    have "unat (w2 + drop_bit 4 w2) = pack x2 + pack x2 div 16"
      using p2 u2 div_le_dividend [of "pack x2" 16]
      by (subst unat_plus_range) (simp_all add: unat_drop_bit_eq drop_bit_eq_div unat_div)
    then show ?thesis
      unfolding w3_def using pack_nibbles [OF x2(2)] x2(1) masks(3)
      by (simp add: unsigned_and_eq step3_def [abs_def])
  qed
  have m3: "map step3 x2 = map byte_set xs" using st(4) by (simp add: x1_def x2_def)
  have "unat w4 = pack (map byte_set xs) * pack (replicate 8 1) mod 2 ^ 64 div 2 ^ 56"
    unfolding w4_def masks(4) by (simp add: unat_drop_bit_eq drop_bit_eq_div unat_div unat_word_ariths u3 m3)
  then have u4: "unat w4 = sum_list (map byte_set xs)"
    using pack_sum [of "map byte_set xs"] w(2) byte_set_le by simp
  have "RtlpNumberOfSetBitsInChunk w = ucast w4"
    by (simp add: RtlpNumberOfSetBitsInChunk_def Let_def w1_def w2_def w3_def w4_def)
  also have "\<dots> = of_nat (unat w4)" by simp
  finally show ?thesis by (simp only: u4)
qed

text \<open>The optimised count of a chunk is the number of its set bits.\<close>

lemma count_read_chunk: "RtlpNumberOfSetBitsInChunk (read_chunk m a) = of_nat (bits_set m a 64)"
proof -
  have "bits_set m a 64 = sum_list (map (\<lambda>k. bits_set m (a + int k) 8) [0..<8])"
    using bits_set_bytes [of m a 8] by simp
  moreover have "unat (m x) < 256" for x by (rule unat_byte_less)
  ultimately show ?thesis
    by (subst RtlpNumberOfSetBitsInChunk_eq [OF unat_read_chunk]) (simp_all add: comp_def byte_set_bits)
qed

section \<open>The count of a map\<close>

declare count_bytes.simps [simp del]
declare count_chunks.simps [simp del]

lemma count_bytes_ok:
  "count_bytes m b pos t = Some (pos + int (unat b), t + of_nat (bits_set m pos (8 * unat b)))"
proof (induction "unat b" arbitrary: b pos t)
  case 0
  then have "b = 0" by (simp add: unat_eq_zero)
  then show ?case by (simp add: count_bytes.simps [of m 0])
next
  case (Suc k)
  have u: "unat (b - 1) = k" using Suc.hyps(2) by (subst unat_minus_range) simp_all
  have "0 < b" using Suc.hyps(2) by (simp add: word_less_nat_alt)
  then have "count_bytes m b pos t = count_bytes m (b - 1) (pos + 1) (t + of_nat (bits_set m pos 8))"
    by (simp add: count_bytes.simps [of m b] RtlpBitsSetTotal_eq)
  also have "\<dots> = Some (pos + 1 + int k, t + of_nat (bits_set m pos 8) + of_nat (bits_set m (pos + 1) (8 * k)))"
    using Suc.hyps(1) [OF u [symmetric]] unfolding u .
  also have "t + of_nat (bits_set m pos 8) + of_nat (bits_set m (pos + 1) (8 * k)) =
      t + of_nat (bits_set m pos (8 * Suc k))"
    using bits_set_add [of m pos 1 "8 * k"] by simp
  finally show ?case unfolding Suc.hyps(2) [symmetric] by simp
qed

lemma count_chunks_ok:
  assumes "unat b = 8 * k"
  shows "count_chunks m b pos t = Some (pos + 8 * int k, t + of_nat (bits_set m pos (64 * k)))"
  using assms
proof (induction k arbitrary: b pos t)
  case 0
  then have "b = 0" by (simp add: unat_eq_zero)
  then show ?case by (simp add: count_chunks.simps [of m 0])
next
  case (Suc k)
  have u: "unat (b - 8) = 8 * k" using Suc.prems by (subst unat_minus_range) simp_all
  have "0 < b" using Suc.prems by (simp add: word_less_nat_alt)
  then have "count_chunks m b pos t = count_chunks m (b - 8) (pos + 8) (t + of_nat (bits_set m pos 64))"
    by (simp add: count_chunks.simps [of m b] count_read_chunk)
  also have "\<dots> = Some (pos + 8 + 8 * int k, t + of_nat (bits_set m pos 64) + of_nat (bits_set m (pos + 8) (64 * k)))"
    by (rule Suc.IH [OF u])
  also have "t + of_nat (bits_set m pos 64) + of_nat (bits_set m (pos + 8) (64 * k)) =
      t + of_nat (bits_set m pos (64 * Suc k))"
    using bits_set_add [of m pos 8 "64 * k"] by simp
  finally show ?case by simp
qed

text \<open>The memory with the unused bits of the last byte cleared.\<close>

definition clear_unused :: "memory \<Rightarrow> RTL_BITMAP \<Rightarrow> memory" where
  "clear_unused m bm =
    (let bits = SizeOfBitMap bm; lastByte = Buffer bm + int (unat ((bits + 7) div 8 - 1))
     in if bits mod 8 \<noteq> 0 then m(lastByte := m lastByte AND FillMask ! unat (bits mod 8)) else m)"

definition bytes_head :: "RTL_BITMAP \<Rightarrow> ulong" where
  "bytes_head bm = word_of_int (- Buffer bm AND 7)"

lemma RtlNumberOfSetBits_count:
  assumes "bytes = (SizeOfBitMap bm + 7) div 8" "tail = (bytes - bytes_head bm) mod 8"
    and "middle = bytes - (bytes_head bm + tail)"
  shows "RtlNumberOfSetBits m bm =
    Some (of_nat (bits_set (clear_unused m bm) (Buffer bm)
                    (8 * (unat (bytes_head bm) + unat middle + unat tail))), clear_unused m bm)"
proof -
  define m' where "m' = clear_unused m bm"
  define h where "h = bytes_head bm"
  have "8 dvd bytes - h - tail"
    unfolding assms(2) h_def by (metis dvd_def minus_mod_eq_mult_div)
  then obtain q where q: "middle = 8 * q" unfolding assms(3) h_def by (auto simp: diff_diff_add)
  have "unat middle mod 8 = 0"
  proof -
    have "unat middle = 8 * unat q mod 2 ^ 32" by (simp add: q unat_word_ariths)
    then show ?thesis by (simp add: mod_mod_cancel mod_mult_mult1 flip: mult_mod_right)
  qed
  then obtain k where k: "unat middle = 8 * k" by (metis mod_0_imp_dvd dvd_def)
  have "RtlNumberOfSetBits m bm =
    (count_bytes m' h (Buffer bm) 0 \<bind> (\<lambda>(pos, totalSet).
     count_chunks m' middle pos totalSet \<bind> (\<lambda>(pos, totalSet).
     count_bytes m' tail pos totalSet \<bind> (\<lambda>(pos, totalSet). Some (totalSet, m')))))"
    unfolding RtlNumberOfSetBits_def Let_def m'_def clear_unused_def h_def bytes_head_def assms by simp
  also have "\<dots> = Some (of_nat (bits_set m' (Buffer bm) (8 * unat h)) +
      of_nat (bits_set m' (Buffer bm + int (unat h)) (64 * k)) +
      of_nat (bits_set m' (Buffer bm + int (unat h) + 8 * int k) (8 * unat tail)), m')"
    by (simp only: count_bytes_ok count_chunks_ok [OF k] bind.bind_lunit prod.case add_0)
  also have "bits_set m' (Buffer bm) (8 * (unat h + unat middle + unat tail)) =
      bits_set m' (Buffer bm) (8 * unat h) + bits_set m' (Buffer bm + int (unat h)) (64 * k) +
      bits_set m' (Buffer bm + int (unat h) + 8 * int k) (8 * unat tail)"
    using bits_set_add [of m' "Buffer bm" "unat h" "64 * k + 8 * unat tail"]
      bits_set_add [of m' "Buffer bm + int (unat h)" "8 * k" "8 * unat tail"] k
    by (simp add: algebra_simps)
  then have "of_nat (bits_set m' (Buffer bm) (8 * unat h)) +
      of_nat (bits_set m' (Buffer bm + int (unat h)) (64 * k)) +
      of_nat (bits_set m' (Buffer bm + int (unat h) + 8 * int k) (8 * unat tail)) =
      (of_nat (bits_set m' (Buffer bm) (8 * (unat h + unat middle + unat tail))) :: ulong)" by simp
  finally show ?thesis by (simp add: m'_def h_def)
qed

text \<open>Within the bytes of the map, exactly the unused bits are cleared.\<close>

lemma bit_at_clear_unused:
  assumes "unat (SizeOfBitMap bm) + 7 < 2 ^ 32" "i < 8 * ((unat (SizeOfBitMap bm) + 7) div 8)"
  shows "bit_at (clear_unused m bm) (Buffer bm) i \<longleftrightarrow> i < unat (SizeOfBitMap bm) \<and> bit_at m (Buffer bm) i"
proof -
  define bits where "bits = unat (SizeOfBitMap bm)"
  have ub: "unat (SizeOfBitMap bm mod 8) = bits mod 8" by (simp add: unat_mod bits_def)
  then have zero: "SizeOfBitMap bm mod 8 = 0 \<longleftrightarrow> bits mod 8 = 0" by (metis unat_0 unat_eq_zero)
  show ?thesis
  proof (cases "bits mod 8 = 0")
    case True
    then have "8 * ((bits + 7) div 8) = bits" by (auto elim!: dvdE simp: mod_eq_0_iff_dvd)
    then show ?thesis using assms(2) True zero by (simp add: clear_unused_def Let_def bits_def)
  next
    case False
    have q: "(bits + 7) div 8 = Suc (bits div 8)" 
    proof -
      obtain q r where "bits div 8 = q" "bits = 8 * q + r" "0 < r" "r < 8"
        using False by (metis div_mult_mod_eq gr_zeroI mod_less_divisor mult.commute zero_less_numeral)
      then show ?thesis by (simp add: div_nat_eqI)
    qed
    have lastByte: "unat ((SizeOfBitMap bm + 7) div 8 - 1) = bits div 8"
    proof -
      have "unat ((SizeOfBitMap bm + 7) div 8) = Suc (bits div 8)"
        using assms(1) q unat_plus_range [of "SizeOfBitMap bm" 7] by (simp add: unat_div bits_def)
      then show ?thesis by (subst unat_minus_range) simp_all
    qed
    have c: "clear_unused m bm = m(Buffer bm + int (bits div 8) :=
        m (Buffer bm + int (bits div 8)) AND FillMask ! (bits mod 8))"
      unfolding clear_unused_def Let_def lastByte ub using False zero by simp
    have b8: "bits mod 8 \<le> 8" by (simp add: less_imp_le)
    show ?thesis
    proof (cases "i div 8 = bits div 8")
      case True
      then have "i < bits \<longleftrightarrow> i mod 8 < bits mod 8"
        using div_mult_mod_eq [of i 8] div_mult_mod_eq [of bits 8] by linarith
      then show ?thesis using True b8
        by (auto simp: bit_at_def c bit_and_iff bit_FillMask bits_def)
    next
      case ne: False
      have "i div 8 < Suc (bits div 8)" using assms(2) unfolding bits_def [symmetric] q by simp
      then have "i div 8 < bits div 8" using ne by simp
      then have "i < bits" by (metis div_le_mono linorder_not_le)
      then show ?thesis using ne by (simp add: bit_at_def c bits_def)
    qed
  qed
qed

lemma bits_set_clear_unused:
  assumes "unat (SizeOfBitMap bm) + 7 < 2 ^ 32"
  shows "bits_set (clear_unused m bm) (Buffer bm) (8 * ((unat (SizeOfBitMap bm) + 7) div 8)) =
    bits_set m (Buffer bm) (unat (SizeOfBitMap bm))"
proof -
  define bits n where "bits = unat (SizeOfBitMap bm)" and "n = 8 * ((bits + 7) div 8)"
  have "bits \<le> n" unfolding n_def by presburger
  then have "[0..<n] = [0..<bits] @ [bits..<n]" using upt_add_eq_append [of 0 bits "n - bits"] by simp
  moreover have "filter (bit_at (clear_unused m bm) (Buffer bm)) [0..<bits] = filter (bit_at m (Buffer bm)) [0..<bits]"
    using \<open>bits \<le> n\<close> bit_at_clear_unused [OF assms] by (intro filter_cong) (auto simp: n_def bits_def)
  moreover have "filter (bit_at (clear_unused m bm) (Buffer bm)) [bits..<n] = []"
    using bit_at_clear_unused [OF assms] by (auto simp: filter_empty_conv n_def bits_def)
  ultimately show ?thesis unfolding bits_set_def bits_def [symmetric] n_def [symmetric] by simp
qed

lemma RtlNumberOfSetBits_ok:
  assumes "unat (SizeOfBitMap bm) + 7 < 2 ^ 32" "unat (bytes_head bm) \<le> (unat (SizeOfBitMap bm) + 7) div 8"
  shows "RtlNumberOfSetBits m bm =
    Some (of_nat (bits_set m (Buffer bm) (unat (SizeOfBitMap bm))), clear_unused m bm)"
proof -
  define bytes h where "bytes = (SizeOfBitMap bm + 7) div 8" and "h = bytes_head bm"
  define tail where "tail = (bytes - h) mod 8"
  have ub: "unat bytes = (unat (SizeOfBitMap bm) + 7) div 8"
    using assms(1) unat_plus_range [of "SizeOfBitMap bm" 7] by (simp add: bytes_def unat_div)
  have d: "unat (bytes - h) = unat bytes - unat h"
    using assms(2) ub by (intro unat_minus_range) (simp add: h_def)
  have t: "unat tail \<le> unat bytes - unat h" using d by (simp add: tail_def unat_mod)
  have ht: "unat (h + tail) = unat h + unat tail"
    using t assms(2) ub unat_ulong_less [of bytes] unfolding h_def [symmetric]
    by (intro unat_plus_range) simp
  have "unat (bytes - (h + tail)) = unat bytes - (unat h + unat tail)"
    using t assms(2) ub ht unfolding h_def [symmetric] by (subst unat_minus_range) simp_all
  then have sum: "unat h + unat (bytes - (h + tail)) + unat tail = unat bytes"
    using t assms(2) ub unfolding h_def [symmetric] by simp
  have "RtlNumberOfSetBits m bm = Some (of_nat (bits_set (clear_unused m bm) (Buffer bm)
      (8 * (unat h + unat (bytes - (h + tail)) + unat tail))), clear_unused m bm)"
    using RtlNumberOfSetBits_count [OF bytes_def _ refl, of tail m] unfolding h_def [symmetric] tail_def by simp
  then show ?thesis unfolding sum ub bits_set_clear_unused [OF assms(1)] .
qed

text \<open>
  A map of at most 24 bits in a buffer at 4 modulo 8: the head is longer than the map, the middle
  wraps, and the count goes over more than \<open>2\<^sup>3\<^sup>2\<close> bytes from the buffer.
\<close>

lemma RtlNumberOfSetBits_overruns:
  "RtlNumberOfSetBits m \<lparr>SizeOfBitMap = 8, Buffer = 4\<rparr> =
    Some (of_nat (bits_set m 4 (8 * 4294967297)), m)"
proof -
  have "bytes_head \<lparr>SizeOfBitMap = 8, Buffer = 4\<rparr> = 4" by (simp add: bytes_head_def)
  moreover have "clear_unused m \<lparr>SizeOfBitMap = 8, Buffer = 4\<rparr> = m" by (simp add: clear_unused_def)
  ultimately show ?thesis
    using RtlNumberOfSetBits_count [OF refl refl refl, of m "\<lparr>SizeOfBitMap = 8, Buffer = 4\<rparr>"] by simp
qed

end
