(* ===== verification/Bitmap_Forward.thy ===== *)
theory Bitmap_Forward
  imports Bitmap_Scan_Facts
begin

text \<open>
  The scans for a run of clear bits: forward it is the first maximal run, and backward from the
  first word of a map the scan can leave the buffer.
\<close>

declare forward_hunks.simps [simp del]
declare backward_hunks.simps [simp del]
declare forward_bits.simps [simp del]
declare backward_bits.simps [simp del]

section \<open>Words and bits\<close>

lemma RtlCheckBit_eq: "RtlCheckBit m bm i = bit_at m (Buffer bm) (unat i)"
proof -
  have "unat (i mod 32) < 32" by (simp add: unat_mod)
  then have "RtlCheckBit m bm i \<longleftrightarrow> bit_at m (Buffer bm + 4 * int (unat (i div 32))) (unat (i mod 32))"
    by (simp add: RtlCheckBit_def and_one_eq odd_iff_mod_2_eq_one [symmetric] bit_read_ulong
        flip: bit_iff_odd_drop_bit)
  also have "\<dots> = bit_at m (Buffer bm) (8 * (4 * unat (i div 32)) + unat (i mod 32))"
    using bit_at_shift [of m "Buffer bm" "4 * unat (i div 32)"] by simp
  also have "8 * (4 * unat (i div 32)) + unat (i mod 32) = unat i"
    by (simp add: unat_div unat_mod)
  finally show ?thesis .
qed

lemma bit_hunk: "j < 32 \<Longrightarrow> bit (hunk m bm (int p)) j = bit_at m (Buffer bm) (32 * p + j)"
  using bit_at_shift [of m "Buffer bm" "4 * p" j] by (simp add: hunk_def bit_read_ulong)

lemma FillMaskUlong_table:
  "\<forall>k \<in> set [0..<33]. FillMaskUlong ! k = mask k"
  by code_simp

lemma bit_FillMaskUlong: "k \<le> 32 \<Longrightarrow> bit (FillMaskUlong ! k) j \<longleftrightarrow> j < k"
  using FillMaskUlong_table by (auto simp: bit_mask_iff)

lemma ulong_all_set: "(w :: ulong) = - 1 \<longleftrightarrow> (\<forall>j < 32. bit w j)"
  by (auto simp: bit_eq_iff dest: bit_imp_le_length)

lemma ulong_all_clear: "(w :: ulong) = 0 \<longleftrightarrow> (\<forall>j < 32. \<not> bit w j)"
  by (auto simp: bit_eq_iff dest: bit_imp_le_length)

text \<open>The bits from \<open>a\<close> to \<open>b - 1\<close> have the value \<open>v\<close>.\<close>

definition all_bits :: "memory \<Rightarrow> RTL_BITMAP \<Rightarrow> bool \<Rightarrow> nat \<Rightarrow> nat \<Rightarrow> bool" where
  "all_bits m bm v a b \<longleftrightarrow> (\<forall>i. a \<le> i \<longrightarrow> i < b \<longrightarrow> bit_at m (Buffer bm) i = v)"

lemma all_bits_trans: "all_bits m bm v a b \<Longrightarrow> all_bits m bm v b c \<Longrightarrow> all_bits m bm v a c"
  by (auto simp: all_bits_def not_less)

lemma in_word:
  "(\<forall>j < 32. k \<le> j \<longrightarrow> P (32 * p + j)) \<longleftrightarrow> (\<forall>i. 32 * p + k \<le> i \<longrightarrow> i < 32 * p + 32 \<longrightarrow> P i)"
  for p k :: nat
proof
  assume l: "\<forall>j < 32. k \<le> j \<longrightarrow> P (32 * p + j)"
  show "\<forall>i. 32 * p + k \<le> i \<longrightarrow> i < 32 * p + 32 \<longrightarrow> P i"
  proof (intro allI impI)
    fix i assume "32 * p + k \<le> i" "i < 32 * p + 32"
    then show "P i" using l [rule_format, of "i - 32 * p"] by simp
  qed
qed simp

text \<open>The word that the forward scan for the value \<open>v\<close> skips.\<close>

definition skip_word :: "bool \<Rightarrow> ulong" where
  "skip_word v = (if v then - 1 else 0)"

lemma hunk_skip: "hunk m bm (int p) = skip_word v \<longleftrightarrow> all_bits m bm v (32 * p) (32 * p + 32)"
proof -
  have "hunk m bm (int p) = skip_word v \<longleftrightarrow> (\<forall>j < 32. bit (hunk m bm (int p)) j = v)"
    by (simp add: skip_word_def ulong_all_set ulong_all_clear)
  also have "\<dots> \<longleftrightarrow> (\<forall>j < 32. bit_at m (Buffer bm) (32 * p + j) = v)" by (auto simp: bit_hunk)
  also have "\<dots> \<longleftrightarrow> all_bits m bm v (32 * p) (32 * p + 32)"
    using in_word [of 0 "\<lambda>i. bit_at m (Buffer bm) i = v" p] by (simp add: all_bits_def)
  finally show ?thesis .
qed

lemma first_word_set:
  fixes i :: ulong
  assumes "unat i div 32 = p"
  shows "hunk m bm (int p) OR FillMaskUlong ! unat (i mod 32) = - 1 \<longleftrightarrow>
    all_bits m bm True (unat i) (32 * p + 32)"
proof -
  have u: "unat (i mod 32) = unat i mod 32" by (simp add: unat_mod)
  have i: "unat i = 32 * p + unat i mod 32" "unat i mod 32 < 32" using assms by auto
  have "hunk m bm (int p) OR FillMaskUlong ! unat (i mod 32) = - 1 \<longleftrightarrow>
      (\<forall>j < 32. unat i mod 32 \<le> j \<longrightarrow> bit_at m (Buffer bm) (32 * p + j))"
    unfolding ulong_all_set u by (auto simp: bit_or_iff bit_hunk bit_FillMaskUlong not_less)
  also have "\<dots> \<longleftrightarrow> all_bits m bm True (unat i) (32 * p + 32)"
    using in_word [of "unat i mod 32" "\<lambda>i. bit_at m (Buffer bm) i = True" p] i(1) by (simp add: all_bits_def)
  finally show ?thesis .
qed

lemma first_word_clear:
  fixes i :: ulong
  assumes "unat i div 32 = p"
  shows "hunk m bm (int p) AND NOT (FillMaskUlong ! unat (i mod 32)) = 0 \<longleftrightarrow>
    all_bits m bm False (unat i) (32 * p + 32)"
proof -
  have u: "unat (i mod 32) = unat i mod 32" by (simp add: unat_mod)
  have i: "unat i = 32 * p + unat i mod 32" "unat i mod 32 < 32" using assms by auto
  have "hunk m bm (int p) AND NOT (FillMaskUlong ! unat (i mod 32)) = 0 \<longleftrightarrow>
      (\<forall>j < 32. unat i mod 32 \<le> j \<longrightarrow> \<not> bit_at m (Buffer bm) (32 * p + j))"
    unfolding ulong_all_clear u by (auto simp: bit_and_iff bit_not_iff bit_hunk bit_FillMaskUlong not_less)
  also have "\<dots> \<longleftrightarrow> all_bits m bm False (unat i) (32 * p + 32)"
    using in_word [of "unat i mod 32" "\<lambda>i. bit_at m (Buffer bm) i = False" p] i(1) by (simp add: all_bits_def)
  finally show ?thesis .
qed

section \<open>The steps of the forward scan\<close>

lemma forward_hunks_ok:
  assumes "unat i = 32 * p" "p \<le> e" "32 * e < 2 ^ 32"
  shows "\<exists>p' i'. forward_hunks m bm (skip_word v) (int e) (int p) i = (int p', i') \<and> unat i' = 32 * p' \<and>
    p \<le> p' \<and> p' \<le> e \<and> all_bits m bm v (32 * p) (32 * p') \<and>
    (p' \<noteq> e \<longrightarrow> \<not> all_bits m bm v (32 * p') (32 * p' + 32))"
  using assms(1,2)
proof (induction "e - p" arbitrary: p i)
  case 0
  then have "forward_hunks m bm (skip_word v) (int e) (int p) i = (int p, i)"
    by (simp add: forward_hunks.simps)
  then show ?case using 0 by (intro exI [of _ p] exI [of _ i]) (simp add: all_bits_def)
next
  case (Suc d)
  note step = forward_hunks.simps [of m bm "skip_word v" "int e" "int p" i]
  show ?case
  proof (cases "all_bits m bm v (32 * p) (32 * p + 32)")
    case True
    have u: "unat (i + 32) = 32 * Suc p"
      using Suc.prems Suc.hyps(2) assms(3) by (subst unat_plus_range) simp_all
    have "d = e - Suc p" "Suc p \<le> e" using Suc.hyps(2) by auto
    from Suc.hyps(1) [OF this(1) u this(2)]
    obtain p' i' where r: "forward_hunks m bm (skip_word v) (int e) (int (Suc p)) (i + 32) = (int p', i')"
      "unat i' = 32 * p'" "Suc p \<le> p'" "p' \<le> e" "all_bits m bm v (32 * Suc p) (32 * p')"
      "p' \<noteq> e \<longrightarrow> \<not> all_bits m bm v (32 * p') (32 * p' + 32)" by blast
    have "32 * Suc p = 32 * p + 32" by simp
    then have "all_bits m bm v (32 * p) (32 * p')" using all_bits_trans [OF True] r(5) by metis
    moreover have "forward_hunks m bm (skip_word v) (int e) (int p) i = (int p', i')"
      using step True hunk_skip [of m bm p v] \<open>Suc p \<le> e\<close> r(1) by (simp add: add.commute)
    ultimately show ?thesis using r by (intro exI [of _ p'] exI [of _ i']) simp
  next
    case False
    then have "forward_hunks m bm (skip_word v) (int e) (int p) i = (int p, i)"
      using step hunk_skip by simp
    then show ?thesis using Suc.prems False by (intro exI [of _ p] exI [of _ i]) (simp add: all_bits_def)
  qed
qed

lemma forward_bits_ok:
  assumes "unat i \<le> unat (SizeOfBitMap bm)"
  shows "unat i \<le> unat (forward_bits m bm v i) \<and> unat (forward_bits m bm v i) \<le> unat (SizeOfBitMap bm) \<and>
    all_bits m bm v (unat i) (unat (forward_bits m bm v i)) \<and>
    (unat (forward_bits m bm v i) < unat (SizeOfBitMap bm) \<longrightarrow>
       bit_at m (Buffer bm) (unat (forward_bits m bm v i)) \<noteq> v)"
  using assms
proof (induction m bm v i rule: forward_bits.induct)
  case (1 m bm v i)
  note step = forward_bits.simps [of m bm v i]
  show ?case
  proof (cases "i < SizeOfBitMap bm \<and> RtlCheckBit m bm i = v")
    case True
    then have l: "unat i < unat (SizeOfBitMap bm)" and b: "bit_at m (Buffer bm) (unat i) = v"
      by (simp_all add: word_less_nat_alt RtlCheckBit_eq)
    have u: "unat (i + 1) = unat i + 1"
      using l unat_ulong_less [of "SizeOfBitMap bm"] by (subst unat_plus_range) simp_all
    have "all_bits m bm v (unat i) (unat i + 1)" using b by (auto simp: all_bits_def less_Suc_eq_le)
    then show ?thesis using "1.IH" [OF True] u l True step
      by (auto simp: all_bits_trans [of m bm v "unat i" "unat i + 1"])
  next
    case False
    then show ?thesis using step "1.prems"
      by (auto simp: all_bits_def word_less_nat_alt RtlCheckBit_eq)
  qed
qed

lemma forward_scan_ok:
  assumes bits: "bits = unat (SizeOfBitMap bm)" "0 < bits" and e: "e = (bits - 1) div 32"
    and i: "unat i \<le> bits" "p \<le> e" "p \<noteq> e \<Longrightarrow> unat i div 32 = p"
    and step: "step = (if p \<noteq> e \<and> all_bits m bm v (unat i) (32 * p + 32)
        then forward_hunks m bm (skip_word v) (int e) (int p + 1) (i + (32 - i mod 32)) else (int p, i))"
  shows "\<exists>q j. step = (int q, j) \<and> q \<le> e \<and>
    (let r = forward_bits m bm v j in
      unat i \<le> unat r \<and> unat r \<le> bits \<and> all_bits m bm v (unat i) (unat r) \<and>
      (unat r < bits \<longrightarrow> bit_at m (Buffer bm) (unat r) \<noteq> v) \<and> (q \<noteq> e \<longrightarrow> unat r div 32 = q))"
proof -
  have e32: "32 * e < bits" using bits(2) e by simp
  have b32: "bits < 2 ^ 32" using bits(1) unat_ulong_less [of "SizeOfBitMap bm"] by simp
  have stop: "unat r div 32 = q"
    if "\<not> all_bits m bm v a (32 * q + 32)" "all_bits m bm v a (unat r)" "32 * q \<le> unat r" for q a and r :: ulong
  proof -
    have "unat r < 32 * q + 32"
    proof (rule ccontr)
      assume "\<not> ?thesis"
      then have "all_bits m bm v a (32 * q + 32)" using that(2) by (auto simp: all_bits_def)
      then show False using that(1) by simp
    qed
    then show ?thesis using that(3) by simp
  qed
  show ?thesis
  proof (cases "p \<noteq> e \<and> all_bits m bm v (unat i) (32 * p + 32)")
    case True
    then have ip: "unat i div 32 = p" using i(3) by simp
    then have im: "unat i = 32 * p + unat i mod 32" by auto
    have pe: "32 * Suc p \<le> 32 * e" using True i(2) by simp
    have u: "unat (i + (32 - i mod 32)) = 32 * Suc p"
    proof -
      have "unat (32 - i mod 32) = 32 - unat i mod 32"
        by (subst unat_minus_range) (simp_all add: unat_mod less_imp_le)
      moreover have "x + (32 - r) = 32 * Suc p" if "x = 32 * p + r" "r < 32" for x r using that by simp
      from this [OF im] have "unat i + (32 - unat i mod 32) = 32 * Suc p" by simp
      ultimately show ?thesis using pe e32 b32 by (subst unat_plus_range) simp_all
    qed
    have "Suc p \<le> e" using pe by simp
    from forward_hunks_ok [OF u this, of m bm v]
    obtain q j where q: "forward_hunks m bm (skip_word v) (int e) (int (Suc p)) (i + (32 - i mod 32)) = (int q, j)"
      "unat j = 32 * q" "Suc p \<le> q" "q \<le> e" "all_bits m bm v (32 * Suc p) (32 * q)"
      "q \<noteq> e \<longrightarrow> \<not> all_bits m bm v (32 * q) (32 * q + 32)"
      using e32 b32 by auto
    have "32 * Suc p = 32 * p + 32" by simp
    then have all: "all_bits m bm v (unat i) (32 * q)" using all_bits_trans True q(5) by metis
    have jb: "unat j \<le> unat (SizeOfBitMap bm)" using q(2,4) e32 bits(1) by simp
    note f = forward_bits_ok [OF jb, of m v]
    have "step = (int q, j)" using step True q(1) by (simp add: add.commute)
    moreover have "unat i \<le> unat j" using q(2,3) ip by auto
    moreover have "all_bits m bm v (unat i) (unat (forward_bits m bm v j))"
      using all f q(2) by (metis all_bits_trans)
    moreover have "q \<noteq> e \<longrightarrow> unat (forward_bits m bm v j) div 32 = q"
      using stop [of "32 * q" q "forward_bits m bm v j"] f q(2,6) by auto
    ultimately show ?thesis using f q(4) bits(1)
      by (intro exI [of _ q] exI [of _ j]) (auto simp: Let_def)
  next
    case False
    have ib: "unat i \<le> unat (SizeOfBitMap bm)" using i(1) bits(1) by simp
    note f = forward_bits_ok [OF ib, of m v]
    have "p \<noteq> e \<longrightarrow> unat (forward_bits m bm v i) div 32 = p"
    proof
      assume "p \<noteq> e"
      then have "\<not> all_bits m bm v (unat i) (32 * p + 32)" "32 * p \<le> unat i" using False i(3) by auto
      then show "unat (forward_bits m bm v i) div 32 = p"
        using stop [of "unat i" p "forward_bits m bm v i"] f by auto
    qed
    then show ?thesis using step False f i(2) bits(1)
      by (intro exI [of _ p] exI [of _ i]) (simp add: Let_def)
  qed
qed

text \<open>
  The forward scan returns the first clear bit at or after the index, or the size of the map, and
  the length of the run of clear bits there, up to the next set bit or the end of the map.
\<close>

lemma RtlFindNextForwardRunClear_ok:
  assumes "fromIndex < SizeOfBitMap bm" "RtlFindNextForwardRunClear m bm fromIndex = (len, start)"
  shows "unat fromIndex \<le> unat start \<and> unat start + unat len \<le> unat (SizeOfBitMap bm) \<and>
    all_bits m bm True (unat fromIndex) (unat start) \<and>
    all_bits m bm False (unat start) (unat start + unat len) \<and>
    (unat start < unat (SizeOfBitMap bm) \<longrightarrow> 0 < unat len) \<and>
    (unat start + unat len < unat (SizeOfBitMap bm) \<longrightarrow> bit_at m (Buffer bm) (unat start + unat len))"
proof -
  define bits e p where "bits = unat (SizeOfBitMap bm)" and "e = (bits - 1) div 32" and "p = unat fromIndex div 32"
  have fb: "unat fromIndex < bits" using assms(1) by (simp add: bits_def word_less_nat_alt)
  have b0: "0 < bits" "SizeOfBitMap bm \<noteq> 0" using fb by (auto simp: bits_def)
  have ue: "unat ((SizeOfBitMap bm - 1) div 32) = e"
  proof -
    have "unat (SizeOfBitMap bm - 1) = bits - 1"
      using b0(1) unfolding bits_def by (subst unat_minus_range) (simp_all add: Suc_le_eq)
    then show ?thesis by (simp add: unat_div e_def)
  qed
  have up: "unat (fromIndex div 32) = p" by (simp add: p_def unat_div)
  have pe: "p \<le> e" using fb unfolding p_def e_def by (intro div_le_mono) simp
  define step1 where "step1 = (if p \<noteq> e \<and> all_bits m bm True (unat fromIndex) (32 * p + 32)
    then forward_hunks m bm (skip_word True) (int e) (int p + 1) (fromIndex + (32 - fromIndex mod 32))
    else (int p, fromIndex))"
  from forward_scan_ok [OF bits_def b0(1) e_def less_imp_le [OF fb] pe _ step1_def]
  obtain q j where q: "step1 = (int q, j)" "q \<le> e" and
    s: "let r = forward_bits m bm True j in unat fromIndex \<le> unat r \<and> unat r \<le> bits \<and>
      all_bits m bm True (unat fromIndex) (unat r) \<and>
      (unat r < bits \<longrightarrow> bit_at m (Buffer bm) (unat r) \<noteq> True) \<and> (q \<noteq> e \<longrightarrow> unat r div 32 = q)"
    by (auto simp: p_def)
  define a where "a = forward_bits m bm True j"
  have a: "unat fromIndex \<le> unat a" "unat a \<le> bits" "all_bits m bm True (unat fromIndex) (unat a)"
    "unat a < bits \<longrightarrow> \<not> bit_at m (Buffer bm) (unat a)" "q \<noteq> e \<Longrightarrow> unat a div 32 = q"
    using s unfolding Let_def a_def [symmetric] by auto
  define step2 where "step2 = (if q \<noteq> e \<and> all_bits m bm False (unat a) (32 * q + 32)
    then forward_hunks m bm (skip_word False) (int e) (int q + 1) (a + (32 - a mod 32))
    else (int q, a))"
  from forward_scan_ok [OF bits_def b0(1) e_def a(2) q(2) a(5) step2_def]
  obtain q' j' where q': "step2 = (int q', j')" and
    s': "let r = forward_bits m bm False j' in unat a \<le> unat r \<and> unat r \<le> bits \<and>
      all_bits m bm False (unat a) (unat r) \<and>
      (unat r < bits \<longrightarrow> bit_at m (Buffer bm) (unat r) \<noteq> False) \<and> (q' \<noteq> e \<longrightarrow> unat r div 32 = q')"
    by auto
  define b where "b = forward_bits m bm False j'"
  have b: "unat a \<le> unat b" "unat b \<le> bits" "all_bits m bm False (unat a) (unat b)"
    "unat b < bits \<longrightarrow> bit_at m (Buffer bm) (unat b)"
    using s' unfolding Let_def b_def [symmetric] by auto
  have e1: "(if int p \<noteq> int e \<and> hunk m bm (int p) OR FillMaskUlong ! unat (fromIndex mod 32) = - 1
      then forward_hunks m bm (- 1) (int e) (int p + 1) (fromIndex + (32 - fromIndex mod 32))
      else (int p, fromIndex)) = step1"
    unfolding step1_def using first_word_set [OF p_def [symmetric], of m bm] by (simp add: skip_word_def)
  have e2: "(if int q \<noteq> int e \<and> hunk m bm (int q) AND NOT (FillMaskUlong ! unat (a mod 32)) = 0
      then forward_hunks m bm 0 (int e) (int q + 1) (a + (32 - a mod 32)) else (int q, a)) = step2"
    unfolding step2_def using first_word_clear [OF a(5), of m bm] by (auto simp: skip_word_def)
  have "RtlFindNextForwardRunClear m bm fromIndex = (b - a, a)"
    unfolding RtlFindNextForwardRunClear_def Let_def ue up e1 q(1) prod.case a_def [symmetric] e2 q'
      b_def [symmetric] using b0(2) by simp
  then have "start = a" "len = b - a" using assms(2) by simp_all
  moreover have "unat (b - a) = unat b - unat a" using b(1) by (rule unat_minus_range)
  moreover have "unat a < bits \<longrightarrow> unat a < unat b"
    using a(4) b(1,4) by (metis le_neq_implies_less)
  ultimately show ?thesis using a b unfolding bits_def by simp
qed

section \<open>The backward scan\<close>

lemma backward_bits_ok:
  assumes "i \<noteq> - 1"
  shows "(backward_bits m bm v i = - 1 \<and> all_bits m bm v 0 (Suc (unat i))) \<or>
    (backward_bits m bm v i \<noteq> - 1 \<and> unat (backward_bits m bm v i) \<le> unat i \<and>
     bit_at m (Buffer bm) (unat (backward_bits m bm v i)) \<noteq> v \<and>
     all_bits m bm v (Suc (unat (backward_bits m bm v i))) (Suc (unat i)))"
  using assms
proof (induction m bm v i rule: backward_bits.induct)
  case (1 m bm v i)
  note step = backward_bits.simps [of m bm v i]
  show ?case
  proof (cases "bit_at m (Buffer bm) (unat i) = v")
    case False
    then show ?thesis using step "1.prems" by (simp add: RtlCheckBit_eq all_bits_def)
  next
    case True
    then have c: "i \<noteq> - 1 \<and> RtlCheckBit m bm i = v" using "1.prems" by (simp add: RtlCheckBit_eq)
    then have eq: "backward_bits m bm v i = backward_bits m bm v (i - 1)" using step by simp
    show ?thesis
    proof (cases "i = 0")
      case zero: True
      have "backward_bits m bm v (- 1) = - 1" by (simp add: backward_bits.simps)
      then show ?thesis using eq zero True by (simp add: all_bits_def)
    next
      case False
      then have u: "Suc (unat (i - 1)) = unat i"
        by (subst unat_minus_range) (simp_all add: unat_gt_0 Suc_le_eq)
      have "i - 1 \<noteq> - 1" using False by simp
      note ih = "1.IH" [OF c this, folded eq, unfolded u]
      have last: "all_bits m bm v (unat i) (Suc (unat i))" using True by (auto simp: all_bits_def less_Suc_eq_le)
      have le: "unat (i - 1) \<le> unat i" using u by simp
      from ih show ?thesis
      proof (elim disjE conjE)
        assume "backward_bits m bm v i = - 1" "all_bits m bm v 0 (unat i)"
        then show ?thesis using all_bits_trans [OF _ last] by blast
      next
        assume a: "backward_bits m bm v i \<noteq> - 1" "unat (backward_bits m bm v i) \<le> unat (i - 1)"
          "bit_at m (Buffer bm) (unat (backward_bits m bm v i)) \<noteq> v"
          "all_bits m bm v (Suc (unat (backward_bits m bm v i))) (unat i)"
        then show ?thesis using all_bits_trans [OF a(4) last] le by (meson le_trans)
      qed
    qed
  qed
qed

text \<open>
  All of the bits up to the index are set, in the first word of the map: the pointer is moved
  before the buffer, and when the word there is clear the scan goes on from bit
  \<open>2\<^sup>3\<^sup>2 - 33\<close>.  Here it reports a run of 4294967264 clear bits that begins at the end of a map of
  32 bits, all of them set.
\<close>

definition set_word :: memory where
  "set_word = (\<lambda>x. if 0 \<le> x \<and> x < 4 then 0xFF else 0)"

lemma RtlFindLastBackwardRunClear_overruns:
  "RtlFindLastBackwardRunClear set_word \<lparr>SizeOfBitMap = 32, Buffer = 0\<rparr> 5 = (4294967264, 32)"
proof -
  let ?bm = "\<lparr>SizeOfBitMap = 32, Buffer = 0\<rparr>"
  have bits: "bit_at set_word 0 i \<longleftrightarrow> i < 32" for i
  proof -
    have ff: "bit (0xFF :: uchar) j" if "j < 8" for j
      using bit_FillMask [of 8 j] that by (simp add: FillMask_def)
    have "i div 8 < 4 \<longleftrightarrow> i < 32" by auto
    then show ?thesis using ff [of "i mod 8"] by (simp add: bit_at_def set_word_def)
  qed
  define s where "s = backward_bits set_word ?bm False (- 33)"
  have neq: "(- 33 :: ulong) \<noteq> - 1" by simp
  have u33: "unat (- 33 :: ulong) = 4294967263" by simp
  have "s = 31"
  proof -
    have "\<not> all_bits set_word ?bm False 0 (Suc 4294967263)"
      using bits [of 0] by (auto simp: all_bits_def intro!: exI [of _ 0])
    then have s: "bit_at set_word 0 (unat s)" "all_bits set_word ?bm False (Suc (unat s)) (Suc 4294967263)"
      using backward_bits_ok [OF neq, of set_word ?bm False] u33 by (auto simp: s_def)
    have "\<not> unat s < 31" using s(2) bits [of 31] by (auto simp: all_bits_def)
    then have "unat s = 31" using s(1) bits [of "unat s"] by simp
    then show ?thesis by (simp add: word_unat_eq_iff)
  qed
  have h0: "hunk set_word ?bm 0 = - 1"
    using bit_hunk [of _ set_word ?bm 0] bits by (simp add: ulong_all_set)
  have hm: "hunk set_word ?bm (- 1) = 0" by (simp add: hunk_def read_ulong_def set_word_def)
  have "backward_hunks set_word ?bm x (- 1) y = (- 1, y)" "backward_hunks set_word ?bm x (- 2) y = (- 2, y)" for x y
    by (simp_all add: backward_hunks.simps)
  moreover have "backward_bits set_word ?bm True (- 1) = - 1" by (simp add: backward_bits.simps)
  ultimately show ?thesis
    using \<open>s = 31\<close> h0 hm
    by (simp add: RtlFindLastBackwardRunClear_def Let_def s_def)
qed

end
