(* ===== verification/Bitmap_Theorems.thy ===== *)
theory Bitmap_Theorems
  imports Bitmap_Find Bitmap_Count Bitmap_Forward
begin

text \<open>The properties of the bitmap package.\<close>

section \<open>What an allocation does\<close>

lemma invalid_index: "(0xffffffff :: ulong) = RTL_INVALID_INDEX"
  by (simp add: word_unat_eq_iff unsigned_minus_1_eq_mask mask_eq_exp_minus_1)

lemma circular_first_fit_fits:
  assumes "circular_first_fit v m bm n h = Some i"
  shows "run_fits v m bm n (unat (SizeOfBitMap bm)) i"
  using assms by (auto simp: circular_first_fit_def find_Some_iff)

lemma run_fits_bit:
  assumes "run_fits v m bm n hi r" "r \<le> i" "i < r + n"
  shows "bit_at m (Buffer bm) i = v"
proof -
  have "i - r < n" "r + (i - r) = i" using assms(2,3) by auto
  then show ?thesis using assms(1) by (metis run_fits_def)
qed

lemma index_or_invalid_found:
  assumes "index_or_invalid x = r" "r \<noteq> RTL_INVALID_INDEX" "\<And>i. x = Some i \<Longrightarrow> i < 2 ^ 32"
  shows "x = Some (unat r)"
  using assms by (cases x) (auto simp: index_or_invalid_def unat_of_nat_range)

text \<open>A run that the search returns is in the map, and every bit of it has the wanted value.\<close>

lemma find_bits_run:
  assumes "find_bits v m bm number hint = Some r" "r \<noteq> RTL_INVALID_INDEX" "number \<noteq> 0"
    "unat (SizeOfBitMap bm) < 2 ^ 31"
  shows "run_fits v m bm (unat number) (unat (SizeOfBitMap bm)) (unat r)"
proof -
  define x where "x = circular_first_fit v m bm (unat number)
            (if hint < SizeOfBitMap bm then unat hint else 0)"
  have "index_or_invalid x = r" using find_bits_ok [OF assms(3,4), of v m hint] assms(1) by (simp add: x_def)
  moreover have "i < 2 ^ 32" if "x = Some i" for i
    using circular_first_fit_fits [OF that [unfolded x_def]] assms(4) by (simp add: run_fits_def)
  ultimately have "x = Some (unat r)" using assms(2) by (intro index_or_invalid_found)
  then show ?thesis unfolding x_def by (rule circular_first_fit_fits)
qed

lemma RtlFindClearBitsAndSet_run:
  assumes "RtlFindClearBitsAndSet m bm number hint = Some (r, m')" "r \<noteq> RTL_INVALID_INDEX" "number \<noteq> 0"
    "unat (SizeOfBitMap bm) < 2 ^ 31"
  shows "run_fits False m bm (unat number) (unat (SizeOfBitMap bm)) (unat r)"
    and "bits_assigned True (Buffer bm) (int (unat r)) (int (unat r + unat number)) m m'"
    and "m' = RtlSetBits m bm r number"
proof -
  have f: "find_bits False m bm number hint = Some r" and m': "m' = RtlSetBits m bm r number"
    using assms(1,2) by (auto simp: RtlFindClearBitsAndSet_def RtlFindClearBits_def bind_eq_Some_conv
        split: if_splits)
  show fits: "run_fits False m bm (unat number) (unat (SizeOfBitMap bm)) (unat r)"
    by (rule find_bits_run [OF f assms(2-4)])
  have "unat r + unat number < 2 ^ 32" using fits assms(4) by (simp add: run_fits_def)
  then show "bits_assigned True (Buffer bm) (int (unat r)) (int (unat r + unat number)) m m'"
    unfolding m' by (rule set_range.assigns_range)
  show "m' = RtlSetBits m bm r number" by (rule m')
qed

text \<open>
  Clearing what was set over clear bits gives back the memory.
\<close>

lemma bits_assigned_undo:
  assumes "bits_assigned v base (int lo) (int hi) m m1" "bits_assigned (\<not> v) base (int lo) (int hi) m1 m2"
    and "\<And>i. lo \<le> i \<Longrightarrow> i < hi \<Longrightarrow> bit_at m base i = (\<not> v)"
  shows "m2 = m"
proof (rule ext, rule bit_word_eqI)
  fix x :: int and j :: nat
  assume j: "j < LENGTH(8)"
  define i where "i = 8 * (x - base) + int j"
  show "bit (m2 x) j = bit (m x) j"
  proof (cases "int lo \<le> i \<and> i < int hi")
    case True
    then have "0 \<le> x - base" using j by (simp add: i_def)
    then obtain q where q: "x - base = int q" using nonneg_int_cases by blast
    then have "nat i = 8 * q + j" by (simp add: i_def nat_add_distrib nat_mult_distrib)
    then have "base + int (nat i div 8) = x" "nat i mod 8 = j" using j q by simp_all
    moreover have "lo \<le> nat i" "nat i < hi" using True by linarith+
    ultimately have "bit (m x) j = (\<not> v)" using assms(3) [of "nat i"] by (simp add: bit_at_def)
    then show ?thesis using assms(2) j True by (auto simp: bits_assigned_def Let_def i_def)
  next
    case False
    then show ?thesis using assms(1,2) j by (auto simp: bits_assigned_def Let_def i_def)
  qed
qed

section \<open>The properties\<close>

text \<open>
  C36: \<^const>\<open>RtlFindClearBits\<close>, with its four search strategies on 64-bit chunks, its masks, and
  the buffer aligned down to a chunk, is first fit: it returns, and the result is the first
  index, from the hint to the end of the map and then from its beginning to the hint, at which
  the wanted number of clear bits follow one another inside the map; \<^verbatim>\<open>0xFFFFFFFF\<close> when there is
  none.  For maps of fewer than \<open>2\<^sup>3\<^sup>1\<close> bits (the sum of the hint and the number to find is a
  \<^verbatim>\<open>ULONG\<close>).
\<close>

theorem RtlFindClearBits_first_fit:
  assumes "number \<noteq> 0" "unat (SizeOfBitMap bm) < 2 ^ 31"
  shows "RtlFindClearBits m bm number hint =
    Some (index_or_invalid (circular_first_fit False m bm (unat number)
            (if hint < SizeOfBitMap bm then unat hint else 0)))"
  unfolding RtlFindClearBits_def by (rule find_bits_ok [OF assms])

text \<open>
  C37: Two allocations never overlap.  When \<^const>\<open>RtlFindClearBitsAndSet\<close> has returned a run,
  and is called again on the memory it left, whatever the sizes and the hints, the second run
  lies entirely before or entirely after the first, and both are inside the map.
\<close>

theorem allocations_disjoint:
  assumes "RtlFindClearBitsAndSet m bm number1 hint1 = Some (r1, m1)" "r1 \<noteq> 0xffffffff" "number1 \<noteq> 0"
    and "RtlFindClearBitsAndSet m1 bm number2 hint2 = Some (r2, m2)" "r2 \<noteq> 0xffffffff" "number2 \<noteq> 0"
    and "unat (SizeOfBitMap bm) < 2 ^ 31"
  shows "unat r1 + unat number1 \<le> unat (SizeOfBitMap bm) \<and> unat r2 + unat number2 \<le> unat (SizeOfBitMap bm) \<and>
    (unat r1 + unat number1 \<le> unat r2 \<or> unat r2 + unat number2 \<le> unat r1)"
proof -
  have inv: "r1 \<noteq> RTL_INVALID_INDEX" "r2 \<noteq> RTL_INVALID_INDEX" using assms(2,5) unfolding invalid_index by simp_all
  note a = RtlFindClearBitsAndSet_run [OF assms(1) inv(1) assms(3,7)]
  note b = RtlFindClearBitsAndSet_run [OF assms(4) inv(2) assms(6,7)]
  have set1: "bit_at m1 (Buffer bm) i" if "unat r1 \<le> i" "i < unat r1 + unat number1" for i
    using bits_assigned_bit_at [OF a(2), of i] that by simp
  have clear1: "\<not> bit_at m1 (Buffer bm) i" if "unat r2 \<le> i" "i < unat r2 + unat number2" for i
    using run_fits_bit [OF b(1) that] by simp
  have "unat r1 + unat number1 \<le> unat r2 \<or> unat r2 + unat number2 \<le> unat r1"
  proof (rule ccontr)
    assume "\<not> ?thesis"
    then have "max (unat r1) (unat r2) < unat r1 + unat number1" "max (unat r1) (unat r2) < unat r2 + unat number2"
      using assms(3,6) by (auto simp: max_def unat_gt_0)
    then show False using set1 [of "max (unat r1) (unat r2)"] clear1 [of "max (unat r1) (unat r2)"] by simp
  qed
  then show ?thesis using a(1) b(1) by (simp add: run_fits_def)
qed

text \<open>
  C38: Freeing what was allocated restores the memory, byte for byte: \<^const>\<open>RtlClearBits\<close> of the
  run that \<^const>\<open>RtlFindClearBitsAndSet\<close> returned gives the memory before the allocation, so the
  two touch no bit outside the run.
\<close>

theorem free_restores:
  assumes "RtlFindClearBitsAndSet m bm number hint = Some (r, m')" "r \<noteq> 0xffffffff" "number \<noteq> 0"
    and "unat (SizeOfBitMap bm) < 2 ^ 31"
  shows "RtlClearBits m' bm r number = m"
proof -
  have "r \<noteq> RTL_INVALID_INDEX" using assms(2) unfolding invalid_index .
  note a = RtlFindClearBitsAndSet_run [OF assms(1) this assms(3,4)]
  have "unat r + unat number < 2 ^ 32" using a(1) assms(4) by (simp add: run_fits_def)
  from clear_range.assigns_range [OF this]
  have "bits_assigned (\<not> True) (Buffer bm) (int (unat r)) (int (unat r + unat number)) m' (RtlClearBits m' bm r number)"
    by simp
  then show ?thesis by (rule bits_assigned_undo [OF a(2)]) (use run_fits_bit [OF a(1)] in simp)
qed

text \<open>
  C39: \<^const>\<open>RtlNumberOfSetBits\<close> returns the number of set bits of the map, whatever the
  alignment of its buffer: the bytes before the first whole chunk and after the last go through
  the table of byte counts, and the chunks between through the parallel count of two-, four- and
  eight-bit fields and the multiplication that adds the bytes.  The memory changes only in the
  unused bits of the last byte, which are cleared.  The hypothesis on \<^const>\<open>bytes_head\<close> is needed:
  the buffer must not end before the first aligned chunk.
\<close>

theorem RtlNumberOfSetBits_counts:
  assumes "unat (SizeOfBitMap bm) + 7 < 2 ^ 32"
    and "unat (bytes_head bm) \<le> (unat (SizeOfBitMap bm) + 7) div 8"
  shows "RtlNumberOfSetBits m bm =
    Some (of_nat (bits_set m (Buffer bm) (unat (SizeOfBitMap bm))), clear_unused m bm)"
  by (rule RtlNumberOfSetBits_ok [OF assms])

section \<open>The hypotheses hold\<close>

text \<open>A map of 200 bits in a buffer that is not aligned to a chunk, all clear but bits 3 and 70.\<close>

definition example_memory :: memory where
  "example_memory = (\<lambda>x. if x = 100 then 8 else if x = 108 then 64 else 0)"

definition example_map :: RTL_BITMAP where
  "example_map = \<lparr>SizeOfBitMap = 200, Buffer = 100\<rparr>"

lemma example_small: "unat (SizeOfBitMap example_map) < 2 ^ 31"
  by (simp add: example_map_def)


definition example_memory1 :: memory where
  "example_memory1 = RtlSetBits example_memory example_map 4 5"

lemma example_fit: "index_or_invalid (circular_first_fit False example_memory example_map 5 197) = 4"
  by code_simp

lemma example_fit1: "index_or_invalid (circular_first_fit False example_memory1 example_map 5 0) = 9"
  by code_simp

lemma example_allocate:
  "RtlFindClearBitsAndSet example_memory example_map 5 197 = Some (4, example_memory1)"
  "RtlFindClearBitsAndSet example_memory1 example_map 5 200 = Some (9, RtlSetBits example_memory1 example_map 9 5)"
proof -
  have "find_bits False example_memory example_map 5 197 = Some 4"
    using find_bits_ok [OF _ example_small, of 5 False example_memory 197] example_fit
    by (simp add: example_map_def)
  then show "RtlFindClearBitsAndSet example_memory example_map 5 197 = Some (4, example_memory1)"
    by (simp add: RtlFindClearBitsAndSet_def RtlFindClearBits_def example_memory1_def)
  have "find_bits False example_memory1 example_map 5 200 = Some 9"
    using find_bits_ok [OF _ example_small, of 5 False example_memory1 200] example_fit1
    by (simp add: example_map_def)
  then show "RtlFindClearBitsAndSet example_memory1 example_map 5 200 =
      Some (9, RtlSetBits example_memory1 example_map 9 5)"
    by (simp add: RtlFindClearBitsAndSet_def RtlFindClearBits_def)
qed

theorem RtlFindClearBits_first_fit_witness:
  "RtlFindClearBits example_memory example_map 5 197 = Some 4"
  using RtlFindClearBits_first_fit [OF _ example_small, of 5 example_memory 197] example_fit
  by (simp add: example_map_def)

theorem allocations_disjoint_witness:
  "RtlFindClearBitsAndSet example_memory example_map 5 197 = Some (4, example_memory1) \<and>
   RtlFindClearBitsAndSet example_memory1 example_map 5 200 = Some (9, RtlSetBits example_memory1 example_map 9 5) \<and>
   unat (4 :: ulong) + unat (5 :: ulong) \<le> unat (9 :: ulong)"
  using allocations_disjoint [OF example_allocate(1) _ _ example_allocate(2) _ _ example_small]
    example_allocate by simp

theorem free_restores_witness: "RtlClearBits example_memory1 example_map 4 5 = example_memory"
  by (rule free_restores [OF example_allocate(1) _ _ example_small]) simp_all

lemma example_count: "of_nat (bits_set example_memory (Buffer example_map) (unat (SizeOfBitMap example_map))) = (2 :: ulong)"
  by code_simp

lemma example_head: "bytes_head example_map = 4"
  by (simp add: bytes_head_def example_map_def)

theorem RtlNumberOfSetBits_counts_witness:
  "RtlNumberOfSetBits example_memory example_map = Some (2, clear_unused example_memory example_map)"
proof -
  have "unat (SizeOfBitMap example_map) + 7 < 2 ^ 32"
    "unat (bytes_head example_map) \<le> (unat (SizeOfBitMap example_map) + 7) div 8"
    unfolding example_head by (simp_all add: example_map_def)
  from RtlNumberOfSetBits_counts [OF this, of example_memory] show ?thesis unfolding example_count .
qed

end
