(* ===== verification/Mcb.thy ===== *)
theory Mcb
  imports Prelude "HOL-Library.Monad_Syntax" "HOL-Library.Signed_Division"
begin

text \<open>
  The mapped control blocks of \<^verbatim>\<open>fsrtl/largemcb.c\<close>: which logical sector (LBN) each virtual sector (VBN) of a
  file lies on. A base control block is a buffer of mapping pairs, of which the first \<^verbatim>\<open>PairCount\<close> are in use:
  pair \<^verbatim>\<open>i\<close> says that the sectors from where pair \<^verbatim>\<open>i - 1\<close> ends up to \<^verbatim>\<open>NextVbn\<close> lie one after the other from
  \<^verbatim>\<open>Lbn\<close>, or are a hole when \<^verbatim>\<open>Lbn\<close> is all ones. This theory has the structure, the macros that read it, the
  search for a sector, and the routines that make room in the buffer and close it up.

  An operation that may allocate gives the new structure with the way it ended: it returned a value, or the
  allocation raised a status. It gives \<^term>\<open>None\<close> when it writes outside its buffer, frees a buffer to an
  allocator it did not come from, or does not return.
\<close>

section \<open>The structure\<close>

record MAPPING =
  NextVbn :: ulong
  Lbn :: ulong

definition UNUSED_LBN :: ulong where
  "UNUSED_LBN = - 1"

definition INITIAL_MAXIMUM_PAIR_COUNT :: ulong where
  "INITIAL_MAXIMUM_PAIR_COUNT = 15"

datatype POOL_TYPE =
    NonPagedPool | PagedPool | NonPagedPoolMustSucceed | DontUseThisType
  | NonPagedPoolCacheAligned | PagedPoolCacheAligned | NonPagedPoolCacheAlignedMustS | MaxPoolType
  | NonPagedPoolSession | PagedPoolSession | NonPagedPoolMustSucceedSession | DontUseThisTypeSession
  | NonPagedPoolCacheAlignedSession | PagedPoolCacheAlignedSession | NonPagedPoolCacheAlignedMustSSession

text \<open>
  A request for a buffer: from the lookaside list of first mappings, or from pool, for that many pairs. The
  source of the buffer in use is kept with the structure, so that freeing it elsewhere shows.
\<close>

datatype allocation = FirstMapping | PoolBlock POOL_TYPE ulong

record base_mcb =
  MaximumPairCount :: ulong
  PairCount :: ulong
  PoolType :: POOL_TYPE
  Mapping :: "MAPPING list"
  MappingSource :: allocation

text \<open>
  The allocators are a parameter: what they answer to a request, made while the structure is in a given state,
  is the status they raise or the contents of a fresh buffer.
\<close>

type_synonym allocator = "base_mcb \<Rightarrow> allocation \<Rightarrow> ntstatus + MAPPING list"

fun allocated_pairs :: "allocation \<Rightarrow> nat" where
  "allocated_pairs FirstMapping = unat INITIAL_MAXIMUM_PAIR_COUNT"
| "allocated_pairs (PoolBlock _ n) = unat n"

definition allocates :: "allocator \<Rightarrow> bool" where
  "allocates pool \<longleftrightarrow> (\<forall>m request buffer. pool m request = Inr buffer \<longrightarrow> length buffer = allocated_pairs request)"

section \<open>How an operation ends\<close>

datatype 'a completion = Returned 'a | Raised ntstatus

type_synonym 'a mcb_outcome = "(base_mcb \<times> 'a completion) option"

text \<open>Going on after an operation that may raise, and after one that may not.\<close>

definition if_returned :: "'a mcb_outcome \<Rightarrow> (base_mcb \<Rightarrow> 'a \<Rightarrow> 'b mcb_outcome) \<Rightarrow> 'b mcb_outcome" where
  "if_returned r f = r \<bind> (\<lambda>(m, c). case c of Returned x \<Rightarrow> f m x | Raised s \<Rightarrow> Some (m, Raised s))"

definition returning :: "'a \<Rightarrow> base_mcb option \<Rightarrow> 'a mcb_outcome" where
  "returning x r = map_option (\<lambda>m. (m, Returned x)) r"

section \<open>The parts of a run\<close>

definition StartingVbn :: "base_mcb \<Rightarrow> ulong \<Rightarrow> ulong" where
  "StartingVbn m i = (if i = 0 then 0 else NextVbn (Mapping m ! unat (i - 1)))"

definition EndingVbn :: "base_mcb \<Rightarrow> ulong \<Rightarrow> ulong" where
  "EndingVbn m i = NextVbn (Mapping m ! unat i) - 1"

definition PreviousEndingVbn :: "base_mcb \<Rightarrow> ulong \<Rightarrow> ulong" where
  "PreviousEndingVbn m i = (if i = 0 then 0xffffffff else EndingVbn m (i - 1))"

definition NextStartingVbn :: "base_mcb \<Rightarrow> ulong \<Rightarrow> ulong" where
  "NextStartingVbn m i = (if PairCount m \<le> i then 0 else StartingVbn m (i + 1))"

definition StartingLbn :: "base_mcb \<Rightarrow> ulong \<Rightarrow> ulong" where
  "StartingLbn m i = Lbn (Mapping m ! unat i)"

definition EndingLbn :: "base_mcb \<Rightarrow> ulong \<Rightarrow> ulong" where
  "EndingLbn m i =
     (if StartingLbn m i = UNUSED_LBN then UNUSED_LBN
      else Lbn (Mapping m ! unat i) + NextVbn (Mapping m ! unat i) - StartingVbn m i - 1)"

definition PreviousEndingLbn :: "base_mcb \<Rightarrow> ulong \<Rightarrow> ulong" where
  "PreviousEndingLbn m i = (if i = 0 then UNUSED_LBN else EndingLbn m (i - 1))"

definition NextStartingLbn :: "base_mcb \<Rightarrow> ulong \<Rightarrow> ulong" where
  "NextStartingLbn m i = (if PairCount m - 1 \<le> i then UNUSED_LBN else StartingLbn m (i + 1))"

definition SectorsWithinRun :: "base_mcb \<Rightarrow> ulong \<Rightarrow> ulong" where
  "SectorsWithinRun m i = EndingVbn m i - StartingVbn m i + 1"

section \<open>The search for a sector\<close>

text \<open>The indices of the search are \<^verbatim>\<open>LONG\<close>: their sums are read back as 32-bit signed numbers.\<close>

definition LONG :: "int \<Rightarrow> int" where
  "LONG x = signed_take_bit 31 x"

partial_function (option) find_large_index :: "base_mcb \<Rightarrow> ulong \<Rightarrow> int \<Rightarrow> int \<Rightarrow> (bool \<times> ulong) option" where
  "find_large_index m vbn minIndex maxIndex =
     (if minIndex \<le> maxIndex then
        let midIndex = LONG (maxIndex + minIndex) sdiv 2 in
        if vbn < StartingVbn m (word_of_int midIndex) then
          find_large_index m vbn minIndex (LONG (midIndex - 1))
        else if EndingVbn m (word_of_int midIndex) < vbn then
          find_large_index m vbn (LONG (midIndex + 1)) maxIndex
        else Some (True, word_of_int midIndex)
      else Some (False, PairCount m))"

declare find_large_index.simps [code]

definition FsRtlFindLargeIndex :: "base_mcb \<Rightarrow> ulong \<Rightarrow> (bool \<times> ulong) option" where
  "FsRtlFindLargeIndex m vbn = find_large_index m vbn 0 (sint (PairCount m - 1))"

section \<open>The buffer\<close>

text \<open>An assignment to fields of a pair; \<^term>\<open>None\<close> outside the buffer.\<close>

definition store_pair :: "ulong \<Rightarrow> (MAPPING \<Rightarrow> MAPPING) \<Rightarrow> base_mcb \<Rightarrow> base_mcb option" where
  "store_pair i f m =
     (if unat i < length (Mapping m)
      then Some (m\<lparr>Mapping := (Mapping m)[unat i := f (Mapping m ! unat i)]\<rparr>)
      else None)"

definition set_Lbn :: "ulong \<Rightarrow> ulong \<Rightarrow> base_mcb \<Rightarrow> base_mcb option" where
  "set_Lbn i lbn = store_pair i (\<lambda>p. p\<lparr>Lbn := lbn\<rparr>)"

definition set_NextVbn :: "ulong \<Rightarrow> ulong \<Rightarrow> base_mcb \<Rightarrow> base_mcb option" where
  "set_NextVbn i vbn = store_pair i (\<lambda>p. p\<lparr>NextVbn := vbn\<rparr>)"

text \<open>\<^verbatim>\<open>RtlCopyMemory\<close> to a fresh buffer and \<^verbatim>\<open>RtlMoveMemory\<close> within a buffer, of whole pairs.\<close>

definition copy_pairs :: "MAPPING list \<Rightarrow> MAPPING list \<Rightarrow> ulong \<Rightarrow> MAPPING list option" where
  "copy_pairs fresh old n =
     (if unat n \<le> length fresh \<and> unat n \<le> length old
      then Some (take (unat n) old @ drop (unat n) fresh) else None)"

definition move_pairs :: "MAPPING list \<Rightarrow> ulong \<Rightarrow> ulong \<Rightarrow> ulong \<Rightarrow> MAPPING list option" where
  "move_pairs buffer to src n =
     (if unat to + unat n \<le> length buffer \<and> unat src + unat n \<le> length buffer
      then Some (take (unat to) buffer @ take (unat n) (drop (unat src) buffer) @ drop (unat to + unat n) buffer)
      else None)"

text \<open>
  A buffer that came from the lookaside list goes back by \<^verbatim>\<open>FsRtlFreeFirstMapping\<close>, any other one by
  \<^verbatim>\<open>ExFreePool\<close>; both are outside of the file, and only that they get what is theirs is modelled.
\<close>

definition freed_to_first_mappings :: "base_mcb \<Rightarrow> unit option" where
  "freed_to_first_mappings m = (if MappingSource m = FirstMapping then Some () else None)"

definition freed_to_pool :: "base_mcb \<Rightarrow> unit option" where
  "freed_to_pool m = (if MappingSource m = FirstMapping then None else Some ())"

text \<open>The buffer goes back where the pool type and the number of its pairs say it came from.\<close>

definition free_mapping :: "base_mcb \<Rightarrow> unit option" where
  "free_mapping m =
     (if PoolType m = PagedPool \<and> MaximumPairCount m = INITIAL_MAXIMUM_PAIR_COUNT
      then freed_to_first_mappings m else freed_to_pool m)"

text \<open>The buffer a block of \<^verbatim>\<open>FsRtlAddLargeEntry\<close> takes when the one in use is too small.\<close>

definition enlarge_mapping :: "allocator \<Rightarrow> base_mcb \<Rightarrow> unit mcb_outcome" where
  "enlarge_mapping pool m =
     (let newMax = (if MaximumPairCount m < 2048 then MaximumPairCount m * 2 else MaximumPairCount m + 2048);
          request = PoolBlock (PoolType m) newMax
      in case pool m request of
           Inl status \<Rightarrow> Some (m, Raised status)
         | Inr fresh \<Rightarrow>
             copy_pairs fresh (Mapping m) (PairCount m) \<bind> (\<lambda>buffer.
             free_mapping m \<bind> (\<lambda>_.
             Some (m\<lparr>Mapping := buffer, MappingSource := request, MaximumPairCount := newMax\<rparr>, Returned ()))))"

definition FsRtlAddLargeEntry :: "allocator \<Rightarrow> base_mcb \<Rightarrow> ulong \<Rightarrow> ulong \<Rightarrow> unit mcb_outcome" where
  "FsRtlAddLargeEntry pool m whereToAdd amountToAdd =
     if_returned
       (if MaximumPairCount m < PairCount m + amountToAdd then enlarge_mapping pool m else Some (m, Returned ()))
       (\<lambda>m _.
          (if whereToAdd < PairCount m
           then move_pairs (Mapping m) (whereToAdd + amountToAdd) whereToAdd (PairCount m - whereToAdd)
           else Some (Mapping m))
          \<bind> (\<lambda>buffer. Some (m\<lparr>Mapping := buffer, PairCount := PairCount m + amountToAdd\<rparr>, Returned ())))"

definition FsRtlRemoveLargeEntry :: "ulong \<Rightarrow> ulong \<Rightarrow> base_mcb \<Rightarrow> base_mcb option" where
  "FsRtlRemoveLargeEntry whereToRemove amountToRemove m =
     (if whereToRemove + amountToRemove < PairCount m
      then move_pairs (Mapping m) whereToRemove (whereToRemove + amountToRemove)
             (PairCount m - (whereToRemove + amountToRemove))
      else Some (Mapping m))
     \<bind> (\<lambda>buffer. Some (m\<lparr>Mapping := buffer, PairCount := PairCount m - amountToRemove\<rparr>))"

section \<open>Setting up and resetting\<close>

definition FsRtlInitializeBaseMcb :: "allocator \<Rightarrow> POOL_TYPE \<Rightarrow> base_mcb \<Rightarrow> unit mcb_outcome" where
  "FsRtlInitializeBaseMcb pool poolType m =
     (let m = m\<lparr>PairCount := 0, PoolType := poolType\<rparr>;
          request = (if poolType = PagedPool then FirstMapping else PoolBlock poolType INITIAL_MAXIMUM_PAIR_COUNT)
      in case pool m request of
           Inl status \<Rightarrow> Some (m, Raised status)
         | Inr fresh \<Rightarrow>
             Some (m\<lparr>Mapping := fresh, MappingSource := request,
                      MaximumPairCount := INITIAL_MAXIMUM_PAIR_COUNT\<rparr>, Returned ()))"

definition FsRtlUninitializeBaseMcb :: "base_mcb \<Rightarrow> unit option" where
  "FsRtlUninitializeBaseMcb m = free_mapping m"

definition FsRtlResetBaseMcb :: "base_mcb \<Rightarrow> base_mcb" where
  "FsRtlResetBaseMcb m = m\<lparr>PairCount := 0\<rparr>"

definition FsRtlNumberOfRunsInBaseMcb :: "base_mcb \<Rightarrow> ulong" where
  "FsRtlNumberOfRunsInBaseMcb m = PairCount m"

end
