(* ===== verification/Mcb_Update.thy ===== *)
theory Mcb_Update
  imports Mcb
begin

text \<open>
  The operations of \<^verbatim>\<open>fsrtl/largemcb.c\<close> that change a base control block: adding a run, removing a range,
  truncating, and splitting; with the loops and the branches of the code.
\<close>

section \<open>Adding a run\<close>

text \<open>
  The first part of \<^verbatim>\<open>FsRtlAddBaseMcbEntry\<close> compares the new run with the run its first sector lies in: the
  answer may be known at once, or the new run is trimmed to the part that is not there yet.
\<close>

datatype request = Decided bool | Insert ulong ulong ulong

definition trim_request :: "base_mcb \<Rightarrow> ulong \<Rightarrow> ulong \<Rightarrow> ulong \<Rightarrow> request option" where
  "trim_request m vbn lbn sectorCount =
     FsRtlFindLargeIndex m vbn \<bind> (\<lambda>(found, index).
     if found then
       let endVbn = vbn + sectorCount - 1 in
       if StartingLbn m index \<noteq> UNUSED_LBN then
         if lbn \<noteq> StartingLbn m index + (vbn - StartingVbn m index) then Some (Decided False)
         else if endVbn \<le> EndingVbn m index then Some (Decided True)
         else
           let vbn = NextStartingVbn m index; lbn = EndingLbn m index + 1
           in Some (Insert vbn lbn (endVbn - vbn + 1))
       else
         FsRtlFindLargeIndex m endVbn \<bind> (\<lambda>(found, endIndex).
         if found \<and> index = endIndex - 1 then
           if StartingLbn m endIndex \<noteq> lbn + (StartingVbn m endIndex - vbn) then Some (Decided False)
           else Some (Insert vbn lbn (StartingVbn m endIndex - vbn))
         else Some (Insert vbn lbn sectorCount))
     else Some (Insert vbn lbn sectorCount))"

text \<open>The new run goes after the last pair: \<^verbatim>\<open>index\<close> is the number of pairs.\<close>

definition append_run :: "allocator \<Rightarrow> base_mcb \<Rightarrow> ulong \<Rightarrow> ulong \<Rightarrow> ulong \<Rightarrow> ulong \<Rightarrow> bool mcb_outcome" where
  "append_run pool m index vbn lbn sectorCount =
     (if index \<noteq> 0 \<and> PreviousEndingVbn m index + 1 = vbn \<and> PreviousEndingLbn m index + 1 = lbn then
        returning True (store_pair (PairCount m - 1) (\<lambda>p. p\<lparr>NextVbn := NextVbn p + sectorCount\<rparr>) m)
      else if vbn = 0 \<or> PreviousEndingVbn m index + 1 = vbn then
        if_returned (FsRtlAddLargeEntry pool m index 1) (\<lambda>m _.
          returning True (set_Lbn index lbn m \<bind> set_NextVbn index (vbn + sectorCount)))
      else
        if_returned (FsRtlAddLargeEntry pool m index 2) (\<lambda>m _.
          returning True
            (set_Lbn index UNUSED_LBN m \<bind> set_NextVbn index vbn
             \<bind> set_Lbn (index + 1) lbn \<bind> set_NextVbn (index + 1) (vbn + sectorCount))))"

text \<open>The new run lies in the hole at \<^verbatim>\<open>index\<close>.\<close>

definition fill_hole :: "allocator \<Rightarrow> base_mcb \<Rightarrow> ulong \<Rightarrow> ulong \<Rightarrow> ulong \<Rightarrow> ulong \<Rightarrow> bool mcb_outcome" where
  "fill_hole pool m index vbn lbn sectorCount =
     (let lastVbn = vbn + sectorCount - 1 in
      if StartingLbn m index = UNUSED_LBN \<and> StartingVbn m index \<le> vbn \<and> lastVbn \<le> EndingVbn m index then
        if StartingVbn m index < vbn \<and> lastVbn < EndingVbn m index then
          if_returned (FsRtlAddLargeEntry pool m index 2) (\<lambda>m _.
            returning True
              (set_Lbn index UNUSED_LBN m \<bind> set_NextVbn index vbn
               \<bind> set_Lbn (index + 1) lbn \<bind> set_NextVbn (index + 1) (vbn + sectorCount)))
        else if StartingVbn m index = vbn \<and> lastVbn < EndingVbn m index then
          if PreviousEndingLbn m index + 1 = lbn then
            returning True (store_pair (index - 1) (\<lambda>p. p\<lparr>NextVbn := NextVbn p + sectorCount\<rparr>) m)
          else
            if_returned (FsRtlAddLargeEntry pool m index 1) (\<lambda>m _.
              returning True (set_Lbn index lbn m \<bind> set_NextVbn index (vbn + sectorCount)))
        else if StartingVbn m index < vbn \<and> lastVbn = EndingVbn m index then
          if NextStartingLbn m index = lbn + sectorCount then
            returning True (set_NextVbn index vbn m \<bind> set_Lbn (index + 1) lbn)
          else
            if_returned (FsRtlAddLargeEntry pool m index 1) (\<lambda>m _.
              returning True
                (set_Lbn index UNUSED_LBN m \<bind> set_NextVbn index vbn \<bind> set_Lbn (index + 1) lbn))
        else if PreviousEndingLbn m index + 1 = lbn \<and> NextStartingLbn m index = lbn + sectorCount then
          returning True
            (set_NextVbn (index - 1) (NextVbn (Mapping m ! unat (index + 1))) m \<bind> FsRtlRemoveLargeEntry index 2)
        else if NextStartingLbn m index = lbn + sectorCount then
          returning True (set_Lbn (index + 1) lbn m \<bind> FsRtlRemoveLargeEntry index 1)
        else if PreviousEndingLbn m index + 1 = lbn then
          returning True
            (set_NextVbn (index - 1) (NextVbn (Mapping m ! unat index)) m \<bind> FsRtlRemoveLargeEntry index 1)
        else returning True (set_Lbn index lbn m)
      else Some (m, Returned False))"

text \<open>What is left of the new run goes after the last pair, or into a hole.\<close>

definition insert_run :: "allocator \<Rightarrow> base_mcb \<Rightarrow> ulong \<Rightarrow> ulong \<Rightarrow> ulong \<Rightarrow> bool mcb_outcome" where
  "insert_run pool m vbn lbn sectorCount =
     (if PairCount m = 0 \<or> PreviousEndingVbn m (PairCount m) + 1 \<le> vbn
      then append_run pool m (PairCount m) vbn lbn sectorCount
      else
        FsRtlFindLargeIndex m vbn \<bind> (\<lambda>(found, index).
        if found then fill_hole pool m index vbn lbn sectorCount
        else append_run pool m index vbn lbn sectorCount))"

definition FsRtlAddBaseMcbEntry ::
  "allocator \<Rightarrow> base_mcb \<Rightarrow> ulonglong \<Rightarrow> ulonglong \<Rightarrow> ulonglong \<Rightarrow> bool mcb_outcome" where
  "FsRtlAddBaseMcbEntry pool m largeVbn largeLbn largeSectorCount =
     trim_request m (ucast largeVbn) (ucast largeLbn) (ucast largeSectorCount) \<bind> (\<lambda>r.
     case r of
       Decided result \<Rightarrow> Some (m, Returned result)
     | Insert vbn lbn sectorCount \<Rightarrow> insert_run pool m vbn lbn sectorCount)"

section \<open>Removing a range\<close>

text \<open>
  \<^verbatim>\<open>Vbn\<close> and \<^verbatim>\<open>SectorCount\<close> are signed 64-bit numbers here. Each turn of the loop takes away what the range
  has in common with the run its first sector lies in.
\<close>

definition LONGLONG :: "int \<Rightarrow> int" where
  "LONGLONG x = signed_take_bit 63 x"

definition previous_is_hole :: "base_mcb \<Rightarrow> ulong \<Rightarrow> bool" where
  "previous_is_hole m index \<longleftrightarrow> \<not> (PreviousEndingLbn m index \<noteq> UNUSED_LBN \<or> index = 0)"

definition remove_entire_run :: "base_mcb \<Rightarrow> ulong \<Rightarrow> base_mcb option" where
  "remove_entire_run m index =
     (if StartingLbn m index = UNUSED_LBN then Some m
      else if index = PairCount m - 1 then
        if \<not> previous_is_hole m index then FsRtlRemoveLargeEntry index 1 m
        else FsRtlRemoveLargeEntry (index - 1) 2 m
      else if \<not> previous_is_hole m index \<and> NextStartingLbn m index \<noteq> UNUSED_LBN then
        set_Lbn index UNUSED_LBN m
      else if \<not> previous_is_hole m index \<and> NextStartingLbn m index = UNUSED_LBN then
        FsRtlRemoveLargeEntry index 1 m
      else if PreviousEndingLbn m index = UNUSED_LBN \<and> NextStartingLbn m index \<noteq> UNUSED_LBN then
        set_Lbn index UNUSED_LBN m \<bind> FsRtlRemoveLargeEntry (index - 1) 1
      else FsRtlRemoveLargeEntry (index - 1) 2 m)"

definition remove_first_part :: "allocator \<Rightarrow> base_mcb \<Rightarrow> ulong \<Rightarrow> int \<Rightarrow> int \<Rightarrow> unit mcb_outcome" where
  "remove_first_part pool m index vbn sectorCount =
     (if StartingLbn m index = UNUSED_LBN then Some (m, Returned ())
      else if \<not> previous_is_hole m index then
        if_returned (FsRtlAddLargeEntry pool m index 1) (\<lambda>m _.
          returning ()
            (set_Lbn index UNUSED_LBN m
             \<bind> set_NextVbn index (word_of_int vbn + word_of_int sectorCount)
             \<bind> store_pair (index + 1) (\<lambda>p. p\<lparr>Lbn := Lbn p + word_of_int sectorCount\<rparr>)))
      else
        returning ()
          (store_pair (index - 1) (\<lambda>p. p\<lparr>NextVbn := NextVbn p + word_of_int sectorCount\<rparr>) m
           \<bind> store_pair index (\<lambda>p. p\<lparr>Lbn := Lbn p + word_of_int sectorCount\<rparr>)))"

definition remove_last_part :: "allocator \<Rightarrow> base_mcb \<Rightarrow> ulong \<Rightarrow> ulong \<Rightarrow> unit mcb_outcome" where
  "remove_last_part pool m index amountToRemove =
     (if StartingLbn m index = UNUSED_LBN then Some (m, Returned ())
      else if index = PairCount m - 1 then
        returning () (store_pair index (\<lambda>p. p\<lparr>NextVbn := NextVbn p - amountToRemove\<rparr>) m)
      else if NextStartingLbn m index = UNUSED_LBN then
        returning () (store_pair index (\<lambda>p. p\<lparr>NextVbn := NextVbn p - amountToRemove\<rparr>) m)
      else
        if_returned (FsRtlAddLargeEntry pool m (index + 1) 1) (\<lambda>m _.
          returning ()
            (set_Lbn (index + 1) UNUSED_LBN m
             \<bind> (\<lambda>m. set_NextVbn (index + 1) (NextVbn (Mapping m ! unat index)) m)
             \<bind> store_pair index (\<lambda>p. p\<lparr>NextVbn := NextVbn p - amountToRemove\<rparr>))))"

definition remove_middle :: "allocator \<Rightarrow> base_mcb \<Rightarrow> ulong \<Rightarrow> int \<Rightarrow> int \<Rightarrow> unit mcb_outcome" where
  "remove_middle pool m index vbn sectorCount =
     (if StartingLbn m index = UNUSED_LBN then Some (m, Returned ())
      else
        if_returned (FsRtlAddLargeEntry pool m index 2) (\<lambda>m _.
          returning ()
            (set_Lbn index (Lbn (Mapping m ! unat (index + 2))) m
             \<bind> set_NextVbn index (word_of_int vbn)
             \<bind> set_Lbn (index + 1) UNUSED_LBN
             \<bind> set_NextVbn (index + 1) (word_of_int vbn + word_of_int sectorCount)
             \<bind> (\<lambda>m. store_pair (index + 2)
                   (\<lambda>p. p\<lparr>Lbn := Lbn p + (SectorsWithinRun m index + SectorsWithinRun m (index + 1))\<rparr>) m))))"

text \<open>One turn of the loop, for the run found: what is left of the range, and the structure.\<close>

definition remove_turn :: "allocator \<Rightarrow> base_mcb \<Rightarrow> ulong \<Rightarrow> int \<Rightarrow> int \<Rightarrow> (int \<times> int) mcb_outcome" where
  "remove_turn pool m index vbn sectorCount =
     (let starts = (uint (StartingVbn m index) = vbn);
          covers = (uint (EndingVbn m index) < LONGLONG (vbn + sectorCount))
      in
      if starts \<and> covers then
        let i = uint (SectorsWithinRun m index)
        in returning (LONGLONG (vbn + i), LONGLONG (sectorCount - i)) (remove_entire_run m index)
      else if starts then
        if_returned (remove_first_part pool m index vbn sectorCount) (\<lambda>m _.
          Some (m, Returned (LONGLONG (vbn + sectorCount), 0)))
      else if covers then
        let amountToRemove = EndingVbn m index - word_of_int vbn + 1
        in if_returned (remove_last_part pool m index amountToRemove) (\<lambda>m _.
             Some (m, Returned (LONGLONG (vbn + uint amountToRemove), LONGLONG (sectorCount - uint amountToRemove))))
      else
        if_returned (remove_middle pool m index vbn sectorCount) (\<lambda>m _.
          Some (m, Returned (LONGLONG (vbn + sectorCount), 0))))"

partial_function (option) remove_range :: "allocator \<Rightarrow> int \<Rightarrow> int \<Rightarrow> base_mcb \<Rightarrow> unit mcb_outcome" where
  "remove_range pool vbn sectorCount m =
     (if 0 < sectorCount then
        FsRtlFindLargeIndex m (word_of_int vbn) \<bind> (\<lambda>found.
        if \<not> fst found then Some (m, Returned ())
        else
          remove_turn pool m (snd found) vbn sectorCount \<bind> (\<lambda>turn.
          case turn of
            (m, Raised status) \<Rightarrow> Some (m, Raised status)
          | (m, Returned left) \<Rightarrow> remove_range pool (fst left) (snd left) m))
      else Some (m, Returned ()))"

declare remove_range.simps [code]

definition FsRtlRemoveBaseMcbEntry :: "allocator \<Rightarrow> base_mcb \<Rightarrow> int \<Rightarrow> int \<Rightarrow> unit mcb_outcome" where
  "FsRtlRemoveBaseMcbEntry pool m vbn sectorCount =
     (if vbn = 0 \<and> 0 < PairCount m \<and> uint (NextVbn (Mapping m ! unat (PairCount m - 1))) \<le> sectorCount
      then Some (m\<lparr>PairCount := 0\<rparr>, Returned ())
      else remove_range pool vbn sectorCount m)"

section \<open>Truncating\<close>

definition truncate_pairs :: "base_mcb \<Rightarrow> ulong \<Rightarrow> base_mcb option" where
  "truncate_pairs m vbn =
     (if vbn = 0 then Some (m\<lparr>PairCount := 0\<rparr>)
      else if 0 < PairCount m then
        FsRtlFindLargeIndex m (vbn - 1) \<bind> (\<lambda>(found, index).
        if found then
          if StartingLbn m index = UNUSED_LBN then Some (m\<lparr>PairCount := index\<rparr>)
          else
            let m = m\<lparr>PairCount := index + 1\<rparr> in
            if vbn < NextStartingVbn m index then set_NextVbn index vbn m else Some m
        else Some m)
      else Some m)"

text \<open>An allocation that raises is caught: the buffer stays as it is.\<close>

definition shrink_mapping :: "allocator \<Rightarrow> base_mcb \<Rightarrow> base_mcb option" where
  "shrink_mapping pool m =
     (if PairCount m < MaximumPairCount m div 4 \<and> INITIAL_MAXIMUM_PAIR_COUNT < MaximumPairCount m then
        let newMax = PairCount m * 2;
            newMax = (if newMax < INITIAL_MAXIMUM_PAIR_COUNT then INITIAL_MAXIMUM_PAIR_COUNT else newMax);
            request = (if newMax = INITIAL_MAXIMUM_PAIR_COUNT \<and> PoolType m = PagedPool then FirstMapping
                       else PoolBlock (PoolType m) newMax)
        in case pool m request of
             Inl _ \<Rightarrow> Some m
           | Inr fresh \<Rightarrow>
               copy_pairs fresh (Mapping m) (PairCount m) \<bind> (\<lambda>buffer.
               freed_to_pool m \<bind> (\<lambda>_.
               Some (m\<lparr>Mapping := buffer, MappingSource := request, MaximumPairCount := newMax\<rparr>)))
      else Some m)"

definition FsRtlTruncateBaseMcb :: "allocator \<Rightarrow> base_mcb \<Rightarrow> ulonglong \<Rightarrow> unit mcb_outcome" where
  "FsRtlTruncateBaseMcb pool m largeVbn =
     returning () (truncate_pairs m (ucast largeVbn) \<bind> shrink_mapping pool)"

section \<open>Splitting\<close>

lemma unat_succ_below:
  fixes i :: "'a::len word"
  assumes "i < n"
  shows "unat (i + 1) = unat i + 1"
proof -
  have "unat n < 2 ^ LENGTH('a)" by (rule unsigned_less)
  then have "unat i + 1 < 2 ^ LENGTH('a)"
    using assms less_trans_Suc [of "unat i" "unat n" "2 ^ LENGTH('a)"]
    by (simp add: word_less_nat_alt)
  then show ?thesis using unat_plus_range [of i 1] by simp
qed

text \<open>The last loop of \<^verbatim>\<open>FsRtlSplitBaseMcb\<close>, from pair \<^verbatim>\<open>i\<close>.\<close>

function shift_runs :: "ulong \<Rightarrow> ulong \<Rightarrow> ulong \<Rightarrow> base_mcb \<Rightarrow> base_mcb option" where
  "shift_runs amount pairCount i m =
     (if i < pairCount then
        store_pair i (\<lambda>p. p\<lparr>NextVbn := NextVbn p + amount\<rparr>) m \<bind> shift_runs amount pairCount (i + 1)
      else Some m)"
  by pat_completeness auto
termination
  by (relation "measure (\<lambda>(_, pairCount, i, _). unat pairCount - unat i)")
     (auto simp: word_less_nat_alt unat_succ_below)

text \<open>What the branches do to the pair found, and the index from which the runs move up.\<close>

definition split_run :: "allocator \<Rightarrow> base_mcb \<Rightarrow> ulong \<Rightarrow> ulong \<Rightarrow> ulong \<Rightarrow> ulong mcb_outcome" where
  "split_run pool m index vbn amount =
     (if StartingLbn m index = UNUSED_LBN then Some (m, Returned index)
      else if StartingVbn m index = vbn \<and> index \<noteq> 0 \<and> PreviousEndingLbn m index = UNUSED_LBN then
        Some (m, Returned (index - 1))
      else if StartingVbn m index = vbn then
        if_returned (FsRtlAddLargeEntry pool m index 1) (\<lambda>m _.
          returning (index + 1) (set_Lbn index UNUSED_LBN m \<bind> set_NextVbn index (vbn + amount)))
      else
        if_returned (FsRtlAddLargeEntry pool m index 2) (\<lambda>m _.
          returning (index + 2)
            (set_Lbn index (Lbn (Mapping m ! unat (index + 2))) m
             \<bind> set_NextVbn index vbn
             \<bind> set_Lbn (index + 1) UNUSED_LBN
             \<bind> set_NextVbn (index + 1) (vbn + amount)
             \<bind> (\<lambda>m. set_Lbn (index + 2)
                   (Lbn (Mapping m ! unat (index + 2)) + StartingVbn m (index + 1) - StartingVbn m index) m))))"

definition FsRtlSplitBaseMcb :: "allocator \<Rightarrow> base_mcb \<Rightarrow> ulonglong \<Rightarrow> ulonglong \<Rightarrow> bool mcb_outcome" where
  "FsRtlSplitBaseMcb pool m largeVbn largeAmount =
     (let vbn = ucast largeVbn; amount = ucast largeAmount in
      FsRtlFindLargeIndex m vbn \<bind> (\<lambda>(found, index).
      if \<not> found then Some (m, Returned False)
      else
        if_returned (split_run pool m index vbn amount) (\<lambda>m index.
          returning True (shift_runs amount (PairCount m) index m))))"

end
