(* ===== verification/Mcb_Lookup.thy ===== *)
theory Mcb_Lookup
  imports Mcb_Update
begin

text \<open>
  The operations of \<^verbatim>\<open>fsrtl/largemcb.c\<close> that read a base control block, the large control block, which puts a
  guarded mutex around a base one, and the small control block, which hands 32-bit arguments to a large one.
\<close>

section \<open>Reading\<close>

text \<open>The numbers written through the out parameters of \<^verbatim>\<open>FsRtlLookupBaseMcbEntry\<close>; the caller may leave out any.\<close>

record lookup_result =
  LargeLbn :: ulonglong
  LargeSectorCount :: ulonglong
  LargeStartingLbn :: ulonglong
  LargeCountFromStartingLbn :: ulonglong
  RunIndex :: ulong

definition FsRtlLookupBaseMcbEntry :: "base_mcb \<Rightarrow> ulonglong \<Rightarrow> lookup_result option option" where
  "FsRtlLookupBaseMcbEntry m largeVbn =
     FsRtlFindLargeIndex m (ucast largeVbn) \<bind> (\<lambda>(found, index).
     if \<not> found then Some None
     else
       Some (Some \<lparr>
         LargeLbn =
           (if StartingLbn m index = UNUSED_LBN then - 1
            else ucast (StartingLbn m index + (ucast largeVbn - StartingVbn m index))),
         LargeSectorCount = ucast (EndingVbn m index - ucast largeVbn + 1),
         LargeStartingLbn = (if StartingLbn m index = UNUSED_LBN then - 1 else ucast (StartingLbn m index)),
         LargeCountFromStartingLbn = ucast (EndingVbn m index - StartingVbn m index + 1),
         RunIndex = index \<rparr>))"

text \<open>The last sector and where it lies.\<close>

definition FsRtlLookupLastBaseMcbEntry :: "base_mcb \<Rightarrow> (ulonglong \<times> ulonglong) option" where
  "FsRtlLookupLastBaseMcbEntry m =
     (if 0 < PairCount m
      then Some (ucast (EndingVbn m (PairCount m - 1)), ucast (EndingLbn m (PairCount m - 1)))
      else None)"

text \<open>The high half is filled from the low one: all ones for an unused sector.\<close>

definition fill_high_part :: "ulong \<Rightarrow> ulonglong" where
  "fill_high_part low = (if low = UNUSED_LBN then push_bit 32 (ucast UNUSED_LBN) OR ucast low else ucast low)"

text \<open>
  The numbers the caller passes in come back, but for their high halves, when there is no run.
\<close>

definition FsRtlLookupLastBaseMcbEntryAndIndex ::
  "base_mcb \<Rightarrow> ulonglong \<times> ulonglong \<times> ulong \<Rightarrow> bool \<times> ulonglong \<times> ulonglong \<times> ulong" where
  "FsRtlLookupLastBaseMcbEntryAndIndex m out =
     (let (result, lowVbn, lowLbn, index) =
            (if 0 < PairCount m
             then (True, EndingVbn m (PairCount m - 1), EndingLbn m (PairCount m - 1), PairCount m - 1)
             else (False, ucast (fst out), ucast (fst (snd out)), snd (snd out)))
      in (result, fill_high_part lowVbn, fill_high_part lowLbn, index))"

definition FsRtlGetNextBaseMcbEntry :: "base_mcb \<Rightarrow> ulong \<Rightarrow> (ulonglong \<times> ulonglong \<times> ulonglong) option" where
  "FsRtlGetNextBaseMcbEntry m runIndex =
     (if runIndex < PairCount m
      then Some (fill_high_part (StartingVbn m runIndex), fill_high_part (StartingLbn m runIndex),
                 ucast (SectorsWithinRun m runIndex))
      else None)"

section \<open>The large control block\<close>

text \<open>
  Of the guarded mutex (\<^verbatim>\<open>inc/kx.h\<close>) the model keeps whether it is held, behind a pointer that may be null: one
  caller at a time is modelled, for whom taking it while it is held does not return.
\<close>

record large_mcb =
  GuardedMutex :: "bool option"
  BaseMcb :: base_mcb

definition mutex_acquired :: "large_mcb \<Rightarrow> large_mcb option" where
  "mutex_acquired M =
     (if GuardedMutex M = Some False then Some (M\<lparr>GuardedMutex := Some True\<rparr>) else None)"

definition mutex_released :: "large_mcb \<Rightarrow> large_mcb option" where
  "mutex_released M =
     (if GuardedMutex M = Some True then Some (M\<lparr>GuardedMutex := Some False\<rparr>) else None)"

text \<open>An operation on the base control block with the mutex held, released on every way out.\<close>

definition guarded ::
  "(base_mcb \<Rightarrow> 'a mcb_outcome) \<Rightarrow> large_mcb \<Rightarrow> (large_mcb \<times> 'a completion) option" where
  "guarded operation M =
     mutex_acquired M \<bind> (\<lambda>M.
     operation (BaseMcb M) \<bind> (\<lambda>(m, c).
     mutex_released (M\<lparr>BaseMcb := m\<rparr>) \<bind> (\<lambda>M. Some (M, c))))"

text \<open>The second argument is the status that allocating the mutex raises, if it does.\<close>

definition FsRtlInitializeLargeMcb ::
  "allocator \<Rightarrow> ntstatus option \<Rightarrow> POOL_TYPE \<Rightarrow> large_mcb \<Rightarrow> (large_mcb \<times> unit completion) option" where
  "FsRtlInitializeLargeMcb pool fastMutex poolType M =
     (case fastMutex of
        Some status \<Rightarrow> Some (M, Raised status)
      | None \<Rightarrow>
          FsRtlInitializeBaseMcb pool poolType (BaseMcb M) \<bind> (\<lambda>(m, c).
          case c of
            Returned _ \<Rightarrow> Some (\<lparr>GuardedMutex = Some False, BaseMcb = m\<rparr>, Returned ())
          | Raised status \<Rightarrow> Some (\<lparr>GuardedMutex = None, BaseMcb = m\<rparr>, Raised status)))"

definition FsRtlUninitializeLargeMcb :: "large_mcb \<Rightarrow> large_mcb option" where
  "FsRtlUninitializeLargeMcb M =
     (if GuardedMutex M \<noteq> None
      then FsRtlUninitializeBaseMcb (BaseMcb M) \<bind> (\<lambda>_. Some (M\<lparr>GuardedMutex := None\<rparr>))
      else Some M)"

definition FsRtlTruncateLargeMcb :: "allocator \<Rightarrow> ulonglong \<Rightarrow> large_mcb \<Rightarrow> (large_mcb \<times> unit completion) option" where
  "FsRtlTruncateLargeMcb pool largeVbn = guarded (\<lambda>m. FsRtlTruncateBaseMcb pool m largeVbn)"

definition FsRtlResetLargeMcb :: "bool \<Rightarrow> large_mcb \<Rightarrow> (large_mcb \<times> unit completion) option" where
  "FsRtlResetLargeMcb selfSynchronized M =
     (if selfSynchronized then Some (M\<lparr>BaseMcb := FsRtlResetBaseMcb (BaseMcb M)\<rparr>, Returned ())
      else guarded (\<lambda>m. Some (FsRtlResetBaseMcb m, Returned ())) M)"

definition FsRtlAddLargeMcbEntry ::
  "allocator \<Rightarrow> ulonglong \<Rightarrow> ulonglong \<Rightarrow> ulonglong \<Rightarrow> large_mcb \<Rightarrow> (large_mcb \<times> bool completion) option" where
  "FsRtlAddLargeMcbEntry pool largeVbn largeLbn largeSectorCount =
     guarded (\<lambda>m. FsRtlAddBaseMcbEntry pool m largeVbn largeLbn largeSectorCount)"

text \<open>The arguments are cut to 32 bits, then widened again.\<close>

definition FsRtlRemoveLargeMcbEntry ::
  "allocator \<Rightarrow> ulonglong \<Rightarrow> ulonglong \<Rightarrow> large_mcb \<Rightarrow> (large_mcb \<times> unit completion) option" where
  "FsRtlRemoveLargeMcbEntry pool largeVbn largeSectorCount =
     (let vbn = (ucast largeVbn :: ulong); sectorCount = (ucast largeSectorCount :: ulong)
      in guarded (\<lambda>m. FsRtlRemoveBaseMcbEntry pool m (uint vbn) (uint sectorCount)))"

definition FsRtlSplitLargeMcb ::
  "allocator \<Rightarrow> ulonglong \<Rightarrow> ulonglong \<Rightarrow> large_mcb \<Rightarrow> (large_mcb \<times> bool completion) option" where
  "FsRtlSplitLargeMcb pool largeVbn largeAmount = guarded (\<lambda>m. FsRtlSplitBaseMcb pool m largeVbn largeAmount)"

definition FsRtlLookupLargeMcbEntry ::
  "ulonglong \<Rightarrow> large_mcb \<Rightarrow> (large_mcb \<times> lookup_result option completion) option" where
  "FsRtlLookupLargeMcbEntry largeVbn =
     guarded (\<lambda>m. FsRtlLookupBaseMcbEntry m largeVbn \<bind> (\<lambda>r. Some (m, Returned r)))"

definition FsRtlLookupLastLargeMcbEntry ::
  "large_mcb \<Rightarrow> (large_mcb \<times> (ulonglong \<times> ulonglong) option completion) option" where
  "FsRtlLookupLastLargeMcbEntry = guarded (\<lambda>m. Some (m, Returned (FsRtlLookupLastBaseMcbEntry m)))"

definition FsRtlLookupLastLargeMcbEntryAndIndex ::
  "ulonglong \<times> ulonglong \<times> ulong \<Rightarrow> large_mcb
     \<Rightarrow> (large_mcb \<times> (bool \<times> ulonglong \<times> ulonglong \<times> ulong) completion) option" where
  "FsRtlLookupLastLargeMcbEntryAndIndex out =
     guarded (\<lambda>m. Some (m, Returned (FsRtlLookupLastBaseMcbEntryAndIndex m out)))"

definition FsRtlNumberOfRunsInLargeMcb :: "large_mcb \<Rightarrow> (large_mcb \<times> ulong completion) option" where
  "FsRtlNumberOfRunsInLargeMcb = guarded (\<lambda>m. Some (m, Returned (FsRtlNumberOfRunsInBaseMcb m)))"

definition FsRtlGetNextLargeMcbEntry ::
  "ulong \<Rightarrow> large_mcb \<Rightarrow> (large_mcb \<times> (ulonglong \<times> ulonglong \<times> ulonglong) option completion) option" where
  "FsRtlGetNextLargeMcbEntry runIndex = guarded (\<lambda>m. Some (m, Returned (FsRtlGetNextBaseMcbEntry m runIndex)))"

section \<open>The small control block\<close>

text \<open>An unused sector is 0 here.\<close>

definition small_lbn :: "ulonglong \<Rightarrow> ulong" where
  "small_lbn liLbn = (if (ucast liLbn :: ulong) = - 1 then 0 else ucast liLbn)"

definition FsRtlInitializeMcb ::
  "allocator \<Rightarrow> ntstatus option \<Rightarrow> POOL_TYPE \<Rightarrow> large_mcb \<Rightarrow> (large_mcb \<times> unit completion) option" where
  "FsRtlInitializeMcb = FsRtlInitializeLargeMcb"

definition FsRtlUninitializeMcb :: "large_mcb \<Rightarrow> large_mcb option" where
  "FsRtlUninitializeMcb = FsRtlUninitializeLargeMcb"

definition FsRtlTruncateMcb :: "allocator \<Rightarrow> ulong \<Rightarrow> large_mcb \<Rightarrow> (large_mcb \<times> unit completion) option" where
  "FsRtlTruncateMcb pool vbn = FsRtlTruncateLargeMcb pool (ucast vbn)"

definition FsRtlAddMcbEntry ::
  "allocator \<Rightarrow> ulong \<Rightarrow> ulong \<Rightarrow> ulong \<Rightarrow> large_mcb \<Rightarrow> (large_mcb \<times> bool completion) option" where
  "FsRtlAddMcbEntry pool vbn lbn sectorCount =
     FsRtlAddLargeMcbEntry pool (ucast vbn) (ucast lbn) (ucast sectorCount)"

definition FsRtlRemoveMcbEntry ::
  "allocator \<Rightarrow> ulong \<Rightarrow> ulong \<Rightarrow> large_mcb \<Rightarrow> (large_mcb \<times> unit completion) option" where
  "FsRtlRemoveMcbEntry pool vbn sectorCount = FsRtlRemoveLargeMcbEntry pool (ucast vbn) (ucast sectorCount)"

definition FsRtlLookupMcbEntry ::
  "ulong \<Rightarrow> large_mcb \<Rightarrow> (large_mcb \<times> (ulong \<times> ulong \<times> ulong) option completion) option" where
  "FsRtlLookupMcbEntry vbn M =
     map_option (apsnd (map_completion (map_option
         (\<lambda>r. (small_lbn (LargeLbn r), ucast (LargeSectorCount r), RunIndex r)))))
       (FsRtlLookupLargeMcbEntry (ucast vbn) M)"

definition FsRtlLookupLastMcbEntry :: "large_mcb \<Rightarrow> (large_mcb \<times> (ulong \<times> ulong) option completion) option" where
  "FsRtlLookupLastMcbEntry M =
     map_option (apsnd (map_completion (map_option (\<lambda>(liVbn, liLbn). (ucast liVbn, small_lbn liLbn)))))
       (FsRtlLookupLastLargeMcbEntry M)"

definition FsRtlNumberOfRunsInMcb :: "large_mcb \<Rightarrow> (large_mcb \<times> ulong completion) option" where
  "FsRtlNumberOfRunsInMcb = FsRtlNumberOfRunsInLargeMcb"

definition FsRtlGetNextMcbEntry ::
  "ulong \<Rightarrow> large_mcb \<Rightarrow> (large_mcb \<times> (ulong \<times> ulong \<times> ulong) option completion) option" where
  "FsRtlGetNextMcbEntry runIndex M =
     map_option (apsnd (map_completion (map_option
         (\<lambda>(liVbn, liLbn, liSectorCount). (ucast liVbn, small_lbn liLbn, ucast liSectorCount)))))
       (FsRtlGetNextLargeMcbEntry runIndex M)"

end
