(* ===== verification/Mcb_Runs.thy ===== *)
theory Mcb_Runs
  imports Mcb
begin

text \<open>
  What the mapping pairs of a control block mean: a partial map from virtual to logical sectors. A list of pairs
  is read from an edge, the virtual sector the next run starts at with the logical sector that would continue
  the run before, none after a hole. In a proper list runs are not empty, logical sectors do not run into the
  value for a hole, no hole follows a hole and no run continues the run before; so that the list is determined
  by the map.
\<close>

section \<open>Sectors and edges\<close>

fun sector_at :: "nat \<Rightarrow> MAPPING list \<Rightarrow> nat \<Rightarrow> nat option" where
  "sector_at s [] v = None"
| "sector_at s (p # ps) v =
     (if v < unat (NextVbn p) then if Lbn p = UNUSED_LBN then None else Some (unat (Lbn p) + (v - s))
      else sector_at (unat (NextVbn p)) ps v)"

type_synonym edge = "nat \<times> nat option"

fun run_step :: "edge \<Rightarrow> MAPPING \<Rightarrow> edge option" where
  "run_step (s, c) p =
     (if unat (NextVbn p) \<le> s then None
      else if Lbn p = UNUSED_LBN then if c = None then None else Some (unat (NextVbn p), None)
      else if 0 < unat (Lbn p) \<and> c \<noteq> Some (unat (Lbn p)) \<and> unat (Lbn p) + (unat (NextVbn p) - s) < 2 ^ 32
      then Some (unat (NextVbn p), Some (unat (Lbn p) + (unat (NextVbn p) - s)))
      else None)"

fun runs_to :: "edge \<Rightarrow> MAPPING list \<Rightarrow> edge option" where
  "runs_to e [] = Some e"
| "runs_to e (p # ps) = (case run_step e p of None \<Rightarrow> None | Some e' \<Rightarrow> runs_to e' ps)"

text \<open>A proper list, which does not end with a hole.\<close>

definition runs_from :: "edge \<Rightarrow> MAPPING list \<Rightarrow> bool" where
  "runs_from e ps \<longleftrightarrow> (case runs_to e ps of Some (_, Some _) \<Rightarrow> True | _ \<Rightarrow> False)"

lemma runs_from_Nil [simp]: "runs_from (s, c) [] \<longleftrightarrow> c \<noteq> None"
  by (auto simp: runs_from_def split: option.splits)

lemma runs_from_Cons [simp]:
  "runs_from e (p # ps) \<longleftrightarrow> (case run_step e p of None \<Rightarrow> False | Some e' \<Rightarrow> runs_from e' ps)"
  by (simp add: runs_from_def split: option.splits)

lemma runs_to_append: "runs_to e (xs @ ys) = (case runs_to e xs of None \<Rightarrow> None | Some e' \<Rightarrow> runs_to e' ys)"
  by (induction e xs rule: runs_to.induct) (auto split: option.splits)

lemma runs_from_append:
  "runs_from e (xs @ ys) \<longleftrightarrow> (\<exists>s c. runs_to e xs = Some (s, c) \<and> runs_from (s, c) ys)"
  by (auto simp: runs_from_def runs_to_append split: option.splits)

text \<open>The beginning of a file: no logical sector is 0, so nothing continues there.\<close>

definition proper :: "MAPPING list \<Rightarrow> bool" where
  "proper ps \<longleftrightarrow> runs_from (0, Some 0) ps"

section \<open>Reading a list in parts\<close>

lemma run_step_SomeD:
  assumes "run_step (s, c) p = Some (s', c')"
  shows "s' = unat (NextVbn p)" "s < s'" "s' < 2 ^ 32"
  using assms unsigned_less [of "NextVbn p", where ?'a = nat] by (auto split: if_splits)

lemma runs_to_mono: "runs_to (s, c) xs = Some (s', c') \<Longrightarrow> s + length xs \<le> s'"
proof (induction xs arbitrary: s c)
  case (Cons p ps)
  from Cons.prems obtain t d where "run_step (s, c) p = Some (t, d)" "runs_to (t, d) ps = Some (s', c')"
    by (auto split: option.splits)
  with Cons.IH [of t d] run_step_SomeD(2) [of s c p t d] show ?case by simp
qed simp

lemma runs_to_less: "runs_to (s, c) xs = Some (s', c') \<Longrightarrow> s < 2 ^ 32 \<Longrightarrow> s' < 2 ^ 32"
proof (induction xs arbitrary: s c)
  case (Cons p ps)
  from Cons.prems(1) obtain t d where "run_step (s, c) p = Some (t, d)" "runs_to (t, d) ps = Some (s', c')"
    by (auto split: option.splits)
  with Cons.IH [of t d] run_step_SomeD(3) [of s c p t d] show ?case by simp
qed simp

lemma sector_at_append:
  "runs_to (s, c) xs = Some (s', c') \<Longrightarrow> s \<le> v \<Longrightarrow>
   sector_at s (xs @ ys) v = (if v < s' then sector_at s xs v else sector_at s' ys v)"
proof (induction xs arbitrary: s c)
  case (Cons p ps)
  from Cons.prems(1) obtain t d where *: "run_step (s, c) p = Some (t, d)" "runs_to (t, d) ps = Some (s', c')"
    by (auto split: option.splits)
  have "t = unat (NextVbn p)" using run_step_SomeD(1) [OF *(1)] .
  with Cons.IH [OF *(2)] runs_to_mono [OF *(2)] show ?case by auto
qed simp

lemma sector_at_beyond: "runs_to (s, c) xs = Some (s', c') \<Longrightarrow> s' \<le> v \<Longrightarrow> sector_at s xs v = None"
  using sector_at_append [of s c xs s' c' v "[]"] runs_to_mono [of s c xs s' c'] by simp

lemma unat_Lbn_less: "Lbn p \<noteq> UNUSED_LBN \<Longrightarrow> unat (Lbn p) < 2 ^ 32 - 1"
proof -
  assume "Lbn p \<noteq> UNUSED_LBN"
  then have "unat (Lbn p) \<noteq> unat (- 1 :: ulong)" by (simp add: UNUSED_LBN_def word_unat_eq_iff)
  then have "unat (Lbn p) \<noteq> 2 ^ 32 - 1" by (simp add: unsigned_minus_1_eq_mask mask_eq_exp_minus_1)
  then show ?thesis using unsigned_less [of "Lbn p", where ?'a = nat] by simp
qed

section \<open>A list is determined by its map\<close>

definition joined :: "(nat \<Rightarrow> nat option) \<Rightarrow> nat \<Rightarrow> bool" where
  "joined f v \<longleftrightarrow> f v = map_option Suc (f (v - 1))"

definition breaks :: "(nat \<Rightarrow> nat option) \<Rightarrow> nat set" where
  "breaks f = {v. 0 < v \<and> \<not> joined f v}"

lemma breaks_of_runs:
  assumes "runs_from (s, c) ps"
  shows "{v. s < v \<and> \<not> joined (sector_at s ps) v} = (\<lambda>p. unat (NextVbn p)) ` set ps"
  using assms
proof (induction ps arbitrary: s c)
  case Nil
  show ?case by (simp add: joined_def)
next
  case (Cons p ps)
  from Cons.prems obtain t d where *: "run_step (s, c) p = Some (t, d)" "runs_from (t, d) ps"
    by (auto split: option.splits)
  note step = run_step_SomeD [OF *(1)]
  have inside: "joined (sector_at s (p # ps)) v" if "s < v" "v < t" for v
    using that step by (auto simp: joined_def Suc_diff_le)
  have edge: "\<not> joined (sector_at s (p # ps)) t"
  proof (cases ps)
    case Nil
    with * step show ?thesis by (auto simp: joined_def split: if_splits)
  next
    case (Cons q qs)
    obtain u e where q: "run_step (t, d) q = Some (u, e)" using *(2) Cons by (auto split: option.splits)
    show ?thesis using * step Cons q run_step_SomeD [OF q] by (auto simp: joined_def split: if_splits)
  qed
  have beyond: "joined (sector_at s (p # ps)) v \<longleftrightarrow> joined (sector_at t ps) v" if "t < v" for v
    using that step by (auto simp: joined_def)
  have "{v. s < v \<and> \<not> joined (sector_at s (p # ps)) v} = insert t {v. t < v \<and> \<not> joined (sector_at t ps) v}"
    using inside edge beyond step(2) by (auto simp: not_less) (metis linorder_neqE_nat)+
  then show ?case using Cons.IH [OF *(2)] step(1) by (simp only: list.set image_insert)
qed

lemma runs_sorted: "runs_to (s, c) ps = Some e \<Longrightarrow> sorted_wrt (<) (s # map (\<lambda>p. unat (NextVbn p)) ps)"
proof (induction ps arbitrary: s c)
  case (Cons p ps)
  from Cons.prems obtain t d where *: "run_step (s, c) p = Some (t, d)" "runs_to (t, d) ps = Some e"
    by (auto split: option.splits)
  from Cons.IH [OF *(2)] run_step_SomeD [OF *(1)] show ?case by (auto intro: less_trans)
qed simp

lemma runs_fromD: "runs_from (s, c) ps \<Longrightarrow> \<exists>s' l. runs_to (s, c) ps = Some (s', Some l)"
  by (auto simp: runs_from_def split: option.splits prod.splits)

text \<open>The number of pairs is the number of breaks of the map.\<close>

lemma length_breaks:
  assumes "proper ps"
  shows "finite (breaks (sector_at 0 ps))" and "length ps = card (breaks (sector_at 0 ps))"
proof -
  have b: "breaks (sector_at 0 ps) = set (map (\<lambda>p. unat (NextVbn p)) ps)"
    using breaks_of_runs [of 0 "Some 0" ps] assms by (auto simp: breaks_def proper_def)
  obtain e where "runs_to (0, Some 0) ps = Some e" using assms runs_fromD unfolding proper_def by blast
  then have "distinct (map (\<lambda>p. unat (NextVbn p)) ps)"
    using runs_sorted strict_sorted_iff by fastforce
  then show "finite (breaks (sector_at 0 ps))" "length ps = card (breaks (sector_at 0 ps))"
    by (simp_all only: b distinct_card length_map finite_set)
qed

lemma same_edges_same_runs:
  "\<lbrakk> map NextVbn ps = map NextVbn qs; runs_to (s, c) ps = Some e; runs_to (s, c') qs = Some e';
     \<forall>v \<ge> s. sector_at s ps v = sector_at s qs v \<rbrakk> \<Longrightarrow> ps = qs"
proof (induction ps arbitrary: s c c' qs)
  case (Cons p ps)
  from Cons.prems(1) obtain q qs' where qs: "qs = q # qs'" "NextVbn q = NextVbn p" "map NextVbn ps = map NextVbn qs'"
    by (cases qs) auto
  from Cons.prems(2) obtain t d where p: "run_step (s, c) p = Some (t, d)" "runs_to (t, d) ps = Some e"
    by (auto split: option.splits)
  from Cons.prems(3) obtain t' d' where q: "run_step (s, c') q = Some (t', d')" "runs_to (t', d') qs' = Some e'"
    by (auto simp: qs split: option.splits)
  note sp = run_step_SomeD [OF p(1)] run_step_SomeD [OF q(1)]
  have "sector_at s (p # ps) s = sector_at s (q # qs') s" using Cons.prems(4) by (simp add: qs)
  then have "Lbn p = Lbn q" using sp qs(2) by (auto simp: word_unat_eq_iff split: if_splits)
  then have "p = q" using qs(2) by simp
  moreover have "\<forall>v \<ge> t. sector_at t ps v = sector_at t qs' v"
  proof (intro allI impI)
    fix v assume "t \<le> v"
    with Cons.prems(4) [rule_format, of v] sp qs show "sector_at t ps v = sector_at t qs' v" by simp
  qed
  then have "ps = qs'" using Cons.IH [OF qs(3) p(2), of d'] q(2) sp qs(2) by simp
  ultimately show ?case by (simp add: qs)
qed simp

theorem proper_unique:
  assumes "proper ps" "proper qs" "sector_at 0 ps = sector_at 0 qs"
  shows "ps = qs"
proof -
  let ?n = "\<lambda>p. unat (NextVbn p)"
  obtain e e' where e: "runs_to (0, Some 0) ps = Some e" "runs_to (0, Some 0) qs = Some e'"
    using assms(1,2) runs_fromD unfolding proper_def by blast
  have "set (map ?n ps) = set (map ?n qs)"
    using breaks_of_runs [of 0 "Some 0" ps] breaks_of_runs [of 0 "Some 0" qs] assms by (simp add: proper_def)
  moreover have "sorted_wrt (<) (map ?n ps)" "sorted_wrt (<) (map ?n qs)"
    using runs_sorted [OF e(1)] runs_sorted [OF e(2)] by simp_all
  ultimately have "map ?n ps = map ?n qs" by (simp add: strict_sorted_equal)
  then have "map NextVbn ps = map NextVbn qs"
    by (auto simp: list_eq_iff_nth_eq word_unat_eq_iff)
  then show ?thesis using same_edges_same_runs [of ps qs, OF _ e] assms(3) by simp
qed

declare run_step.simps [simp del]

end
