(* ===== verification/Mcb_Facts.thy ===== *)
theory Mcb_Facts
  imports Mcb_Update Mcb_Runs
begin

text \<open>
  A control block holds a list of pairs when they are what is in use of its buffer. What the macros read of it,
  where the search ends, and what the assignments and the routines on the buffer make of the list.
\<close>

section \<open>The list in the buffer\<close>

definition buffer :: "base_mcb \<Rightarrow> bool" where
  "buffer m \<longleftrightarrow> length (Mapping m) = unat (MaximumPairCount m) \<and> 15 \<le> length (Mapping m) \<and> length (Mapping m) \<le> 2 ^ 31
     \<and> (MappingSource m = FirstMapping \<longleftrightarrow> PoolType m = PagedPool \<and> MaximumPairCount m = INITIAL_MAXIMUM_PAIR_COUNT)"

definition holds :: "base_mcb \<Rightarrow> MAPPING list \<Rightarrow> bool" where
  "holds m ps \<longleftrightarrow> buffer m \<and> unat (PairCount m) = length ps \<and> length ps \<le> length (Mapping m)
     \<and> take (length ps) (Mapping m) = ps"

definition pairs :: "base_mcb \<Rightarrow> MAPPING list" where
  "pairs m = take (unat (PairCount m)) (Mapping m)"

lemma holds_pairs: "holds m ps \<Longrightarrow> pairs m = ps"
  by (simp add: holds_def pairs_def)

lemma holds_nth: "holds m ps \<Longrightarrow> k < length ps \<Longrightarrow> Mapping m ! k = ps ! k"
  unfolding holds_def by (metis nth_take)

lemma holds_length: "holds m ps \<Longrightarrow> length ps \<le> 2 ^ 31"
  by (simp add: holds_def buffer_def)

text \<open>Words that count pairs.\<close>

lemma unat_pred: "0 < unat i \<Longrightarrow> unat (i - 1) = unat i - 1" for i :: "'a::len word"
  using unat_minus_range [of 1 i] by simp

lemma unat_next:
  fixes i :: ulong
  assumes "holds m ps" "unat i \<le> length ps"
  shows "unat (i + 1) = unat i + 1" "unat (i + 2) = unat i + 2"
  using assms holds_length [OF assms(1)] unat_plus_range [of i 1] unat_plus_range [of i 2] by simp_all

section \<open>What the macros read\<close>

text \<open>An index, with the edge that the pairs before it lead to.\<close>

definition edge_at :: "base_mcb \<Rightarrow> ulong \<Rightarrow> MAPPING list \<Rightarrow> MAPPING list \<Rightarrow> nat \<Rightarrow> nat option \<Rightarrow> bool" where
  "edge_at m i xs zs s c \<longleftrightarrow> holds m (xs @ zs) \<and> unat i = length xs \<and> runs_to (0, Some 0) xs = Some (s, c)"

lemma edge_start: "edge_at m 0 xs zs s c \<Longrightarrow> xs = [] \<and> s = 0 \<and> c = Some 0"
  by (auto simp: edge_at_def)

lemma edge_before:
  assumes "edge_at m i xs zs s c" "i \<noteq> 0"
  obtains ws r t d where "xs = ws @ [r]" "edge_at m (i - 1) ws (r # zs) t d" "run_step (t, d) r = Some (s, c)"
    "Mapping m ! unat (i - 1) = r"
proof -
  have ne: "xs \<noteq> []" using assms by (auto simp: edge_at_def word_unat_eq_iff)
  then obtain ws r where xs: "xs = ws @ [r]" by (cases xs rule: rev_cases) auto
  have h: "holds m (ws @ r # zs)" using assms(1) by (simp add: edge_at_def xs)
  have i: "unat (i - 1) = length ws" using assms(1) xs unat_pred [of i] by (simp add: edge_at_def)
  have "Mapping m ! unat (i - 1) = r" using holds_nth [OF h, of "unat (i - 1)"] by (simp add: i)
  moreover obtain t d where *: "runs_to (0, Some 0) ws = Some (t, d)" "run_step (t, d) r = Some (s, c)"
    using assms(1) by (auto simp: edge_at_def xs runs_to_append split: option.splits prod.splits)
  ultimately show thesis using that [of ws r t d] xs h i by (simp add: edge_at_def)
qed

lemma StartingVbn_edge: "edge_at m i xs zs s c \<Longrightarrow> unat (StartingVbn m i) = s"
proof (cases "i = 0")
  case True
  moreover assume "edge_at m i xs zs s c"
  ultimately show ?thesis using edge_start by (auto simp: StartingVbn_def)
next
  case False
  assume "edge_at m i xs zs s c"
  from edge_before [OF this False] obtain r t d
    where "run_step (t, d) r = Some (s, c)" "Mapping m ! unat (i - 1) = r" by metis
  then show ?thesis using run_step_SomeD(1) [of t d r s c] False by (simp add: StartingVbn_def)
qed

lemma PreviousEndingVbn_edge: "PreviousEndingVbn m i + 1 = StartingVbn m i"
  by (simp add: PreviousEndingVbn_def EndingVbn_def StartingVbn_def)

text \<open>The logical end of a run, from the edge it leads to.\<close>

lemma of_nat_less_eq_iff: "l < 2 ^ 32 \<Longrightarrow> (of_nat l = (w :: ulong)) = (l = unat w)"
  using unat_of_nat_range [where 'a = 32, of l] by (auto simp: word_unat_eq_iff)

lemma EndingLbn_run:
  assumes e: "edge_at m i xs (r # zs) t d" and step: "run_step (t, d) r = Some (s, c)"
    and r: "Mapping m ! unat i = r"
  shows "EndingLbn m i + 1 = (case c of None \<Rightarrow> 0 | Some l \<Rightarrow> of_nat l)" (is ?A)
    and "EndingLbn m i = UNUSED_LBN \<longleftrightarrow> c = None" (is ?B)
proof -
  have "?A \<and> ?B"
  proof (cases "Lbn r = UNUSED_LBN")
    case True
    then have "c = None" using step by (auto simp: run_step.simps split: if_splits)
    with True r show ?thesis by (simp add: EndingLbn_def StartingLbn_def UNUSED_LBN_def)
  next
    case False
    let ?l = "unat (Lbn r) + (unat (NextVbn r) - t)"
    have l: "c = Some ?l" "?l < 2 ^ 32" "0 < unat (Lbn r)" "t < unat (NextVbn r)"
      using step False by (auto simp: run_step.simps split: if_splits)
    have "of_nat ?l = Lbn r + (NextVbn r - StartingVbn m i)"
      using l(4) by (simp add: of_nat_diff StartingVbn_edge [OF e, symmetric])
    then have "EndingLbn m i + 1 = of_nat ?l"
      using False by (simp add: EndingLbn_def StartingLbn_def r algebra_simps)
    moreover from this have "EndingLbn m i \<noteq> UNUSED_LBN"
      using of_nat_less_eq_iff [OF l(2), of 0] l(3) by (auto simp: UNUSED_LBN_def)
    ultimately show ?thesis using l(1) by simp
  qed
  then show ?A ?B by simp_all
qed

lemma PreviousEndingLbn_edge:
  assumes e: "edge_at m i xs zs s c"
  shows "PreviousEndingLbn m i + 1 = (case c of None \<Rightarrow> 0 | Some l \<Rightarrow> of_nat l)" (is ?A)
    and "PreviousEndingLbn m i = UNUSED_LBN \<longleftrightarrow> i = 0 \<or> c = None" (is ?B)
proof -
  have "?A \<and> ?B"
  proof (cases "i = 0")
    case True
    then have "c = Some 0" using edge_start [of m xs zs s c] e by simp
    with True show ?thesis by (simp add: PreviousEndingLbn_def UNUSED_LBN_def)
  next
    case False
    from edge_before [OF e this] obtain ws r t d where "edge_at m (i - 1) ws (r # zs) t d"
        "run_step (t, d) r = Some (s, c)" "Mapping m ! unat (i - 1) = r"
      by metis
    from EndingLbn_run [OF this] False show ?thesis by (simp add: PreviousEndingLbn_def)
  qed
  then show ?A ?B by simp_all
qed

text \<open>The pair at the index.\<close>

lemma run_at_edge:
  assumes e: "edge_at m i xs (p # ys) s c"
  shows "Mapping m ! unat i = p" "StartingLbn m i = Lbn p" "EndingVbn m i = NextVbn p - 1"
    and "NextStartingVbn m i = NextVbn p" "i < PairCount m"
    and "NextStartingLbn m i = (case ys of [] \<Rightarrow> UNUSED_LBN | q # _ \<Rightarrow> Lbn q)"
    and "i = PairCount m - 1 \<longleftrightarrow> ys = []"
proof -
  have h: "holds m (xs @ p # ys)" and i: "unat i = length xs" using e by (simp_all add: edge_at_def)
  have pc: "unat (PairCount m) = Suc (length xs + length ys)" using h by (simp add: holds_def)
  have next_i: "unat (i + 1) = Suc (length xs)" using unat_next(1) [OF h] i by simp
  have pred: "unat (PairCount m - 1) = length xs + length ys" using unat_pred [of "PairCount m"] pc by simp
  show p: "Mapping m ! unat i = p" using holds_nth [OF h, of "length xs"] i by simp
  show "StartingLbn m i = Lbn p" "EndingVbn m i = NextVbn p - 1" by (simp_all add: StartingLbn_def EndingVbn_def p)
  show less: "i < PairCount m" by (simp add: word_less_nat_alt i pc)
  have "i + 1 \<noteq> 0" using next_i by (metis nat.distinct(1) unsigned_0)
  then show "NextStartingVbn m i = NextVbn p" using less p leD [of "PairCount m" i] by (auto simp: NextStartingVbn_def StartingVbn_def)
  show "i = PairCount m - 1 \<longleftrightarrow> ys = []" by (auto simp: word_unat_eq_iff pred i)
  show "NextStartingLbn m i = (case ys of [] \<Rightarrow> UNUSED_LBN | q # _ \<Rightarrow> Lbn q)"
  proof (cases ys)
    case Nil
    then show ?thesis using pred i by (simp add: NextStartingLbn_def word_le_nat_alt)
  next
    case (Cons q qs)
    have "Mapping m ! unat (i + 1) = q" using holds_nth [OF h, of "Suc (length xs)"] next_i by (simp add: Cons nth_append)
    then show ?thesis using Cons pred i by (simp add: NextStartingLbn_def word_le_nat_alt StartingLbn_def)
  qed
qed

end
