(* ===== verification/Mcb_Find.thy ===== *)
theory Mcb_Find
  imports Mcb_Facts
begin

text \<open>
  The binary search of \<^verbatim>\<open>FsRtlFindLargeIndex\<close> ends, and finds the run that a sector lies in, if one does.
\<close>

section \<open>Pairs by their number\<close>

definition next_vbn :: "MAPPING list \<Rightarrow> nat \<Rightarrow> nat" where
  "next_vbn ps k = unat (NextVbn (ps ! k))"

definition start_vbn :: "MAPPING list \<Rightarrow> nat \<Rightarrow> nat" where
  "start_vbn ps k = (if k = 0 then 0 else next_vbn ps (k - 1))"

lemma runs_to_take:
  assumes "runs_to (0, Some 0) ps = Some e" "k \<le> length ps"
  obtains c where "runs_to (0, Some 0) (take k ps) = Some (start_vbn ps k, c)"
proof (cases k)
  case 0
  then show thesis using that by (simp add: start_vbn_def)
next
  case (Suc j)
  then have take: "take k ps = take j ps @ [ps ! j]" using assms(2) by (simp add: take_Suc_conv_app_nth)
  have "runs_to (0, Some 0) (take k ps) \<noteq> None"
    using assms(1) runs_to_append [of "(0, Some 0)" "take k ps" "drop k ps"] by (auto split: option.splits)
  then obtain s c where "runs_to (0, Some 0) (take k ps) = Some (s, c)" by auto
  moreover from this have "s = next_vbn ps j"
    using run_step_SomeD(1) by (auto simp: take runs_to_append next_vbn_def split: option.splits)
  ultimately show thesis using that Suc by (simp add: start_vbn_def)
qed

lemma edge_nth:
  assumes "holds m ps" "runs_to (0, Some 0) ps = Some e" "k < length ps"
  obtains c where "edge_at m (of_nat k) (take k ps) (ps ! k # drop (Suc k) ps) (start_vbn ps k) c"
proof -
  obtain c where "runs_to (0, Some 0) (take k ps) = Some (start_vbn ps k, c)"
    using runs_to_take [OF assms(2), of k] assms(3) less_imp_le by blast
  moreover have "unat (of_nat k :: ulong) = k"
    using assms(3) holds_length [OF assms(1)] by (intro unat_of_nat_range) simp
  moreover have "take k ps @ ps ! k # drop (Suc k) ps = ps" by (rule id_take_nth_drop [symmetric, OF assms(3)])
  ultimately show thesis using that assms by (simp add: edge_at_def)
qed

lemma next_vbn_mono:
  assumes "runs_to (0, Some 0) ps = Some e" "j < k" "k < length ps"
  shows "next_vbn ps j < next_vbn ps k"
proof -
  have "sorted_wrt (<) (map (\<lambda>p. unat (NextVbn p)) ps)" using runs_sorted [OF assms(1)] by simp
  from sorted_wrt_nth_less [OF this, of j k] assms(2,3) show ?thesis by (simp add: next_vbn_def)
qed

lemma next_vbn_mono_le:
  assumes "runs_to (0, Some 0) ps = Some e" "j \<le> k" "k < length ps"
  shows "next_vbn ps j \<le> next_vbn ps k"
  using next_vbn_mono [OF assms(1), of j k] assms(2,3) by (cases "j = k") auto

lemma next_le_start:
  assumes "runs_to (0, Some 0) ps = Some e" "j < k" "k < length ps"
  shows "next_vbn ps j \<le> start_vbn ps k"
  using next_vbn_mono_le [OF assms(1), of j "k - 1"] assms(2,3) by (simp add: start_vbn_def)

lemma start_less_next:
  assumes "runs_to (0, Some 0) ps = Some e" "k < length ps"
  shows "start_vbn ps k < next_vbn ps k"
proof (cases k)
  case 0
  then show ?thesis using runs_sorted [OF assms(1)] assms(2) by (cases ps) (auto simp: start_vbn_def next_vbn_def)
next
  case (Suc j)
  then show ?thesis using next_vbn_mono [OF assms(1), of j k] assms(2) by (simp add: start_vbn_def)
qed

section \<open>The loop\<close>

lemma LONG_id: "- (2 ^ 31) \<le> x \<Longrightarrow> x < 2 ^ 31 \<Longrightarrow> LONG x = x"
  unfolding LONG_def by (rule signed_take_bit_int_eq_self) simp_all

lemma middle:
  assumes "0 \<le> lo" "lo \<le> hi" "hi < 2 ^ 30"
  shows "LONG (hi + lo) sdiv 2 = (hi + lo) div 2" "lo \<le> (hi + lo) div 2" "(hi + lo) div 2 \<le> hi"
  using assms LONG_id [of "hi + lo"] by (auto simp: signed_divide_int_def sgn_if)

lemma find_loop:
  assumes m: "holds m ps" "runs_to (0, Some 0) ps = Some e" "length ps \<le> 2 ^ 30"
  shows "\<lbrakk> 0 \<le> lo; hi < int (length ps); - 1 \<le> hi; \<forall>k. int k < lo \<longrightarrow> next_vbn ps k \<le> unat vbn;
           \<forall>k < length ps. hi < int k \<longrightarrow> unat vbn < start_vbn ps k \<rbrakk> \<Longrightarrow>
    (\<exists>k < length ps. find_large_index m vbn lo hi = Some (True, of_nat k)
        \<and> start_vbn ps k \<le> unat vbn \<and> unat vbn < next_vbn ps k)
    \<or> find_large_index m vbn lo hi = Some (False, PairCount m)
        \<and> (\<forall>k < length ps. \<not> (start_vbn ps k \<le> unat vbn \<and> unat vbn < next_vbn ps k))"
proof (induction "nat (hi + 1 - lo)" arbitrary: lo hi rule: less_induct)
  case less
  show ?case
  proof (cases "lo \<le> hi")
    case False
    have "\<not> (start_vbn ps k \<le> unat vbn \<and> unat vbn < next_vbn ps k)" if "k < length ps" for k
      using less.prems(4,5) that False by (cases "int k < lo") auto
    moreover have "find_large_index m vbn lo hi = Some (False, PairCount m)"
      using False by (simp add: find_large_index.simps)
    ultimately show ?thesis by blast
  next
    case True
    define mid where "mid = (hi + lo) div 2"
    have hi: "hi < 2 ^ 30" using less.prems(2) m(3) by simp
    note mid = middle [OF less.prems(1) True hi, folded mid_def]
    obtain k where k: "mid = int k" using mid(2) less.prems(1) zero_le_imp_eq_int by (metis order_trans)
    have kl: "k < length ps" using k mid(3) less.prems(2) by simp
    obtain c where e: "edge_at m (of_nat k) (take k ps) (ps ! k # drop (Suc k) ps) (start_vbn ps k) c"
      using edge_nth [OF m(1,2) kl] .
    have start: "vbn < StartingVbn m (of_nat k) \<longleftrightarrow> unat vbn < start_vbn ps k"
      using StartingVbn_edge [OF e] by (simp add: word_less_nat_alt)
    have "0 < next_vbn ps k" using start_less_next [OF m(2) kl] by simp
    then have ending: "EndingVbn m (of_nat k) < vbn \<longleftrightarrow> next_vbn ps k \<le> unat vbn"
      using run_at_edge(3) [OF e] unat_pred [of "NextVbn (ps ! k)"] by (auto simp: word_less_nat_alt next_vbn_def)
    have step: "find_large_index m vbn lo hi =
        (if unat vbn < start_vbn ps k then find_large_index m vbn lo (mid - 1)
         else if next_vbn ps k \<le> unat vbn then find_large_index m vbn (mid + 1) hi
         else Some (True, of_nat k))"
      using True mid LONG_id [of "mid - 1"] LONG_id [of "mid + 1"] less.prems(1) hi start ending
      by (subst find_large_index.simps) (simp add: Let_def k)
    consider "unat vbn < start_vbn ps k" | "start_vbn ps k \<le> unat vbn" "next_vbn ps k \<le> unat vbn"
      | "start_vbn ps k \<le> unat vbn" "unat vbn < next_vbn ps k" by linarith
    then show ?thesis
    proof cases
      case 1
      have "unat vbn < start_vbn ps j" if "j < length ps" "mid - 1 < int j" for j
        using that 1 next_le_start [OF m(2), of k j] start_less_next [OF m(2) kl] k by (cases "j = k") auto
      then show ?thesis
        using less.hyps [of "mid - 1" lo] less.prems(1,4) True mid(2,3) less.prems(2) 1 step by simp
    next
      case 2
      have "next_vbn ps j \<le> unat vbn" if "int j < mid + 1" for j
        using that 2 next_vbn_mono [OF m(2), of j k] kl k by (cases "j = k") auto
      moreover have "\<not> unat vbn < start_vbn ps k" using 2 by simp
      ultimately show ?thesis
        using less.hyps [of hi "mid + 1"] less.prems(1,2,3,5) True mid(2,3) 2 step by simp
    next
      case 3
      then show ?thesis using step kl by auto
    qed
  qed
qed

section \<open>The run found\<close>

text \<open>The run a sector lies in, with what is before and after it.\<close>

definition located :: "MAPPING list \<Rightarrow> nat \<Rightarrow> MAPPING list \<Rightarrow> MAPPING \<Rightarrow> MAPPING list \<Rightarrow> nat \<Rightarrow> nat option \<Rightarrow> bool" where
  "located ps v xs p ys s c \<longleftrightarrow>
     ps = xs @ p # ys \<and> runs_to (0, Some 0) xs = Some (s, c) \<and> s \<le> v \<and> v < unat (NextVbn p)"

lemma FsRtlFindLargeIndex_cases:
  assumes m: "holds m ps" "runs_to (0, Some 0) ps = Some (t, d)" "length ps \<le> 2 ^ 30"
  obtains (found) i xs p ys s c where "FsRtlFindLargeIndex m vbn = Some (True, i)"
      "located ps (unat vbn) xs p ys s c" "edge_at m i xs (p # ys) s c" "unat vbn < t"
    | (beyond) "FsRtlFindLargeIndex m vbn = Some (False, PairCount m)" "t \<le> unat vbn"
proof -
  have last: "sint (PairCount m - 1) = int (length ps) - 1"
  proof (cases ps)
    case Nil
    then have "PairCount m = 0" using m(1) by (simp add: holds_def word_unat_eq_iff)
    then show ?thesis using Nil by simp
  next
    case Cons
    then have "unat (PairCount m - 1) = length ps - 1" using m(1) unat_pred [of "PairCount m"] by (simp add: holds_def)
    then have "uint (PairCount m - 1) = int (length ps) - 1" using Cons by (simp add: uint_nat)
    moreover have "int (length ps) - 1 < 2 ^ 31" "- (2 ^ 31) \<le> int (length ps) - 1" using m(3) by simp_all
    ultimately show ?thesis by (simp add: sint_uint signed_take_bit_int_eq_self)
  qed
  obtain c' where final: "start_vbn ps (length ps) = t" using runs_to_take [OF m(2) order_refl] m(2) by auto
  from find_loop [OF m, of 0 "int (length ps) - 1" vbn]
  consider (k) k where "k < length ps" "FsRtlFindLargeIndex m vbn = Some (True, of_nat k)"
        "start_vbn ps k \<le> unat vbn" "unat vbn < next_vbn ps k"
    | (no) "FsRtlFindLargeIndex m vbn = Some (False, PairCount m)"
        "\<forall>k < length ps. \<not> (start_vbn ps k \<le> unat vbn \<and> unat vbn < next_vbn ps k)"
    by (auto simp: FsRtlFindLargeIndex_def last)
  then show thesis
  proof cases
    case k
    obtain c where e: "edge_at m (of_nat k) (take k ps) (ps ! k # drop (Suc k) ps) (start_vbn ps k) c"
      using edge_nth [OF m(1,2) k(1)] .
    have "located ps (unat vbn) (take k ps) (ps ! k) (drop (Suc k) ps) (start_vbn ps k) c"
      using e k id_take_nth_drop [OF k(1)] by (simp add: located_def edge_at_def next_vbn_def)
    moreover have "next_vbn ps k \<le> t"
      using final k(1) next_vbn_mono_le [OF m(2), of k "length ps - 1"]
      by (auto simp: start_vbn_def split: if_splits)
    ultimately show thesis using found k e by simp
  next
    case no
    have "start_vbn ps k \<le> unat vbn" if "k \<le> length ps" for k
      using that
    proof (induction k)
      case (Suc j)
      then show ?case using no(2) [rule_format, of j] by (auto simp: start_vbn_def not_less)
    qed (simp add: start_vbn_def)
    with final no(1) show thesis using beyond by blast
  qed
qed

end
