(* ===== verification/Mcb_Buffer.thy ===== *)
theory Mcb_Buffer
  imports Mcb_Find
begin

text \<open>
  What the assignments to pairs, and the routines that open and close gaps between them, make of the list a
  control block holds: rules that are applied one after the other along the branches of the code.
\<close>

section \<open>Results that hold a list\<close>

definition yields :: "base_mcb option \<Rightarrow> MAPPING list \<Rightarrow> bool" where
  "yields r ps \<longleftrightarrow> (\<exists>m. r = Some m \<and> holds m ps)"

lemma yields_Some: "holds m ps \<Longrightarrow> yields (Some m) ps"
  by (simp add: yields_def)

lemma yields_bind: "yields r ps \<Longrightarrow> (\<And>m. holds m ps \<Longrightarrow> yields (g m) qs) \<Longrightarrow> yields (r \<bind> g) qs"
  by (auto simp: yields_def)

text \<open>An allocation raised and nothing has changed, or the value comes back and the list is held.\<close>

definition gives :: "'a mcb_outcome \<Rightarrow> base_mcb \<Rightarrow> 'a \<Rightarrow> MAPPING list \<Rightarrow> bool" where
  "gives r m x ps \<longleftrightarrow> (\<exists>s. r = Some (m, Raised s)) \<or> (\<exists>m'. r = Some (m', Returned x) \<and> holds m' ps)"

lemma gives_returning: "yields r ps \<Longrightarrow> gives (returning x r) m x ps"
  by (auto simp: yields_def gives_def returning_def)

lemma gives_unchanged: "holds m ps \<Longrightarrow> gives (Some (m, Returned x)) m x ps"
  by (simp add: gives_def)

lemma if_returned_simps [simp]:
  "if_returned None f = None" "if_returned (Some (m, Raised s)) f = Some (m, Raised s)"
  "if_returned (Some (m, Returned x)) f = f m x"
  by (simp_all add: if_returned_def)

section \<open>Assignments\<close>

lemma holds_update:
  assumes "holds m ps" "unat i < length ps"
  shows "yields (store_pair i f m) (ps[unat i := f (ps ! unat i)])"
proof -
  have "unat i < length (Mapping m)" using assms by (simp add: holds_def)
  moreover have "holds (m\<lparr>Mapping := (Mapping m)[unat i := f (Mapping m ! unat i)]\<rparr>) (ps[unat i := f (ps ! unat i)])"
    using assms by (simp add: holds_def buffer_def take_update_swap holds_nth [OF assms])
  ultimately show ?thesis by (simp add: yields_def store_pair_def)
qed

lemma store_here:
  assumes "holds m (xs @ p # ys)" "unat i = length xs"
  shows "yields (store_pair i f m) (xs @ f p # ys)"
  using holds_update [OF assms(1), of i f] assms(2) by (simp add: nth_append list_update_append)

lemma store_next:
  assumes "holds m (xs @ q # p # ys)" "unat i = length xs"
  shows "yields (store_pair (i + 1) f m) (xs @ q # f p # ys)"
  using store_here [of m "xs @ [q]" p ys "i + 1" f] unat_next(1) [OF assms(1), of i] assms by simp

lemma store_second:
  assumes "holds m (xs @ q # r # p # ys)" "unat i = length xs"
  shows "yields (store_pair (i + 2) f m) (xs @ q # r # f p # ys)"
  using store_here [of m "xs @ [q, r]" p ys "i + 2" f] unat_next(2) [OF assms(1), of i] assms by simp

lemma store_before:
  assumes "holds m (xs @ p # ys)" "unat i = Suc (length xs)"
  shows "yields (store_pair (i - 1) f m) (xs @ f p # ys)"
  using store_here [OF assms(1), of "i - 1" f] unat_pred [of i] assms(2) by simp

lemmas stores = store_here store_next store_second store_before

lemma set_stores:
  "set_Lbn i lbn m = store_pair i (\<lambda>p. p\<lparr>Lbn := lbn\<rparr>) m"
  "set_NextVbn i vbn m = store_pair i (\<lambda>p. p\<lparr>NextVbn := vbn\<rparr>) m"
  by (simp_all add: set_Lbn_def set_NextVbn_def)

section \<open>Closing a gap\<close>

lemma remove_entry:
  assumes m: "holds m (xs @ zs @ ys)" and w: "unat w = length xs" and n: "unat n = length zs"
  shows "yields (FsRtlRemoveLargeEntry w n m) (xs @ ys)"
proof -
  have len: "length (xs @ zs @ ys) \<le> 2 ^ 31" using holds_length [OF m] .
  have pc: "unat (PairCount m) = length xs + length zs + length ys" using m by (simp add: holds_def)
  have wn: "unat (w + n) = length xs + length zs" using unat_plus_range [of w n] w n len by simp
  have rest: "unat (PairCount m - (w + n)) = length ys" using unat_minus_range [of "w + n" "PairCount m"] wn pc by simp
  have pc': "unat (PairCount m - n) = length xs + length ys" using unat_minus_range [of n "PairCount m"] n pc by simp
  obtain junk where b: "Mapping m = xs @ zs @ ys @ junk"
    using m append_take_drop_id [of "length (xs @ zs @ ys)" "Mapping m"] unfolding holds_def by (metis append.assoc)
  have buf: "buffer m" using m by (simp add: holds_def)
  show ?thesis
  proof (cases "ys = []")
    case True
    then have "FsRtlRemoveLargeEntry w n m = Some (m\<lparr>Mapping := Mapping m, PairCount := PairCount m - n\<rparr>)"
      using wn pc by (simp add: FsRtlRemoveLargeEntry_def word_less_nat_alt)
    with True pc' buf b show ?thesis by (simp add: yields_def holds_def buffer_def)
  next
    case False
    let ?b = "xs @ ys @ drop (length xs + length ys) (Mapping m)"
    have "move_pairs (Mapping m) w (w + n) (PairCount m - (w + n)) = Some ?b"
      by (simp add: move_pairs_def w wn rest b)
    moreover have "w + n < PairCount m" using False wn pc by (simp add: word_less_nat_alt)
    ultimately have "FsRtlRemoveLargeEntry w n m = Some (m\<lparr>Mapping := ?b, PairCount := PairCount m - n\<rparr>)"
      by (simp add: FsRtlRemoveLargeEntry_def)
    moreover have "length ?b = length (Mapping m)" using b by simp
    then have "holds (m\<lparr>Mapping := ?b, PairCount := PairCount m - n\<rparr>) (xs @ ys)"
      using buf pc' b by (simp add: holds_def buffer_def)
    ultimately show ?thesis by (simp add: yields_def)
  qed
qed

section \<open>Opening a gap\<close>

lemma free_mapping_ok: "buffer m \<Longrightarrow> free_mapping m = Some ()"
  by (auto simp: buffer_def free_mapping_def freed_to_first_mappings_def freed_to_pool_def)

lemma enlarge_mapping_ok:
  assumes m: "holds m ps" and pool: "allocates pool" and len: "length ps \<le> 2 ^ 30"
    and small: "unat (MaximumPairCount m) < length ps + 2"
  shows "(\<exists>s. enlarge_mapping pool m = Some (m, Raised s))
    \<or> (\<exists>m'. enlarge_mapping pool m = Some (m', Returned ()) \<and> holds m' ps \<and> length ps + 2 \<le> length (Mapping m')
          \<and> PairCount m' = PairCount m)"
proof -
  define newMax where "newMax = (if MaximumPairCount m < 2048 then MaximumPairCount m * 2 else MaximumPairCount m + 2048)"
  let ?request = "PoolBlock (PoolType m) newMax"
  have max: "15 \<le> unat (MaximumPairCount m)" "length ps \<le> unat (MaximumPairCount m)"
    using m by (simp_all add: holds_def buffer_def)
  have nm: "length ps + 2 \<le> unat newMax \<and> unat newMax \<le> 2 ^ 31 \<and> newMax \<noteq> INITIAL_MAXIMUM_PAIR_COUNT
      \<and> 15 \<le> unat newMax"
  proof (cases "MaximumPairCount m < 2048")
    case True
    then have "unat (MaximumPairCount m) < 2048" by (simp add: word_less_nat_alt)
    then have "unat newMax = unat (MaximumPairCount m) * 2"
      using True unat_times_range [of "MaximumPairCount m" 2] by (simp add: newMax_def)
    then show ?thesis using max small \<open>unat (MaximumPairCount m) < 2048\<close>
      by (auto simp: INITIAL_MAXIMUM_PAIR_COUNT_def)
  next
    case False
    then have "unat newMax = unat (MaximumPairCount m) + 2048"
      using unat_plus_range [of "MaximumPairCount m" 2048] small len by (simp add: newMax_def)
    then show ?thesis using max small len by (auto simp: INITIAL_MAXIMUM_PAIR_COUNT_def)
  qed
  show ?thesis
  proof (cases "pool m ?request")
    case (Inl s)
    then show ?thesis by (simp add: enlarge_mapping_def newMax_def [symmetric] Let_def)
  next
    case (Inr fresh)
    have fresh: "length fresh = unat newMax" using pool Inr by (auto simp: allocates_def)
    let ?b = "ps @ drop (length ps) fresh"
    have "copy_pairs fresh (Mapping m) (PairCount m) = Some ?b"
      using m fresh nm by (simp add: copy_pairs_def holds_def)
    moreover have "free_mapping m = Some ()" using m by (simp add: holds_def free_mapping_ok)
    ultimately have "enlarge_mapping pool m =
        Some (m\<lparr>Mapping := ?b, MappingSource := ?request, MaximumPairCount := newMax\<rparr>, Returned ())"
      using Inr by (simp add: enlarge_mapping_def newMax_def [symmetric] Let_def)
    moreover have "holds (m\<lparr>Mapping := ?b, MappingSource := ?request, MaximumPairCount := newMax\<rparr>) ps"
      using m fresh nm max by (simp add: holds_def buffer_def)
    ultimately show ?thesis using fresh nm by simp
  qed
qed

text \<open>The entries of the gap are whatever was there.\<close>

lemma add_entry:
  assumes m: "holds m (xs @ ys)" and w: "unat w = length xs" and pool: "allocates pool"
    and len: "length (xs @ ys) \<le> 2 ^ 30" and n: "unat n \<le> 2"
  shows "(\<exists>s. FsRtlAddLargeEntry pool m w n = Some (m, Raised s))
    \<or> (\<exists>m' junk. FsRtlAddLargeEntry pool m w n = Some (m', Returned ()) \<and> length junk = unat n
          \<and> holds m' (xs @ junk @ ys))"
proof -
  let ?room = "if MaximumPairCount m < PairCount m + n then enlarge_mapping pool m else Some (m, Returned ())"
  have pc: "unat (PairCount m) = length xs + length ys" using m by (simp add: holds_def)
  have pcn: "unat (PairCount m + n) = length xs + length ys + unat n"
    using unat_plus_range [of "PairCount m" n] pc n len by simp
  have wn: "unat (w + n) = length xs + unat n" using unat_plus_range [of w n] w n len by simp
  have "(\<exists>s. ?room = Some (m, Raised s))
     \<or> (\<exists>m'. ?room = Some (m', Returned ()) \<and> holds m' (xs @ ys) \<and> length (xs @ ys) + unat n \<le> length (Mapping m')
           \<and> PairCount m' = PairCount m)"
  proof (cases "MaximumPairCount m < PairCount m + n")
    case True
    then have "unat (MaximumPairCount m) < length (xs @ ys) + 2" using pcn n by (simp add: word_less_nat_alt)
    from enlarge_mapping_ok [OF m pool len this] True n show ?thesis by auto
  next
    case False
    then have "length (xs @ ys) + unat n \<le> length (Mapping m)"
      using m pcn by (simp add: word_less_nat_alt holds_def buffer_def)
    with False m show ?thesis by simp
  qed
  then show ?thesis
  proof (elim disjE exE conjE)
    fix s assume "?room = Some (m, Raised s)"
    then show ?thesis by (simp add: FsRtlAddLargeEntry_def)
  next
    fix m' assume room: "?room = Some (m', Returned ())" and h: "holds m' (xs @ ys)"
      and fits: "length (xs @ ys) + unat n \<le> length (Mapping m')" and same: "PairCount m' = PairCount m"
    have buf: "buffer m'" using h by (simp add: holds_def)
    obtain tail where b: "Mapping m' = xs @ ys @ tail"
      using h append_take_drop_id [of "length (xs @ ys)" "Mapping m'"] unfolding holds_def by (metis append.assoc)
    have rest: "unat (PairCount m - w) = length ys" using unat_minus_range [of w "PairCount m"] w pc by simp
    let ?junk = "take (unat n) (drop (length xs) (Mapping m'))"
    let ?b = "xs @ ?junk @ ys @ drop (length xs + unat n + length ys) (Mapping m')"
    have junk: "length ?junk = unat n" using fits by simp
    have moved: "(if w < PairCount m then move_pairs (Mapping m') (w + n) w (PairCount m - w) else Some (Mapping m'))
        = Some ?b"
    proof (cases "ys = []")
      case True
      then have "\<not> w < PairCount m" using w pc by (simp add: word_less_nat_alt)
      moreover have "Mapping m' = xs @ drop (length xs) (Mapping m')" using b True by simp
      then have "Mapping m' = ?b"
        using True append_take_drop_id [of "unat n" "drop (length xs) (Mapping m')"] by (simp add: add.commute)
      ultimately show ?thesis by simp
    next
      case False
      then have "w < PairCount m" using w pc by (simp add: word_less_nat_alt)
      moreover have "take (length xs + unat n) (Mapping m') = xs @ ?junk"
        by (simp add: take_add b)
      then have "move_pairs (Mapping m') (w + n) w (PairCount m - w) = Some ?b"
        using fits by (simp add: move_pairs_def w wn rest) (simp add: b)
      ultimately show ?thesis by simp
    qed
    have "holds (m'\<lparr>Mapping := ?b, PairCount := PairCount m + n\<rparr>) (xs @ ?junk @ ys)"
      using buf pcn junk fits by (simp add: holds_def buffer_def)
    moreover have "FsRtlAddLargeEntry pool m w n = Some (m'\<lparr>Mapping := ?b, PairCount := PairCount m + n\<rparr>, Returned ())"
      by (simp only: FsRtlAddLargeEntry_def room if_returned_simps same moved bind.bind_lunit)
    ultimately show ?thesis using junk by blast
  qed
qed

lemma gives_add_entry:
  assumes "holds m (xs @ ys)" "unat w = length xs" "allocates pool" "length (xs @ ys) \<le> 2 ^ 30" "unat n \<le> 2"
    and rest: "\<And>m' junk. length junk = unat n \<Longrightarrow> holds m' (xs @ junk @ ys) \<Longrightarrow> yields (k m') qs"
  shows "gives (if_returned (FsRtlAddLargeEntry pool m w n) (\<lambda>m _. returning x (k m))) m x qs"
  using add_entry [OF assms(1-5)]
proof (elim disjE exE conjE)
  fix m' junk
  assume "FsRtlAddLargeEntry pool m w n = Some (m', Returned ())" "length junk = unat n" "holds m' (xs @ junk @ ys)"
  then show ?thesis using rest [of junk m'] by (auto simp: gives_def returning_def yields_def)
qed (simp add: gives_def)

text \<open>The gaps the code opens.\<close>

lemma gives_add_one:
  assumes "holds m (xs @ ys)" "unat w = length xs" "allocates pool" "length (xs @ ys) \<le> 2 ^ 30"
    and "\<And>m' a. holds m' (xs @ a # ys) \<Longrightarrow> yields (k m') qs"
  shows "gives (if_returned (FsRtlAddLargeEntry pool m w 1) (\<lambda>m _. returning x (k m))) m x qs"
  by (rule gives_add_entry [OF assms(1-4)]) (auto simp: length_Suc_conv assms(5))

lemma gives_add_two:
  assumes "holds m (xs @ ys)" "unat w = length xs" "allocates pool" "length (xs @ ys) \<le> 2 ^ 30"
    and "\<And>m' a b. holds m' (xs @ a # b # ys) \<Longrightarrow> yields (k m') qs"
  shows "gives (if_returned (FsRtlAddLargeEntry pool m w 2) (\<lambda>m _. returning x (k m))) m x qs"
proof (rule gives_add_entry [OF assms(1-4)])
  fix m' junk
  assume "length junk = unat (2 :: ulong)" and h: "holds m' (xs @ junk @ ys)"
  then have "length junk = Suc (Suc 0)" by simp
  then obtain a b where "junk = [a, b]" by (auto simp: length_Suc_conv)
  with h assms(5) [of m' a b] show "yields (k m') qs" by simp
qed simp

section \<open>The groups of assignments that recur\<close>

lemma gives_store:
  "holds m (xs @ p # ys) \<Longrightarrow> unat i = length xs \<Longrightarrow> gives (returning x (store_pair i f m)) m x (xs @ f p # ys)"
  by (intro gives_returning store_here)

lemma gives_store_before:
  "holds m (xs @ p # ys) \<Longrightarrow> unat i = Suc (length xs) \<Longrightarrow>
   gives (returning x (store_pair (i - 1) f m)) m x (xs @ f p # ys)"
  by (intro gives_returning store_before)

lemma both_fields: "p\<lparr>Lbn := l, NextVbn := v\<rparr> = \<lparr>NextVbn = v, Lbn = l\<rparr>"
  by (cases p) simp

lemma yields_pair:
  assumes "holds m (xs @ a # ys)" "unat i = length xs"
  shows "yields (set_Lbn i lbn m \<bind> set_NextVbn i vbn) (xs @ \<lparr>NextVbn = vbn, Lbn = lbn\<rparr> # ys)"
  unfolding set_Lbn_def set_NextVbn_def
proof (rule yields_bind [OF store_here [OF assms]])
  fix m' assume "holds m' (xs @ a\<lparr>Lbn := lbn\<rparr> # ys)"
  from store_here [OF this assms(2), of "\<lambda>p. p\<lparr>NextVbn := vbn\<rparr>"] show "yields (store_pair i (\<lambda>p. p\<lparr>NextVbn := vbn\<rparr>) m')
      (xs @ \<lparr>NextVbn = vbn, Lbn = lbn\<rparr> # ys)" by (simp add: both_fields)
qed

lemma gives_one:
  assumes "holds m (xs @ ys)" "unat i = length xs" "allocates pool" "length (xs @ ys) \<le> 2 ^ 30"
  shows "gives (if_returned (FsRtlAddLargeEntry pool m i 1) (\<lambda>m _.
           returning x (set_Lbn i lbn m \<bind> set_NextVbn i vbn)))
         m x (xs @ \<lparr>NextVbn = vbn, Lbn = lbn\<rparr> # ys)"
  by (rule gives_add_one [OF assms]) (rule yields_pair [OF _ assms(2)])

lemma gives_two:
  assumes "holds m (xs @ ys)" "unat i = length xs" "allocates pool" "length (xs @ ys) \<le> 2 ^ 30"
  shows "gives (if_returned (FsRtlAddLargeEntry pool m i 2) (\<lambda>m _.
           returning x
             (set_Lbn i l m \<bind> set_NextVbn i v \<bind> set_Lbn (i + 1) l' \<bind> set_NextVbn (i + 1) v')))
         m x (xs @ \<lparr>NextVbn = v, Lbn = l\<rparr> # \<lparr>NextVbn = v', Lbn = l'\<rparr> # ys)"
proof (rule gives_add_two [OF assms])
  fix m' a b assume m': "holds m' (xs @ a # b # ys)"
  have "yields (set_Lbn i l m' \<bind> set_NextVbn i v \<bind> (\<lambda>m. set_Lbn (i + 1) l' m \<bind> set_NextVbn (i + 1) v'))
      (xs @ \<lparr>NextVbn = v, Lbn = l\<rparr> # \<lparr>NextVbn = v', Lbn = l'\<rparr> # ys)"
  proof (rule yields_bind [OF yields_pair [OF m' assms(2)]])
    fix m assume m: "holds m (xs @ \<lparr>NextVbn = v, Lbn = l\<rparr> # b # ys)"
    have "unat (i + 1) = length (xs @ [\<lparr>NextVbn = v, Lbn = l\<rparr>])" using unat_next(1) [OF m, of i] assms(2) by simp
    with m yields_pair [of m "xs @ [\<lparr>NextVbn = v, Lbn = l\<rparr>]" b ys "i + 1" l' v']
    show "yields (set_Lbn (i + 1) l' m \<bind> set_NextVbn (i + 1) v')
        (xs @ \<lparr>NextVbn = v, Lbn = l\<rparr> # \<lparr>NextVbn = v', Lbn = l'\<rparr> # ys)" by simp
  qed
  then show "yields (set_Lbn i l m' \<bind> set_NextVbn i v \<bind> set_Lbn (i + 1) l' \<bind> set_NextVbn (i + 1) v')
      (xs @ \<lparr>NextVbn = v, Lbn = l\<rparr> # \<lparr>NextVbn = v', Lbn = l'\<rparr> # ys)"
    by (simp add: bind_assoc)
qed

text \<open>A new pair, and an assignment to the one that moved up.\<close>

lemma gives_one_store:
  assumes "holds m (xs @ p # ys)" "unat i = length xs" "allocates pool" "length (xs @ p # ys) \<le> 2 ^ 30"
  shows "gives (if_returned (FsRtlAddLargeEntry pool m i 1) (\<lambda>m _.
           returning x (set_Lbn i l m \<bind> set_NextVbn i v \<bind> store_pair (i + 1) f)))
         m x (xs @ \<lparr>NextVbn = v, Lbn = l\<rparr> # f p # ys)"
  by (rule gives_add_one [OF assms]) (rule yields_bind [OF yields_pair store_next], assumption, (rule assms(2) | assumption)+)

text \<open>A run broken in two, with a hole between its parts; the last part still has to be set.\<close>

lemma gives_break:
  assumes m: "holds m (xs @ p # ys)" "unat i = length xs" "allocates pool" "length (xs @ p # ys) \<le> 2 ^ 30"
    and rest: "\<And>m'. holds m' (xs @ \<lparr>NextVbn = v, Lbn = Lbn p\<rparr> # \<lparr>NextVbn = v', Lbn = UNUSED_LBN\<rparr> # p # ys) \<Longrightarrow> yields (k m') qs"
  shows "gives (if_returned (FsRtlAddLargeEntry pool m i 2) (\<lambda>m _. returning x
           (set_Lbn i (Lbn (Mapping m ! unat (i + 2))) m \<bind> set_NextVbn i v
            \<bind> set_Lbn (i + 1) UNUSED_LBN \<bind> set_NextVbn (i + 1) v' \<bind> k))) m x qs"
proof (rule gives_add_two [OF m])
  fix m1 b b' assume m1: "holds m1 (xs @ b # b' # p # ys)"
  let ?first = "\<lparr>NextVbn = v, Lbn = Lbn p\<rparr>" and ?hole = "\<lparr>NextVbn = v', Lbn = UNUSED_LBN\<rparr>"
  have "Mapping m1 ! unat (i + 2) = p"
    using holds_nth [OF m1, of "Suc (Suc (length xs))"] unat_next(2) [OF m1, of i] m(2) by (simp add: nth_append)
  then have first: "yields (set_Lbn i (Lbn (Mapping m1 ! unat (i + 2))) m1 \<bind> set_NextVbn i v) (xs @ ?first # b' # p # ys)"
    using yields_pair [OF m1 m(2)] by simp
  have hole: "yields (set_Lbn (i + 1) UNUSED_LBN m2 \<bind> set_NextVbn (i + 1) v') (xs @ ?first # ?hole # p # ys)"
    if m2: "holds m2 (xs @ ?first # b' # p # ys)" for m2
  proof -
    have "unat (i + 1) = length (xs @ [?first])" using unat_next(1) [OF m2, of i] m(2) by simp
    with yields_pair [of m2 "xs @ [?first]" b' "p # ys" "i + 1" UNUSED_LBN v'] m2 show ?thesis by simp
  qed
  have "yields (set_Lbn i (Lbn (Mapping m1 ! unat (i + 2))) m1 \<bind> set_NextVbn i v
      \<bind> (\<lambda>m. set_Lbn (i + 1) UNUSED_LBN m \<bind> set_NextVbn (i + 1) v') \<bind> k) qs"
    by (rule yields_bind [OF yields_bind [OF first hole] rest])
  then show "yields (set_Lbn i (Lbn (Mapping m1 ! unat (i + 2))) m1 \<bind> set_NextVbn i v
      \<bind> set_Lbn (i + 1) UNUSED_LBN \<bind> set_NextVbn (i + 1) v' \<bind> k) qs"
    by (simp only: bind_assoc)
qed

end
