(* ===== verification/Mcb_Raise.thy ===== *)
theory Mcb_Raise
  imports Mcb_Lookup Mcb_Buffer
begin

text \<open>
  The status an operation raises is one that the allocator raised: with an allocator that always has memory every
  operation returns.
\<close>

definition raised_by :: "allocator \<Rightarrow> ntstatus \<Rightarrow> bool" where
  "raised_by pool s \<longleftrightarrow> (\<exists>m request. pool m request = Inl s)"

definition raises_from :: "allocator \<Rightarrow> 'a mcb_outcome \<Rightarrow> bool" where
  "raises_from pool r \<longleftrightarrow> (\<forall>m s. r = Some (m, Raised s) \<longrightarrow> raised_by pool s)"

named_theorems raises \<open>operations that raise what the allocator raised\<close>

lemma raises_returned [raises]: "raises_from pool (Some (m, Returned x))" "raises_from pool None"
  by (simp_all add: raises_from_def)

lemma raises_returning [raises]: "raises_from pool (returning x r)"
  by (auto simp: raises_from_def returning_def)

lemma raises_if_returned [raises]:
  "raises_from pool r \<Longrightarrow> (\<And>m x. raises_from pool (f m x)) \<Longrightarrow> raises_from pool (if_returned r f)"
proof (cases r)
  case (Some a)
  obtain m c where a: "a = (m, c)" by (cases a)
  assume "raises_from pool r" "\<And>m x. raises_from pool (f m x)"
  then show ?thesis by (cases c) (simp_all add: Some a raises_from_def if_returned_def)
qed (simp add: raises_from_def if_returned_def)

lemma raises_bind [raises]: "(\<And>x. raises_from pool (f x)) \<Longrightarrow> raises_from pool (r \<bind> f)"
  by (auto simp: raises_from_def bind_eq_Some_conv)

lemma raises_if [raises]:
  "(c \<Longrightarrow> raises_from pool a) \<Longrightarrow> (\<not> c \<Longrightarrow> raises_from pool b) \<Longrightarrow> raises_from pool (if c then a else b)"
  by simp

lemma raises_enlarge [raises]: "raises_from pool (enlarge_mapping pool m)"
  by (auto simp: raises_from_def enlarge_mapping_def Let_def raised_by_def bind_eq_Some_conv split: sum.splits)

lemma raises_add_large [raises]: "raises_from pool (FsRtlAddLargeEntry pool m i n)"
  unfolding FsRtlAddLargeEntry_def by (intro raises)

lemma raises_append_run [raises]: "raises_from pool (append_run pool m i vbn lbn count)"
  unfolding append_run_def by (intro raises)

lemma raises_fill_hole [raises]: "raises_from pool (fill_hole pool m i vbn lbn count)"
  unfolding fill_hole_def Let_def by (intro raises)

lemma raises_insert_run [raises]: "raises_from pool (insert_run pool m vbn lbn count)"
  unfolding insert_run_def split_beta by (intro raises)

lemma raises_add [raises]: "raises_from pool (FsRtlAddBaseMcbEntry pool m vbn lbn count)"
  unfolding FsRtlAddBaseMcbEntry_def by (rule raises_bind) (auto intro: raises split: request.split)

lemma raises_split_run [raises]: "raises_from pool (split_run pool m i vbn amount)"
  unfolding split_run_def by (intro raises)

lemma raises_split [raises]: "raises_from pool (FsRtlSplitBaseMcb pool m vbn amount)"
  unfolding FsRtlSplitBaseMcb_def Let_def split_beta
  by (intro raises)

lemma raises_remove_turn [raises]: "raises_from pool (remove_turn pool m i vbn count)"
  unfolding remove_turn_def remove_first_part_def remove_last_part_def remove_middle_def Let_def
  by (intro raises)

lemma raises_remove_range [raises]: "raises_from pool (remove_range pool vbn count m)"
proof -
  have "snd r = Raised s \<longrightarrow> raised_by pool s" if "remove_range pool vbn count m = Some r" for r s
  proof (rule remove_range.raw_induct [OF _ that, where P = "\<lambda>pool _ _ _ r. snd r = Raised s \<longrightarrow> raised_by pool s"])
    fix self pool vbn count m and r :: "base_mcb \<times> unit completion"
    assume later: "\<And>pool vbn count m r. self pool vbn count m = Some r \<Longrightarrow> snd r = Raised s \<longrightarrow> raised_by pool s"
      and this_turn: "(if 0 < count then FsRtlFindLargeIndex m (word_of_int vbn) \<bind> (\<lambda>found.
        if \<not> fst found then Some (m, Returned ())
        else remove_turn pool m (snd found) vbn count \<bind> (\<lambda>turn. case turn of
            (m, Returned left) \<Rightarrow> self pool (fst left) (snd left) m
          | (m, Raised status) \<Rightarrow> Some (m, Raised status)))
      else Some (m, Returned ())) = Some r"
    show "snd r = Raised s \<longrightarrow> raised_by pool s"
    proof (cases "0 < count")
      case True
      then obtain found where found: "(if \<not> fst found then Some (m, Returned ())
          else remove_turn pool m (snd found) vbn count \<bind> (\<lambda>turn. case turn of
            (m, Raised status) \<Rightarrow> Some (m, Raised status)
          | (m, Returned left) \<Rightarrow> self pool (fst left) (snd left) m)) = Some r"
        using this_turn by (auto simp: bind_eq_Some_conv)
      show ?thesis
      proof (cases "fst found")
        case True
        then obtain m1 c where turn: "remove_turn pool m (snd found) vbn count = Some (m1, c)"
          and rest: "(case c of Raised status \<Rightarrow> Some (m1, Raised status)
                     | Returned left \<Rightarrow> self pool (fst left) (snd left) m1) = Some r"
          using found by (auto simp: bind_eq_Some_conv)
        show ?thesis
        proof (cases c)
          case (Returned left)
          then show ?thesis using rest later [of pool] by simp
        next
          case (Raised status)
          then show ?thesis using rest turn raises_remove_turn [of pool m "snd found" vbn count]
            by (auto simp: raises_from_def)
        qed
      qed (use found in auto)
    qed (use this_turn in auto)
  qed
  then show ?thesis by (fastforce simp: raises_from_def)
qed

lemma raises_remove [raises]: "raises_from pool (FsRtlRemoveBaseMcbEntry pool m vbn count)"
  unfolding FsRtlRemoveBaseMcbEntry_def by (intro raises)

end
