(* ===== verification/Mcb_Insert.thy ===== *)
theory Mcb_Insert
  imports Mcb_Buffer
begin

text \<open>
  The second half of \<^verbatim>\<open>FsRtlAddBaseMcbEntry\<close>: a run of sectors of which none is mapped is inserted, in every
  case of where it lies, and the list stays proper.
\<close>

section \<open>Maps\<close>

definition run_map :: "nat \<Rightarrow> nat \<Rightarrow> nat \<Rightarrow> nat \<Rightarrow> nat option" where
  "run_map v l n x = (if v \<le> x \<and> x < v + n then Some (l + (x - v)) else None)"

text \<open>Replacing the end of a list, from an edge.\<close>

lemma proper_append: "runs_to (0, Some 0) xs = Some (s, c) \<Longrightarrow> proper (xs @ zs) \<longleftrightarrow> runs_from (s, c) zs"
  by (simp add: proper_def runs_from_append)

lemma insert_patch:
  assumes xs: "runs_to (0, Some 0) xs = Some (s, c)" and s: "s \<le> v" and zs: "runs_from (s, c) zs'"
    and map: "\<And>x. s \<le> x \<Longrightarrow>
      sector_at s zs' x = (if v \<le> x \<and> x < v + n then Some (l + (x - v)) else sector_at s zs x)"
  shows "proper (xs @ zs') \<and> sector_at 0 (xs @ zs') = sector_at 0 (xs @ zs) ++ run_map v l n"
proof
  show "proper (xs @ zs')" using zs by (simp add: proper_append [OF xs])
  show "sector_at 0 (xs @ zs') = sector_at 0 (xs @ zs) ++ run_map v l n"
  proof
    fix x
    show "sector_at 0 (xs @ zs') x = (sector_at 0 (xs @ zs) ++ run_map v l n) x"
    proof (cases "x < s")
      case True
      then show ?thesis using s by (simp add: sector_at_append [OF xs] run_map_def map_add_def)
    next
      case False
      then show ?thesis using map [of x] by (simp add: sector_at_append [OF xs] run_map_def map_add_def)
    qed
  qed
qed

text \<open>The head of a proper list may be read from another edge at the same place.\<close>

lemma hole_step: "run_step (s, c) p = Some e \<Longrightarrow> Lbn p = UNUSED_LBN \<Longrightarrow> c \<noteq> None \<and> e = (unat (NextVbn p), None)"
  by (auto simp: run_step.simps split: if_splits)

lemma run_step_run:
  "run_step (s, c) p = Some e \<Longrightarrow> Lbn p \<noteq> UNUSED_LBN \<Longrightarrow>
   0 < unat (Lbn p) \<and> c \<noteq> Some (unat (Lbn p)) \<and> unat (Lbn p) + (unat (NextVbn p) - s) < 2 ^ 32
   \<and> e = (unat (NextVbn p), Some (unat (Lbn p) + (unat (NextVbn p) - s)))"
  by (auto simp: run_step.simps split: if_splits)

text \<open>After a hole comes a run.\<close>

lemma after_hole:
  assumes "runs_from (s, None) ys"
  obtains q qs where "ys = q # qs" "Lbn q \<noteq> UNUSED_LBN" "0 < unat (Lbn q)" "s < unat (NextVbn q)"
    "unat (Lbn q) + (unat (NextVbn q) - s) < 2 ^ 32"
    "runs_from (unat (NextVbn q), Some (unat (Lbn q) + (unat (NextVbn q) - s))) qs"
proof (cases ys)
  case Nil
  then show thesis using assms by simp
next
  case (Cons q qs)
  obtain e where e: "run_step (s, None) q = Some e" "runs_from e qs" using assms Cons by (auto split: option.splits)
  then have "Lbn q \<noteq> UNUSED_LBN" by (auto simp: run_step.simps split: if_splits)
  from run_step_run [OF e(1) this] show thesis
    using that [OF Cons \<open>Lbn q \<noteq> UNUSED_LBN\<close>] e run_step_SomeD(2) [of s None q "fst e" "snd e"] by auto
qed

section \<open>After the last pair\<close>

lemma unat_UNUSED_LBN: "unat UNUSED_LBN = 2 ^ 32 - 1"
  by (simp add: UNUSED_LBN_def unsigned_minus_1_eq_mask mask_eq_exp_minus_1)

lemma lbn_used: "unat lbn + n < 2 ^ 32 \<Longrightarrow> 0 < n \<Longrightarrow> lbn \<noteq> UNUSED_LBN"
  using unat_UNUSED_LBN by auto

text \<open>What every insertion is given.\<close>

definition new_run :: "base_mcb \<Rightarrow> MAPPING list \<Rightarrow> allocator \<Rightarrow> ulong \<Rightarrow> ulong \<Rightarrow> ulong \<Rightarrow> bool" where
  "new_run m ps pool vbn lbn count \<longleftrightarrow>
     holds m ps \<and> proper ps \<and> length ps \<le> 2 ^ 30 \<and> allocates pool \<and> 0 < unat count
     \<and> unat vbn + unat count < 2 ^ 32 \<and> 0 < unat lbn \<and> unat lbn + unat count < 2 ^ 32"

lemma new_runD:
  assumes "new_run m ps pool vbn lbn count"
  shows "holds m ps" "proper ps" "length ps \<le> 2 ^ 30" "allocates pool" "0 < unat count"
    "unat vbn + unat count < 2 ^ 32" "0 < unat lbn" "unat lbn + unat count < 2 ^ 32"
    "unat (vbn + count) = unat vbn + unat count" "unat (lbn + count) = unat lbn + unat count"
    "unat (vbn + count - 1) = unat vbn + unat count - 1" "lbn \<noteq> UNUSED_LBN"
proof -
  note d = assms [unfolded new_run_def]
  then show "holds m ps" "proper ps" "length ps \<le> 2 ^ 30" "allocates pool" "0 < unat count"
    "unat vbn + unat count < 2 ^ 32" "0 < unat lbn" "unat lbn + unat count < 2 ^ 32" by simp_all
  show vc: "unat (vbn + count) = unat vbn + unat count" using d by (intro unat_plus_range) simp
  show "unat (lbn + count) = unat lbn + unat count" using d by (intro unat_plus_range) simp
  show "unat (vbn + count - 1) = unat vbn + unat count - 1" using d vc unat_pred [of "vbn + count"] by simp
  show "lbn \<noteq> UNUSED_LBN" using d lbn_used by blast
qed

definition inserts :: "bool mcb_outcome \<Rightarrow> base_mcb \<Rightarrow> MAPPING list \<Rightarrow> ulong \<Rightarrow> ulong \<Rightarrow> ulong \<Rightarrow> bool" where
  "inserts r m ps vbn lbn count \<longleftrightarrow>
     (\<exists>qs. gives r m True qs \<and> proper qs
        \<and> sector_at 0 qs = sector_at 0 ps ++ run_map (unat vbn) (unat lbn) (unat count))"

text \<open>A new run goes on from the run before.\<close>

lemma edge_lbn_less:
  assumes "edge_at m i xs zs s (Some l)"
  shows "l < 2 ^ 32"
proof (cases "i = 0")
  case False
  from edge_before [OF assms this] obtain r t d where "run_step (t, d) r = Some (s, Some l)" by metis
  then show ?thesis by (auto simp: run_step.simps split: if_splits)
next
  case True
  then show ?thesis using edge_start [of m xs zs s "Some l"] assms by simp
qed

lemma follows_edge:
  assumes "edge_at m i xs zs s (Some l)"
  shows "PreviousEndingLbn m i + 1 = lbn \<longleftrightarrow> unat lbn = l"
  using PreviousEndingLbn_edge(1) [OF assms] of_nat_less_eq_iff [OF edge_lbn_less [OF assms], of lbn] by auto

lemma append_run_ok:
  assumes new: "new_run m ps pool vbn lbn count" and ps: "runs_to (0, Some 0) ps = Some (t, c)" and t: "t \<le> unat vbn"
  shows "inserts (append_run pool m (PairCount m) vbn lbn count) m ps vbn lbn count"
proof -
  note n = new_runD [OF new]
  obtain l where c: "c = Some l" using n(2) ps by (auto simp: proper_def runs_from_def split: option.splits)
  have e: "edge_at m (PairCount m) ps [] t c" using n(1) ps by (simp add: edge_at_def holds_def)
  have start: "PreviousEndingVbn m (PairCount m) + 1 = vbn \<longleftrightarrow> unat vbn = t"
    using StartingVbn_edge [OF e] by (auto simp: PreviousEndingVbn_edge word_unat_eq_iff)
  note follows = follows_edge [OF e [unfolded c]]
  have h: "holds m (ps @ [])" and pc: "unat (PairCount m) = length ps" using n(1) by (simp_all add: holds_def)
  have len: "length (ps @ []) \<le> 2 ^ 30" using n(3) by simp
  consider (extend) "PairCount m \<noteq> 0" "unat vbn = t" "unat lbn = l"
    | (adjoin) "\<not> (PairCount m \<noteq> 0 \<and> unat vbn = t \<and> unat lbn = l)" "unat vbn = t"
    | (apart) "t < unat vbn" using t by linarith
  then show ?thesis
  proof cases
    case extend
    obtain ws r t' d where ws: "ps = ws @ [r]" "edge_at m (PairCount m - 1) ws [r] t' d" "run_step (t', d) r = Some (t, c)"
      using edge_before [OF e extend(1)] by metis
    let ?r = "r\<lparr>NextVbn := NextVbn r + count\<rparr>"
    have next_r: "unat (NextVbn r) = t" using run_step_SomeD(1) [OF ws(3)] by simp
    then have next_r': "unat (NextVbn ?r) = t + unat count"
      using n(6) extend(2) unat_plus_range [of "NextVbn r" count] by simp
    have used: "Lbn r \<noteq> UNUSED_LBN" using ws(3) c hole_step by fastforce
    note r = run_step_run [OF ws(3) used, unfolded c, simplified]
    have h': "holds m (ws @ r # [])" "unat (PairCount m - 1) = length ws" "runs_to (0, Some 0) ws = Some (t', d)"
      using ws(2) by (simp_all add: edge_at_def)
    have "gives (append_run pool m (PairCount m) vbn lbn count) m True (ws @ [?r])"
      using extend start follows gives_store [OF h'(1,2)] by (simp add: append_run_def)
    moreover have "proper (ws @ [?r]) \<and> sector_at 0 (ws @ [?r])
        = sector_at 0 (ws @ [r]) ++ run_map (unat vbn) (unat lbn) (unat count)"
    proof (rule insert_patch [OF h'(3)])
      show "t' \<le> unat vbn" using run_step_SomeD(2) [OF ws(3)] extend(2) by simp
      show "runs_from (t', d) [?r]"
        using r used n(8) extend next_r next_r' run_step_SomeD(2) [OF ws(3)] by (simp add: run_step.simps)
      fix x assume "t' \<le> x"
      then show "sector_at t' [?r] x = (if unat vbn \<le> x \<and> x < unat vbn + unat count
          then Some (unat lbn + (x - unat vbn)) else sector_at t' [r] x)"
        using r used extend next_r next_r' run_step_SomeD(2) [OF ws(3)] by auto
    qed
    ultimately show ?thesis unfolding inserts_def ws(1) by blast
  next
    case adjoin
    let ?q = "\<lparr>NextVbn = vbn + count, Lbn = lbn\<rparr>"
    have "gives (append_run pool m (PairCount m) vbn lbn count) m True (ps @ [?q])"
      using adjoin start follows gives_one [OF h pc n(4) len] by (auto simp: append_run_def)
    moreover have "proper (ps @ [?q]) \<and> sector_at 0 (ps @ [?q])
        = sector_at 0 (ps @ []) ++ run_map (unat vbn) (unat lbn) (unat count)"
    proof (rule insert_patch [OF ps])
      have "unat lbn \<noteq> l"
        using adjoin edge_start [of m ps "[]" t c] e n(7) c by (cases "PairCount m = 0") auto
      then show "runs_from (t, c) [?q]" using n adjoin c by (simp add: run_step.simps)
    qed (use n adjoin in auto)
    ultimately show ?thesis unfolding inserts_def by auto
  next
    case apart
    let ?h = "\<lparr>NextVbn = vbn, Lbn = UNUSED_LBN\<rparr>" and ?q = "\<lparr>NextVbn = vbn + count, Lbn = lbn\<rparr>"
    have "gives (append_run pool m (PairCount m) vbn lbn count) m True (ps @ [?h, ?q])"
      using apart start gives_two [OF h pc n(4) len] by (auto simp: append_run_def)
    moreover have "proper (ps @ [?h, ?q]) \<and> sector_at 0 (ps @ [?h, ?q])
        = sector_at 0 (ps @ []) ++ run_map (unat vbn) (unat lbn) (unat count)"
    proof (rule insert_patch [OF ps])
      show "runs_from (t, c) [?h, ?q]" using n apart c by (simp add: run_step.simps)
    qed (use n apart in auto)
    ultimately show ?thesis unfolding inserts_def by auto
  qed
qed

section \<open>Into a hole\<close>

text \<open>What the branches of \<^verbatim>\<open>fill_hole\<close> test, as facts on numbers.\<close>

lemma hole_tests:
  assumes new: "new_run m ps pool vbn lbn count"
    and e: "edge_at m i xs (p # q # qs) s (Some l)" and step: "s < unat (NextVbn p)"
  shows "StartingVbn m i \<le> vbn \<longleftrightarrow> s \<le> unat vbn" "StartingVbn m i < vbn \<longleftrightarrow> s < unat vbn"
    and "StartingVbn m i = vbn \<longleftrightarrow> unat vbn = s"
    and "vbn + count - 1 \<le> EndingVbn m i \<longleftrightarrow> unat vbn + unat count \<le> unat (NextVbn p)"
    and "vbn + count - 1 < EndingVbn m i \<longleftrightarrow> unat vbn + unat count < unat (NextVbn p)"
    and "vbn + count - 1 = EndingVbn m i \<longleftrightarrow> unat vbn + unat count = unat (NextVbn p)"
    and "NextStartingLbn m i = lbn + count \<longleftrightarrow> unat (Lbn q) = unat lbn + unat count"
    and "PreviousEndingLbn m i + 1 = lbn \<longleftrightarrow> unat lbn = l"
proof -
  note n = new_runD [OF new]
  have s: "unat (StartingVbn m i) = s" by (rule StartingVbn_edge [OF e])
  have en: "unat (EndingVbn m i) = unat (NextVbn p) - 1"
    using run_at_edge(3) [OF e] unat_pred [of "NextVbn p"] step by simp
  show "StartingVbn m i \<le> vbn \<longleftrightarrow> s \<le> unat vbn" "StartingVbn m i < vbn \<longleftrightarrow> s < unat vbn"
    "StartingVbn m i = vbn \<longleftrightarrow> unat vbn = s"
    using s by (auto simp: word_le_nat_alt word_less_nat_alt word_unat_eq_iff)
  show "vbn + count - 1 \<le> EndingVbn m i \<longleftrightarrow> unat vbn + unat count \<le> unat (NextVbn p)"
    "vbn + count - 1 < EndingVbn m i \<longleftrightarrow> unat vbn + unat count < unat (NextVbn p)"
    "vbn + count - 1 = EndingVbn m i \<longleftrightarrow> unat vbn + unat count = unat (NextVbn p)"
    using n(5,11) en step unfolding word_le_nat_alt word_less_nat_alt word_unat_eq_iff by auto
  show "NextStartingLbn m i = lbn + count \<longleftrightarrow> unat (Lbn q) = unat lbn + unat count"
    using run_at_edge(6) [OF e] n(10) by (simp add: word_unat_eq_iff)
  show "PreviousEndingLbn m i + 1 = lbn \<longleftrightarrow> unat lbn = l" by (rule follows_edge [OF e])
qed

lemma fill_hole_ok:
  assumes new: "new_run m ps pool vbn lbn count"
    and loc: "located ps (unat vbn) xs p ys s c" and e: "edge_at m i xs (p # ys) s c"
    and hole: "Lbn p = UNUSED_LBN" and fits: "unat vbn + unat count \<le> unat (NextVbn p)"
  shows "inserts (fill_hole pool m i vbn lbn count) m ps vbn lbn count"
proof -
  note n = new_runD [OF new]
  note loc' = loc [unfolded located_def]
  define v k N where "v = unat vbn" and "k = unat count" and "N = unat (NextVbn p)"
  have xs: "runs_to (0, Some 0) xs = Some (s, c)" and sv: "s \<le> v" and vN: "v + k \<le> N" and ps: "ps = xs @ p # ys"
    using loc' fits by (simp_all add: v_def k_def N_def)
  have "runs_from (s, c) (p # ys)" using n(2) proper_append [OF xs] ps by blast
  then obtain l where c: "c = Some l" and ys: "runs_from (N, None) ys"
    using hole by (auto simp: run_step.simps N_def split: if_splits)
  obtain q qs where q: "ys = q # qs" "Lbn q \<noteq> UNUSED_LBN" "0 < unat (Lbn q)" "N < unat (NextVbn q)"
      "unat (Lbn q) + (unat (NextVbn q) - N) < 2 ^ 32"
      "runs_from (unat (NextVbn q), Some (unat (Lbn q) + (unat (NextVbn q) - N))) qs"
    by (rule after_hole [OF ys])
  have nm: "0 < k" "0 < unat lbn" "unat lbn + k < 2 ^ 32" "lbn \<noteq> UNUSED_LBN" "unat (vbn + count) = v + k"
      "s < N"
    using n sv vN by (simp_all add: v_def k_def)
  note test = hole_tests [OF new e [unfolded q(1) c] nm(6) [unfolded N_def], folded v_def k_def N_def]
  have h: "holds m (xs @ p # q # qs)" and i: "unat i = length xs" and len: "length (xs @ p # q # qs) \<le> 2 ^ 30"
    using n(1,3) e ps q(1) by (simp_all add: edge_at_def)
  have entry: "fill_hole pool m i vbn lbn count = fill_hole pool m i vbn lbn count
      \<and> StartingLbn m i = UNUSED_LBN" using run_at_edge(2) [OF e] hole by simp
  have before: "xs \<noteq> []" if "unat lbn = l"
    using that c xs nm(2) by auto
  have patch: "inserts r m ps vbn lbn count"
    if "gives r m True (xs @ zs')" "runs_from (s, c) zs'"
      "\<And>x. s \<le> x \<Longrightarrow> sector_at s zs' x
        = (if v \<le> x \<and> x < v + k then Some (unat lbn + (x - v)) else sector_at s (p # q # qs) x)" for r zs'
    using insert_patch [OF xs sv that(2,3)] that(1) by (auto simp: inserts_def ps q(1) v_def k_def)
  have patch_last: "inserts r m ps vbn lbn count"
    if "unat lbn = l" "s = v"
      and "\<And>ws w. xs = ws @ [w] \<Longrightarrow> unat i = Suc (length ws) \<Longrightarrow> unat (NextVbn w) = v
        \<Longrightarrow> gives r m True (ws @ w\<lparr>NextVbn := u\<rparr> # zs')"
      and "v < unat u" "unat lbn + (unat u - v) < 2 ^ 32"
      and "runs_from (unat u, Some (unat lbn + (unat u - v))) zs'"
      and "\<And>x. unat u \<le> x \<Longrightarrow> sector_at (unat u) zs' x
        = (if v \<le> x \<and> x < v + k then Some (unat lbn + (x - v)) else sector_at s (p # q # qs) x)"
      and "\<And>x. v + k \<le> x \<Longrightarrow> x < unat u \<Longrightarrow> Some (unat lbn + (x - v)) = sector_at s (p # q # qs) x"
      and "v + k \<le> unat u" for r u zs'
  proof -
    have "i \<noteq> 0" using before [OF that(1)] i by auto
    from edge_before [OF e this] obtain ws w t d where w: "xs = ws @ [w]" "edge_at m (i - 1) ws (w # p # ys) t d"
        "run_step (t, d) w = Some (s, c)" by metis
    have used: "Lbn w \<noteq> UNUSED_LBN" using w(3) c hole_step by fastforce
    note step = run_step_run [OF w(3) used] run_step_SomeD [OF w(3)]
    have ws: "runs_to (0, Some 0) ws = Some (t, d)" using w(2) by (simp add: edge_at_def)
    have g: "gives r m True (ws @ w\<lparr>NextVbn := u\<rparr> # zs')" using that(2,3) w i step by simp
    have "proper (ws @ w\<lparr>NextVbn := u\<rparr> # zs') \<and> sector_at 0 (ws @ w\<lparr>NextVbn := u\<rparr> # zs')
        = sector_at 0 (ws @ w # p # q # qs) ++ run_map v (unat lbn) k"
    proof (rule insert_patch [OF ws])
      show "t \<le> v" using step sv by simp
      have "unat (Lbn w) + (unat u - t) = unat lbn + (unat u - v)" using step c that(1,2,4) by simp
      then show "runs_from (t, d) (w\<lparr>NextVbn := u\<rparr> # zs')"
        using step used that(2,4-6) by (simp add: run_step.simps)
      fix x assume "t \<le> x"
      have "unat (Lbn w) + (x - t) = unat lbn + (x - v)" if "v \<le> x"
        using step c \<open>unat lbn = l\<close> \<open>s = v\<close> that by simp
      then show "sector_at t (w\<lparr>NextVbn := u\<rparr> # zs') x = (if v \<le> x \<and> x < v + k then Some (unat lbn + (x - v))
          else sector_at t (w # p # q # qs) x)"
        using used step that(2,4,7,8,9) by (cases "x < unat u") auto
    qed
    then show ?thesis using g w(1) by (auto simp: inserts_def ps q(1) v_def k_def)
  qed
  let ?run = "\<lparr>NextVbn = vbn + count, Lbn = lbn\<rparr>" and ?hole = "\<lparr>NextVbn = vbn, Lbn = UNUSED_LBN\<rparr>"
  have fill: "fill_hole pool m i vbn lbn count = r \<Longrightarrow> inserts r m ps vbn lbn count \<Longrightarrow> ?thesis" for r by simp
  have to_end: "unat lbn + unat (NextVbn p) - unat vbn = unat lbn + k" if "v + k = N"
    using that by (simp add: v_def N_def)
  consider (both) "s < v" "v + k < N" | (rear) "s = v" "v + k < N" | (front) "s < v" "v + k = N"
    | (none) "s = v" "v + k = N" using sv vN by linarith
  then show ?thesis
  proof cases
    case both
    have "gives (fill_hole pool m i vbn lbn count) m True (xs @ ?hole # ?run # p # q # qs)"
      using gives_two [OF h i n(4) len] both entry by (auto simp: fill_hole_def test Let_def)
    then show ?thesis
    proof (rule patch)
      show "runs_from (s, c) (?hole # ?run # p # q # qs)"
        using both nm hole c q by (simp add: run_step.simps v_def N_def)
    qed (use both nm hole in \<open>auto simp: v_def N_def\<close>)
  next
    case rear
    show ?thesis
    proof (cases "unat lbn = l")
      case True
      have code: "fill_hole pool m i vbn lbn count =
          returning True (store_pair (i - 1) (\<lambda>p. p\<lparr>NextVbn := NextVbn p + count\<rparr>) m)"
        using rear True entry by (auto simp: fill_hole_def test Let_def)
      show ?thesis
      proof (rule patch_last [OF True rear(1), where u = "vbn + count" and zs' = "p # q # qs"])
        fix ws w assume w: "xs = ws @ [w]" "unat i = Suc (length ws)" "unat (NextVbn w) = v"
        then have "NextVbn w = vbn" by (simp add: v_def word_unat_eq_iff)
        then show "gives (fill_hole pool m i vbn lbn count) m True (ws @ w\<lparr>NextVbn := vbn + count\<rparr> # p # q # qs)"
          using gives_store_before [of m ws w "p # q # qs" i True "\<lambda>p. p\<lparr>NextVbn := NextVbn p + count\<rparr>"] h w
          by (simp add: code)
      qed (use nm hole q rear in \<open>auto simp: run_step.simps N_def\<close>)
    next
      case False
      have "gives (fill_hole pool m i vbn lbn count) m True (xs @ ?run # p # q # qs)"
        using gives_one [OF h i n(4) len] rear False entry by (auto simp: fill_hole_def test Let_def)
      then show ?thesis
      proof (rule patch)
        show "runs_from (s, c) (?run # p # q # qs)"
          using rear False nm hole c q by (simp add: run_step.simps v_def N_def)
      qed (use rear nm hole in \<open>auto simp: v_def N_def\<close>)
    qed
  next
    case front
    show ?thesis
    proof (cases "unat (Lbn q) = unat lbn + k")
      case True
      have stored: "yields (set_NextVbn i vbn m \<bind> set_Lbn (i + 1) lbn) (xs @ p\<lparr>NextVbn := vbn\<rparr> # q\<lparr>Lbn := lbn\<rparr> # qs)"
        unfolding set_NextVbn_def set_Lbn_def
        by (rule yields_bind [OF store_here [OF h i]]) (rule store_next [OF _ i])
      have "gives (fill_hole pool m i vbn lbn count) m True (xs @ p\<lparr>NextVbn := vbn\<rparr> # q\<lparr>Lbn := lbn\<rparr> # qs)"
        using front True entry stored by (auto simp: fill_hole_def test Let_def gives_returning)
      then show ?thesis
      proof (rule patch)
        have "unat lbn + (unat (NextVbn q) - v) = unat (Lbn q) + (unat (NextVbn q) - N)"
          using True front q(4) by simp
        then show "runs_from (s, c) (p\<lparr>NextVbn := vbn\<rparr> # q\<lparr>Lbn := lbn\<rparr> # qs)"
          using front nm hole c q by (simp add: run_step.simps v_def)
      qed (use front True nm hole q in \<open>auto simp: v_def N_def\<close>)
    next
      case False
      have "gives (fill_hole pool m i vbn lbn count) m True (xs @ ?hole # p\<lparr>Lbn := lbn\<rparr> # q # qs)"
        using gives_one_store [OF h i n(4) len] front False entry
        by (auto simp: fill_hole_def test Let_def set_Lbn_def [of "i + 1"])
      then show ?thesis
      proof (rule patch)
        show "runs_from (s, c) (?hole # p\<lparr>Lbn := lbn\<rparr> # q # qs)"
          using front False nm hole c q to_end [OF front(2)] by (simp add: run_step.simps v_def N_def)
      qed (use front nm hole in \<open>auto simp: v_def N_def\<close>)
    qed
  next
    case none
    have next_q: "unat lbn + (unat (NextVbn q) - v) = unat (Lbn q) + (unat (NextVbn q) - N)"
      if "unat (Lbn q) = unat lbn + k" using that none q(4) by simp
    consider (join) "unat lbn = l" "unat (Lbn q) = unat lbn + k" | (follow) "unat lbn \<noteq> l" "unat (Lbn q) = unat lbn + k"
      | (continue) "unat lbn = l" "unat (Lbn q) \<noteq> unat lbn + k" | (alone) "unat lbn \<noteq> l" "unat (Lbn q) \<noteq> unat lbn + k"
      by blast
    then show ?thesis
    proof cases
      case join
      have code: "fill_hole pool m i vbn lbn count = returning True
          (set_NextVbn (i - 1) (NextVbn (Mapping m ! unat (i + 1))) m \<bind> FsRtlRemoveLargeEntry i 2)"
        using none join entry by (auto simp: fill_hole_def test Let_def)
      have "unat (i + 1) = Suc (length xs)" using unat_next(1) [OF h, of i] i by simp
      then have nq: "Mapping m ! unat (i + 1) = q" using holds_nth [OF h, of "Suc (length xs)"] by (simp add: nth_append)
      show ?thesis
      proof (rule patch_last [OF join(1) none(1), where u = "NextVbn q" and zs' = qs])
        fix ws w assume w: "xs = ws @ [w]" "unat i = Suc (length ws)"
        have "yields (set_NextVbn (i - 1) (NextVbn q) m \<bind> FsRtlRemoveLargeEntry i 2) ((ws @ [w\<lparr>NextVbn := NextVbn q\<rparr>]) @ qs)"
          unfolding set_NextVbn_def
        proof (rule yields_bind [OF store_before])
          show "holds m (ws @ w # p # q # qs)" using h w by simp
          fix m' assume "holds m' (ws @ w\<lparr>NextVbn := NextVbn q\<rparr> # p # q # qs)"
          then show "yields (FsRtlRemoveLargeEntry i 2 m') ((ws @ [w\<lparr>NextVbn := NextVbn q\<rparr>]) @ qs)"
            using remove_entry [of m' "ws @ [w\<lparr>NextVbn := NextVbn q\<rparr>]" "[p, q]" qs i 2] w by simp
        qed (use w in simp)
        then show "gives (fill_hole pool m i vbn lbn count) m True (ws @ w\<lparr>NextVbn := NextVbn q\<rparr> # qs)"
          by (simp add: code nq gives_returning)
      qed (use next_q [OF join(2)] join none nm q hole in \<open>auto simp: N_def\<close>)
    next
      case follow
      have "yields (set_Lbn (i + 1) lbn m \<bind> FsRtlRemoveLargeEntry i 1) (xs @ q\<lparr>Lbn := lbn\<rparr> # qs)"
        unfolding set_Lbn_def
      proof (rule yields_bind [OF store_next [OF h i]])
        fix m' assume "holds m' (xs @ p # q\<lparr>Lbn := lbn\<rparr> # qs)"
        then show "yields (FsRtlRemoveLargeEntry i 1 m') (xs @ q\<lparr>Lbn := lbn\<rparr> # qs)"
          using remove_entry [of m' xs "[p]" _ i 1] i by simp
      qed
      then have "gives (fill_hole pool m i vbn lbn count) m True (xs @ q\<lparr>Lbn := lbn\<rparr> # qs)"
        using none follow entry by (auto simp: fill_hole_def test Let_def gives_returning)
      then show ?thesis
      proof (rule patch)
        show "runs_from (s, c) (q\<lparr>Lbn := lbn\<rparr> # qs)"
          using none follow next_q nm c q by (simp add: run_step.simps)
      qed (use none follow nm hole q in \<open>auto simp: N_def\<close>)
    next
      case continue
      have code: "fill_hole pool m i vbn lbn count = returning True
          (set_NextVbn (i - 1) (NextVbn (Mapping m ! unat i)) m \<bind> FsRtlRemoveLargeEntry i 1)"
        using none continue entry by (auto simp: fill_hole_def test Let_def)
      have np: "Mapping m ! unat i = p" by (rule run_at_edge(1) [OF e])
      show ?thesis
      proof (rule patch_last [OF continue(1) none(1), where u = "NextVbn p" and zs' = "q # qs"])
        fix ws w assume w: "xs = ws @ [w]" "unat i = Suc (length ws)"
        have "yields (set_NextVbn (i - 1) (NextVbn p) m \<bind> FsRtlRemoveLargeEntry i 1)
            ((ws @ [w\<lparr>NextVbn := NextVbn p\<rparr>]) @ q # qs)"
          unfolding set_NextVbn_def
        proof (rule yields_bind [OF store_before])
          show "holds m (ws @ w # p # q # qs)" using h w by simp
          fix m' assume "holds m' (ws @ w\<lparr>NextVbn := NextVbn p\<rparr> # p # q # qs)"
          then show "yields (FsRtlRemoveLargeEntry i 1 m') ((ws @ [w\<lparr>NextVbn := NextVbn p\<rparr>]) @ q # qs)"
            using remove_entry [of m' "ws @ [w\<lparr>NextVbn := NextVbn p\<rparr>]" "[p]" "q # qs" i 1] w by simp
        qed (use w in simp)
        then show "gives (fill_hole pool m i vbn lbn count) m True (ws @ w\<lparr>NextVbn := NextVbn p\<rparr> # q # qs)"
          by (simp add: code np gives_returning)
      qed (use continue none nm q hole in \<open>auto simp: run_step.simps N_def\<close>)
    next
      case alone
      have "gives (fill_hole pool m i vbn lbn count) m True (xs @ p\<lparr>Lbn := lbn\<rparr> # q # qs)"
        using none alone entry gives_store [OF h i] by (auto simp: fill_hole_def test Let_def set_Lbn_def)
      then show ?thesis
      proof (rule patch)
        show "runs_from (s, c) (p\<lparr>Lbn := lbn\<rparr> # q # qs)"
          using none alone nm c q to_end [OF none(2)] by (simp add: run_step.simps v_def N_def)
      qed (use none nm hole in \<open>auto simp: N_def\<close>)
    qed
  qed
qed

end
