(* ===== verification/Mcb_Add.thy ===== *)
theory Mcb_Add
  imports Mcb_Insert
begin

text \<open>
  \<^verbatim>\<open>FsRtlAddBaseMcbEntry\<close> as an operation on maps: exactly when a run can be added, and what the map is after.
\<close>

section \<open>What a map says of the sectors of a run\<close>

lemma located_run:
  assumes "located ps v xs p ys s c" "Lbn p \<noteq> UNUSED_LBN" "s \<le> x" "x < unat (NextVbn p)"
  shows "sector_at 0 ps x = Some (unat (Lbn p) + (x - s))"
  using assms by (auto simp: located_def sector_at_append)

lemma located_hole:
  assumes "located ps v xs p ys s c" "Lbn p = UNUSED_LBN" "s \<le> x" "x < unat (NextVbn p)"
  shows "sector_at 0 ps x = None"
  using assms by (auto simp: located_def sector_at_append)

lemma located_next:
  assumes "located ps v xs p ys s c" "unat (NextVbn p) \<le> x" and "proper ps"
  shows "sector_at 0 ps x = sector_at (unat (NextVbn p)) ys x"
proof -
  have "runs_from (s, c) (p # ys)" using assms proper_append by (auto simp: located_def)
  then obtain s' c' where "run_step (s, c) p = Some (s', c')" by (auto split: option.splits)
  then have "s < unat (NextVbn p)" using run_step_SomeD [of s c p s' c'] by simp
  then show ?thesis using assms by (auto simp: located_def sector_at_append)
qed

text \<open>At the end of a run the map does not go on.\<close>

lemma break_after:
  assumes "located ps v xs p ys s c" and "proper ps"
  shows "\<not> joined (sector_at 0 ps) (unat (NextVbn p))"
proof -
  have "unat (NextVbn p) \<in> (\<lambda>p. unat (NextVbn p)) ` set ps" using assms(1) by (auto simp: located_def)
  then show ?thesis using breaks_of_runs [of 0 "Some 0" ps] assms(2) by (auto simp: proper_def)
qed

lemma beyond_unmapped: "runs_to (0, Some 0) ps = Some (t, c) \<Longrightarrow> t \<le> x \<Longrightarrow> sector_at 0 ps x = None"
  by (rule sector_at_beyond)

text \<open>The run of a sector is the only one.\<close>

lemma located_order:
  assumes "located ps v xs p ys s c" "located ps v' xs' p' ys' s' c'" "length xs < length xs'"
  shows "unat (NextVbn p) \<le> s'"
proof -
  have "xs @ p # ys = xs' @ p' # ys'" using assms by (simp add: located_def)
  then obtain us where us: "xs' = xs @ us" "p # ys = us @ p' # ys'" "us \<noteq> []"
    using assms(3) by (auto simp: append_eq_append_conv2)
  then obtain zs where zs: "xs' = xs @ p # zs" by (cases us) auto
  have "runs_to (0, Some 0) (xs @ p # zs) = Some (s', c')" using assms(2) by (simp add: located_def zs)
  then obtain t d where "run_step (s, c) p = Some (t, d)" "runs_to (t, d) zs = Some (s', c')"
    using assms(1) by (auto simp: located_def runs_to_append split: option.splits)
  then show ?thesis using run_step_SomeD(1) runs_to_mono by fastforce
qed

lemma located_end:
  assumes "located ps v xs p ys s c" "runs_to (0, Some 0) ps = Some (t, d)"
  shows "unat (NextVbn p) \<le> t"
proof -
  obtain s' c' where "run_step (s, c) p = Some (s', c')" "runs_to (s', c') ys = Some (t, d)"
    using assms by (auto simp: located_def runs_to_append split: option.splits)
  then show ?thesis using run_step_SomeD(1) runs_to_mono by fastforce
qed

lemma located_unique:
  assumes "located ps v xs p ys s c" "located ps v' xs' p' ys' s' c'" "s \<le> v'" "v' < unat (NextVbn p)"
  shows "xs' = xs \<and> p' = p \<and> ys' = ys \<and> s' = s \<and> c' = c"
proof -
  have "s' \<le> v'" "v' < unat (NextVbn p')" using assms(2) by (simp_all add: located_def)
  then have "length xs = length xs'"
    using located_order [OF assms(1,2)] located_order [OF assms(2,1)] assms(3,4) by (metis leD le_less_trans less_le_trans linorder_neqE_nat)
  then show ?thesis using assms(1,2) by (auto simp: located_def)
qed

lemma located_after:
  assumes "located ps v xs p (q # qs) s c" "proper ps" "unat (NextVbn p) \<le> x" "x < unat (NextVbn q)"
  obtains d where "run_step (s, c) p = Some (unat (NextVbn p), d)"
    "located ps x (xs @ [p]) q qs (unat (NextVbn p)) d"
proof -
  have "runs_from (s, c) (p # q # qs)" using assms(1,2) proper_append by (auto simp: located_def)
  then obtain t d where step: "run_step (s, c) p = Some (t, d)" by (auto split: option.splits)
  then have "t = unat (NextVbn p)" by (rule run_step_SomeD)
  with step show thesis using that [of d] assms by (simp add: located_def runs_to_append)
qed

section \<open>Inserting or refusing\<close>

lemma insert_run_ok:
  assumes new: "new_run m ps pool vbn lbn count"
  shows "(\<forall>x. unat vbn \<le> x \<and> x < unat vbn + unat count \<longrightarrow> sector_at 0 ps x = None)
           \<and> inserts (insert_run pool m vbn lbn count) m ps vbn lbn count
    \<or> \<not> (\<forall>x. unat vbn \<le> x \<and> x < unat vbn + unat count \<longrightarrow> sector_at 0 ps x = None)
           \<and> insert_run pool m vbn lbn count = Some (m, Returned False)"
proof -
  note n = new_runD [OF new]
  obtain t l where ps: "runs_to (0, Some 0) ps = Some (t, Some l)" using n(2) runs_fromD unfolding proper_def by blast
  have e: "edge_at m (PairCount m) ps [] t (Some l)" using n(1) ps by (simp add: edge_at_def holds_def)
  have "PreviousEndingVbn m (PairCount m) + 1 \<le> vbn \<longleftrightarrow> t \<le> unat vbn"
    using StartingVbn_edge [OF e] by (simp add: PreviousEndingVbn_edge word_le_nat_alt)
  moreover have "PairCount m = 0 \<Longrightarrow> t = 0" using edge_start [of m ps "[]" t "Some l"] e by simp
  ultimately have first: "insert_run pool m vbn lbn count =
      (if t \<le> unat vbn then append_run pool m (PairCount m) vbn lbn count
       else FsRtlFindLargeIndex m vbn \<bind> (\<lambda>(found, index).
         if found then fill_hole pool m index vbn lbn count else append_run pool m index vbn lbn count))"
    by (auto simp: insert_run_def)
  show ?thesis
  proof (cases "t \<le> unat vbn")
    case True
    then have "inserts (insert_run pool m vbn lbn count) m ps vbn lbn count"
      using append_run_ok [OF new ps] first by simp
    moreover have "\<forall>x. unat vbn \<le> x \<and> x < unat vbn + unat count \<longrightarrow> sector_at 0 ps x = None"
      using True beyond_unmapped [OF ps] by auto
    ultimately show ?thesis by blast
  next
    case False
    obtain i xs p ys s c where i: "FsRtlFindLargeIndex m vbn = Some (True, i)"
        "located ps (unat vbn) xs p ys s c" "edge_at m i xs (p # ys) s c"
      by (rule FsRtlFindLargeIndex_cases [OF n(1) ps n(3), of vbn]) (use False in auto)
    then have code: "insert_run pool m vbn lbn count = fill_hole pool m i vbn lbn count" using first False by simp
    have sv: "s \<le> unat vbn" "unat vbn < unat (NextVbn p)" using i(2) by (simp_all add: located_def)
    show ?thesis
    proof (cases "Lbn p = UNUSED_LBN")
      case used: False
      have "fill_hole pool m i vbn lbn count = Some (m, Returned False)"
        using used run_at_edge(2) [OF i(3)] by (simp add: fill_hole_def Let_def)
      moreover have "sector_at 0 ps (unat vbn) \<noteq> None" using located_run [OF i(2) used] sv by simp
      ultimately show ?thesis using code n(5) by auto
    next
      case hole: True
      have "runs_from (s, c) (p # ys)" using i(2) n(2) proper_append by (auto simp: located_def)
      then obtain d where c: "c = Some d" and ys: "runs_from (unat (NextVbn p), None) ys"
        using hole by (auto simp: run_step.simps split: if_splits)
      obtain q qs where q: "ys = q # qs" "Lbn q \<noteq> UNUSED_LBN" "unat (NextVbn p) < unat (NextVbn q)"
        by (rule after_hole [OF ys])
      have at_q: "sector_at 0 ps (unat (NextVbn p)) \<noteq> None"
        using located_next [OF i(2) order_refl n(2)] q by simp
      show ?thesis
      proof (cases "unat vbn + unat count \<le> unat (NextVbn p)")
        case True
        then have "\<forall>x. unat vbn \<le> x \<and> x < unat vbn + unat count \<longrightarrow> sector_at 0 ps x = None"
          using located_hole [OF i(2) hole] sv by auto
        then show ?thesis using fill_hole_ok [OF new i(2,3) hole True] code by simp
      next
        case over: False
        have "s < unat (NextVbn p)" using sv by simp
        note test = hole_tests(4) [OF new i(3) [unfolded q(1) c] this]
        have "fill_hole pool m i vbn lbn count = Some (m, Returned False)"
          using over test by (simp add: fill_hole_def Let_def)
        moreover have "\<not> (\<forall>x. unat vbn \<le> x \<and> x < unat vbn + unat count \<longrightarrow> sector_at 0 ps x = None)"
          using at_q sv over by (metis linorder_not_le less_imp_le)
        ultimately show ?thesis using code by simp
      qed
    qed
  qed
qed

section \<open>When a run can be added\<close>

text \<open>
  The sectors that are mapped already agree with the run, and are its beginning, or its end, or all of it, or
  none.
\<close>

definition agrees :: "(nat \<Rightarrow> nat option) \<Rightarrow> nat \<Rightarrow> nat \<Rightarrow> nat \<Rightarrow> bool" where
  "agrees f v l n \<longleftrightarrow> (\<forall>x. v \<le> x \<and> x < v + n \<longrightarrow> f x = None \<or> f x = Some (l + (x - v)))"

definition addable :: "(nat \<Rightarrow> nat option) \<Rightarrow> nat \<Rightarrow> nat \<Rightarrow> nat \<Rightarrow> bool" where
  "addable f v l n \<longleftrightarrow> agrees f v l n
     \<and> ((\<exists>j. \<forall>x. v \<le> x \<and> x < v + n \<longrightarrow> (f x \<noteq> None \<longleftrightarrow> x < j))
        \<or> (\<exists>j. \<forall>x. v \<le> x \<and> x < v + n \<longrightarrow> (f x \<noteq> None \<longleftrightarrow> j \<le> x)))"

text \<open>Two mapped sectors of an added run with no hole between them are in one run.\<close>

lemma agrees_joined:
  assumes "agrees f v l n" "v < x" "x < v + n" "f (x - 1) \<noteq> None" "f x \<noteq> None"
  shows "joined f x"
proof -
  have "v \<le> x - 1 \<and> x - 1 < v + n" using assms(2,3) by auto
  then have "f (x - 1) = Some (l + (x - 1 - v))" "f x = Some (l + (x - v))"
    using assms(1) [unfolded agrees_def, rule_format, of "x - 1"] assms(1) [unfolded agrees_def, rule_format, of x]
      assms(2-5) by auto
  then show ?thesis using assms(2) by (simp add: joined_def)
qed

text \<open>The result and the map after, as the code has them.\<close>

definition adds :: "bool mcb_outcome \<Rightarrow> base_mcb \<Rightarrow> MAPPING list \<Rightarrow> nat \<Rightarrow> nat \<Rightarrow> nat \<Rightarrow> bool" where
  "adds r m ps v l n \<longleftrightarrow>
     (\<exists>qs. gives r m (addable (sector_at 0 ps) v l n) qs \<and> proper qs
        \<and> sector_at 0 qs =
            (if addable (sector_at 0 ps) v l n then sector_at 0 ps ++ run_map v l n else sector_at 0 ps))"

lemma adds_refused:
  assumes "new_run m ps pool vbn lbn count" "\<not> addable (sector_at 0 ps) v l n"
  shows "adds (Some (m, Returned False)) m ps v l n"
  using assms new_runD(1,2) [OF assms(1)] gives_unchanged by (auto simp: adds_def intro!: exI [of _ ps])

lemma adds_inserted:
  assumes "inserts r m ps vbn lbn count" "addable (sector_at 0 ps) v l n"
    and "sector_at 0 ps ++ run_map (unat vbn) (unat lbn) (unat count) = sector_at 0 ps ++ run_map v l n"
  shows "adds r m ps v l n"
  using assms by (auto simp: adds_def inserts_def)

section \<open>FsRtlAddBaseMcbEntry\<close>

lemma run_map_same:
  assumes "\<And>x. v \<le> x \<Longrightarrow> x < v + n \<Longrightarrow> f x = Some (l + (x - v))"
  shows "f ++ run_map v l n = f"
  using assms by (auto simp: map_add_def run_map_def fun_eq_iff)

lemma run_map_rest:
  assumes "v \<le> j" "j \<le> v + n" and "\<And>x. v \<le> x \<Longrightarrow> x < j \<Longrightarrow> f x = Some (l + (x - v))"
  shows "f ++ run_map j (l + (j - v)) (v + n - j) = f ++ run_map v l n"
  using assms by (auto simp: map_add_def run_map_def fun_eq_iff)

lemma run_map_front:
  assumes "v \<le> j" "j \<le> v + n" and "\<And>x. j \<le> x \<Longrightarrow> x < v + n \<Longrightarrow> f x = Some (l + (x - v))"
  shows "f ++ run_map v l (j - v) = f ++ run_map v l n"
  using assms by (auto simp: map_add_def run_map_def fun_eq_iff)

text \<open>The first sector of the new run lies in a run.\<close>

lemma add_in_run:
  assumes new: "new_run m ps pool vbn lbn count" and found: "FsRtlFindLargeIndex m vbn = Some (True, i)"
    and loc: "located ps (unat vbn) xs p ys s c" and e: "edge_at m i xs (p # ys) s c" and used: "Lbn p \<noteq> UNUSED_LBN"
    and args: "ucast largeVbn = vbn" "ucast largeLbn = lbn" "ucast largeSectorCount = count"
  shows "adds (FsRtlAddBaseMcbEntry pool m largeVbn largeLbn largeSectorCount) m ps (unat vbn) (unat lbn) (unat count)"
proof -
  note n = new_runD [OF new]
  define v l k N where "v = unat vbn" and "l = unat lbn" and "k = unat count" and "N = unat (NextVbn p)"
  let ?f = "sector_at 0 ps"
  have sv: "s \<le> v" "v < N" using loc by (simp_all add: located_def v_def N_def)
  have f: "?f x = Some (unat (Lbn p) + (x - s))" if "s \<le> x" "x < N" for x
    using located_run [OF loc used] that by (simp add: N_def)
  have "runs_from (s, c) (p # ys)" using loc n(2) proper_append by (auto simp: located_def)
  then obtain s' c' where step: "run_step (s, c) p = Some (s', c')" by (auto split: option.splits)
  note p = run_step_run [OF step used]
  have start: "unat (StartingVbn m i) = s" by (rule StartingVbn_edge [OF e])
  have "unat (vbn - StartingVbn m i) = v - s" using unat_minus_range [of "StartingVbn m i" vbn] start sv by (simp add: v_def)
  moreover have "unat (Lbn p) + (N - s) < 2 ^ 32" using p by (simp add: N_def)
  then have within: "unat (Lbn p) + (v - s) < 2 ^ 32" using sv by linarith
  ultimately have line: "unat (Lbn p + (vbn - StartingVbn m i)) = unat (Lbn p) + (v - s)"
    using unat_plus_range [of "Lbn p" "vbn - StartingVbn m i"] within p by simp
  have en: "unat (EndingVbn m i) = N - 1" using run_at_edge(3) [OF e] unat_pred [of "NextVbn p"] sv by (simp add: N_def)
  have code: "FsRtlAddBaseMcbEntry pool m largeVbn largeLbn largeSectorCount =
      (if lbn \<noteq> Lbn p + (vbn - StartingVbn m i) then Some (m, Returned False)
       else if vbn + count - 1 \<le> EndingVbn m i then Some (m, Returned True)
       else insert_run pool m (NextVbn p) (EndingLbn m i + 1) (vbn + count - 1 - NextVbn p + 1))"
    using used run_at_edge(2,4) [OF e]
    by (simp add: FsRtlAddBaseMcbEntry_def args trim_request_def found Let_def)
  show ?thesis
  proof (cases "lbn = Lbn p + (vbn - StartingVbn m i)")
    case False
    then have "l \<noteq> unat (Lbn p) + (v - s)" using line by (auto simp: l_def word_unat_eq_iff)
    then have "\<not> addable ?f v l k" using f [of v] sv n(5) by (auto simp: addable_def agrees_def k_def)
    then show ?thesis using False code adds_refused [OF new] by (simp add: v_def l_def k_def)
  next
    case True
    then have l: "l = unat (Lbn p) + (v - s)" using line by (simp add: l_def)
    then have f': "?f x = Some (l + (x - v))" if "v \<le> x" "x < N" for x using f [of x] that sv by simp
    show ?thesis
    proof (cases "v + k \<le> N")
      case within: True
      then have "vbn + count - 1 \<le> EndingVbn m i" using en n(11) by (simp add: word_le_nat_alt v_def k_def)
      moreover have "addable ?f v l k" using f' within
        by (auto simp: addable_def agrees_def intro!: exI [of _ "v + k"])
      moreover have "?f ++ run_map v l k = ?f" using f' within by (intro run_map_same) simp
      ultimately show ?thesis
        using code True gives_unchanged [OF n(1), of True] n(2) by (auto simp: adds_def v_def l_def k_def)
    next
      case over: False
      define rc el where "rc = vbn + count - 1 - NextVbn p + 1" and "el = EndingLbn m i + 1"
      have nlbn: "unat el = l + (N - v)"
      proof -
        have "el = of_nat (unat (Lbn p) + (N - s))"
          using EndingLbn_run(1) [OF e step run_at_edge(1) [OF e]] p by (simp add: N_def el_def)
        then show ?thesis using of_nat_less_eq_iff [of "unat (Lbn p) + (N - s)" el] p l sv
          by (simp add: N_def)
      qed
      have nk: "unat rc = v + k - N"
      proof -
        have "rc = (vbn + count) - NextVbn p" by (simp add: rc_def)
        also have "unat \<dots> = v + k - N"
          using unat_minus_range [of "NextVbn p" "vbn + count"] over n(9) by (simp add: v_def k_def N_def)
        finally show ?thesis .
      qed
      have new': "new_run m ps pool (NextVbn p) el rc"
        using n over sv nlbn nk by (simp add: new_run_def v_def k_def l_def N_def)
      have "\<not> vbn + count - 1 \<le> EndingVbn m i" using en n(11) over sv by (simp add: word_le_nat_alt v_def k_def)
      then have code': "FsRtlAddBaseMcbEntry pool m largeVbn largeLbn largeSectorCount =
          insert_run pool m (NextVbn p) el rc"
        using code True by (simp add: el_def rc_def)
      let ?free = "\<forall>x. N \<le> x \<and> x < v + k \<longrightarrow> ?f x = None"
      have rest: "N + (v + k - N) = v + k" using over by simp
      consider (free) "?free" "inserts (insert_run pool m (NextVbn p) el rc)
            m ps (NextVbn p) el rc"
        | (taken) "\<not> ?free" "FsRtlAddBaseMcbEntry pool m largeVbn largeLbn largeSectorCount = Some (m, Returned False)"
        using insert_run_ok [OF new'] unfolding nk code' N_def [symmetric] rest by blast
      then show ?thesis
      proof cases
        case free
        have "?f ++ run_map N (l + (N - v)) (v + k - N) = ?f ++ run_map v l k"
          using f' sv over by (intro run_map_rest) auto
        moreover have "addable ?f v l k"
        proof -
          have "(?f x \<noteq> None) = (x < N)" if "v \<le> x" "x < v + k" for x
            using that f' free(1) by (cases "x < N") auto
          moreover have "agrees ?f v l k" unfolding agrees_def using f' free(1) by (metis linorder_not_le)
          ultimately show ?thesis unfolding addable_def by blast
        qed
        ultimately show ?thesis unfolding code' v_def [symmetric] l_def [symmetric] k_def [symmetric]
          using adds_inserted [OF free(2)] by (simp only: nlbn nk N_def [symmetric])
      next
        case taken
        have "\<not> addable ?f v l k"
        proof
          assume add: "addable ?f v l k"
          obtain y where y: "N \<le> y" "y < v + k" "?f y \<noteq> None" using taken(1) by blast
          have v: "?f v \<noteq> None" "v < v + k" using f' [of v] sv over by auto
          have "?f N \<noteq> None"
            using add unfolding addable_def
          proof (elim conjE disjE exE)
            fix j assume j: "\<forall>x. v \<le> x \<and> x < v + k \<longrightarrow> (?f x \<noteq> None \<longleftrightarrow> x < j)"
            have "y < j" using j y sv by auto
            then show ?thesis using j [rule_format, of N] y sv by auto
          next
            fix j assume j: "\<forall>x. v \<le> x \<and> x < v + k \<longrightarrow> (?f x \<noteq> None \<longleftrightarrow> j \<le> x)"
            have "j \<le> v" using j v by auto
            then show ?thesis using j [rule_format, of N] y sv by auto
          qed
          moreover have "?f (N - 1) \<noteq> None" using f' [of "N - 1"] sv by auto
          ultimately have "joined ?f N"
            using agrees_joined [of ?f v l k N] add sv over by (simp add: addable_def)
          then show False using break_after [OF loc n(2)] by (simp add: N_def)
        qed
        then show ?thesis using taken(2) adds_refused [OF new] by (simp add: v_def l_def k_def)
      qed
    qed
  qed
qed

text \<open>The first sector lies in a hole.\<close>

lemma not_addable_over:
  assumes loc: "located ps v xs p ys s c" and hole: "Lbn p = UNUSED_LBN" and proper: "proper ps"
    and ys: "ys = q # qs" and qp: "unat (NextVbn p) < unat (NextVbn q)" "Lbn q \<noteq> UNUSED_LBN"
    and n: "0 < n" "sector_at 0 ps x \<noteq> None" "v \<le> x" "x < v + n"
    and beyond: "unat (NextVbn q) < v + n"
  shows "\<not> addable (sector_at 0 ps) v l n"
proof
  let ?f = "sector_at 0 ps" and ?N = "unat (NextVbn p)" and ?Q = "unat (NextVbn q)"
  assume add: "addable ?f v l n"
  have sv: "s \<le> v" "v < ?N" using loc by (simp_all add: located_def)
  have v: "?f v = None" using located_hole [OF loc hole] sv by simp
  have in_q: "?f y \<noteq> None" if "?N \<le> y" "y < ?Q" for y
    using located_next [OF loc that(1) proper] ys qp(2) that by simp
  obtain j where j: "\<forall>y. v \<le> y \<and> y < v + n \<longrightarrow> (?f y \<noteq> None \<longleftrightarrow> j \<le> y)"
    using add unfolding addable_def
  proof (elim conjE disjE exE)
    fix j assume "\<forall>y. v \<le> y \<and> y < v + n \<longrightarrow> (?f y \<noteq> None \<longleftrightarrow> y < j)"
    then show thesis using v n by (metis le_less_trans less_add_same_cancel1 order_refl)
  qed
  have "j \<le> ?N" using j in_q [of ?N] qp(1) sv beyond by auto
  then have "?f ?Q \<noteq> None" using j beyond sv qp(1) by auto
  moreover have "?f (?Q - 1) \<noteq> None" using in_q [of "?Q - 1"] qp(1) by auto
  ultimately have "joined ?f ?Q"
    using agrees_joined [of ?f v l n ?Q] add beyond sv qp(1) by (simp add: addable_def)
  moreover have "?Q \<in> (\<lambda>p. unat (NextVbn p)) ` set ps" using loc ys by (auto simp: located_def)
  ultimately show False using breaks_of_runs [of 0 "Some 0" ps] proper by (auto simp: proper_def)
qed

lemma add_in_hole:
  assumes new: "new_run m ps pool vbn lbn count" and found: "FsRtlFindLargeIndex m vbn = Some (True, i)"
    and loc: "located ps (unat vbn) xs p ys s c" and e: "edge_at m i xs (p # ys) s c" and hole: "Lbn p = UNUSED_LBN"
    and args: "ucast largeVbn = vbn" "ucast largeLbn = lbn" "ucast largeSectorCount = count"
  shows "adds (FsRtlAddBaseMcbEntry pool m largeVbn largeLbn largeSectorCount) m ps (unat vbn) (unat lbn) (unat count)"
proof -
  note n = new_runD [OF new]
  define v l k N where "v = unat vbn" and "l = unat lbn" and "k = unat count" and "N = unat (NextVbn p)"
  let ?f = "sector_at 0 ps"
  let ?free = "\<forall>x. v \<le> x \<and> x < v + k \<longrightarrow> ?f x = None"
  have sv: "s \<le> v" "v < N" using loc by (simp_all add: located_def v_def N_def)
  have "runs_from (s, c) (p # ys)" using loc n(2) proper_append by (auto simp: located_def)
  then have ys: "runs_from (N, None) ys" using hole by (auto simp: run_step.simps N_def split: if_splits)
  obtain q qs where q: "ys = q # qs" "Lbn q \<noteq> UNUSED_LBN" "N < unat (NextVbn q)" by (rule after_hole [OF ys])
  have in_q: "?f x = Some (unat (Lbn q) + (x - N))" if "N \<le> x" "x < unat (NextVbn q)" for x
    using located_next [OF loc _ n(2), of x] q that by (simp add: N_def)
  obtain t tc where ps: "runs_to (0, Some 0) ps = Some (t, tc)" using n(2) runs_fromD unfolding proper_def by blast
  have code: "FsRtlAddBaseMcbEntry pool m largeVbn largeLbn largeSectorCount =
      (FsRtlFindLargeIndex m (vbn + count - 1) \<bind> (\<lambda>(found, endIndex).
         if found \<and> i = endIndex - 1 then
           if StartingLbn m endIndex \<noteq> lbn + (StartingVbn m endIndex - vbn) then Some (Decided False)
           else Some (Insert vbn lbn (StartingVbn m endIndex - vbn))
         else Some (Insert vbn lbn count)))
      \<bind> (\<lambda>r. case r of Decided result \<Rightarrow> Some (m, Returned result)
              | Insert vbn lbn sectorCount \<Rightarrow> insert_run pool m vbn lbn sectorCount)"
    using hole run_at_edge(2) [OF e] by (simp add: FsRtlAddBaseMcbEntry_def args trim_request_def found Let_def)
  have whole: ?thesis if "FsRtlAddBaseMcbEntry pool m largeVbn largeLbn largeSectorCount = insert_run pool m vbn lbn count"
    and "\<not> ?free \<longrightarrow> \<not> addable ?f v l k"
  proof (cases ?free)
    case True
    then have "inserts (insert_run pool m vbn lbn count) m ps vbn lbn count"
      using insert_run_ok [OF new] by (auto simp: v_def k_def)
    moreover have "addable ?f v l k" using True by (auto simp: addable_def agrees_def intro!: exI [of _ v])
    ultimately show ?thesis unfolding that(1) by (intro adds_inserted) (simp_all add: v_def l_def k_def)
  next
    case False
    then have "insert_run pool m vbn lbn count = Some (m, Returned False)"
      using insert_run_ok [OF new] by (auto simp: v_def k_def)
    then show ?thesis using adds_refused [OF new] that False by (simp add: v_def l_def k_def)
  qed
  have last: "unat (vbn + count - 1) = v + k - 1" using n(11) by (simp add: v_def k_def)
  have i: "unat i = length xs" "length xs < 2 ^ 30" using e n(1,3) loc by (simp_all add: edge_at_def located_def)
  obtain d' where d: "located ps N (xs @ [p]) q qs N d'"
    using located_after [OF loc [unfolded q(1)] n(2), of N] q(3) by (auto simp: N_def)
  text \<open>The run after the hole is the one the last sector lies in, or not.\<close>
  have next_i: "i = j - 1 \<longleftrightarrow> N < v + k \<and> v + k \<le> unat (NextVbn q)"
    if "located ps (v + k - 1) xs' p' ys' s' c'" "edge_at m j xs' (p' # ys') s' c'" for j xs' p' ys' s' c'
  proof
    assume ij: "i = j - 1"
    have "j \<noteq> 0" using i ij by (auto simp: unsigned_minus_1_eq_mask mask_eq_exp_minus_1)
    then have "unat j = Suc (unat i)" using ij unat_pred [of j] by (simp add: word_unat_eq_iff)
    then have "length xs' = length (xs @ [p])" using i that(2) by (simp add: edge_at_def)
    moreover have "xs' @ p' # ys' = (xs @ [p]) @ q # qs" using that(1) d by (simp add: located_def)
    ultimately have "xs' = xs @ [p] \<and> p' # ys' = q # qs" using append_eq_append_conv by blast
    then show "N < v + k \<and> v + k \<le> unat (NextVbn q)" using that(1) d n(5) by (auto simp: located_def k_def)
  next
    assume b: "N < v + k \<and> v + k \<le> unat (NextVbn q)"
    then have "N \<le> v + k - 1" "v + k - 1 < unat (NextVbn q)" using n(5) by (auto simp: k_def)
    from located_unique [OF d that(1) this] have "unat j = Suc (unat i)" using i that(2) by (simp add: edge_at_def)
    then have "i + 1 = j" using i(2) unat_plus_range [of i 1] by (simp add: word_unat_eq_iff i(1))
    then show "i = j - 1" by auto
  qed
  consider (found) j xs' p' ys' s' c' where "FsRtlFindLargeIndex m (vbn + count - 1) = Some (True, j)"
        "located ps (v + k - 1) xs' p' ys' s' c'" "edge_at m j xs' (p' # ys') s' c'"
    | (beyond) "FsRtlFindLargeIndex m (vbn + count - 1) = Some (False, PairCount m)" "t \<le> v + k - 1"
    by (rule FsRtlFindLargeIndex_cases [OF n(1) ps n(3), of "vbn + count - 1"]) (auto simp: last)
  then show ?thesis
  proof cases
    case found
    show ?thesis
    proof (cases "N < v + k \<and> v + k \<le> unat (NextVbn q)")
      case True
      then have ij: "i = j - 1" using next_i [OF found(2,3)] by simp
      have "N \<le> v + k - 1" "v + k - 1 < unat (NextVbn q)" using True n(5) by (auto simp: k_def)
      from located_unique [OF d found(2) this] have j: "xs' = xs @ [p]" "p' = q" "s' = N" by simp_all
      have start: "unat (StartingVbn m j) = N" using StartingVbn_edge [OF found(3)] j by simp
      have w: "unat (StartingVbn m j - vbn) = N - v"
        using unat_minus_range [of vbn "StartingVbn m j"] start sv by (simp add: v_def)
      have "N - v < k" using True sv by auto
      then have fits: "l + (N - v) < 2 ^ 32" using n(8) by (simp add: l_def k_def)
      then have line: "unat (lbn + (StartingVbn m j - vbn)) = l + (N - v)"
        using unat_plus_range [of lbn "StartingVbn m j - vbn"] w by (simp add: l_def)
      have code': "FsRtlAddBaseMcbEntry pool m largeVbn largeLbn largeSectorCount =
          (if Lbn q \<noteq> lbn + (StartingVbn m j - vbn) then Some (m, Returned False)
           else insert_run pool m vbn lbn (StartingVbn m j - vbn))"
        unfolding code found(1) using ij run_at_edge(2) [OF found(3)] j by simp
      show ?thesis
      proof (cases "unat (Lbn q) = l + (N - v)")
        case False
        then have "Lbn q \<noteq> lbn + (StartingVbn m j - vbn)" using line by auto
        moreover have "\<not> agrees ?f v l k"
        proof
          assume "agrees ?f v l k"
          then show False
            using in_q [of N] q(3) False sv True unfolding agrees_def by (elim allE [where x = N]) simp
        qed
        then have "\<not> addable ?f v l k" by (simp add: addable_def)
        ultimately show ?thesis using code' adds_refused [OF new] by (simp add: v_def l_def k_def)
      next
        case same: True
        have new': "new_run m ps pool vbn lbn (StartingVbn m j - vbn)"
          using n sv True w fits by (simp add: new_run_def v_def l_def k_def)
        have free: "\<forall>x. v \<le> x \<and> x < v + (N - v) \<longrightarrow> ?f x = None"
          using located_hole [OF loc hole] sv by (simp add: N_def)
        then have "inserts (insert_run pool m vbn lbn (StartingVbn m j - vbn)) m ps vbn lbn (StartingVbn m j - vbn)"
          using insert_run_ok [OF new'] by (simp add: w v_def)
        moreover have "FsRtlAddBaseMcbEntry pool m largeVbn largeLbn largeSectorCount
            = insert_run pool m vbn lbn (StartingVbn m j - vbn)"
          using code' same line by (simp add: word_unat_eq_iff)
        moreover have agree: "?f x = Some (l + (x - v))" if "N \<le> x" "x < v + k" for x
          using in_q [of x] same that True sv by simp
        then have "?f ++ run_map v l (N - v) = ?f ++ run_map v l k" using sv True by (intro run_map_front) auto
        moreover have "addable ?f v l k"
        proof -
          have "(?f x \<noteq> None) = (N \<le> x)" if "v \<le> x" "x < v + k" for x
            using that free agree [of x] by (cases "N \<le> x") auto
          moreover have "agrees ?f v l k"
            unfolding agrees_def using free agree sv by (metis le_add_diff_inverse less_imp_le linorder_not_le)
          ultimately show ?thesis unfolding addable_def by blast
        qed
        ultimately show ?thesis
          using adds_inserted [of "insert_run pool m vbn lbn (StartingVbn m j - vbn)" m ps vbn lbn "StartingVbn m j - vbn" v l k]
          by (simp add: w v_def [symmetric] l_def [symmetric] k_def [symmetric])
      qed
    next
      case False
      then have "i \<noteq> j - 1" using next_i [OF found(2,3)] by simp
      then have "FsRtlAddBaseMcbEntry pool m largeVbn largeLbn largeSectorCount = insert_run pool m vbn lbn count"
        unfolding code found(1) by simp
      moreover have "\<not> addable ?f v l k" if "\<not> ?free"
      proof -
        have "\<not> v + k \<le> N" using that located_hole [OF loc hole] sv by (auto simp: N_def)
        with False have "unat (NextVbn q) < v + k" by simp
        with that show ?thesis
          using not_addable_over [OF loc hole n(2) q(1) _ q(2)] q(3) n(5) by (auto simp: v_def k_def N_def)
      qed
      ultimately show ?thesis using whole by blast
    qed
  next
    case beyond
    then have "FsRtlAddBaseMcbEntry pool m largeVbn largeLbn largeSectorCount = insert_run pool m vbn lbn count"
      unfolding code beyond(1) by simp
    moreover have "\<not> addable ?f v l k" if "\<not> ?free"
    proof -
      have "unat (NextVbn q) \<le> t"
        using located_end [OF d ps] .
      with beyond(2) have "unat (NextVbn q) < v + k" using n(5) by (simp add: k_def)
      with that show ?thesis
        using not_addable_over [OF loc hole n(2) q(1) _ q(2)] q(3) n(5) by (auto simp: v_def k_def N_def)
    qed
    ultimately show ?thesis using whole by blast
  qed
qed

lemma FsRtlAddBaseMcbEntry_adds:
  assumes new: "new_run m ps pool vbn lbn count"
    and args: "ucast largeVbn = vbn" "ucast largeLbn = lbn" "ucast largeSectorCount = count"
  shows "adds (FsRtlAddBaseMcbEntry pool m largeVbn largeLbn largeSectorCount) m ps (unat vbn) (unat lbn) (unat count)"
proof -
  note n = new_runD [OF new]
  obtain t l where ps: "runs_to (0, Some 0) ps = Some (t, Some l)" using n(2) runs_fromD unfolding proper_def by blast
  consider (found) i xs p ys s c where "FsRtlFindLargeIndex m vbn = Some (True, i)"
      "located ps (unat vbn) xs p ys s c" "edge_at m i xs (p # ys) s c"
    | (beyond) "FsRtlFindLargeIndex m vbn = Some (False, PairCount m)" "t \<le> unat vbn"
    by (rule FsRtlFindLargeIndex_cases [OF n(1) ps n(3), of vbn]) auto
  then show ?thesis
  proof cases
    case found
    then show ?thesis
      using add_in_run [OF new found _ args] add_in_hole [OF new found _ args] by (cases "Lbn p = UNUSED_LBN") auto
  next
    case beyond
    have code: "FsRtlAddBaseMcbEntry pool m largeVbn largeLbn largeSectorCount = insert_run pool m vbn lbn count"
      by (simp add: FsRtlAddBaseMcbEntry_def args trim_request_def beyond)
    have free: "\<forall>x. unat vbn \<le> x \<and> x < unat vbn + unat count \<longrightarrow> sector_at 0 ps x = None"
      using beyond_unmapped [OF ps] beyond(2) by auto
    then have "inserts (insert_run pool m vbn lbn count) m ps vbn lbn count" using insert_run_ok [OF new] by blast
    moreover have "addable (sector_at 0 ps) (unat vbn) (unat lbn) (unat count)"
      using free by (auto simp: addable_def agrees_def intro!: exI [of _ "unat vbn"])
    ultimately show ?thesis unfolding code by (intro adds_inserted) simp_all
  qed
qed

end
