(* ===== verification/Mcb_Remove.thy ===== *)
theory Mcb_Remove
  imports Mcb_Insert
begin

text \<open>
  \<^verbatim>\<open>FsRtlRemoveBaseMcbEntry\<close>: each turn of the loop takes the common part of a run and the range out of the map,
  the list stays proper, and the loop ends; when an allocation raises, a first part of the range is gone.
\<close>

section \<open>Maps\<close>

definition unmapped :: "(nat \<Rightarrow> nat option) \<Rightarrow> nat \<Rightarrow> nat \<Rightarrow> nat \<Rightarrow> nat option" where
  "unmapped f a b x = (if a \<le> x \<and> x < b then None else f x)"

lemma breaks_unmapped: "breaks (unmapped f a b) \<subseteq> breaks f \<union> {a, b}"
  by (auto simp: breaks_def joined_def unmapped_def split: if_splits)

lemma tail_patch:
  assumes xs: "runs_to (0, Some 0) xs = Some (s, c)" and zs: "runs_from (s, c) zs'"
    and map: "\<And>x. s \<le> x \<Longrightarrow> sector_at s zs' x = g x" "\<And>x. x < s \<Longrightarrow> sector_at 0 xs x = g x"
  shows "proper (xs @ zs') \<and> sector_at 0 (xs @ zs') = g"
proof
  show "proper (xs @ zs')" using zs by (simp add: proper_append [OF xs])
  show "sector_at 0 (xs @ zs') = g" using map by (auto simp: sector_at_append [OF xs])
qed

lemma remove_patch:
  assumes xs: "runs_to (0, Some 0) xs = Some (s, c)" and s: "s \<le> a" and zs: "runs_from (s, c) zs'"
    and map: "\<And>x. s \<le> x \<Longrightarrow> sector_at s zs' x = (if a \<le> x \<and> x < b then None else sector_at s zs x)"
  shows "proper (xs @ zs') \<and> sector_at 0 (xs @ zs') = unmapped (sector_at 0 (xs @ zs)) a b"
  using s map by (intro tail_patch [OF xs zs]) (simp_all add: unmapped_def sector_at_append [OF xs])

section \<open>One turn\<close>

text \<open>The run found, which is not a hole, with the range from sector \<^term>\<open>a\<close> in it.\<close>

definition range_in_run :: "base_mcb \<Rightarrow> MAPPING list \<Rightarrow> allocator \<Rightarrow> nat \<Rightarrow> ulong \<Rightarrow> MAPPING list \<Rightarrow> MAPPING
    \<Rightarrow> MAPPING list \<Rightarrow> nat \<Rightarrow> nat option \<Rightarrow> bool" where
  "range_in_run m ps pool a i xs p ys s c \<longleftrightarrow>
     holds m ps \<and> proper ps \<and> length ps \<le> 2 ^ 30 \<and> allocates pool \<and> located ps a xs p ys s c
     \<and> edge_at m i xs (p # ys) s c \<and> Lbn p \<noteq> UNUSED_LBN"

lemma range_in_runD:
  assumes "range_in_run m ps pool a i xs p ys s c"
  shows "holds m (xs @ p # ys)" "length (xs @ p # ys) \<le> 2 ^ 30" "allocates pool" "ps = xs @ p # ys"
    "runs_to (0, Some 0) xs = Some (s, c)" "unat i = length xs" "s \<le> a" "a < unat (NextVbn p)"
    "Lbn p \<noteq> UNUSED_LBN" "0 < unat (Lbn p)" "c \<noteq> Some (unat (Lbn p))"
    "unat (Lbn p) + (unat (NextVbn p) - s) < 2 ^ 32"
    "runs_from (unat (NextVbn p), Some (unat (Lbn p) + (unat (NextVbn p) - s))) ys"
    "StartingLbn m i = Lbn p"
proof -
  note d = assms [unfolded range_in_run_def located_def edge_at_def]
  then have "length ps \<le> 2 ^ 30" "ps = xs @ p # ys" by blast+
  then show "length (xs @ p # ys) \<le> 2 ^ 30" by (simp only:)
  show "holds m (xs @ p # ys)" "allocates pool" "ps = xs @ p # ys"
    "runs_to (0, Some 0) xs = Some (s, c)" "unat i = length xs" "s \<le> a" "a < unat (NextVbn p)"
    "Lbn p \<noteq> UNUSED_LBN" using d by simp_all
  have "runs_from (s, c) (p # ys)" using d proper_append by auto
  then obtain e where e: "run_step (s, c) p = Some e" "runs_from e ys" by (auto split: option.splits)
  from run_step_run [OF e(1)] d e(2) show "0 < unat (Lbn p)" "c \<noteq> Some (unat (Lbn p))"
    "unat (Lbn p) + (unat (NextVbn p) - s) < 2 ^ 32"
    "runs_from (unat (NextVbn p), Some (unat (Lbn p) + (unat (NextVbn p) - s))) ys" by auto
  show "StartingLbn m i = Lbn p" using assms run_at_edge(2) [of m i xs p ys s c] by (simp add: range_in_run_def)
qed

lemma previous_is_hole_edge: "edge_at m i xs zs s c \<Longrightarrow> previous_is_hole m i \<longleftrightarrow> c = None"
  using PreviousEndingLbn_edge(2) [of m i xs zs s c] edge_start [of m xs zs s c]
  by (auto simp: previous_is_hole_def)

text \<open>The hole before.\<close>

lemma hole_before:
  assumes "range_in_run m ps pool a i xs p ys s None"
  obtains ws h t d where "xs = ws @ [h]" "unat i = Suc (length ws)" "unat (i - 1) = length ws"
    "runs_to (0, Some 0) ws = Some (t, d)" "d \<noteq> None" "Lbn h = UNUSED_LBN" "t < s" "unat (NextVbn h) = s"
proof -
  have e: "edge_at m i xs (p # ys) s None" using assms by (simp add: range_in_run_def)
  have "i \<noteq> 0" using e edge_start by blast
  from edge_before [OF e this] obtain ws h t d where w: "xs = ws @ [h]" "edge_at m (i - 1) ws (h # p # ys) t d"
      "run_step (t, d) h = Some (s, None)" by metis
  have "Lbn h = UNUSED_LBN" "d \<noteq> None" "t < s" "unat (NextVbn h) = s"
    using w(3) by (auto simp: run_step.simps split: if_splits)
  with w that e show thesis by (simp add: edge_at_def)
qed

text \<open>What a turn gives.\<close>

definition removes :: "'a mcb_outcome \<Rightarrow> base_mcb \<Rightarrow> 'a \<Rightarrow> MAPPING list \<Rightarrow> nat \<Rightarrow> nat \<Rightarrow> bool" where
  "removes r m x ps a b \<longleftrightarrow>
     (\<exists>qs. gives r m x qs \<and> proper qs \<and> sector_at 0 qs = unmapped (sector_at 0 ps) a b)"

lemma removes_from:
  assumes "runs_to (0, Some 0) xs = Some (s, c)" "s \<le> a" "ps = xs @ zs"
    and "gives r m x (xs @ zs')" "runs_from (s, c) zs'"
    and "\<And>x. s \<le> x \<Longrightarrow> sector_at s zs' x = (if a \<le> x \<and> x < b then None else sector_at s zs x)"
  shows "removes r m x ps a b"
  using remove_patch [OF assms(1,2,5,6)] assms(3,4) by (auto simp: removes_def)

lemma remove_entire_run_ok:
  assumes r: "range_in_run m ps pool a i xs p ys a c"
  shows "removes (returning x (remove_entire_run m i)) m x ps a (unat (NextVbn p))"
proof -
  note d = range_in_runD [OF r]
  have e: "edge_at m i xs (p # ys) a c" using r by (simp add: range_in_run_def)
  have code: "remove_entire_run m i =
     (if ys = [] then if c \<noteq> None then FsRtlRemoveLargeEntry i 1 m else FsRtlRemoveLargeEntry (i - 1) 2 m
      else if c \<noteq> None \<and> Lbn (hd ys) \<noteq> UNUSED_LBN then set_Lbn i UNUSED_LBN m
      else if c \<noteq> None then FsRtlRemoveLargeEntry i 1 m
      else if Lbn (hd ys) \<noteq> UNUSED_LBN then set_Lbn i UNUSED_LBN m \<bind> FsRtlRemoveLargeEntry (i - 1) 1
      else FsRtlRemoveLargeEntry (i - 1) 2 m)"
    using d(9,14) previous_is_hole_edge [OF e] run_at_edge(6,7) [OF e] PreviousEndingLbn_edge(2) [OF e]
    by (cases ys) (auto simp: remove_entire_run_def)
  show ?thesis
  proof (cases c)
    case (Some l)
    text \<open>No hole before: the run goes, or becomes a hole.\<close>
    note from_here = removes_from [OF d(5,7,4), where x = x and b = "unat (NextVbn p)"]
    consider "ys = []" | q qs where "ys = q # qs" "Lbn q \<noteq> UNUSED_LBN" | q qs where "ys = q # qs" "Lbn q = UNUSED_LBN"
      by (cases ys) auto
    then show ?thesis
    proof cases
      case 1
      have "yields (remove_entire_run m i) (xs @ [])"
        using remove_entry [of m xs "[p]" "[]" i 1] d(1,6) 1 Some by (simp add: code)
      then show ?thesis by (rule from_here [OF gives_returning]) (use 1 Some in auto)
    next
      case (2 q qs)
      have "yields (remove_entire_run m i) (xs @ p\<lparr>Lbn := UNUSED_LBN\<rparr> # ys)"
        using store_here [OF d(1,6)] 2 Some by (simp add: code set_Lbn_def)
      then show ?thesis
        by (rule from_here [OF gives_returning]) (use 2 Some d(8-13) in \<open>auto simp: run_step.simps split: if_splits\<close>)
    next
      case (3 q qs)
      have "yields (remove_entire_run m i) (xs @ ys)"
        using remove_entry [of m xs "[p]" ys i 1] d(1,6) 3 Some by (simp add: code)
      then show ?thesis
        by (rule from_here [OF gives_returning]) (use 3 Some d(8-13) in \<open>auto simp: run_step.simps split: if_splits\<close>)
    qed
  next
    case None
    text \<open>The hole before takes the run in.\<close>
    obtain ws h t d' where w: "xs = ws @ [h]" "unat i = Suc (length ws)" "unat (i - 1) = length ws"
        "runs_to (0, Some 0) ws = Some (t, d')" "d' \<noteq> None" "Lbn h = UNUSED_LBN" "t < a" "unat (NextVbn h) = a"
      by (rule hole_before [OF r [unfolded None]])
    have h: "holds m (ws @ h # p # ys)" using d(1) w(1) by simp
    have ps: "ps = ws @ h # p # ys" using d(4) w(1) by simp
    note from_hole = removes_from [OF w(4) less_imp_le [OF w(7)] ps, where x = x and b = "unat (NextVbn p)"]
    consider "ys = []" | q qs where "ys = q # qs" "Lbn q \<noteq> UNUSED_LBN" | q qs where "ys = q # qs" "Lbn q = UNUSED_LBN"
      by (cases ys) auto
    then show ?thesis
    proof cases
      case 1
      have "yields (remove_entire_run m i) (ws @ [])"
        using remove_entry [of m ws "[h, p]" "[]" "i - 1" 2] h w(3) 1 None by (simp add: code)
      then show ?thesis by (rule from_hole [OF gives_returning]) (use 1 w in auto)
    next
      case (2 q qs)
      have "yields (set_Lbn i UNUSED_LBN m \<bind> FsRtlRemoveLargeEntry (i - 1) 1) (ws @ p\<lparr>Lbn := UNUSED_LBN\<rparr> # ys)"
        unfolding set_Lbn_def
      proof (rule yields_bind [OF store_here [OF d(1,6)]])
        fix m' assume "holds m' (xs @ p\<lparr>Lbn := UNUSED_LBN\<rparr> # ys)"
        then show "yields (FsRtlRemoveLargeEntry (i - 1) 1 m') (ws @ p\<lparr>Lbn := UNUSED_LBN\<rparr> # ys)"
          using remove_entry [of m' ws "[h]" _ "i - 1" 1] w by simp
      qed
      then have "yields (remove_entire_run m i) (ws @ p\<lparr>Lbn := UNUSED_LBN\<rparr> # ys)" using 2 None by (simp add: code)
      then show ?thesis
        by (rule from_hole [OF gives_returning]) (use 2 w d(8-13) in \<open>auto simp: run_step.simps split: if_splits\<close>)
    next
      case (3 q qs)
      have "yields (remove_entire_run m i) (ws @ ys)"
        using remove_entry [of m ws "[h, p]" ys "i - 1" 2] h w(3) 3 None by (simp add: code)
      then show ?thesis
        by (rule from_hole [OF gives_returning]) (use 3 w d(8-13) in \<open>auto simp: run_step.simps split: if_splits\<close>)
    qed
  qed
qed

text \<open>Numbers of the range as words.\<close>

lemma unat_range:
  assumes "a + n < 2 ^ 32"
  shows "unat (word_of_int (int a) :: ulong) = a" "unat (word_of_int (int n) :: ulong) = n"
    and "unat (word_of_int (int a) + word_of_int (int n) :: ulong) = a + n"
proof -
  show a: "unat (word_of_int (int a) :: ulong) = a" and n: "unat (word_of_int (int n) :: ulong) = n"
    using assms unat_of_nat_range [where 'a = 32, of a] unat_of_nat_range [where 'a = 32, of n] by simp_all
  show "unat (word_of_int (int a) + word_of_int (int n) :: ulong) = a + n"
    using assms unat_plus_range [of "word_of_int (int a) :: ulong" "word_of_int (int n)"] by (simp only: a n) simp
qed

lemma remove_first_part_ok:
  assumes r: "range_in_run m ps pool a i xs p ys a c" and n: "0 < n" "a + n < unat (NextVbn p)"
  shows "removes (remove_first_part pool m i (int a) (int n)) m () ps a (a + n)"
proof -
  note d = range_in_runD [OF r]
  have e: "edge_at m i xs (p # ys) a c" using r by (simp add: range_in_run_def)
  have np: "unat (NextVbn p) < 2 ^ 32" using unsigned_less [of "NextVbn p", where ?'a = nat] by simp
  then have an: "a + n < 2 ^ 32" using n(2) by linarith
  let ?p = "p\<lparr>Lbn := Lbn p + word_of_int (int n)\<rparr>"
  have "unat (Lbn p) + n < 2 ^ 32" using d(12) n(2) by linarith
  then have lbn: "unat (Lbn ?p) = unat (Lbn p) + n"
    using unat_plus_range [of "Lbn p" "word_of_int (int n)"] unat_range(2) [OF an] by simp
  have used: "Lbn ?p \<noteq> UNUSED_LBN"
    using lbn d(12) n unat_UNUSED_LBN by auto
  have rest: "unat (Lbn p) + n + (unat (NextVbn p) - (a + n)) = unat (Lbn p) + (unat (NextVbn p) - a)" using n(2) by simp
  show ?thesis
  proof (cases c)
    case (Some l)
    let ?hole = "\<lparr>NextVbn = word_of_int (int a) + word_of_int (int n), Lbn = UNUSED_LBN\<rparr>"
    have "gives (remove_first_part pool m i (int a) (int n)) m () (xs @ ?hole # ?p # ys)"
      using gives_one_store [OF d(1,6,3,2), of "()" UNUSED_LBN "word_of_int (int a) + word_of_int (int n)"
          "\<lambda>p. p\<lparr>Lbn := Lbn p + word_of_int (int n)\<rparr>"]
        Some d(9,14) previous_is_hole_edge [OF e] by (simp add: remove_first_part_def)
    then show ?thesis
    proof (rule removes_from [OF d(5,7,4)])
      show "runs_from (a, c) (?hole # ?p # ys)"
        using Some used lbn rest n d(10-13) unat_range [OF an] by (simp add: run_step.simps)
    qed (use used lbn n unat_range [OF an] d(9) in auto)
  next
    case None
    obtain ws h t d' where w: "xs = ws @ [h]" "unat i = Suc (length ws)" "unat (i - 1) = length ws"
        "runs_to (0, Some 0) ws = Some (t, d')" "d' \<noteq> None" "Lbn h = UNUSED_LBN" "t < a" "unat (NextVbn h) = a"
      by (rule hole_before [OF r [unfolded None]])
    have h: "holds m (ws @ h # p # ys)" using d(1) w(1) by simp
    have ps: "ps = ws @ h # p # ys" using d(4) w(1) by simp
    let ?h = "h\<lparr>NextVbn := NextVbn h + word_of_int (int n)\<rparr>"
    have nh: "unat (NextVbn ?h) = a + n"
      using an w(8) unat_plus_range [of "NextVbn h" "word_of_int (int n)"] unat_range(2) [OF an] by simp
    have "yields (store_pair (i - 1) (\<lambda>p. p\<lparr>NextVbn := NextVbn p + word_of_int (int n)\<rparr>) m
        \<bind> store_pair i (\<lambda>p. p\<lparr>Lbn := Lbn p + word_of_int (int n)\<rparr>)) ((ws @ [?h]) @ ?p # ys)"
    proof (rule yields_bind [OF store_before [OF h w(2)]])
      fix m' assume "holds m' (ws @ ?h # p # ys)"
      then show "yields (store_pair i (\<lambda>p. p\<lparr>Lbn := Lbn p + word_of_int (int n)\<rparr>) m') ((ws @ [?h]) @ ?p # ys)"
        using store_here [of m' "ws @ [?h]" p ys i] w(2) by simp
    qed
    then have "gives (remove_first_part pool m i (int a) (int n)) m () (ws @ ?h # ?p # ys)"
      using None d(9,14) previous_is_hole_edge [OF e] by (simp add: remove_first_part_def gives_returning)
    then show ?thesis
    proof (rule removes_from [OF w(4) less_imp_le [OF w(7)] ps])
      show "runs_from (t, d') (?h # ?p # ys)"
        using used lbn rest n nh w d(10-13) by (simp add: run_step.simps)
    qed (use used lbn n nh w d(9) in auto)
  qed
qed

lemma remove_last_part_ok:
  assumes r: "range_in_run m ps pool a i xs p ys s c" and s: "s < a"
    and amount: "amount = EndingVbn m i - word_of_int (int a) + 1"
  shows "removes (remove_last_part pool m i amount) m () ps a (unat (NextVbn p))"
    and "unat amount = unat (NextVbn p) - a"
proof -
  note d = range_in_runD [OF r]
  have e: "edge_at m i xs (p # ys) s c" using r by (simp add: range_in_run_def)
  have np: "unat (NextVbn p) < 2 ^ 32" using unsigned_less [of "NextVbn p", where ?'a = nat] by simp
  then have a: "unat (word_of_int (int a) :: ulong) = a" using d(8) unat_range(1) [of a 0] by simp
  have am: "amount = NextVbn p - word_of_int (int a)" using run_at_edge(3) [OF e] by (simp add: amount)
  then show "unat amount = unat (NextVbn p) - a"
    using unat_minus_range [of "word_of_int (int a)" "NextVbn p"] a d(8) by simp
  have diff: "NextVbn p - amount = word_of_int (int a)" by (simp add: am)
  let ?p = "p\<lparr>NextVbn := NextVbn p - amount\<rparr>"
  have next_p: "unat (NextVbn ?p) = a" using a diff by simp
  consider (final) "ys = []" | (hole) q qs where "ys = q # qs" "Lbn q = UNUSED_LBN"
    | (run) q qs where "ys = q # qs" "Lbn q \<noteq> UNUSED_LBN" by (cases ys) auto
  then show "removes (remove_last_part pool m i amount) m () ps a (unat (NextVbn p))"
  proof cases
    case final
    have "gives (remove_last_part pool m i amount) m () (xs @ ?p # ys)"
      using gives_store [OF d(1,6), of "()" "\<lambda>p. p\<lparr>NextVbn := NextVbn p - amount\<rparr>"] final d(9,14) run_at_edge(7) [OF e]
      by (simp add: remove_last_part_def)
    then show ?thesis
      by (rule removes_from [OF d(5,7,4)]) (use final next_p s d(8-12) in \<open>auto simp: run_step.simps\<close>)
  next
    case (hole q qs)
    have "gives (remove_last_part pool m i amount) m () (xs @ ?p # ys)"
      using gives_store [OF d(1,6), of "()" "\<lambda>p. p\<lparr>NextVbn := NextVbn p - amount\<rparr>"] hole d(9,14) run_at_edge(6,7) [OF e]
      by (simp add: remove_last_part_def)
    then show ?thesis
      by (rule removes_from [OF d(5,7,4)])
        (use hole next_p s d(8-13) in \<open>auto simp: run_step.simps split: if_splits\<close>)
  next
    case (run q qs)
    let ?hole = "\<lparr>NextVbn = NextVbn p, Lbn = UNUSED_LBN\<rparr>"
    have i1: "unat (i + 1) = length (xs @ [p])" using unat_next(1) [OF d(1), of i] d(6) by simp
    have "gives (if_returned (FsRtlAddLargeEntry pool m (i + 1) 1) (\<lambda>m _. returning ()
            (set_Lbn (i + 1) UNUSED_LBN m
             \<bind> (\<lambda>m. set_NextVbn (i + 1) (NextVbn (Mapping m ! unat i)) m)
             \<bind> store_pair i (\<lambda>p. p\<lparr>NextVbn := NextVbn p - amount\<rparr>)))) m () (xs @ ?p # ?hole # ys)"
    proof (rule gives_add_one [of m "xs @ [p]" ys])
      fix m' b assume m': "holds m' ((xs @ [p]) @ b # ys)"
      have "yields (set_NextVbn (i + 1) (NextVbn (Mapping m'' ! unat i)) m'') (xs @ p # ?hole # ys)"
        if m'': "holds m'' ((xs @ [p]) @ b\<lparr>Lbn := UNUSED_LBN\<rparr> # ys)" for m''
      proof -
        have "Mapping m'' ! unat i = p" using holds_nth [OF m'', of "unat i"] d(6) by (simp add: nth_append)
        then show ?thesis
          using store_here [OF m'' i1, of "\<lambda>q. q\<lparr>NextVbn := NextVbn p\<rparr>"] by (simp add: set_NextVbn_def both_fields)
      qed
      then have "yields (set_Lbn (i + 1) UNUSED_LBN m' \<bind> (\<lambda>m. set_NextVbn (i + 1) (NextVbn (Mapping m ! unat i)) m))
          (xs @ p # ?hole # ys)"
        unfolding set_Lbn_def by (rule yields_bind [OF store_here [OF m' i1]])
      then show "yields (set_Lbn (i + 1) UNUSED_LBN m' \<bind> (\<lambda>m. set_NextVbn (i + 1) (NextVbn (Mapping m ! unat i)) m)
          \<bind> store_pair i (\<lambda>p. p\<lparr>NextVbn := NextVbn p - amount\<rparr>)) (xs @ ?p # ?hole # ys)"
        by (rule yields_bind) (rule store_here [OF _ d(6)])
    qed (use d(1-3) i1 in simp_all)
    then have "gives (remove_last_part pool m i amount) m () (xs @ ?p # ?hole # ys)"
      using run d(9,14) run_at_edge(6,7) [OF e] by (simp add: remove_last_part_def)
    then show ?thesis
      by (rule removes_from [OF d(5,7,4)])
        (use run next_p s d(8-13) in \<open>auto simp: run_step.simps split: if_splits\<close>)
  qed
qed

lemma SectorsWithinRun_edge:
  "edge_at m i xs (p # ys) s c \<Longrightarrow> SectorsWithinRun m i = NextVbn p - StartingVbn m i"
  using run_at_edge(3) by (simp add: SectorsWithinRun_def)

lemma remove_middle_ok:
  assumes r: "range_in_run m ps pool a i xs p ys s c" and s: "s < a" and n: "0 < n" "a + n < unat (NextVbn p)"
  shows "removes (remove_middle pool m i (int a) (int n)) m () ps a (a + n)"
proof -
  note d = range_in_runD [OF r]
  let ?a = "word_of_int (int a) :: ulong" and ?n = "word_of_int (int n) :: ulong"
  have "unat (NextVbn p) < 2 ^ 32" using unsigned_less [of "NextVbn p", where ?'a = nat] by simp
  then have an: "a + n < 2 ^ 32" using n(2) by linarith
  note w = unat_range [OF an]
  let ?first = "\<lparr>NextVbn = ?a, Lbn = Lbn p\<rparr>" and ?hole = "\<lparr>NextVbn = ?a + ?n, Lbn = UNUSED_LBN\<rparr>"
  define lbn where "lbn = Lbn p + (?a - word_of_int (int s) + ?n)"
  let ?third = "p\<lparr>Lbn := lbn\<rparr>"
  have code: "remove_middle pool m i (int a) (int n) =
      if_returned (FsRtlAddLargeEntry pool m i 2) (\<lambda>m _. returning ()
        (set_Lbn i (Lbn (Mapping m ! unat (i + 2))) m \<bind> set_NextVbn i ?a
         \<bind> set_Lbn (i + 1) UNUSED_LBN \<bind> set_NextVbn (i + 1) (?a + ?n)
         \<bind> (\<lambda>m. store_pair (i + 2)
               (\<lambda>p. p\<lparr>Lbn := Lbn p + (SectorsWithinRun m i + SectorsWithinRun m (i + 1))\<rparr>) m)))"
    using d(9,14) by (simp add: remove_middle_def)
  have "gives (remove_middle pool m i (int a) (int n)) m () (xs @ ?first # ?hole # ?third # ys)"
    unfolding code
  proof (rule gives_break [OF d(1,6,3,2)])
    fix m3 assume m3: "holds m3 (xs @ ?first # ?hole # p # ys)"
    have e1: "edge_at m3 i xs (?first # ?hole # p # ys) s c" using m3 d(5,6) by (simp add: edge_at_def)
    have st: "StartingVbn m3 i = word_of_int (int s)"
      using StartingVbn_edge [OF e1] unat_range(1) [of s 0] s an by (simp add: word_unat_eq_iff)
    have "run_step (s, c) ?first = Some (a, Some (unat (Lbn p) + (a - s)))"
      using d(9-12) s n w by (simp add: run_step.simps)
    then have "edge_at m3 (i + 1) (xs @ [?first]) (?hole # p # ys) a (Some (unat (Lbn p) + (a - s)))"
      using m3 d(5,6) unat_next(1) [OF m3, of i] by (simp add: edge_at_def runs_to_append)
    note e2 = this
    have st2: "StartingVbn m3 (i + 1) = ?a"
      using StartingVbn_edge [OF e2] w(1) by (simp add: word_unat_eq_iff)
    have "Lbn p + (SectorsWithinRun m3 i + SectorsWithinRun m3 (i + 1)) = lbn"
      using SectorsWithinRun_edge [OF e1] SectorsWithinRun_edge [OF e2] by (simp add: st st2 lbn_def)
    then show "yields (store_pair (i + 2)
          (\<lambda>p. p\<lparr>Lbn := Lbn p + (SectorsWithinRun m3 i + SectorsWithinRun m3 (i + 1))\<rparr>) m3)
        (xs @ ?first # ?hole # ?third # ys)"
      using store_second [OF m3 d(6), of "\<lambda>p. p\<lparr>Lbn := Lbn p + (SectorsWithinRun m3 i + SectorsWithinRun m3 (i + 1))\<rparr>"]
      by simp
  qed
  moreover have lbn: "unat lbn = unat (Lbn p) + (a + n - s)"
  proof -
    have "lbn = Lbn p + of_nat (a + n - s)" using s by (simp add: lbn_def of_nat_diff)
    moreover have "unat (Lbn p) + (a + n - s) < 2 ^ 32" using d(12) n s by linarith
    moreover from this have "unat (of_nat (a + n - s) :: ulong) = a + n - s" by (intro unat_of_nat_range) simp
    ultimately show ?thesis using unat_plus_range [of "Lbn p" "of_nat (a + n - s)"] by simp
  qed
  moreover have used: "lbn \<noteq> UNUSED_LBN" using lbn d(12) n s unat_UNUSED_LBN by auto
  moreover have rest: "unat lbn + (unat (NextVbn p) - (a + n)) = unat (Lbn p) + (unat (NextVbn p) - s)"
    using lbn n s by simp
  ultimately show ?thesis
  proof (elim removes_from [OF d(5,7,4)])
    show "runs_from (s, c) (?first # ?hole # ?third # ys)"
      using used rest lbn n s d(9-13) w by (simp add: run_step.simps)
  qed (use used lbn n s w d(9) in auto)
qed

lemma LONGLONG_id: "- (2 ^ 63) \<le> x \<Longrightarrow> x < 2 ^ 63 \<Longrightarrow> LONGLONG x = x"
  unfolding LONGLONG_def by (rule signed_take_bit_int_eq_self) simp_all

lemma removes_none:
  assumes "holds m ps" "proper ps" "\<And>x. a \<le> x \<Longrightarrow> x < b \<Longrightarrow> sector_at 0 ps x = None"
  shows "removes (Some (m, Returned x)) m x ps a b"
proof -
  have "unmapped (sector_at 0 ps) a b = sector_at 0 ps" using assms(3) by (auto simp: unmapped_def)
  then show ?thesis using assms gives_unchanged by (auto simp: removes_def intro!: exI [of _ ps])
qed

lemma removes_if_returned:
  assumes "removes r m x ps a b"
  shows "removes (if_returned r (\<lambda>m x. Some (m, Returned (g x)))) m (g x) ps a b"
  using assms by (auto simp: removes_def gives_def)

lemma removes_returning: "removes (returning x r) m x ps a b \<Longrightarrow> removes (returning y r) m y ps a b"
  by (auto simp: removes_def gives_def returning_def)

lemma remove_turn_ok:
  assumes m: "holds m ps" "proper ps" "length ps \<le> 2 ^ 30" "allocates pool"
    and loc: "located ps a xs p ys s c" and e: "edge_at m i xs (p # ys) s c"
    and n: "0 < n" "a + n < 2 ^ 63"
  defines "b \<equiv> min (unat (NextVbn p)) (a + n)"
  shows "removes (remove_turn pool m i (int a) (int n)) m (int b, int (a + n - b)) ps a b" and "a < b" "b \<le> a + n"
proof -
  define N where "N = unat (NextVbn p)"
  have b_min: "b = min N (a + n)" by (simp add: b_def N_def)
  have sa: "s \<le> a" "a < N" using loc by (simp_all add: located_def N_def)
  have bits: "N < 2 ^ 32" using unsigned_less [of "NextVbn p", where ?'a = nat] by (simp add: N_def)
  show "a < b" "b \<le> a + n" using sa n by (simp_all add: b_min)
  have start: "uint (StartingVbn m i) = int s" by (simp only: uint_nat StartingVbn_edge [OF e])
  have en: "unat (EndingVbn m i) = N - 1" using run_at_edge(3) [OF e] unat_pred [of "NextVbn p"] sa by (simp add: N_def)
  then have ending: "uint (EndingVbn m i) < LONGLONG (int a + int n) \<longleftrightarrow> N \<le> a + n"
  proof -
    have "uint (EndingVbn m i) = int (N - 1)" by (simp only: uint_nat en)
    moreover have "LONGLONG (int a + int n) = int a + int n" using n by (intro LONGLONG_id) simp_all
    ultimately show ?thesis using sa by auto
  qed
  have wa: "unat (word_of_int (int a) :: ulong) = a" using unat_range(1) [of a 0] sa bits by simp
  define amount where "amount = EndingVbn m i - word_of_int (int a) + 1"
  have "amount = NextVbn p - word_of_int (int a)" using run_at_edge(3) [OF e] by (simp add: amount_def)
  then have "unat amount = N - a" using unat_minus_range [of "word_of_int (int a)" "NextVbn p"] wa sa by (simp add: N_def)
  then have am: "uint amount = int (N - a)" by (simp only: uint_nat)
  have "SectorsWithinRun m i = NextVbn p - StartingVbn m i" by (rule SectorsWithinRun_edge [OF e])
  then have "unat (SectorsWithinRun m i) = N - s"
    using unat_minus_range [of "StartingVbn m i" "NextVbn p"] StartingVbn_edge [OF e] sa by (simp add: N_def)
  then have sectors: "uint (SectorsWithinRun m i) = int (N - s)" by (simp only: uint_nat)
  have sums: "N \<le> a + n \<Longrightarrow> LONGLONG (int a + int (N - a)) = int b \<and> LONGLONG (int n - int (N - a)) = int (a + n - b)"
    using LONGLONG_id [of "int a + int (N - a)"] LONGLONG_id [of "int n - int (N - a)"] n sa bits
    by (auto simp: b_min of_nat_diff)
  have sum: "\<not> N \<le> a + n \<Longrightarrow> LONGLONG (int a + int n) = int b \<and> a + n - b = 0"
    using LONGLONG_id [of "int a + int n"] n by (auto simp: b_min)
  have amt: "EndingVbn m i - word_of_nat a + 1 = amount" by (simp add: amount_def)
  have code: "remove_turn pool m i (int a) (int n) =
     (if s = a \<and> N \<le> a + n then returning (int b, int (a + n - b)) (remove_entire_run m i)
      else if s = a then
        if_returned (remove_first_part pool m i (int a) (int n)) (\<lambda>m _. Some (m, Returned (int b, int (a + n - b))))
      else if N \<le> a + n then
        if_returned (remove_last_part pool m i amount) (\<lambda>m _. Some (m, Returned (int b, int (a + n - b))))
      else if_returned (remove_middle pool m i (int a) (int n)) (\<lambda>m _. Some (m, Returned (int b, int (a + n - b)))))"
    using sums sum by (auto simp: remove_turn_def Let_def start ending sectors am amt)
  show "removes (remove_turn pool m i (int a) (int n)) m (int b, int (a + n - b)) ps a b"
  proof (cases "Lbn p = UNUSED_LBN")
    case True
    have "sector_at 0 ps x = None" if "a \<le> x" "x < b" for x
      using that loc sa True by (auto simp: located_def sector_at_append b_min N_def)
    moreover have "remove_turn pool m i (int a) (int n) = Some (m, Returned (int b, int (a + n - b)))"
      using True run_at_edge(2) [OF e]
      by (simp add: code remove_entire_run_def remove_first_part_def remove_last_part_def remove_middle_def returning_def)
    ultimately show ?thesis by (auto intro: removes_none [OF m(1,2)])
  next
    case False
    then have r: "range_in_run m ps pool a i xs p ys s c" using m loc e by (simp add: range_in_run_def)
    have b: "b = (if N \<le> a + n then N else a + n)" by (simp add: b_min)
    consider "s = a" "N \<le> a + n" | "s = a" "a + n < N" | "s < a" "N \<le> a + n" | "s < a" "a + n < N"
      using sa by linarith
    then show ?thesis
    proof cases
      case 1
      then show ?thesis using removes_returning [OF remove_entire_run_ok [OF r [unfolded 1(1)]]] by (simp add: code b N_def [symmetric])
    next
      case 2
      then show ?thesis using removes_if_returned [OF remove_first_part_ok [OF r [unfolded 2(1)] n(1) 2(2) [unfolded N_def]]] by (simp add: code b)
    next
      case 3
      then show ?thesis using removes_if_returned [OF remove_last_part_ok(1) [OF r 3(1) amount_def]] by (simp add: code b N_def [symmetric])
    next
      case 4
      then show ?thesis using removes_if_returned [OF remove_middle_ok [OF r 4(1) n(1) 4(2) [unfolded N_def]]] by (simp add: code b)
    qed
  qed
qed

section \<open>The loop\<close>

text \<open>
  How the removal ends: the range is gone; or an allocation raised and a first part of it is gone. The map at the
  start bounds the number of pairs on the way.
\<close>

definition removed :: "unit mcb_outcome \<Rightarrow> (nat \<Rightarrow> nat option) \<Rightarrow> nat \<Rightarrow> nat \<Rightarrow> bool" where
  "removed r f a b \<longleftrightarrow> (\<exists>m' j qs. holds m' qs \<and> proper qs \<and>
     (r = Some (m', Returned ()) \<and> sector_at 0 qs = unmapped f a b
      \<or> (\<exists>s. r = Some (m', Raised s)) \<and> a \<le> j \<and> j \<le> b \<and> sector_at 0 qs = unmapped f a j))"

lemma breaks_bound:
  assumes "proper ps" "finite (breaks f)" "card (breaks f) + 2 \<le> k" "sector_at 0 ps = unmapped f a b"
  shows "length ps \<le> k"
proof -
  have "card (breaks (unmapped f a b)) \<le> card (breaks f \<union> {a, b})"
    using assms(2) breaks_unmapped by (intro card_mono) auto
  also have "\<dots> \<le> card (breaks f) + card {a, b}" by (rule card_Un_le)
  also have "\<dots> \<le> card (breaks f) + 2" by (simp add: card_insert_if)
  finally show ?thesis using length_breaks(2) [OF assms(1)] assms(3,4) by simp
qed

lemma unmapped_unmapped: "a \<le> b \<Longrightarrow> b \<le> c \<Longrightarrow> unmapped (unmapped f a b) b c = unmapped f a c"
  by (auto simp: unmapped_def)

lemma remove_range_ok:
  assumes pool: "allocates pool" and f: "finite (breaks f)" "card (breaks f) + 2 \<le> 2 ^ 30" and k: "b < 2 ^ 63"
  shows "holds m ps \<Longrightarrow> proper ps \<Longrightarrow> sector_at 0 ps = unmapped f a0 a \<Longrightarrow> a0 \<le> a \<Longrightarrow> a \<le> b \<Longrightarrow>
    a < 2 ^ 32 \<or> a = b \<Longrightarrow> removed (remove_range pool (int a) (int (b - a)) m) f a0 b"
proof (induction "b - a" arbitrary: m ps a rule: less_induct)
  case less
  note m = less.prems(1,2)
  have len: "length ps \<le> 2 ^ 30" using breaks_bound [OF m(2) f less.prems(3)] .
  show ?case
  proof (cases "a = b")
    case True
    then have "remove_range pool (int a) (int (b - a)) m = Some (m, Returned ())" by (simp add: remove_range.simps)
    then show ?thesis using less.prems True by (auto simp: removed_def)
  next
    case False
    have ab: "a < b" using False less.prems(5) by simp
    have wa: "unat (word_of_int (int a) :: ulong) = a"
      using less.prems(6) False unat_range(1) [of a 0] by simp
    obtain t l where ps: "runs_to (0, Some 0) ps = Some (t, Some l)" using m(2) runs_fromD unfolding proper_def by blast
    consider (found) i xs p ys s c where "FsRtlFindLargeIndex m (word_of_int (int a)) = Some (True, i)"
        "located ps a xs p ys s c" "edge_at m i xs (p # ys) s c"
      | (beyond) "FsRtlFindLargeIndex m (word_of_int (int a)) = Some (False, PairCount m)" "t \<le> a"
      by (rule FsRtlFindLargeIndex_cases [OF m(1) ps len, of "word_of_int (int a)"]) (auto simp only: wa)
    then show ?thesis
    proof cases
      case beyond
      have "remove_range pool (int a) (int (b - a)) m = Some (m, Returned ())"
        using ab beyond(1) by (subst remove_range.simps) simp
      moreover have "unmapped f a0 a = unmapped f a0 b"
      proof
        fix x
        have "sector_at 0 ps x = None" if "a \<le> x" using sector_at_beyond [OF ps] beyond(2) that by simp
        then have "unmapped f a0 a x = None" if "a \<le> x" using that less.prems(3) by simp
        then show "unmapped f a0 a x = unmapped f a0 b x" using less.prems(4,5) by (auto simp: unmapped_def split: if_splits)
      qed
      ultimately show ?thesis using less.prems by (auto simp: removed_def)
    next
      case found
      define n where "n = b - a"
      define e where "e = min (unat (NextVbn p)) (a + n)"
      have n: "0 < n" "a + n < 2 ^ 63" "a + n = b" using ab k by (simp_all add: n_def)
      note turn = remove_turn_ok [OF m len pool found(2,3) n(1,2), folded e_def, unfolded n(3)]
      have eb: "e \<le> b" by (simp add: e_def n(3))
      have bits: "e < 2 ^ 32 \<or> e = b"
        using unsigned_less [of "NextVbn p", where ?'a = nat] by (auto simp: e_def n(3) min_def)
      have step: "remove_range pool (int a) (int n) m =
          remove_turn pool m i (int a) (int n) \<bind> (\<lambda>turn.
            case turn of (m, Raised status) \<Rightarrow> Some (m, Raised status)
            | (m, Returned left) \<Rightarrow> remove_range pool (fst left) (snd left) m)"
        using n(1) found(1) by (subst remove_range.simps) simp
      from turn(1) obtain qs where qs: "gives (remove_turn pool m i (int a) (int n)) m (int e, int (b - e)) qs" "proper qs"
          "sector_at 0 qs = unmapped (sector_at 0 ps) a e"
        by (auto simp: removes_def)
      have map: "sector_at 0 qs = unmapped f a0 e"
        using qs(3) less.prems(3,4) turn(2) by (simp add: unmapped_unmapped)
      from qs(1) show ?thesis
        unfolding gives_def
      proof (elim disjE exE conjE)
        fix s assume "remove_turn pool m i (int a) (int n) = Some (m, Raised s)"
        then have "remove_range pool (int a) (int (b - a)) m = Some (m, Raised s)"
          using step by (simp add: n_def)
        then show ?thesis using less.prems by (auto simp: removed_def)
      next
        fix m' assume r: "remove_turn pool m i (int a) (int n) = Some (m', Returned (int e, int (b - e)))"
          and h: "holds m' qs"
        have "remove_range pool (int a) (int (b - a)) m = remove_range pool (int e) (int (b - e)) m'"
          using step r by (simp add: n_def)
        moreover have "removed (remove_range pool (int e) (int (b - e)) m') f a0 b"
          using less.hyps [of e m' qs] turn(2) eb ab h qs(2) map less.prems(4) bits by simp
        ultimately show ?thesis by simp
      qed
    qed
  qed
qed

text \<open>The whole routine; a range that ends before the first sector is empty.\<close>

lemma FsRtlRemoveBaseMcbEntry_ok:
  assumes m: "holds m ps" "proper ps" "length ps + 2 \<le> 2 ^ 30" and pool: "allocates pool"
    and a: "a < 2 ^ 32" "a + n < 2 ^ 63"
  shows "removed (FsRtlRemoveBaseMcbEntry pool m (int a) (int n)) (sector_at 0 ps) a (a + n)"
proof (cases "a = 0 \<and> 0 < PairCount m \<and> uint (NextVbn (Mapping m ! unat (PairCount m - 1))) \<le> int n")
  case True
  obtain t l where ps: "runs_to (0, Some 0) ps = Some (t, Some l)" using m(2) runs_fromD unfolding proper_def by blast
  have e: "edge_at m (PairCount m) ps [] t (Some l)" using m(1) ps by (simp add: edge_at_def holds_def)
  have "PairCount m \<noteq> 0" using True by auto
  from edge_before [OF e this] obtain r t' d where r: "run_step (t', d) r = Some (t, Some l)"
      "Mapping m ! unat (PairCount m - 1) = r" by metis
  have "t = unat (NextVbn r)" using run_step_SomeD(1) [OF r(1)] .
  moreover have "int (unat (NextVbn r)) \<le> int n" using True r(2) by simp
  then have "unat (NextVbn r) \<le> n" by (simp only: of_nat_le_iff)
  ultimately have "t \<le> n" by (simp only:)
  then have "sector_at 0 [] = unmapped (sector_at 0 ps) a (a + n)"
    using True sector_at_beyond [OF ps] by (auto simp: unmapped_def)
  moreover have "holds (m\<lparr>PairCount := 0\<rparr>) []" using m(1) by (simp add: holds_def buffer_def)
  moreover have "proper []" by (simp add: proper_def)
  moreover have "FsRtlRemoveBaseMcbEntry pool m (int a) (int n) = Some (m\<lparr>PairCount := 0\<rparr>, Returned ())"
    using True by (simp add: FsRtlRemoveBaseMcbEntry_def)
  ultimately show ?thesis unfolding removed_def by blast
next
  case False
  have "unmapped (sector_at 0 ps) a a = sector_at 0 ps" by (rule ext) (auto simp: unmapped_def)
  then have "removed (remove_range pool (int a) (int (a + n - a)) m) (sector_at 0 ps) a (a + n)"
    using remove_range_ok [OF pool length_breaks(1) [OF m(2)] _ a(2) m(1,2), of a a] length_breaks(2) [OF m(2)] m(3) a(1)
    by simp
  moreover have "FsRtlRemoveBaseMcbEntry pool m (int a) (int n) = remove_range pool (int a) (int n) m"
    using False by (auto simp: FsRtlRemoveBaseMcbEntry_def)
  ultimately show ?thesis by simp
qed

end
