(* ===== verification/Mcb_Split.thy ===== *)
theory Mcb_Split
  imports Mcb_Remove
begin

text \<open>
  \<^verbatim>\<open>FsRtlTruncateBaseMcb\<close> and \<^verbatim>\<open>FsRtlSplitBaseMcb\<close> as operations on maps: what lies from a sector on is cut off, or
  moves up with its logical sectors.
\<close>

section \<open>Truncating\<close>

definition cut_off :: "(nat \<Rightarrow> nat option) \<Rightarrow> nat \<Rightarrow> nat \<Rightarrow> nat option" where
  "cut_off f v x = (if x < v then f x else None)"

lemma shrink_mapping_ok:
  assumes m: "holds m ps" and pool: "allocates pool"
  shows "yields (shrink_mapping pool m) ps"
proof (cases "PairCount m < MaximumPairCount m div 4 \<and> INITIAL_MAXIMUM_PAIR_COUNT < MaximumPairCount m")
  case False
  then have "shrink_mapping pool m = Some m" by (auto simp: shrink_mapping_def)
  then show ?thesis using m by (simp add: yields_Some)
next
  case True
  define newMax where "newMax = (if PairCount m * 2 < INITIAL_MAXIMUM_PAIR_COUNT then INITIAL_MAXIMUM_PAIR_COUNT
    else PairCount m * 2)"
  define request where "request = (if newMax = INITIAL_MAXIMUM_PAIR_COUNT \<and> PoolType m = PagedPool then FirstMapping
    else PoolBlock (PoolType m) newMax)"
  have code: "shrink_mapping pool m = (case pool m request of
       Inl _ \<Rightarrow> Some m
     | Inr fresh \<Rightarrow> copy_pairs fresh (Mapping m) (PairCount m) \<bind> (\<lambda>buffer. freed_to_pool m \<bind> (\<lambda>_.
         Some (m\<lparr>Mapping := buffer, MappingSource := request, MaximumPairCount := newMax\<rparr>))))"
    unfolding shrink_mapping_def Let_def newMax_def request_def using True by (rule if_P)
  have max: "unat (MaximumPairCount m) \<le> 2 ^ 31" "unat (PairCount m) = length ps"
    using m by (simp_all add: holds_def buffer_def)
  have "unat (PairCount m) < unat (MaximumPairCount m) div 4" using True by (simp add: word_less_nat_alt unat_div)
  moreover have "unat (MaximumPairCount m) div 4 \<le> 2 ^ 31 div 4" using max(1) by (rule div_le_mono)
  ultimately have len: "length ps < 2 ^ 29" using max(2) by simp
  have twice: "unat (PairCount m * 2) = 2 * length ps"
    using unat_times_range [of "PairCount m" 2] max(2) len by simp
  have fifteen: "unat INITIAL_MAXIMUM_PAIR_COUNT = 15" by (simp add: INITIAL_MAXIMUM_PAIR_COUNT_def)
  have new: "length ps \<le> unat newMax \<and> 15 \<le> unat newMax \<and> unat newMax \<le> 2 ^ 31"
    using twice len fifteen by (auto simp: newMax_def word_less_nat_alt)
  show ?thesis
  proof (cases "pool m request")
    case (Inl s)
    then show ?thesis using m by (simp add: code yields_Some)
  next
    case (Inr fresh)
    have fresh: "length fresh = unat newMax"
      using pool Inr fifteen by (auto simp: allocates_def request_def split: if_splits)
    let ?b = "ps @ drop (length ps) fresh"
    have "copy_pairs fresh (Mapping m) (PairCount m) = Some ?b"
      using m fresh new by (simp add: copy_pairs_def holds_def)
    moreover have "freed_to_pool m = Some ()" using m True by (auto simp: holds_def buffer_def freed_to_pool_def)
    moreover have "holds (m\<lparr>Mapping := ?b, MappingSource := request, MaximumPairCount := newMax\<rparr>) ps"
      using m fresh new by (auto simp: holds_def buffer_def request_def)
    ultimately show ?thesis using Inr by (simp add: code yields_Some)
  qed
qed

lemma holds_shorter:
  assumes "holds m ps" "unat n \<le> length ps"
  shows "holds (m\<lparr>PairCount := n\<rparr>) (take (unat n) ps)"
proof -
  have "take (unat n) (take (length ps) (Mapping m)) = take (unat n) ps" using assms(1) by (simp add: holds_def)
  then have "take (unat n) (Mapping m) = take (unat n) ps" using assms(2) by simp
  then show ?thesis using assms by (simp add: holds_def buffer_def)
qed

lemma truncate_pairs_ok:
  assumes m: "holds m ps" "proper ps" "length ps \<le> 2 ^ 30"
  obtains qs where "yields (truncate_pairs m vbn) qs" "proper qs" "sector_at 0 qs = cut_off (sector_at 0 ps) (unat vbn)"
proof -
  have empty: "holds (m\<lparr>PairCount := 0\<rparr>) []" "proper []" using m(1) by (simp_all add: holds_def buffer_def proper_def)
  obtain t l where ps: "runs_to (0, Some 0) ps = Some (t, Some l)" using m(2) runs_fromD unfolding proper_def by blast
  consider (zero) "vbn = 0" | (none) "vbn \<noteq> 0" "PairCount m = 0" | (some) "vbn \<noteq> 0" "PairCount m \<noteq> 0" by blast
  then show thesis
  proof cases
    case zero
    then show thesis using that [of "[]"] empty by (simp add: truncate_pairs_def yields_Some cut_off_def fun_eq_iff)
  next
    case none
    then have "ps = []" using m(1) by (simp add: holds_def)
    then show thesis using that [of ps] m none by (simp add: truncate_pairs_def yields_Some cut_off_def fun_eq_iff)
  next
    case some
    have v: "unat (vbn - 1) = unat vbn - 1" "0 < unat vbn"
      using some unat_pred [of vbn] by (simp_all add: unat_gt_0)
    have pos: "0 < PairCount m" using some by (simp add: word_neq_0_conv)
    consider (found) i xs p ys s c where "FsRtlFindLargeIndex m (vbn - 1) = Some (True, i)"
        "located ps (unat vbn - 1) xs p ys s c" "edge_at m i xs (p # ys) s c"
      | (beyond) "FsRtlFindLargeIndex m (vbn - 1) = Some (False, PairCount m)" "t \<le> unat vbn - 1"
      by (rule FsRtlFindLargeIndex_cases [OF m(1) ps m(3), of "vbn - 1"]) (auto simp only: v)
    then show thesis
    proof cases
      case beyond
      have "cut_off (sector_at 0 ps) (unat vbn) = sector_at 0 ps"
        using sector_at_beyond [OF ps] beyond(2) by (auto simp: cut_off_def fun_eq_iff)
      then show thesis using that [of ps] m beyond(1) some pos by (simp add: truncate_pairs_def yields_Some)
    next
      case found
      have i: "unat i = length xs" and xs: "runs_to (0, Some 0) xs = Some (s, c)"
        and h: "holds m (xs @ p # ys)" and psx: "ps = xs @ p # ys" and sv: "s < unat vbn" "unat vbn \<le> unat (NextVbn p)"
        using found v by (auto simp: edge_at_def located_def)
      have proper: "runs_from (s, c) (p # ys)" using m(2) proper_append [OF xs] psx by simp
      show thesis
      proof (cases "Lbn p = UNUSED_LBN")
        case True
        then have "c \<noteq> None" using proper by (auto simp: run_step.simps split: if_splits)
        moreover have "holds (m\<lparr>PairCount := i\<rparr>) xs"
          using holds_shorter [OF h, of i] i by simp
        moreover have "sector_at 0 xs = cut_off (sector_at 0 ps) (unat vbn)"
        proof
          fix x
          show "sector_at 0 xs x = cut_off (sector_at 0 ps) (unat vbn) x"
            using sector_at_append [OF xs, of x "p # ys"] sector_at_beyond [OF xs, of x] True sv
            by (auto simp: cut_off_def psx)
        qed
        ultimately show thesis
          using that [of xs] True some pos found(1) run_at_edge(2) [OF found(3)] xs
          by (auto simp: truncate_pairs_def yields_Some proper_def runs_from_def)
      next
        case False
        let ?m = "m\<lparr>PairCount := i + 1\<rparr>" and ?p = "if vbn < NextVbn p then p\<lparr>NextVbn := vbn\<rparr> else p"
        have i1: "unat (i + 1) = Suc (length xs)" using unat_next(1) [OF h, of i] i by simp
        have hm: "holds ?m (xs @ p # [])"
          using holds_shorter [OF h, of "i + 1"] i1 by simp
        have "edge_at ?m i xs (p # []) s c" using hm i xs by (simp add: edge_at_def)
        note at = run_at_edge [OF this]
        have nv: "unat (NextVbn ?p) = unat vbn"
          using sv by (auto simp: word_less_nat_alt)
        have "yields (truncate_pairs m vbn) (xs @ ?p # [])"
          using some pos found(1) False run_at_edge(2) [OF found(3)] at(4) hm store_here [OF hm i, of "\<lambda>p. p\<lparr>NextVbn := vbn\<rparr>"]
          by (auto simp: truncate_pairs_def Let_def yields_Some set_NextVbn_def)
        moreover have "proper (xs @ [?p]) \<and> sector_at 0 (xs @ [?p]) = cut_off (sector_at 0 ps) (unat vbn)"
        proof (rule tail_patch [OF xs])
          show "runs_from (s, c) [?p]" using proper False nv sv by (auto simp: run_step.simps split: if_splits)
          fix x
          show "s \<le> x \<Longrightarrow> sector_at s [?p] x = cut_off (sector_at 0 ps) (unat vbn) x"
            using nv sv False sector_at_append [OF xs, of x "p # ys"] by (auto simp: cut_off_def psx)
          show "x < s \<Longrightarrow> sector_at 0 xs x = cut_off (sector_at 0 ps) (unat vbn) x"
            using sector_at_append [OF xs, of x "p # ys"] sv by (simp add: cut_off_def psx)
        qed
        ultimately show thesis using that by blast
      qed
    qed
  qed
qed

lemma FsRtlTruncateBaseMcb_ok:
  assumes m: "holds m ps" "proper ps" "length ps \<le> 2 ^ 30" and pool: "allocates pool"
  obtains m' qs where "FsRtlTruncateBaseMcb pool m largeVbn = Some (m', Returned ())" "holds m' qs" "proper qs"
    "sector_at 0 qs = cut_off (sector_at 0 ps) (unat (ucast largeVbn :: ulong))"
proof -
  obtain qs where qs: "yields (truncate_pairs m (ucast largeVbn)) qs" "proper qs"
      "sector_at 0 qs = cut_off (sector_at 0 ps) (unat (ucast largeVbn :: ulong))"
    by (rule truncate_pairs_ok [OF m, of "ucast largeVbn"])
  have "yields (truncate_pairs m (ucast largeVbn) \<bind> shrink_mapping pool) qs"
    by (rule yields_bind [OF qs(1)]) (rule shrink_mapping_ok [OF _ pool])
  then obtain m' where "truncate_pairs m (ucast largeVbn) \<bind> shrink_mapping pool = Some m'" "holds m' qs"
    by (auto simp: yields_def)
  then show thesis using that [of m' qs] qs by (simp add: FsRtlTruncateBaseMcb_def returning_def)
qed

section \<open>Splitting\<close>

definition shifted :: "(nat \<Rightarrow> nat option) \<Rightarrow> nat \<Rightarrow> nat \<Rightarrow> nat \<Rightarrow> nat option" where
  "shifted f v k x = (if x < v then f x else if x < v + k then None else f (x - k))"

definition bump :: "ulong \<Rightarrow> MAPPING \<Rightarrow> MAPPING" where
  "bump amount p = p\<lparr>NextVbn := NextVbn p + amount\<rparr>"

lemma shift_runs_ok:
  "holds m (xs @ ys) \<Longrightarrow> unat i = length xs \<Longrightarrow> yields (shift_runs amount (PairCount m) i m) (xs @ map (bump amount) ys)"
proof (induction ys arbitrary: m xs i)
  case Nil
  then have "\<not> i < PairCount m" by (simp add: holds_def word_less_nat_alt)
  then show ?case using Nil by (simp add: shift_runs.simps yields_Some)
next
  case (Cons p ys)
  have less: "i < PairCount m" using Cons.prems by (simp add: holds_def word_less_nat_alt)
  obtain m' where m': "store_pair i (bump amount) m = Some m'" "holds m' (xs @ bump amount p # ys)"
    using store_here [OF Cons.prems] by (auto simp: yields_def)
  have same: "PairCount m' = PairCount m" using m'(1) by (auto simp: store_pair_def split: if_splits)
  have i1: "unat (i + 1) = length (xs @ [bump amount p])" using unat_next(1) [OF Cons.prems(1), of i] Cons.prems(2) by simp
  have "shift_runs amount (PairCount m) i m = shift_runs amount (PairCount m') (i + 1) m'"
    using less m'(1) same by (subst shift_runs.simps) (simp add: bump_def [abs_def])
  then show ?case using Cons.IH [of m' "xs @ [bump amount p]" "i + 1"] m'(2) i1 by simp
qed

text \<open>Shifted runs, none of which wraps around.\<close>

lemma next_bump: "unat (NextVbn p) + unat amount < 2 ^ 32 \<Longrightarrow> unat (NextVbn (bump amount p)) = unat (NextVbn p) + unat amount"
  using unat_plus_range [of "NextVbn p" amount] by (simp add: bump_def)

lemma Lbn_bump [simp]: "Lbn (bump amount p) = Lbn p"
  by (simp add: bump_def)

lemma runs_bump:
  "runs_from (s, c) ys \<Longrightarrow> \<forall>p \<in> set ys. unat (NextVbn p) + unat amount < 2 ^ 32 \<Longrightarrow>
   runs_from (s + unat amount, c) (map (bump amount) ys)
   \<and> (\<forall>x. sector_at (s + unat amount) (map (bump amount) ys) (x + unat amount) = sector_at s ys x)"
proof (induction ys arbitrary: s c)
  case (Cons p ys)
  obtain t d where p: "run_step (s, c) p = Some (t, d)" "runs_from (t, d) ys"
    using Cons.prems(1) by (auto split: option.splits)
  have np: "unat (NextVbn (bump amount p)) = unat (NextVbn p) + unat amount"
    using Cons.prems(2) by (simp add: next_bump)
  have "run_step (s + unat amount, c) (bump amount p) = Some (t + unat amount, d)"
    using p(1) np by (auto simp: run_step.simps split: if_splits)
  moreover have "t = unat (NextVbn p)" using run_step_SomeD(1) [OF p(1)] .
  ultimately show ?case using Cons.IH [OF p(2)] Cons.prems(2) np by simp
qed simp

lemma shift_patch:
  assumes xs: "runs_to (0, Some 0) xs = Some (s, c)" and s: "s \<le> v" and zs: "runs_from (s, c) zs'"
    and map: "\<And>x. s \<le> x \<Longrightarrow> sector_at s zs' x =
      (if x < v then sector_at s zs x else if x < v + k then None else sector_at s zs (x - k))"
  shows "proper (xs @ zs') \<and> sector_at 0 (xs @ zs') = shifted (sector_at 0 (xs @ zs)) v k"
  using s map by (intro tail_patch [OF xs zs]) (auto simp: shifted_def sector_at_append [OF xs])

text \<open>The tail of a list after a shift, read at any sector past the hole.\<close>

lemma sector_at_bumped:
  assumes "runs_from (s, c) ys" "\<forall>p \<in> set ys. unat (NextVbn p) + unat amount < 2 ^ 32" "unat amount \<le> x"
  shows "sector_at (s + unat amount) (map (bump amount) ys) x = sector_at s ys (x - unat amount)"
  using runs_bump [OF assms(1,2)] assms(3) by (metis le_add_diff_inverse2)

lemma gives_shift:
  assumes "gives r m i (xs @ ys)" "unat i = length xs"
  shows "gives (if_returned r (\<lambda>m index. returning True (shift_runs amount (PairCount m) index m))) m True
           (xs @ map (bump amount) ys)"
  using assms(1) unfolding gives_def
proof (elim disjE exE conjE)
  fix m' assume r: "r = Some (m', Returned i)" and h: "holds m' (xs @ ys)"
  then show "(\<exists>s. if_returned r (\<lambda>m index. returning True (shift_runs amount (PairCount m) index m)) = Some (m, Raised s))
    \<or> (\<exists>m'. if_returned r (\<lambda>m index. returning True (shift_runs amount (PairCount m) index m)) = Some (m', Returned True)
         \<and> holds m' (xs @ map (bump amount) ys))"
    using shift_runs_ok [OF h assms(2), of amount] by (auto simp: yields_def returning_def)
qed simp

text \<open>What a split gives.\<close>

definition splits :: "bool mcb_outcome \<Rightarrow> base_mcb \<Rightarrow> MAPPING list \<Rightarrow> nat \<Rightarrow> nat \<Rightarrow> bool" where
  "splits r m ps v k \<longleftrightarrow> (\<exists>qs. gives r m True qs \<and> proper qs \<and> length qs \<le> length ps + 2
     \<and> sector_at 0 qs = shifted (sector_at 0 ps) v k)"

lemma splits_from:
  assumes "runs_to (0, Some 0) xs = Some (s, c)" "s \<le> v" "ps = xs @ zs"
    and "gives r m True (xs @ zs')" "runs_from (s, c) zs'" "length zs' \<le> length zs + 2"
    and "\<And>x. s \<le> x \<Longrightarrow> sector_at s zs' x =
      (if x < v then sector_at s zs x else if x < v + k then None else sector_at s zs (x - k))"
  shows "splits r m ps v k"
  using shift_patch [OF assms(1,2,5,7)] assms(3,4,6) by (auto simp: splits_def)

lemma next_vbn_end: "runs_to e ps = Some (t, c) \<Longrightarrow> p \<in> set ps \<Longrightarrow> unat (NextVbn p) \<le> t"
proof (induction ps arbitrary: e)
  case (Cons q ps)
  obtain s' c' where q: "run_step e q = Some (s', c')" "runs_to (s', c') ps = Some (t, c)"
    using Cons.prems(1) by (auto split: option.splits)
  have "s' = unat (NextVbn q)" using run_step_SomeD(1) [of "fst e" "snd e" q s' c'] q(1) by simp
  then have "unat (NextVbn q) \<le> t" using runs_to_mono [OF q(2)] by simp
  then show ?case using Cons q(2) by auto
qed simp

lemma split_run_ok:
  assumes r: "range_in_run m ps pool v i xs p ys s c \<or>
      Lbn p = UNUSED_LBN \<and> holds m ps \<and> proper ps \<and> located ps v xs p ys s c \<and> edge_at m i xs (p # ys) s c"
    and vbn: "unat vbn = v" and k: "0 < unat amount" "\<forall>p \<in> set ps. unat (NextVbn p) + unat amount < 2 ^ 32"
  shows "splits (if_returned (split_run pool m i vbn amount) (\<lambda>m index.
           returning True (shift_runs amount (PairCount m) index m))) m ps v (unat amount)"
proof -
  have e: "edge_at m i xs (p # ys) s c" and loc: "located ps v xs p ys s c" and m: "holds m ps" "proper ps"
    using r by (auto simp: range_in_run_def)
  define N where "N = unat (NextVbn p)"
  have ps: "ps = xs @ p # ys" and xs: "runs_to (0, Some 0) xs = Some (s, c)" and sv: "s \<le> v" "v < N"
    using loc by (simp_all add: located_def N_def)
  have h: "holds m (xs @ p # ys)" and i: "unat i = length xs" using e by (simp_all add: edge_at_def)
  have proper: "runs_from (s, c) (p # ys)" using m(2) proper_append [OF xs] ps by simp
  have np: "unat (NextVbn (bump amount p)) = N + unat amount" using k(2) by (simp add: next_bump ps N_def)
  have kys: "\<forall>p \<in> set ys. unat (NextVbn p) + unat amount < 2 ^ 32" using k(2) by (simp add: ps)
  have "N + unat amount < 2 ^ 32" using k(2) by (simp add: ps N_def)
  then have vk: "unat (vbn + amount) = v + unat amount" "v + unat amount < 2 ^ 32"
    using unat_plus_range [of vbn amount] sv vbn by simp_all
  have start: "StartingVbn m i = vbn \<longleftrightarrow> s = v"
    using StartingVbn_edge [OF e] vbn by (auto simp: word_unat_eq_iff)
  have code: "split_run pool m i vbn amount =
     (if Lbn p = UNUSED_LBN then Some (m, Returned i)
      else if s = v \<and> c = None then Some (m, Returned (i - 1))
      else if s = v then if_returned (FsRtlAddLargeEntry pool m i 1) (\<lambda>m _.
          returning (i + 1) (set_Lbn i UNUSED_LBN m \<bind> set_NextVbn i (vbn + amount)))
      else if_returned (FsRtlAddLargeEntry pool m i 2) (\<lambda>m _. returning (i + 2)
            (set_Lbn i (Lbn (Mapping m ! unat (i + 2))) m
             \<bind> set_NextVbn i vbn \<bind> set_Lbn (i + 1) UNUSED_LBN \<bind> set_NextVbn (i + 1) (vbn + amount)
             \<bind> (\<lambda>m. set_Lbn (i + 2)
                   (Lbn (Mapping m ! unat (i + 2)) + StartingVbn m (i + 1) - StartingVbn m i) m))))"
    using run_at_edge(2) [OF e] start PreviousEndingLbn_edge(2) [OF e] edge_start [of m xs "p # ys" s c] e
    by (auto simp: split_run_def)
  have tail: "sector_at (N + unat amount) (map (bump amount) ys) x = sector_at N ys (x - unat amount)"
    if "unat amount \<le> x" "runs_from (N, d) ys" for x d
    using sector_at_bumped [OF that(2) kys that(1)] .
  show ?thesis
  proof (cases "Lbn p = UNUSED_LBN")
    case True
    then have c: "c \<noteq> None" "runs_from (N, None) ys" using proper by (auto simp: run_step.simps N_def split: if_splits)
    have "gives (if_returned (split_run pool m i vbn amount) (\<lambda>m index.
        returning True (shift_runs amount (PairCount m) index m))) m True (xs @ map (bump amount) (p # ys))"
      using gives_shift [OF gives_unchanged [OF h, of i] i, of amount] True by (simp add: code)
    then show ?thesis
    proof (rule splits_from [OF xs sv(1) ps])
      have "runs_from (N + unat amount, None) (map (bump amount) ys)" using runs_bump [OF c(2) kys] by simp
      then show "runs_from (s, c) (map (bump amount) (p # ys))" using c sv np True by (simp add: run_step.simps)
    qed (use True sv np tail [OF _ c(2)] in \<open>auto simp: N_def\<close>)
  next
    case False
    then have r: "range_in_run m ps pool v i xs p ys s c" using r by simp
    note d = range_in_runD [OF r]
    have rest: "runs_from (N, Some (unat (Lbn p) + (N - s))) ys" using d(13) by (simp add: N_def)
    have rest': "runs_from (N + unat amount, Some (unat (Lbn p) + (N - s))) (map (bump amount) ys)"
      using runs_bump [OF rest kys] by simp
    consider (joins) "s = v" "c = None" | (starts) "s = v" "c \<noteq> None" | (inside) "s < v" using sv by linarith
    then show ?thesis
    proof cases
      case joins
      obtain ws h' t d' where w: "xs = ws @ [h']" "unat i = Suc (length ws)" "unat (i - 1) = length ws"
          "runs_to (0, Some 0) ws = Some (t, d')" "d' \<noteq> None" "Lbn h' = UNUSED_LBN" "t < s" "unat (NextVbn h') = s"
        by (rule hole_before [OF r [unfolded joins(2)]])
      have hw: "holds m (ws @ h' # p # ys)" and psw: "ps = ws @ h' # p # ys" using h ps w(1) by simp_all
      have nh: "unat (NextVbn (bump amount h')) = s + unat amount" using k(2) w(8) by (simp add: next_bump psw)
      have "gives (if_returned (split_run pool m i vbn amount) (\<lambda>m index.
          returning True (shift_runs amount (PairCount m) index m))) m True (ws @ map (bump amount) (h' # p # ys))"
        using gives_shift [OF gives_unchanged [OF hw, of "i - 1"] w(3), of amount] joins False by (simp add: code)
      moreover have tv: "t \<le> v" using w(7) joins by simp
      ultimately show ?thesis
      proof (elim splits_from [OF w(4) _ psw])
        show "runs_from (t, d') (map (bump amount) (h' # p # ys))"
          using w nh np d(9-12) rest' sv by (simp add: run_step.simps N_def)
      qed (use joins w nh np False sv tail [OF _ rest] in \<open>auto simp: N_def\<close>)
    next
      case starts
      let ?hole = "\<lparr>NextVbn = vbn + amount, Lbn = UNUSED_LBN\<rparr>"
      have "gives (split_run pool m i vbn amount) m (i + 1) ((xs @ [?hole]) @ p # ys)"
        using gives_one [OF d(1,6,3,2)] starts False by (auto simp: code)
      moreover have "unat (i + 1) = length (xs @ [?hole])" using unat_next(1) [OF d(1), of i] d(6) by simp
      ultimately have "gives (if_returned (split_run pool m i vbn amount) (\<lambda>m index.
          returning True (shift_runs amount (PairCount m) index m))) m True ((xs @ [?hole]) @ map (bump amount) (p # ys))"
        by (rule gives_shift)
      then have "gives (if_returned (split_run pool m i vbn amount) (\<lambda>m index.
          returning True (shift_runs amount (PairCount m) index m))) m True (xs @ ?hole # map (bump amount) (p # ys))"
        by simp
      then show ?thesis
      proof (rule splits_from [OF xs sv(1) ps])
        show "runs_from (s, c) (?hole # map (bump amount) (p # ys))"
          using starts vk np k(1) d(9-12) rest' sv by (simp add: run_step.simps N_def)
      qed (use starts vk np False sv tail [OF _ rest] in \<open>auto simp: N_def\<close>)
    next
      case inside
      let ?first = "\<lparr>NextVbn = vbn, Lbn = Lbn p\<rparr>" and ?hole = "\<lparr>NextVbn = vbn + amount, Lbn = UNUSED_LBN\<rparr>"
      define lbn where "lbn = Lbn p + vbn - StartingVbn m i"
      let ?third = "p\<lparr>Lbn := lbn\<rparr>"
      have lbn: "unat lbn = unat (Lbn p) + (v - s)"
      proof -
        have st: "unat (vbn - StartingVbn m i) = v - s"
          using unat_minus_range [of "StartingVbn m i" vbn] StartingVbn_edge [OF e] vbn sv by simp
        have "lbn = Lbn p + (vbn - StartingVbn m i)" by (simp add: lbn_def)
        moreover have "v - s < N - s" using sv inside by simp
        then have "unat (Lbn p) + (v - s) < 2 ^ 32" using d(12) unfolding N_def by linarith
        ultimately show ?thesis using unat_plus_range [of "Lbn p" "vbn - StartingVbn m i"] st by simp
      qed
      have "gives (split_run pool m i vbn amount) m (i + 2) (xs @ ?first # ?hole # ?third # ys)"
      proof -
        have "gives (if_returned (FsRtlAddLargeEntry pool m i 2) (\<lambda>m _. returning (i + 2)
            (set_Lbn i (Lbn (Mapping m ! unat (i + 2))) m
             \<bind> set_NextVbn i vbn \<bind> set_Lbn (i + 1) UNUSED_LBN \<bind> set_NextVbn (i + 1) (vbn + amount)
             \<bind> (\<lambda>m. set_Lbn (i + 2)
                   (Lbn (Mapping m ! unat (i + 2)) + StartingVbn m (i + 1) - StartingVbn m i) m))))
          m (i + 2) (xs @ ?first # ?hole # ?third # ys)"
        proof (rule gives_break [OF d(1,6,3,2)])
          fix m3 assume m3: "holds m3 (xs @ ?first # ?hole # p # ys)"
          have e1: "edge_at m3 i xs (?first # ?hole # p # ys) s c" using m3 d(5,6) by (simp add: edge_at_def)
          have st: "StartingVbn m3 i = StartingVbn m i"
            using StartingVbn_edge [OF e1] StartingVbn_edge [OF e] by (simp add: word_unat_eq_iff)
          have "run_step (s, c) ?first = Some (v, Some (unat (Lbn p) + (v - s)))"
            using d(9-12) sv inside vbn by (simp add: run_step.simps N_def)
          then have e2: "edge_at m3 (i + 1) (xs @ [?first]) (?hole # p # ys) v (Some (unat (Lbn p) + (v - s)))"
            using m3 d(5,6) unat_next(1) [OF m3, of i] by (simp add: edge_at_def runs_to_append)
          have st2: "StartingVbn m3 (i + 1) = vbn" using StartingVbn_edge [OF e2] vbn by (simp add: word_unat_eq_iff)
          have "Mapping m3 ! unat (i + 2) = p"
            using holds_nth [OF m3, of "Suc (Suc (length xs))"] unat_next(2) [OF m3, of i] d(6) by (simp add: nth_append)
          then show "yields (set_Lbn (i + 2)
              (Lbn (Mapping m3 ! unat (i + 2)) + StartingVbn m3 (i + 1) - StartingVbn m3 i) m3)
              (xs @ ?first # ?hole # ?third # ys)"
            using store_second [OF m3 d(6), of "\<lambda>p. p\<lparr>Lbn := lbn\<rparr>"] by (simp add: set_Lbn_def st st2 lbn_def)
        qed
        then show ?thesis using inside False by (simp add: code)
      qed
      then have "gives (split_run pool m i vbn amount) m (i + 2) ((xs @ [?first, ?hole]) @ ?third # ys)" by simp
      moreover have "unat (i + 2) = length (xs @ [?first, ?hole])" using unat_next(2) [OF d(1), of i] d(6) by simp
      ultimately have "gives (if_returned (split_run pool m i vbn amount) (\<lambda>m index.
          returning True (shift_runs amount (PairCount m) index m))) m True
          ((xs @ [?first, ?hole]) @ map (bump amount) (?third # ys))"
        by (rule gives_shift)
      then have "gives (if_returned (split_run pool m i vbn amount) (\<lambda>m index.
          returning True (shift_runs amount (PairCount m) index m))) m True
          (xs @ ?first # ?hole # map (bump amount) (?third # ys))"
        by simp
      moreover have n3: "unat (NextVbn (bump amount ?third)) = N + unat amount" using np by (simp add: bump_def)
      moreover have used: "lbn \<noteq> UNUSED_LBN" using lbn d(12) sv inside unat_UNUSED_LBN by (auto simp: N_def)
      moreover have "unat lbn + (N - v) = unat (Lbn p) + (N - s)" using lbn sv by simp
      ultimately show ?thesis
      proof (elim splits_from [OF xs sv(1) ps])
        show "runs_from (s, c) (?first # ?hole # map (bump amount) (?third # ys))"
          using inside vk n3 np k(1) d(9-12) rest' sv vbn lbn used by (simp add: run_step.simps N_def)
      qed (use inside vk n3 np False sv vbn lbn used tail [OF _ rest] in \<open>auto simp: N_def\<close>)
    qed
  qed
qed

lemma FsRtlSplitBaseMcb_ok:
  assumes m: "holds m ps" "proper ps" "length ps \<le> 2 ^ 30" and pool: "allocates pool"
    and vbn: "unat (ucast largeVbn :: ulong) = v" and amount: "unat (ucast largeAmount :: ulong) = k" "0 < k"
    and ps: "runs_to (0, Some 0) ps = Some (t, c)" "t + k < 2 ^ 32"
  shows "v < t \<and> splits (FsRtlSplitBaseMcb pool m largeVbn largeAmount) m ps v k
    \<or> t \<le> v \<and> FsRtlSplitBaseMcb pool m largeVbn largeAmount = Some (m, Returned False)"
proof (rule FsRtlFindLargeIndex_cases [OF m(1) ps(1) m(3), of "ucast largeVbn"])
  fix i xs p ys s d
  assume found: "FsRtlFindLargeIndex m (ucast largeVbn) = Some (True, i)" "unat (ucast largeVbn :: ulong) < t"
    and run: "located ps (unat (ucast largeVbn :: ulong)) xs p ys s d" "edge_at m i xs (p # ys) s d"
  have "\<forall>p \<in> set ps. unat (NextVbn p) + unat (ucast largeAmount :: ulong) < 2 ^ 32"
    using next_vbn_end [OF ps(1)] ps(2) amount(1) by (metis add_le_mono1 le_less_trans)
  moreover have "range_in_run m ps pool v i xs p ys s d \<or>
      Lbn p = UNUSED_LBN \<and> holds m ps \<and> proper ps \<and> located ps v xs p ys s d \<and> edge_at m i xs (p # ys) s d"
    using run m pool vbn by (auto simp: range_in_run_def)
  ultimately have "splits (if_returned (split_run pool m i (ucast largeVbn) (ucast largeAmount)) (\<lambda>m index.
      returning True (shift_runs (ucast largeAmount) (PairCount m) index m))) m ps v k"
    using split_run_ok [of m ps pool v i xs p ys s d "ucast largeVbn" "ucast largeAmount"] vbn amount by simp
  then show ?thesis using found vbn by (simp add: FsRtlSplitBaseMcb_def Let_def)
next
  assume "FsRtlFindLargeIndex m (ucast largeVbn) = Some (False, PairCount m)" "t \<le> unat (ucast largeVbn :: ulong)"
  then show ?thesis using vbn by (simp add: FsRtlSplitBaseMcb_def Let_def)
qed

end
