(* ===== verification/Mcb_Refine.thy ===== *)
theory Mcb_Refine
  imports Mcb_Raise Mcb_Add Mcb_Split
begin

text \<open>
  The large control block as an object that keeps a partial map from virtual to logical sectors: each operation,
  and so any sequence of them, refines an operation on the map.
\<close>

section \<open>The map of a large control block\<close>

definition represents :: "large_mcb \<Rightarrow> (nat \<Rightarrow> nat option) \<Rightarrow> bool" where
  "represents M f \<longleftrightarrow> GuardedMutex M = Some False
     \<and> (\<exists>ps. holds (BaseMcb M) ps \<and> proper ps \<and> sector_at 0 ps = f)"

text \<open>An argument of 64 bits is read as its low half.\<close>

definition low_part :: "ulonglong \<Rightarrow> nat" where
  "low_part x = unat (ucast x :: ulong)"

lemma low_part_less: "low_part x < 2 ^ 32"
  unfolding low_part_def using unsigned_less [of "ucast x :: ulong", where ?'a = nat] by simp

text \<open>The operations, with the allocator that serves them.\<close>

datatype mcb_operation =
    AddEntry ulonglong ulonglong ulonglong
  | RemoveEntry ulonglong ulonglong
  | TruncateAt ulonglong
  | SplitAt ulonglong ulonglong
  | ResetAll bool

definition done_true :: "(large_mcb \<times> unit completion) option \<Rightarrow> (large_mcb \<times> bool completion) option" where
  "done_true = map_option (apsnd (map_completion (\<lambda>_. True)))"

fun perform :: "allocator \<Rightarrow> mcb_operation \<Rightarrow> large_mcb \<Rightarrow> (large_mcb \<times> bool completion) option" where
  "perform pool (AddEntry vbn lbn count) M = FsRtlAddLargeMcbEntry pool vbn lbn count M"
| "perform pool (RemoveEntry vbn count) M = done_true (FsRtlRemoveLargeMcbEntry pool vbn count M)"
| "perform pool (TruncateAt vbn) M = done_true (FsRtlTruncateLargeMcb pool vbn M)"
| "perform pool (SplitAt vbn amount) M = FsRtlSplitLargeMcb pool vbn amount M"
| "perform pool (ResetAll synchronized) M = done_true (FsRtlResetLargeMcb synchronized M)"

text \<open>
  Arguments that name sectors below the last number of 32 bits, a logical sector other than 0 (the description
  of \<^verbatim>\<open>FsRtlAddBaseMcbEntry\<close> forbids it), and at least one sector to add or to split by. The routines do not
  refuse 0 sectors, but leave runs of no sectors in the buffer then, which are no part of a map.
\<close>

fun allowed :: "mcb_operation \<Rightarrow> (nat \<Rightarrow> nat option) \<Rightarrow> bool" where
  "allowed (AddEntry vbn lbn count) f \<longleftrightarrow> 0 < low_part count \<and> low_part vbn + low_part count < 2 ^ 32
     \<and> 0 < low_part lbn \<and> low_part lbn + low_part count < 2 ^ 32"
| "allowed (SplitAt vbn amount) f \<longleftrightarrow> 0 < low_part amount
     \<and> (\<forall>x. f x \<noteq> None \<longrightarrow> x + low_part amount + 1 < 2 ^ 32)"
| "allowed _ _ \<longleftrightarrow> True"

text \<open>
  What the operations promise of the map. When an allocation raises, nothing has changed, but for a removal,
  which may have done a first part of its work.
\<close>

fun specified :: "allocator \<Rightarrow> mcb_operation \<Rightarrow> (nat \<Rightarrow> nat option) \<Rightarrow> bool completion \<Rightarrow> (nat \<Rightarrow> nat option) \<Rightarrow> bool" where
  "specified pool (AddEntry vbn lbn count) f c f' \<longleftrightarrow>
     (let v = low_part vbn; l = low_part lbn; n = low_part count in
      c = Returned (addable f v l n) \<and> f' = (if addable f v l n then f ++ run_map v l n else f)
      \<or> (\<exists>s. c = Raised s \<and> raised_by pool s) \<and> f' = f)"
| "specified pool (RemoveEntry vbn count) f c f' \<longleftrightarrow>
     (let v = low_part vbn; n = low_part count in
      c = Returned True \<and> f' = unmapped f v (v + n)
      \<or> (\<exists>s. c = Raised s \<and> raised_by pool s) \<and> (\<exists>j. v \<le> j \<and> j \<le> v + n \<and> f' = unmapped f v j))"
| "specified pool (TruncateAt vbn) f c f' \<longleftrightarrow> c = Returned True \<and> f' = cut_off f (low_part vbn)"
| "specified pool (SplitAt vbn amount) f c f' \<longleftrightarrow>
     c = Returned (\<exists>x \<ge> low_part vbn. f x \<noteq> None) \<and> f' = shifted f (low_part vbn) (low_part amount)
     \<or> (\<exists>s. c = Raised s \<and> raised_by pool s) \<and> f' = f"
| "specified pool (ResetAll _) f c f' \<longleftrightarrow> c = Returned True \<and> f' = Map.empty"

section \<open>The operations keep the map\<close>

lemma guarded_ok:
  assumes "GuardedMutex M = Some False" "operation (BaseMcb M) = Some (m, c)"
  shows "guarded operation M = Some (M\<lparr>BaseMcb := m\<rparr>, c)"
  using assms by (simp add: guarded_def mutex_acquired_def mutex_released_def)

lemma represents_base:
  assumes "GuardedMutex M = Some False" "holds m qs" "proper qs" "sector_at 0 qs = f"
  shows "represents (M\<lparr>BaseMcb := m\<rparr>) f"
  using assms by (auto simp: represents_def)

text \<open>The last sector mapped is before the end of the list.\<close>

lemma mapped_end:
  assumes "proper ps" "runs_to (0, Some 0) ps = Some (t, c)"
  shows "(\<exists>x \<ge> v. sector_at 0 ps x \<noteq> None) \<longleftrightarrow> v < t" and "ps \<noteq> [] \<Longrightarrow> sector_at 0 ps (t - 1) \<noteq> None \<and> 0 < t"
proof -
  have last: "sector_at 0 ps (t - 1) \<noteq> None \<and> 0 < t" if "ps \<noteq> []"
  proof -
    obtain ws r where ps: "ps = ws @ [r]" using \<open>ps \<noteq> []\<close> by (metis rev_exhaust)
    obtain s d where ws: "runs_to (0, Some 0) ws = Some (s, d)" "run_step (s, d) r = Some (t, c)"
      using assms(2) by (auto simp: ps runs_to_append split: option.splits)
    have "Lbn r \<noteq> UNUSED_LBN"
      using assms(1) ws by (auto simp: proper_append ps run_step.simps split: if_splits)
    then show ?thesis using run_step_SomeD [OF ws(2)] sector_at_append [OF ws(1), of "t - 1" "[r]"] by (auto simp: ps)
  qed
  then show "ps \<noteq> [] \<Longrightarrow> sector_at 0 ps (t - 1) \<noteq> None \<and> 0 < t" .
  show "(\<exists>x \<ge> v. sector_at 0 ps x \<noteq> None) \<longleftrightarrow> v < t"
  proof
    assume "\<exists>x \<ge> v. sector_at 0 ps x \<noteq> None"
    then obtain x where "v \<le> x" "sector_at 0 ps x \<noteq> None" by blast
    then show "v < t" using sector_at_beyond [OF assms(2), of x] by (metis le_less_trans not_le)
  next
    assume "v < t"
    moreover from this have "ps \<noteq> []" using assms(2) by auto
    ultimately show "\<exists>x \<ge> v. sector_at 0 ps x \<noteq> None" using last by (intro exI [of _ "t - 1"]) auto
  qed
qed

lemma perform_add:
  assumes M: "GuardedMutex M = Some False" "holds (BaseMcb M) ps" "proper ps" "length ps \<le> 2 ^ 30"
    and pool: "allocates pool" and op: "allowed (AddEntry vbn lbn count) (sector_at 0 ps)"
  shows "\<exists>M' c f'. perform pool (AddEntry vbn lbn count) M = Some (M', c)
    \<and> specified pool (AddEntry vbn lbn count) (sector_at 0 ps) c f' \<and> represents M' f'"
proof -
  let ?v = "ucast vbn :: ulong" and ?l = "ucast lbn :: ulong" and ?n = "ucast count :: ulong"
  let ?f = "sector_at 0 ps" and ?ok = "addable (sector_at 0 ps) (low_part vbn) (low_part lbn) (low_part count)"
  have "new_run (BaseMcb M) ps pool ?v ?l ?n" using M pool op by (simp add: new_run_def low_part_def)
  then have "adds (FsRtlAddBaseMcbEntry pool (BaseMcb M) vbn lbn count) (BaseMcb M) ps
      (low_part vbn) (low_part lbn) (low_part count)"
    unfolding low_part_def by (rule FsRtlAddBaseMcbEntry_adds) simp_all
  then obtain qs where qs: "gives (FsRtlAddBaseMcbEntry pool (BaseMcb M) vbn lbn count) (BaseMcb M) ?ok qs" "proper qs"
      "sector_at 0 qs = (if ?ok then ?f ++ run_map (low_part vbn) (low_part lbn) (low_part count) else ?f)"
    by (auto simp only: adds_def)
  from qs(1) show ?thesis
    unfolding gives_def
  proof (elim disjE exE conjE)
    fix s assume raised: "FsRtlAddBaseMcbEntry pool (BaseMcb M) vbn lbn count = Some (BaseMcb M, Raised s)"
    then have "perform pool (AddEntry vbn lbn count) M = Some (M\<lparr>BaseMcb := BaseMcb M\<rparr>, Raised s)"
      using guarded_ok [OF M(1), of "\<lambda>m. FsRtlAddBaseMcbEntry pool m vbn lbn count"]
      by (simp add: FsRtlAddLargeMcbEntry_def)
    moreover have "raised_by pool s"
      using raises_add [of pool "BaseMcb M" vbn lbn count] raised by (simp add: raises_from_def)
    moreover have "represents (M\<lparr>BaseMcb := BaseMcb M\<rparr>) ?f" using represents_base [OF M(1,2,3)] by simp
    ultimately show ?thesis by fastforce
  next
    fix m' assume "FsRtlAddBaseMcbEntry pool (BaseMcb M) vbn lbn count = Some (m', Returned ?ok)" and h: "holds m' qs"
    then have "perform pool (AddEntry vbn lbn count) M = Some (M\<lparr>BaseMcb := m'\<rparr>, Returned ?ok)"
      using guarded_ok [OF M(1), of "\<lambda>m. FsRtlAddBaseMcbEntry pool m vbn lbn count"]
      by (simp add: FsRtlAddLargeMcbEntry_def)
    moreover have "represents (M\<lparr>BaseMcb := m'\<rparr>) (sector_at 0 qs)" using represents_base [OF M(1) h qs(2)] by simp
    ultimately show ?thesis using qs(3) by (auto simp: Let_def intro!: exI [of _ "M\<lparr>BaseMcb := m'\<rparr>"])
  qed
qed

lemma perform_remove:
  assumes M: "GuardedMutex M = Some False" "holds (BaseMcb M) ps" "proper ps" "length ps + 2 \<le> 2 ^ 30"
    and pool: "allocates pool"
  shows "\<exists>M' c f'. perform pool (RemoveEntry vbn count) M = Some (M', c)
    \<and> specified pool (RemoveEntry vbn count) (sector_at 0 ps) c f' \<and> represents M' f'"
proof -
  let ?r = "FsRtlRemoveBaseMcbEntry pool (BaseMcb M) (int (low_part vbn)) (int (low_part count))"
  have "removed ?r (sector_at 0 ps) (low_part vbn) (low_part vbn + low_part count)"
    using low_part_less [of vbn] low_part_less [of count]
    by (intro FsRtlRemoveBaseMcbEntry_ok [OF M(2-4) pool]) simp_all
  then obtain m' j qs where h: "holds m' qs" "proper qs" and cases:
      "?r = Some (m', Returned ()) \<and> sector_at 0 qs = unmapped (sector_at 0 ps) (low_part vbn) (low_part vbn + low_part count)
       \<or> (\<exists>s. ?r = Some (m', Raised s)) \<and> low_part vbn \<le> j \<and> j \<le> low_part vbn + low_part count
         \<and> sector_at 0 qs = unmapped (sector_at 0 ps) (low_part vbn) j"
    unfolding removed_def by blast
  have rep: "represents (M\<lparr>BaseMcb := m'\<rparr>) (sector_at 0 qs)" using represents_base [OF M(1) h] by simp
  have code: "perform pool (RemoveEntry vbn count) M
      = done_true (guarded (\<lambda>m. FsRtlRemoveBaseMcbEntry pool m (int (low_part vbn)) (int (low_part count))) M)"
    by (simp add: FsRtlRemoveLargeMcbEntry_def low_part_def Let_def)
  from cases show ?thesis
  proof (elim disjE exE conjE)
    assume "?r = Some (m', Returned ())"
    then have "perform pool (RemoveEntry vbn count) M = Some (M\<lparr>BaseMcb := m'\<rparr>, Returned True)"
      unfolding code
      using guarded_ok [OF M(1), of "\<lambda>m. FsRtlRemoveBaseMcbEntry pool m (int (low_part vbn)) (int (low_part count))"]
      by (simp add: done_true_def)
    moreover assume "sector_at 0 qs = unmapped (sector_at 0 ps) (low_part vbn) (low_part vbn + low_part count)"
    ultimately show ?thesis using rep by (auto simp: Let_def)
  next
    fix s assume raised: "?r = Some (m', Raised s)"
    then have "perform pool (RemoveEntry vbn count) M = Some (M\<lparr>BaseMcb := m'\<rparr>, Raised s)"
      unfolding code
      using guarded_ok [OF M(1), of "\<lambda>m. FsRtlRemoveBaseMcbEntry pool m (int (low_part vbn)) (int (low_part count))"]
      by (simp add: done_true_def)
    moreover assume "low_part vbn \<le> j" "j \<le> low_part vbn + low_part count"
      "sector_at 0 qs = unmapped (sector_at 0 ps) (low_part vbn) j"
    moreover have "raised_by pool s"
      using raises_remove [of pool "BaseMcb M" "int (low_part vbn)" "int (low_part count)"] raised
      by (simp add: raises_from_def)
    ultimately show ?thesis using rep by (auto simp: Let_def)
  qed
qed

lemma perform_truncate:
  assumes M: "GuardedMutex M = Some False" "holds (BaseMcb M) ps" "proper ps" "length ps \<le> 2 ^ 30"
    and pool: "allocates pool"
  shows "\<exists>M' c f'. perform pool (TruncateAt vbn) M = Some (M', c)
    \<and> specified pool (TruncateAt vbn) (sector_at 0 ps) c f' \<and> represents M' f'"
proof -
  obtain m' qs where t: "FsRtlTruncateBaseMcb pool (BaseMcb M) vbn = Some (m', Returned ())"
      and h: "holds m' qs" "proper qs" and map: "sector_at 0 qs = cut_off (sector_at 0 ps) (unat (ucast vbn :: ulong))"
    by (rule FsRtlTruncateBaseMcb_ok [OF M(2-4) pool, of vbn])
  have "perform pool (TruncateAt vbn) M = Some (M\<lparr>BaseMcb := m'\<rparr>, Returned True)"
    using guarded_ok [OF M(1), of "\<lambda>m. FsRtlTruncateBaseMcb pool m vbn"] t
    by (simp add: FsRtlTruncateLargeMcb_def done_true_def)
  moreover have "represents (M\<lparr>BaseMcb := m'\<rparr>) (cut_off (sector_at 0 ps) (low_part vbn))"
    using represents_base [OF M(1) h map] by (simp add: low_part_def)
  ultimately show ?thesis by auto
qed

lemma perform_split:
  assumes M: "GuardedMutex M = Some False" "holds (BaseMcb M) ps" "proper ps" "length ps \<le> 2 ^ 30"
    and pool: "allocates pool" and op: "allowed (SplitAt vbn amount) (sector_at 0 ps)"
  shows "\<exists>M' c f'. perform pool (SplitAt vbn amount) M = Some (M', c)
    \<and> specified pool (SplitAt vbn amount) (sector_at 0 ps) c f' \<and> represents M' f'"
proof -
  let ?r = "FsRtlSplitBaseMcb pool (BaseMcb M) vbn amount" and ?f = "sector_at 0 ps"
  obtain t l where ps: "runs_to (0, Some 0) ps = Some (t, Some l)" using M(3) runs_fromD unfolding proper_def by blast
  note mapped = mapped_end [OF M(3) ps]
  have k: "0 < low_part amount" "t + low_part amount < 2 ^ 32"
  proof -
    show "0 < low_part amount" using op by simp
    show "t + low_part amount < 2 ^ 32"
    proof (cases "ps = []")
      case True
      then show ?thesis using ps low_part_less [of amount] by simp
    next
      case False
      from mapped(2) [OF this] have "t - 1 + low_part amount + 1 < 2 ^ 32" "0 < t" using op by auto
      then show ?thesis by simp
    qed
  qed
  have ok: "perform pool (SplitAt vbn amount) M = Some (M\<lparr>BaseMcb := m\<rparr>, c)" if "?r = Some (m, c)" for m c
    using guarded_ok [OF M(1), of "\<lambda>m. FsRtlSplitBaseMcb pool m vbn amount"] that by (simp add: FsRtlSplitLargeMcb_def)
  from FsRtlSplitBaseMcb_ok [OF M(2-4) pool, of vbn "low_part vbn" amount "low_part amount" t "Some l"] k ps
  consider (split) "low_part vbn < t" "splits ?r (BaseMcb M) ps (low_part vbn) (low_part amount)"
    | (beyond) "t \<le> low_part vbn" "?r = Some (BaseMcb M, Returned False)"
    by (auto simp: low_part_def)
  then show ?thesis
  proof cases
    case beyond
    have "sector_at 0 ps x = None" if "low_part vbn \<le> x" for x using sector_at_beyond [OF ps, of x] that beyond(1) by simp
    then have "shifted ?f (low_part vbn) (low_part amount) = ?f" by (auto simp: shifted_def fun_eq_iff)
    moreover have "represents (M\<lparr>BaseMcb := BaseMcb M\<rparr>) ?f" using represents_base [OF M(1-3)] by simp
    moreover have "(\<exists>x \<ge> low_part vbn. ?f x \<noteq> None) = False" using mapped(1) beyond(1) by simp
    ultimately show ?thesis using ok [OF beyond(2)] by fastforce
  next
    case split
    then obtain qs where qs: "gives ?r (BaseMcb M) True qs" "proper qs"
        "sector_at 0 qs = shifted ?f (low_part vbn) (low_part amount)" by (auto simp: splits_def)
    have some: "(\<exists>x \<ge> low_part vbn. ?f x \<noteq> None) = True" using mapped(1) split(1) by simp
    from qs(1) show ?thesis
      unfolding gives_def
    proof (elim disjE exE conjE)
      fix s assume raised: "?r = Some (BaseMcb M, Raised s)"
      moreover have "raised_by pool s"
        using raises_split [of pool "BaseMcb M" vbn amount] raised by (simp add: raises_from_def)
      moreover have "represents (M\<lparr>BaseMcb := BaseMcb M\<rparr>) ?f" using represents_base [OF M(1-3)] by simp
      ultimately show ?thesis using ok by fastforce
    next
      fix m' assume r: "?r = Some (m', Returned True)" and h: "holds m' qs"
      have "represents (M\<lparr>BaseMcb := m'\<rparr>) (shifted ?f (low_part vbn) (low_part amount))"
        using represents_base [OF M(1) h qs(2,3)] .
      then show ?thesis using ok [OF r] some by (intro exI conjI) (assumption | simp)+
    qed
  qed
qed

lemma perform_reset:
  assumes M: "GuardedMutex M = Some False" "holds (BaseMcb M) ps"
  shows "\<exists>M' c f'. perform pool (ResetAll synchronized) M = Some (M', c)
    \<and> specified pool (ResetAll synchronized) f c f' \<and> represents M' f'"
proof -
  let ?m = "FsRtlResetBaseMcb (BaseMcb M)"
  have "perform pool (ResetAll synchronized) M = Some (M\<lparr>BaseMcb := ?m\<rparr>, Returned True)"
    using guarded_ok [OF M(1), of "\<lambda>m. Some (FsRtlResetBaseMcb m, Returned ())"]
    by (simp add: FsRtlResetLargeMcb_def done_true_def)
  moreover have "holds ?m []" using M(2) by (simp add: holds_def buffer_def FsRtlResetBaseMcb_def)
  then have "represents (M\<lparr>BaseMcb := ?m\<rparr>) Map.empty"
    using represents_base [OF M(1), of ?m "[]" Map.empty] by (simp add: proper_def fun_eq_iff)
  ultimately show ?thesis by auto
qed

text \<open>One operation.\<close>

lemma perform_refines:
  assumes M: "represents M f" and pool: "allocates pool" and op: "allowed operation f"
    and bound: "card (breaks f) + 2 \<le> 2 ^ 30"
  obtains M' c f' where "perform pool operation M = Some (M', c)" "specified pool operation f c f'" "represents M' f'"
proof -
  obtain ps where ps: "GuardedMutex M = Some False" "holds (BaseMcb M) ps" "proper ps" "sector_at 0 ps = f"
    using M by (auto simp: represents_def)
  have len: "length ps + 2 \<le> 2 ^ 30" "length ps \<le> 2 ^ 30" using length_breaks(2) [OF ps(3)] ps(4) bound by simp_all
  have "\<exists>M' c f'. perform pool operation M = Some (M', c) \<and> specified pool operation f c f' \<and> represents M' f'"
  proof (cases operation)
    case AddEntry
    then show ?thesis using perform_add [OF ps(1-3) len(2) pool] op ps(4) by blast
  next
    case RemoveEntry
    then show ?thesis using perform_remove [OF ps(1-3) len(1) pool] ps(4) by blast
  next
    case TruncateAt
    then show ?thesis using perform_truncate [OF ps(1-3) len(2) pool] ps(4) by blast
  next
    case SplitAt
    then show ?thesis using perform_split [OF ps(1-3) len(2) pool] op ps(4) by blast
  next
    case ResetAll
    then show ?thesis using perform_reset [OF ps(1,2)] by blast
  qed
  then show thesis using that by blast
qed

section \<open>Runs of operations\<close>

text \<open>No operation adds more than two breaks to the map.\<close>

lemma breaks_run_map: "agrees f v l n \<Longrightarrow> breaks (f ++ run_map v l n) \<subseteq> breaks f \<union> {v, v + n}"
proof
  fix x assume x: "x \<in> breaks (f ++ run_map v l n)"
  consider "x < v" | "x = v" | "v < x" "x < v + n" | "x = v + n" | "v + n < x" by linarith
  then show "x \<in> breaks f \<union> {v, v + n}"
    using x by cases (auto simp: breaks_def joined_def map_add_def run_map_def split: if_splits)
qed

lemma card_breaks_shifted:
  assumes "finite (breaks f)"
  shows "finite (breaks (shifted f v k)) \<and> card (breaks (shifted f v k)) \<le> card (breaks f) + 2"
proof -
  let ?A = "{x \<in> breaks f. x < v}" and ?B = "{x \<in> breaks f. v \<le> x}"
  have sub: "breaks (shifted f v k) \<subseteq> ?A \<union> (\<lambda>x. x + k) ` ?B \<union> {v, v + k}"
  proof
    fix x assume x: "x \<in> breaks (shifted f v k)"
    consider "x < v" | "x = v" | "v < x" "x < v + k" | "x = v + k" | "v + k < x" by linarith
    then show "x \<in> ?A \<union> (\<lambda>x. x + k) ` ?B \<union> {v, v + k}"
    proof cases
      case 1
      then have "x - 1 < v" by simp
      with 1 show ?thesis using x by (auto simp: breaks_def joined_def shifted_def)
    next
      case 3
      then have "\<not> x < v" "\<not> x - 1 < v" "x - 1 < v + k" by simp_all
      with 3 show ?thesis using x by (simp add: breaks_def joined_def shifted_def)
    next
      case 5
      then have "\<not> x < v" "\<not> x < v + k" "\<not> x - 1 < v" "\<not> x - 1 < v + k" "x - 1 - k = x - k - 1" by simp_all
      then have "x - k \<in> breaks f" using x 5 by (simp add: breaks_def joined_def shifted_def)
      with 5 show ?thesis by (auto intro!: image_eqI [of _ _ "x - k"])
    qed auto
  qed
  have "card (breaks f) = card ?A + card ?B"
    using assms by (subst card_Un_disjoint [symmetric]) (auto intro: arg_cong [of _ _ card])
  moreover have "card ((\<lambda>x. x + k) ` ?B) \<le> card ?B" using assms by (intro card_image_le) simp
  moreover have "card (breaks (shifted f v k)) \<le> card (?A \<union> (\<lambda>x. x + k) ` ?B \<union> {v, v + k})"
    using assms sub by (intro card_mono) simp_all
  moreover have "card (?A \<union> (\<lambda>x. x + k) ` ?B \<union> {v, v + k}) \<le> card ?A + card ((\<lambda>x. x + k) ` ?B) + card {v, v + k}"
    by (meson add_le_mono1 card_Un_le order_trans)
  moreover have "card {v, v + k} \<le> 2" by (simp add: card_insert_if)
  ultimately have "card (breaks (shifted f v k)) \<le> card (breaks f) + 2" by linarith
  moreover have "finite (breaks (shifted f v k))" using assms sub by (intro finite_subset [OF sub]) simp
  ultimately show ?thesis by blast
qed

lemma card_breaks_two:
  assumes "finite (breaks f)" "breaks g \<subseteq> breaks f \<union> {a, b}"
  shows "finite (breaks g) \<and> card (breaks g) \<le> card (breaks f) + 2"
proof -
  have "card (breaks g) \<le> card (breaks f \<union> {a, b})" using assms by (intro card_mono) auto
  also have "\<dots> \<le> card (breaks f) + card {a, b}" by (rule card_Un_le)
  also have "\<dots> \<le> card (breaks f) + 2" by (simp add: card_insert_if)
  finally show ?thesis using assms finite_subset by auto
qed

lemma specified_breaks:
  assumes "specified pool operation f c f'" and f: "finite (breaks f)"
  shows "finite (breaks f') \<and> card (breaks f') \<le> card (breaks f) + 2"
proof -
  have same: "finite (breaks f) \<and> card (breaks f) \<le> card (breaks f) + 2" using f by simp
  show ?thesis
  proof (cases operation)
    case (AddEntry vbn lbn count)
    then show ?thesis
      using assms(1) same card_breaks_two [OF f breaks_run_map [of f "low_part vbn" "low_part lbn" "low_part count"]]
      by (auto simp: Let_def addable_def split: if_splits)
  next
    case (RemoveEntry vbn count)
    then show ?thesis using assms(1) card_breaks_two [OF f breaks_unmapped] by (auto simp: Let_def)
  next
    case (TruncateAt vbn)
    let ?v = "low_part vbn"
    have "breaks (cut_off f ?v) \<subseteq> breaks f \<union> {?v, ?v}"
      by (auto simp: breaks_def joined_def cut_off_def split: if_splits)
    from card_breaks_two [OF f this] show ?thesis using TruncateAt assms(1) by simp
  next
    case SplitAt
    then show ?thesis using assms(1) same card_breaks_shifted [OF f] by auto
  next
    case ResetAll
    moreover have "breaks Map.empty = {}" by (auto simp: breaks_def joined_def)
    ultimately show ?thesis using assms(1) by simp
  qed
qed

text \<open>A sequence of operations, each with its allocator, and the results in order.\<close>

fun perform_all :: "(allocator \<times> mcb_operation) list \<Rightarrow> large_mcb \<Rightarrow> (large_mcb \<times> bool completion list) option" where
  "perform_all [] M = Some (M, [])"
| "perform_all ((pool, operation) # ops) M =
     perform pool operation M \<bind> (\<lambda>(M, c). perform_all ops M \<bind> (\<lambda>(M, cs). Some (M, c # cs)))"

inductive specified_all :: "(allocator \<times> mcb_operation) list
    \<Rightarrow> (nat \<Rightarrow> nat option) \<Rightarrow> bool completion list \<Rightarrow> (nat \<Rightarrow> nat option) \<Rightarrow> bool" where
  none: "specified_all [] f [] f"
| first: "specified pool operation f c f' \<Longrightarrow> specified_all ops f' cs f''
    \<Longrightarrow> specified_all ((pool, operation) # ops) f (c # cs) f''"

text \<open>Every operation is allowed on every map that the ones before may lead to.\<close>

fun all_allowed :: "(allocator \<times> mcb_operation) list \<Rightarrow> (nat \<Rightarrow> nat option) \<Rightarrow> bool" where
  "all_allowed [] f \<longleftrightarrow> True"
| "all_allowed ((pool, operation) # ops) f \<longleftrightarrow>
     allowed operation f \<and> (\<forall>c f'. specified pool operation f c f' \<longrightarrow> all_allowed ops f')"

lemma perform_all_refines:
  "represents M f \<Longrightarrow> finite (breaks f) \<Longrightarrow> card (breaks f) + 2 * length ops \<le> 2 ^ 30 \<Longrightarrow>
   \<forall>pool \<in> set (map fst ops). allocates pool \<Longrightarrow> all_allowed ops f \<Longrightarrow>
   \<exists>M' cs f'. perform_all ops M = Some (M', cs) \<and> specified_all ops f cs f' \<and> represents M' f'"
proof (induction ops arbitrary: M f)
  case Nil
  then show ?case by (auto intro: specified_all.none)
next
  case (Cons x ops)
  obtain pool operation where x: "x = (pool, operation)" by (cases x)
  obtain M1 c f1 where step: "perform pool operation M = Some (M1, c)" "specified pool operation f c f1"
      "represents M1 f1"
    using perform_refines [OF Cons.prems(1), of pool operation] Cons.prems(3-5) by (auto simp: x)
  have "all_allowed ops f1" using Cons.prems(5) step(2) by (auto simp: x)
  moreover note specified_breaks [OF step(2) Cons.prems(2)]
  ultimately obtain M' cs f' where rest: "perform_all ops M1 = Some (M', cs)" "specified_all ops f1 cs f'"
      "represents M' f'"
    using Cons.IH [OF step(3)] Cons.prems(3,4) by fastforce
  then show ?case using step(1,2) by (auto simp: x intro: specified_all.first)
qed

lemma initialized_represents:
  assumes "allocates pool" "FsRtlInitializeLargeMcb pool None poolType M0 = Some (M, Returned ())"
  shows "represents M Map.empty"
proof -
  define m where "m = (BaseMcb M0)\<lparr>PairCount := 0, PoolType := poolType\<rparr>"
  define request where
    "request = (if poolType = PagedPool then FirstMapping else PoolBlock poolType INITIAL_MAXIMUM_PAIR_COUNT)"
  obtain fresh where fresh: "pool m request = Inr fresh" and M: "M = \<lparr>GuardedMutex = Some False, BaseMcb =
      m\<lparr>Mapping := fresh, MappingSource := request, MaximumPairCount := INITIAL_MAXIMUM_PAIR_COUNT\<rparr>\<rparr>"
    using assms(2)
    by (auto simp: FsRtlInitializeLargeMcb_def FsRtlInitializeBaseMcb_def Let_def m_def request_def
        split: sum.splits if_splits)
  have "length fresh = 15"
    using assms(1) fresh by (auto simp: allocates_def request_def INITIAL_MAXIMUM_PAIR_COUNT_def split: if_splits)
  then have "holds (BaseMcb M) []"
    by (simp add: M holds_def buffer_def m_def request_def INITIAL_MAXIMUM_PAIR_COUNT_def)
  then show ?thesis by (auto simp: represents_def M proper_def fun_eq_iff)
qed

end
