(* ===== verification/Mcb_Theorems.thy ===== *)
theory Mcb_Theorems
  imports Mcb_Refine
begin

text \<open>
  What the queries answer is determined by the map that a large control block keeps; and the properties of the
  control blocks of \<^verbatim>\<open>fsrtl/largemcb.c\<close>.
\<close>

section \<open>The queries\<close>

text \<open>The stretch of sectors around one that the map continues over.\<close>

definition run_of :: "(nat \<Rightarrow> nat option) \<Rightarrow> nat \<Rightarrow> nat \<Rightarrow> nat \<Rightarrow> bool" where
  "run_of f v s n \<longleftrightarrow> s \<le> v \<and> v < s + n \<and> (\<forall>x. s < x \<and> x < s + n \<longrightarrow> joined f x)
     \<and> \<not> joined f (s + n) \<and> (0 < s \<longrightarrow> \<not> joined f s)"

definition lbn_answer :: "nat option \<Rightarrow> ulonglong" where
  "lbn_answer x = (case x of None \<Rightarrow> - 1 | Some l \<Rightarrow> of_nat l)"

lemma located_run_of:
  assumes loc: "located ps v xs p ys s c" and proper: "proper ps"
  shows "run_of (sector_at 0 ps) v s (unat (NextVbn p) - s)"
    and "length xs = card {b \<in> breaks (sector_at 0 ps). b \<le> v}"
proof -
  let ?f = "sector_at 0 ps" and ?N = "unat (NextVbn p)"
  have d: "ps = xs @ p # ys" "runs_to (0, Some 0) xs = Some (s, c)" "s \<le> v" "v < ?N"
    using loc by (simp_all add: located_def)
  have breaks: "breaks ?f = (\<lambda>p. unat (NextVbn p)) ` set ps"
    using breaks_of_runs [of 0 "Some 0" ps] proper by (auto simp: breaks_def proper_def)
  have inside: "joined ?f x" if "s < x" "x < ?N" for x
  proof (cases "Lbn p = UNUSED_LBN")
    case True
    then show ?thesis using located_hole [OF loc True, of x] located_hole [OF loc True, of "x - 1"] that
      by (simp add: joined_def)
  next
    case False
    then show ?thesis using located_run [OF loc False, of x] located_run [OF loc False, of "x - 1"] that
      by (simp add: joined_def)
  qed
  have first: "\<not> joined ?f s" if "0 < s"
  proof -
    have "xs \<noteq> []" using d(2) that by auto
    then obtain ws r where xs: "xs = ws @ [r]" by (metis rev_exhaust)
    then obtain t e where "run_step (t, e) r = Some (s, c)" using d(2) by (auto simp: runs_to_append split: option.splits)
    then have "s = unat (NextVbn r)" by (rule run_step_SomeD)
    then have "s \<in> (\<lambda>p. unat (NextVbn p)) ` set ps" using d(1) xs by simp
    then have "s \<in> breaks ?f" by (simp only: breaks)
    then show ?thesis by (simp add: breaks_def)
  qed
  show "run_of ?f v s (?N - s)"
    using inside first break_after [OF loc proper] d(3,4) by (simp add: run_of_def)
  have sorted: "sorted_wrt (<) (map (\<lambda>p. unat (NextVbn p)) ps)"
    using proper runs_fromD runs_sorted unfolding proper_def by fastforce
  have "{b \<in> breaks ?f. b \<le> v} = (\<lambda>p. unat (NextVbn p)) ` set xs"
  proof -
    have before: "unat (NextVbn q) \<le> v" if "q \<in> set xs" for q using next_vbn_end [OF d(2) that] d(3) by simp
    have after: "v < unat (NextVbn q)" if "q \<in> set (p # ys)" for q
      using sorted d(4) that by (auto simp: d(1) sorted_wrt_append)
    have "q \<in> set xs \<longleftrightarrow> unat (NextVbn q) \<le> v" if "q \<in> set ps" for q
      using that before [of q] after [of q] by (metis Un_iff d(1) not_le set_append)
    moreover have "set xs \<subseteq> set ps" by (auto simp: d(1))
    ultimately show ?thesis unfolding breaks by blast
  qed
  moreover have "distinct (map (\<lambda>p. unat (NextVbn p)) xs)"
    using sorted by (auto simp: d(1) sorted_wrt_append strict_sorted_iff)
  ultimately show "length xs = card {b \<in> breaks ?f. b \<le> v}"
    using distinct_card [of "map (\<lambda>p. unat (NextVbn p)) xs"] by simp
qed

lemma ucast_of_unat: "(ucast w :: ulonglong) = of_nat (unat w)" for w :: ulong
proof -
  have "unat w < 2 ^ 64" using unsigned_less [of w, where ?'a = nat] by simp
  then show ?thesis
    using unat_ucast_range [of w, where 'b = 64] unat_of_nat_range [of "unat w", where 'a = 64]
    by (simp add: word_unat_eq_iff)
qed

lemma FsRtlLookupBaseMcbEntry_ok:
  assumes m: "holds m ps" "proper ps" "length ps \<le> 2 ^ 30"
  shows "FsRtlLookupBaseMcbEntry m vbn = Some None \<and> (\<forall>x \<ge> low_part vbn. sector_at 0 ps x = None)
    \<or> (\<exists>s n. run_of (sector_at 0 ps) (low_part vbn) s n \<and> (\<exists>x \<ge> low_part vbn. sector_at 0 ps x \<noteq> None)
        \<and> FsRtlLookupBaseMcbEntry m vbn = Some (Some \<lparr>
             LargeLbn = lbn_answer (sector_at 0 ps (low_part vbn)),
             LargeSectorCount = of_nat (s + n - low_part vbn),
             LargeStartingLbn = lbn_answer (sector_at 0 ps s),
             LargeCountFromStartingLbn = of_nat n,
             RunIndex = of_nat (card {b \<in> breaks (sector_at 0 ps). b \<le> low_part vbn}) \<rparr>))"
proof -
  let ?f = "sector_at 0 ps" and ?v = "ucast vbn :: ulong"
  obtain t l where ps: "runs_to (0, Some 0) ps = Some (t, Some l)" using m(2) runs_fromD unfolding proper_def by blast
  have v: "unat ?v = low_part vbn" by (simp add: low_part_def)
  consider (found) i xs p ys s c where "FsRtlFindLargeIndex m ?v = Some (True, i)"
      "located ps (low_part vbn) xs p ys s c" "edge_at m i xs (p # ys) s c" "low_part vbn < t"
    | (beyond) "FsRtlFindLargeIndex m ?v = Some (False, PairCount m)" "t \<le> low_part vbn"
    by (rule FsRtlFindLargeIndex_cases [OF m(1) ps m(3), of ?v]) (auto simp only: v)
  then show ?thesis
  proof cases
    case beyond
    then show ?thesis using sector_at_beyond [OF ps] by (auto simp: FsRtlLookupBaseMcbEntry_def)
  next
    case found
    let ?N = "unat (NextVbn p)"
    have sv: "s \<le> low_part vbn" "low_part vbn < ?N" using found(2) by (simp_all add: located_def)
    have N: "?N < 2 ^ 32" using unsigned_less [of "NextVbn p", where ?'a = nat] by simp
    have st: "unat (StartingVbn m i) = s" by (rule StartingVbn_edge [OF found(3)])
    have "EndingVbn m i - ?v + 1 = NextVbn p - ?v" using run_at_edge(3) [OF found(3)] by simp
    moreover have "unat (NextVbn p - ?v) = ?N - low_part vbn" using unat_minus_range [of ?v "NextVbn p"] sv v by simp
    ultimately have "unat (EndingVbn m i - ?v + 1) = ?N - low_part vbn" by (simp only:)
    then have count: "(ucast (EndingVbn m i - ?v + 1) :: ulonglong) = of_nat (?N - low_part vbn)" by (simp only: ucast_of_unat)
    have "EndingVbn m i - StartingVbn m i + 1 = NextVbn p - StartingVbn m i" using run_at_edge(3) [OF found(3)] by simp
    moreover have "unat (NextVbn p - StartingVbn m i) = ?N - s"
      using unat_minus_range [of "StartingVbn m i" "NextVbn p"] sv st by simp
    ultimately have "unat (EndingVbn m i - StartingVbn m i + 1) = ?N - s" by (simp only:)
    then have whole: "(ucast (EndingVbn m i - StartingVbn m i + 1) :: ulonglong) = of_nat (?N - s)" by (simp only: ucast_of_unat)
    have answer: "(if StartingLbn m i = UNUSED_LBN then - 1 else ucast (StartingLbn m i + (w - StartingVbn m i)))
        = lbn_answer (?f (unat w))" if w: "s \<le> unat w" "unat w < ?N" for w
    proof (cases "Lbn p = UNUSED_LBN")
      case True
      then show ?thesis using located_hole [OF found(2) True w] run_at_edge(2) [OF found(3)] by (simp add: lbn_answer_def)
    next
      case False
      have r: "runs_from (s, c) (p # ys)" using m(2) found(2) proper_append by (auto simp: located_def)
      then obtain e where "run_step (s, c) p = Some e" by (auto split: option.splits)
      from run_step_run [OF this False] have "unat (Lbn p) + (?N - s) < 2 ^ 32" by blast
      then have "unat (Lbn p) + (unat w - s) < 2 ^ 32" using w by linarith
      moreover have "unat (w - StartingVbn m i) = unat w - s" using unat_minus_range [of "StartingVbn m i" w] st w by simp
      ultimately have "unat (Lbn p + (w - StartingVbn m i)) = unat (Lbn p) + (unat w - s)"
        using unat_plus_range [of "Lbn p" "w - StartingVbn m i"] by simp
      then have "(ucast (Lbn p + (w - StartingVbn m i)) :: ulonglong) = of_nat (unat (Lbn p) + (unat w - s))"
        by (simp only: ucast_of_unat)
      then show ?thesis
        using located_run [OF found(2) False w] run_at_edge(2) [OF found(3)] False by (simp add: lbn_answer_def)
    qed
    have here: "(if StartingLbn m i = UNUSED_LBN then - 1 else ucast (StartingLbn m i + (?v - StartingVbn m i)))
        = lbn_answer (?f (low_part vbn))" using answer [of ?v] sv v by simp
    have start: "(if StartingLbn m i = UNUSED_LBN then - 1 else ucast (StartingLbn m i)) = lbn_answer (?f s)"
      using answer [of "StartingVbn m i"] sv st by (auto split: if_splits)
    have ix: "i = of_nat (card {b \<in> breaks ?f. b \<le> low_part vbn})"
    proof -
      have "unat i = card {b \<in> breaks ?f. b \<le> low_part vbn}"
        using found(3) located_run_of(2) [OF found(2) m(2)] by (simp add: edge_at_def)
      then have "(of_nat (unat i) :: ulong) = of_nat (card {b \<in> breaks ?f. b \<le> low_part vbn})" by (simp only:)
      then show ?thesis by simp
    qed
    have "FsRtlLookupBaseMcbEntry m vbn = Some (Some \<lparr>
             LargeLbn = lbn_answer (?f (low_part vbn)),
             LargeSectorCount = of_nat (s + (?N - s) - low_part vbn),
             LargeStartingLbn = lbn_answer (?f s),
             LargeCountFromStartingLbn = of_nat (?N - s),
             RunIndex = of_nat (card {b \<in> breaks ?f. b \<le> low_part vbn}) \<rparr>)"
      using sv by (simp add: FsRtlLookupBaseMcbEntry_def found(1) here start count whole ix [symmetric])
    moreover have "\<exists>x \<ge> low_part vbn. ?f x \<noteq> None" using mapped_end(1) [OF m(2) ps] found(4) by blast
    ultimately show ?thesis using located_run_of(1) [OF found(2) m(2)] by blast
  qed
qed

text \<open>
  The runs of a map, one after the other: they end at the breaks, in order, and each starts where the one
  before ends.
\<close>

definition run_ends :: "(nat \<Rightarrow> nat option) \<Rightarrow> nat list" where
  "run_ends f = sorted_list_of_set (breaks f)"

definition run_starts :: "(nat \<Rightarrow> nat option) \<Rightarrow> nat list" where
  "run_starts f = 0 # run_ends f"

lemma run_ends_of_runs:
  assumes "proper ps"
  shows "run_ends (sector_at 0 ps) = map (\<lambda>p. unat (NextVbn p)) ps"
proof -
  let ?n = "\<lambda>p. unat (NextVbn p)"
  have "breaks (sector_at 0 ps) = set (map ?n ps)"
    using breaks_of_runs [of 0 "Some 0" ps] assms by (auto simp: breaks_def proper_def)
  moreover obtain e where "runs_to (0, Some 0) ps = Some e" using assms runs_fromD unfolding proper_def by blast
  then have "sorted_wrt (<) (map ?n ps)" using runs_sorted by fastforce
  then have "sorted_list_of_set (set (map ?n ps)) = map ?n ps"
    using sorted_list_of_set.idem_if_sorted_distinct strict_sorted_iff by blast
  ultimately show ?thesis by (simp add: run_ends_def)
qed

lemma runs_to_last: "runs_to (s, c) xs = Some (s', c') \<Longrightarrow> s' = last (s # map (\<lambda>p. unat (NextVbn p)) xs)"
proof (induction xs arbitrary: s c)
  case (Cons p ps)
  from Cons.prems obtain t d where "run_step (s, c) p = Some (t, d)" "runs_to (t, d) ps = Some (s', c')"
    by (auto split: option.splits)
  with Cons.IH [of t d] run_step_SomeD(1) [of s c p t d] show ?case by auto
qed simp

lemma run_by_number:
  assumes m: "holds m ps" "proper ps" and i: "unat i < length ps"
  obtains xs p ys s c where "edge_at m i xs (p # ys) s c" "located ps s xs p ys s c"
    "s = run_starts (sector_at 0 ps) ! unat i" "unat (NextVbn p) = run_ends (sector_at 0 ps) ! unat i"
proof -
  let ?k = "unat i" and ?n = "\<lambda>p. unat (NextVbn p)"
  let ?xs = "take ?k ps" and ?p = "ps ! ?k" and ?ys = "drop (Suc ?k) ps"
  have ps: "ps = ?xs @ ?p # ?ys" using i by (rule id_take_nth_drop)
  then have "runs_from (0, Some 0) (?xs @ ?p # ?ys)" using m(2) by (simp add: proper_def)
  then obtain s c where s: "runs_to (0, Some 0) ?xs = Some (s, c)" "runs_from (s, c) (?p # ?ys)"
    unfolding runs_from_append by blast
  then obtain t d where "run_step (s, c) ?p = Some (t, d)" by (auto split: option.splits)
  then have less: "s < ?n ?p" using run_step_SomeD [of s c ?p t d] by simp
  have "s = last (0 # map ?n ?xs)" by (rule runs_to_last [OF s(1)])
  also have "\<dots> = (0 # map ?n ps) ! ?k"
  proof (cases ?k)
    case (Suc j)
    then have "?xs \<noteq> []" "length ?xs = Suc j" "ps ! j = ?xs ! j" using i by auto
    then show ?thesis using Suc i by (simp add: last_map last_conv_nth)
  qed simp
  finally have "s = run_starts (sector_at 0 ps) ! ?k" by (simp add: run_starts_def run_ends_of_runs [OF m(2)])
  moreover have "?n ?p = run_ends (sector_at 0 ps) ! ?k" using i by (simp add: run_ends_of_runs [OF m(2)])
  moreover have "located ps s ?xs ?p ?ys s c" using ps s(1) less by (simp add: located_def)
  moreover have "edge_at m i ?xs (?p # ?ys) s c" using m(1) ps s(1) i by (simp add: edge_at_def)
  ultimately show thesis using that by blast
qed

lemma fill_high_part_used: "w \<noteq> UNUSED_LBN \<Longrightarrow> fill_high_part w = of_nat (unat w)"
  using ucast_of_unat [of w] unfolding fill_high_part_def by argo

lemma fill_high_part_unused: "fill_high_part UNUSED_LBN = - 1"
  unfolding fill_high_part_def UNUSED_LBN_def by (rule bit_word_eqI) (auto simp: bit_simps)

lemma below_unused: "unat w < 2 ^ 32 - 1 \<Longrightarrow> w \<noteq> UNUSED_LBN" for w :: ulong
  by (auto simp: UNUSED_LBN_def unsigned_minus_1_eq_mask mask_eq_exp_minus_1)

lemma FsRtlGetNextBaseMcbEntry_ok:
  assumes m: "holds m ps" "proper ps"
  shows "FsRtlGetNextBaseMcbEntry m i =
    (let f = sector_at 0 ps; s = run_starts f ! unat i; e = run_ends f ! unat i in
     if unat i < card (breaks f) then Some (of_nat s, lbn_answer (f s), of_nat (e - s)) else None)"
proof (cases "unat i < length ps")
  case False
  then show ?thesis
    using m(1) length_breaks(2) [OF m(2)] by (simp add: FsRtlGetNextBaseMcbEntry_def holds_def word_less_nat_alt)
next
  case True
  obtain xs p ys s c where e: "edge_at m i xs (p # ys) s c" and loc: "located ps s xs p ys s c"
      and s: "s = run_starts (sector_at 0 ps) ! unat i" and N: "unat (NextVbn p) = run_ends (sector_at 0 ps) ! unat i"
    by (rule run_by_number [OF m True])
  have less: "s < unat (NextVbn p)" "unat (NextVbn p) < 2 ^ 32"
    using loc unsigned_less [of "NextVbn p", where ?'a = nat] by (simp_all add: located_def)
  have st: "unat (StartingVbn m i) = s" by (rule StartingVbn_edge [OF e])
  have vbn: "fill_high_part (StartingVbn m i) = of_nat s"
    using fill_high_part_used [of "StartingVbn m i"] below_unused [of "StartingVbn m i"] st less by simp
  have lbn: "fill_high_part (StartingLbn m i) = lbn_answer (sector_at 0 ps s)"
  proof (cases "Lbn p = UNUSED_LBN")
    case True
    then show ?thesis
      using located_hole [OF loc True] less run_at_edge(2) [OF e] by (simp add: fill_high_part_unused lbn_answer_def)
  next
    case False
    then show ?thesis
      using located_run [OF loc False, of s] less run_at_edge(2) [OF e] by (simp add: fill_high_part_used lbn_answer_def)
  qed
  have "SectorsWithinRun m i = NextVbn p - StartingVbn m i"
    using run_at_edge(3) [OF e] by (simp add: SectorsWithinRun_def)
  then have "unat (SectorsWithinRun m i) = unat (NextVbn p) - s"
    using unat_minus_range [of "StartingVbn m i" "NextVbn p"] less st by simp
  then have count: "(ucast (SectorsWithinRun m i) :: ulonglong) = of_nat (unat (NextVbn p) - s)"
    by (simp only: ucast_of_unat)
  show ?thesis
    using run_at_edge(5) [OF e] True length_breaks(2) [OF m(2)]
    by (simp add: FsRtlGetNextBaseMcbEntry_def vbn lbn count s [symmetric] N [symmetric])
qed

text \<open>The last sector, read from the last pair.\<close>

lemma last_sector_ok:
  assumes m: "holds m ps" "proper ps"
  shows "0 < PairCount m \<longleftrightarrow> dom (sector_at 0 ps) \<noteq> {}"
    and "0 < PairCount m \<Longrightarrow> unat (EndingVbn m (PairCount m - 1)) = Max (dom (sector_at 0 ps))
      \<and> sector_at 0 ps (Max (dom (sector_at 0 ps))) = Some (unat (EndingLbn m (PairCount m - 1)))
      \<and> EndingVbn m (PairCount m - 1) \<noteq> UNUSED_LBN \<and> EndingLbn m (PairCount m - 1) \<noteq> UNUSED_LBN"
proof -
  let ?f = "sector_at 0 ps" and ?i = "PairCount m - 1"
  obtain t l where t: "runs_to (0, Some 0) ps = Some (t, Some l)" using m(2) runs_fromD unfolding proper_def by blast
  have pc: "0 < PairCount m \<longleftrightarrow> ps \<noteq> []"
    using m(1) by (simp add: holds_def word_less_nat_alt flip: length_greater_0_conv)
  have above: "?f x = None" if "t \<le> x" for x using sector_at_beyond [OF t that] .
  show "0 < PairCount m \<longleftrightarrow> dom ?f \<noteq> {}"
  proof (cases "ps = []")
    case False
    then have "?f (t - 1) \<noteq> None" using mapped_end(2) [OF m(2) t] by blast
    then show ?thesis using False pc by (auto simp: dom_def)
  qed (use pc in \<open>auto simp: dom_def\<close>)
  assume "0 < PairCount m"
  then have ne: "ps \<noteq> []" using pc by simp
  have k: "unat ?i = length ps - 1" using m(1) ne unat_pred [of "PairCount m"] by (simp add: holds_def)
  then have i: "unat ?i < length ps" using ne by simp
  obtain xs p ys s c where e: "edge_at m ?i xs (p # ys) s c" and loc: "located ps s xs p ys s c"
    by (rule run_by_number [OF m i])
  then have "length xs = length ps - 1" "ps = xs @ p # ys" using k by (simp_all add: edge_at_def located_def)
  then have ys: "ys = []" by (cases ys) auto
  then have step: "run_step (s, c) p = Some (t, Some l)"
    using t loc by (auto simp: located_def runs_to_append split: option.splits)
  then have N: "t = unat (NextVbn p)" "s < t" "t < 2 ^ 32" by (rule run_step_SomeD)+
  have used: "Lbn p \<noteq> UNUSED_LBN" using step by (auto simp: run_step.simps split: if_splits)
  have lt: "unat (Lbn p) + (t - s) < 2 ^ 32" "l = unat (Lbn p) + (t - s)"
    using run_step_run [OF step used] N(1) by auto
  have "EndingVbn m ?i = NextVbn p - 1" by (rule run_at_edge(3) [OF e])
  then have vbn: "unat (EndingVbn m ?i) = t - 1" using unat_pred [of "NextVbn p"] N by simp
  have "EndingLbn m ?i + 1 = of_nat l" using EndingLbn_run(1) [OF e step run_at_edge(1) [OF e]] by simp
  then have "EndingLbn m ?i = of_nat l - 1" by (simp add: eq_diff_eq)
  also have "\<dots> = of_nat (l - 1)" using lt N(2) by (simp add: of_nat_diff)
  finally have lbn: "unat (EndingLbn m ?i) = unat (Lbn p) + (t - 1 - s)"
    using unat_of_nat_range [of "l - 1", where 'a = 32] lt N(2) by simp
  have here: "?f (t - 1) = Some (unat (Lbn p) + (t - 1 - s))"
    using located_run [OF loc used, of "t - 1"] N by simp
  have "Max (dom ?f) = t - 1"
  proof (rule Max_eqI)
    have "dom ?f \<subseteq> {..<t}" using above by (force simp: not_less [symmetric])
    then show "finite (dom ?f)" by (rule finite_subset) simp
    show "t - 1 \<in> dom ?f" using here by blast
    show "x \<le> t - 1" if "x \<in> dom ?f" for x
      using \<open>dom ?f \<subseteq> {..<t}\<close> that by auto
  qed
  moreover have "EndingLbn m ?i \<noteq> UNUSED_LBN" using EndingLbn_run(2) [OF e step run_at_edge(1) [OF e]] by simp
  moreover have "EndingVbn m ?i \<noteq> UNUSED_LBN" using below_unused [of "EndingVbn m ?i"] vbn N by simp
  ultimately show "unat (EndingVbn m ?i) = Max (dom ?f) \<and> ?f (Max (dom ?f)) = Some (unat (EndingLbn m ?i))
      \<and> EndingVbn m ?i \<noteq> UNUSED_LBN \<and> EndingLbn m ?i \<noteq> UNUSED_LBN"
    using vbn lbn here by simp
qed

lemma FsRtlLookupLastBaseMcbEntry_ok:
  assumes m: "holds m ps" "proper ps"
  shows "FsRtlLookupLastBaseMcbEntry m = (let f = sector_at 0 ps; v = Max (dom f) in
      if dom f = {} then None else Some (of_nat v, of_nat (the (f v))))"
    and "FsRtlLookupLastBaseMcbEntryAndIndex m out = (let f = sector_at 0 ps; v = Max (dom f) in
      if dom f = {}
      then (False, fill_high_part (ucast (fst out)), fill_high_part (ucast (fst (snd out))), snd (snd out))
      else (True, of_nat v, of_nat (the (f v)), of_nat (card (breaks f) - 1)))"
proof -
  let ?f = "sector_at 0 ps" and ?i = "PairCount m - 1"
  have pc: "unat (PairCount m) = card (breaks ?f)" using m(1) length_breaks(2) [OF m(2)] by (simp add: holds_def)
  have i: "?i = of_nat (card (breaks ?f) - 1)" if "0 < PairCount m"
  proof -
    have "unat ?i = card (breaks ?f) - 1" using that unat_pred [of "PairCount m"] pc by (simp add: word_less_nat_alt)
    then have "(of_nat (unat ?i) :: ulong) = of_nat (card (breaks ?f) - 1)" by (simp only:)
    then show ?thesis by simp
  qed
  have "(FsRtlLookupLastBaseMcbEntry m = (if dom ?f = {} then None
        else Some (of_nat (Max (dom ?f)), of_nat (the (?f (Max (dom ?f)))))))
    \<and> (FsRtlLookupLastBaseMcbEntryAndIndex m out = (if dom ?f = {}
        then (False, fill_high_part (ucast (fst out)), fill_high_part (ucast (fst (snd out))), snd (snd out))
        else (True, of_nat (Max (dom ?f)), of_nat (the (?f (Max (dom ?f)))), of_nat (card (breaks ?f) - 1))))"
  proof (cases "0 < PairCount m")
    case False
    then show ?thesis
      using last_sector_ok(1) [OF m] by (simp add: FsRtlLookupLastBaseMcbEntry_def FsRtlLookupLastBaseMcbEntryAndIndex_def)
  next
    case True
    let ?v = "EndingVbn m ?i" and ?l = "EndingLbn m ?i"
    have last: "unat ?v = Max (dom ?f)" "unat ?l = the (?f (Max (dom ?f)))" "?v \<noteq> UNUSED_LBN" "?l \<noteq> UNUSED_LBN"
      using last_sector_ok(2) [OF m True] by simp_all
    have ne: "dom ?f \<noteq> {}" using last_sector_ok(1) [OF m] True by blast
    show ?thesis
      unfolding FsRtlLookupLastBaseMcbEntry_def FsRtlLookupLastBaseMcbEntryAndIndex_def if_P [OF True] if_not_P [OF ne]
        Let_def prod.case fill_high_part_used [OF last(3)] fill_high_part_used [OF last(4)] ucast_of_unat last(1,2)
      by (intro conjI refl arg_cong2 [where f = Pair] i [OF True])
  qed
  then show "FsRtlLookupLastBaseMcbEntry m = (let f = sector_at 0 ps; v = Max (dom f) in
      if dom f = {} then None else Some (of_nat v, of_nat (the (f v))))"
    "FsRtlLookupLastBaseMcbEntryAndIndex m out = (let f = sector_at 0 ps; v = Max (dom f) in
      if dom f = {}
      then (False, fill_high_part (ucast (fst out)), fill_high_part (ucast (fst (snd out))), snd (snd out))
      else (True, of_nat v, of_nat (the (f v)), of_nat (card (breaks f) - 1)))"
    unfolding Let_def by blast+
qed

lemma guarded_query:
  assumes "GuardedMutex M = Some False"
  shows "guarded (\<lambda>m. Some (m, Returned (q m))) M = Some (M, Returned (q (BaseMcb M)))"
  using guarded_ok [OF assms, of "\<lambda>m. Some (m, Returned (q m))" "BaseMcb M" "Returned (q (BaseMcb M))"] by simp

lemma uninitialize_ok:
  assumes "represents M f"
  shows "FsRtlUninitializeLargeMcb M = Some (M\<lparr>GuardedMutex := None\<rparr>)"
  using assms free_mapping_ok [of "BaseMcb M"]
  by (auto simp: represents_def holds_def FsRtlUninitializeLargeMcb_def FsRtlUninitializeBaseMcb_def)

section \<open>The properties\<close>

text \<open>
  C18: a large control block is a partial map from virtual to logical sectors. From initialisation on, any
  sequence of at most \<open>2\<^sup>2\<^sup>9\<close> additions, removals, truncations, splits and resets, with allocators that may raise,
  where additions and splits are of at least one sector, no logical sector is 0 and no sector number goes over
  32 bits (\<^const>\<open>all_allowed\<close>), returns or raises what an allocator raised, with the map changed as each operation promises: an addition is refused
  exactly when it contradicts the map or when the part not yet there is not at an end of the run, a removal leaves
  a hole, a split moves what is above up. No store leaves the buffer, which in the end goes back to the allocator it
  came from.
\<close>

theorem large_mcb_refines:
  assumes "allocates pool" "FsRtlInitializeLargeMcb pool None poolType M0 = Some (M, Returned ())"
    and "\<forall>p \<in> set (map fst ops). allocates p" "all_allowed ops Map.empty" "2 * length ops \<le> 2 ^ 30"
  shows "\<exists>M' cs f. perform_all ops M = Some (M', cs) \<and> specified_all ops Map.empty cs f \<and> represents M' f
    \<and> FsRtlUninitializeLargeMcb M' = Some (M'\<lparr>GuardedMutex := None\<rparr>)"
proof -
  have "breaks Map.empty = {}" by (auto simp: breaks_def joined_def)
  then show ?thesis
    using perform_all_refines [OF initialized_represents [OF assms(1,2)], of ops] assms(3-5) uninitialize_ok
    by fastforce
qed

text \<open>Allocators that always have memory, and one that never has.\<close>

definition fresh_pool :: allocator where
  "fresh_pool m request = Inr (replicate (allocated_pairs request) \<lparr>NextVbn = 0, Lbn = 0\<rparr>)"

definition exhausted_pool :: allocator where
  "exhausted_pool m request = Inl 0xC000009A"

lemma pools_allocate: "allocates fresh_pool" "allocates exhausted_pool"
  by (auto simp: allocates_def fresh_pool_def exhausted_pool_def)

definition sample_mcb :: "nat \<Rightarrow> large_mcb" where
  "sample_mcb k = \<lparr>GuardedMutex = Some False, BaseMcb = \<lparr>MaximumPairCount = 15, PairCount = 2, PoolType = PagedPool,
     Mapping = [\<lparr>NextVbn = 5, Lbn = UNUSED_LBN\<rparr>, \<lparr>NextVbn = 8, Lbn = 100\<rparr>]
       @ replicate 13 \<lparr>NextVbn = of_nat k, Lbn = of_nat k\<rparr>,
     MappingSource = FirstMapping\<rparr>\<rparr>"

abbreviation sample_pairs :: "MAPPING list" where
  "sample_pairs \<equiv> [\<lparr>NextVbn = 5, Lbn = UNUSED_LBN\<rparr>, \<lparr>NextVbn = 8, Lbn = 100\<rparr>]"

lemma sample_represents: "represents (sample_mcb k) (sector_at 0 sample_pairs)"
  unfolding represents_def
  by (intro conjI exI [of _ sample_pairs])
     (simp_all add: sample_mcb_def holds_def buffer_def proper_def run_step.simps INITIAL_MAXIMUM_PAIR_COUNT_def
        UNUSED_LBN_def)

abbreviation sample_operations :: "(allocator \<times> mcb_operation) list" where
  "sample_operations \<equiv> [(fresh_pool, AddEntry 5 100 3), (exhausted_pool, RemoveEntry 6 1),
     (fresh_pool, TruncateAt 7), (fresh_pool, ResetAll False)]"

lemma large_mcb_refines_witness:
  "\<exists>M M' cs f. FsRtlInitializeLargeMcb fresh_pool None PagedPool (sample_mcb 0) = Some (M, Returned ())
    \<and> perform_all sample_operations M = Some (M', cs) \<and> specified_all sample_operations Map.empty cs f
    \<and> represents M' f"
proof -
  obtain M where M: "FsRtlInitializeLargeMcb fresh_pool None PagedPool (sample_mcb 0) = Some (M, Returned ())"
    by (simp add: FsRtlInitializeLargeMcb_def FsRtlInitializeBaseMcb_def fresh_pool_def Let_def)
  have "all_allowed sample_operations Map.empty" by (simp add: low_part_def)
  with large_mcb_refines [OF pools_allocate(1) M, of sample_operations] pools_allocate M show ?thesis by auto
qed

text \<open>
  C19: looking up a sector answers by the map: nothing when no mapped sector is at it or above; otherwise where it
  lies, or all ones for a hole, with the stretch of sectors around it over which the map continues, how much of
  the stretch is left, where the stretch starts, and the number of stretches before it. The binary search
  ends, with its signed 32-bit indices.
\<close>

theorem large_mcb_lookup:
  assumes "represents M f" "card (breaks f) \<le> 2 ^ 30"
  shows "FsRtlLookupLargeMcbEntry vbn M = Some (M, Returned None) \<and> (\<forall>x \<ge> low_part vbn. f x = None)
    \<or> (\<exists>s n. run_of f (low_part vbn) s n \<and> (\<exists>x \<ge> low_part vbn. f x \<noteq> None)
        \<and> FsRtlLookupLargeMcbEntry vbn M = Some (M, Returned (Some \<lparr>
             LargeLbn = lbn_answer (f (low_part vbn)),
             LargeSectorCount = of_nat (s + n - low_part vbn),
             LargeStartingLbn = lbn_answer (f s),
             LargeCountFromStartingLbn = of_nat n,
             RunIndex = of_nat (card {b \<in> breaks f. b \<le> low_part vbn}) \<rparr>)))"
proof -
  obtain ps where ps: "GuardedMutex M = Some False" "holds (BaseMcb M) ps" "proper ps" "sector_at 0 ps = f"
    using assms(1) by (auto simp: represents_def)
  have "length ps \<le> 2 ^ 30" using length_breaks(2) [OF ps(3)] assms(2) ps(4) by simp
  moreover have "FsRtlLookupLargeMcbEntry vbn M = Some (M, Returned r)" if "FsRtlLookupBaseMcbEntry (BaseMcb M) vbn = Some r"
    for r
    using guarded_ok [OF ps(1), of "\<lambda>m. FsRtlLookupBaseMcbEntry m vbn \<bind> (\<lambda>r. Some (m, Returned r))"] that
    by (simp add: FsRtlLookupLargeMcbEntry_def)
  ultimately show ?thesis using FsRtlLookupBaseMcbEntry_ok [OF ps(2,3), of vbn] ps(4) by fast
qed

lemma large_mcb_lookup_witness:
  "\<exists>r. FsRtlLookupLargeMcbEntry 6 (sample_mcb 0) = Some (sample_mcb 0, Returned (Some r)) \<and> LargeLbn r = 101"
proof -
  let ?f = "sector_at 0 sample_pairs"
  have "proper sample_pairs" by (simp add: proper_def run_step.simps UNUSED_LBN_def)
  then have "card (breaks ?f) \<le> 2 ^ 30" using length_breaks(2) [of sample_pairs] by simp
  moreover have "?f 6 = Some 101" by (simp add: UNUSED_LBN_def)
  moreover have "low_part 6 = 6" by (simp add: low_part_def)
  ultimately show ?thesis
    using large_mcb_lookup [OF sample_represents [of 0], of 6] by (auto simp: lbn_answer_def)
qed

text \<open>
  C20: the control block depends on the map only, not on how the map came about, as the module's header
  says of the order in which runs are added. All other queries are answered by the map: the number of
  runs is that of its breaks; run number i goes from the break before (or sector 0) to its own break, with the
  logical sector of its first sector, all ones for a hole, and there is no run after the last; the last
  sector is the greatest one mapped, with its logical sector and the index of the last run; when there
  is none, what the caller passed in comes back but for the high halves. So two control blocks for one
  map answer alike.
\<close>

theorem large_mcb_canonical:
  assumes "represents M f"
  shows "FsRtlNumberOfRunsInLargeMcb M = Some (M, Returned (of_nat (card (breaks f))))
    \<and> FsRtlGetNextLargeMcbEntry i M = Some (M, Returned
        (let s = run_starts f ! unat i; e = run_ends f ! unat i in
         if unat i < card (breaks f) then Some (of_nat s, lbn_answer (f s), of_nat (e - s)) else None))
    \<and> FsRtlLookupLastLargeMcbEntry M = Some (M, Returned
        (let v = Max (dom f) in if dom f = {} then None else Some (of_nat v, of_nat (the (f v)))))
    \<and> FsRtlLookupLastLargeMcbEntryAndIndex out M = Some (M, Returned
        (let v = Max (dom f) in
         if dom f = {}
         then (False, fill_high_part (ucast (fst out)), fill_high_part (ucast (fst (snd out))), snd (snd out))
         else (True, of_nat v, of_nat (the (f v)), of_nat (card (breaks f) - 1))))"
proof -
  obtain ps where ps: "holds (BaseMcb M) ps" "proper ps" "sector_at 0 ps = f" "GuardedMutex M = Some False"
    using assms by (auto simp: represents_def)
  have "unat (PairCount (BaseMcb M)) = card (breaks f)"
    using ps(1) length_breaks(2) [OF ps(2)] ps(3) by (simp add: holds_def)
  then have "(of_nat (unat (PairCount (BaseMcb M))) :: ulong) = of_nat (card (breaks f))" by (simp only:)
  then have "FsRtlNumberOfRunsInBaseMcb (BaseMcb M) = of_nat (card (breaks f))"
    by (simp add: FsRtlNumberOfRunsInBaseMcb_def)
  then show ?thesis
    using FsRtlGetNextBaseMcbEntry_ok [OF ps(1,2), of i] FsRtlLookupLastBaseMcbEntry_ok(1) [OF ps(1,2)]
      FsRtlLookupLastBaseMcbEntry_ok(2) [OF ps(1,2), of out] ps(3)
    by (simp add: FsRtlNumberOfRunsInLargeMcb_def FsRtlGetNextLargeMcbEntry_def FsRtlLookupLastLargeMcbEntry_def
        FsRtlLookupLastLargeMcbEntryAndIndex_def guarded_query [OF ps(4)] Let_def)
qed

lemma large_mcb_canonical_witness:
  "FsRtlGetNextLargeMcbEntry 1 (sample_mcb 7) = Some (sample_mcb 7, Returned (Some (5, 100, 3)))
    \<and> FsRtlLookupLastLargeMcbEntry (sample_mcb 7) = Some (sample_mcb 7, Returned (Some (7, 102)))"
proof -
  let ?f = "sector_at 0 sample_pairs"
  have proper: "proper sample_pairs" by (simp add: proper_def run_step.simps UNUSED_LBN_def)
  have ends: "run_ends ?f = [5, 8]" using run_ends_of_runs [OF proper] by simp
  then have starts: "run_starts ?f = [0, 5, 8]" by (simp add: run_starts_def)
  have card: "card (breaks ?f) = 2" using length_breaks(2) [OF proper] by simp
  have dom: "dom ?f = {5, 6, 7}" by (auto simp: dom_def UNUSED_LBN_def split: if_splits)
  have f: "?f 5 = Some 100" "?f 7 = Some 102" by (simp_all add: UNUSED_LBN_def)
  have "Max (dom ?f) = 7" unfolding dom by simp
  then show ?thesis
    using large_mcb_canonical [OF sample_represents [of 7], of 1] dom f ends starts card
    by (simp add: lbn_answer_def Let_def)
qed

section \<open>What the operations leave out\<close>

text \<open>
  Additions of no sectors are not \<^const>\<open>allowed\<close> above, although \<^verbatim>\<open>FsRtlAddBaseMcbEntry\<close> does not refuse them:
  beyond the last run, or in a hole, it inserts a run of no sectors, which the next query counts.
\<close>

lemma adding_no_sectors:
  "map_option (\<lambda>(M, c). (c, map (\<lambda>p. (NextVbn p, Lbn p)) (pairs (BaseMcb M))))
     (FsRtlAddLargeMcbEntry fresh_pool 8 300 0 (sample_mcb 0)) =
   Some (Returned True, [(5, UNUSED_LBN), (8, 100), (8, 300)])"
  by code_simp

end
