(* ===== verification/Spec2Isabelle.thy ===== *)
theory Spec2Isabelle
  imports Access_Check_Lists Dispatcher_Theorems Time_Theorems Integer_Text_Theorems Name_Match_Theorems
    Rundown_Theorems Bitmap_Theorems Mcb_Theorems
begin

text \<open>
  Verification of core components of the Windows Research Kernel.  File names below are relative to
  \<^verbatim>\<open>WindowsResearchKernel-WRK/WRK-v1.2/base/ntos\<close>.

  \<^bold>\<open>The program.\<close>  The repository holds the kernel (\<^verbatim>\<open>ntos\<close>, in C with assembler for the two
  processors), its public headers and course material.  The kernel is layered: the run-time
  library (\<^verbatim>\<open>rtl\<close>) and the dispatcher (\<^verbatim>\<open>ke\<close>) at the bottom, executive support (\<^verbatim>\<open>ex\<close>), and above
  them the managers of objects, memory, processes, files and the registry, which ask the security
  reference monitor (\<^verbatim>\<open>se\<close>) before they open anything.  The development takes the parts whose logic
  is the kernel's own and can be stated without the hardware: who is granted access, who waits and
  who is woken, when an object may be torn down, and the library routines that the rest of the
  kernel computes with.

  \<^bold>\<open>The theories.\<close>  \<^verbatim>\<open>Prelude\<close> has the machine types (a \<^verbatim>\<open>ULONG\<close> is a 32-bit word, a \<^verbatim>\<open>LONG\<close> the same
  word read with its sign), status codes, and the lemmas on masks, index ranges and word arithmetic
  within range that the components share.  For each component a theory of definitions comes first,
  then its facts, then a theory with the properties, each followed by a witness at a concrete input.

  \<^item> Access check.  \<^verbatim>\<open>Security_Ids\<close> models SIDs, LUIDs, access masks, tokens and privileges
    (\<^verbatim>\<open>rtl/sertl.c\<close>, \<^verbatim>\<open>se/privileg.c\<close>, the token fields of \<^verbatim>\<open>se/token.c\<close>); \<^verbatim>\<open>Type_List\<close> the object type
    lists and \<^verbatim>\<open>Access_Check\<close> the two walks over a DACL, \<^verbatim>\<open>SepAccessCheck\<close>, \<^verbatim>\<open>SeAccessCheck\<close> and
    \<^verbatim>\<open>SeFastTraverseCheck\<close> (\<^verbatim>\<open>se/accessck.c\<close>).  A DACL is a list of entries, a type list a list of
    records.  \<^verbatim>\<open>Type_List_Facts\<close>: capture gives a well formed tree and propagation keeps it summarised.
    \<^verbatim>\<open>Access_Check_Facts\<close>, \<^verbatim>\<open>Access_Check_Properties\<close>, \<^verbatim>\<open>Access_Check_Lists\<close>: the code decides as the
    specification of ordered entries says, grants nothing without a reason, stores nothing on
    denial, and what is granted to a request for everything agrees with the requests one by one;
    lemmas at the end show where restricted tokens and object-specific deny entries break this.
  \<^item> Dispatcher.  \<^verbatim>\<open>Dispatcher\<close>, \<^verbatim>\<open>Dispatcher_Ops\<close> and \<^verbatim>\<open>Dispatcher_Wait\<close> model events, semaphores, mutants,
    waits and alerts (\<^verbatim>\<open>ke/eventobj.c\<close>, \<^verbatim>\<open>ke/semphobj.c\<close>, \<^verbatim>\<open>ke/mutntobj.c\<close>, \<^verbatim>\<open>ke/waitsup.c\<close>, \<^verbatim>\<open>ke/wait.c\<close>,
    \<^verbatim>\<open>ke/thredobj.c\<close>) as operations on one state of objects, threads and wait blocks; the dispatcher
    lock makes each of them atomic.  Loops that could run for ever return \<^const>\<open>None\<close> then.
    \<^verbatim>\<open>Dispatcher_Facts\<close> has the invariant (wait lists and wait blocks agree, and nobody waits for what
    is available) and a locale for the tests that walk a wait list, interpreted on the three of the
    code; \<^verbatim>\<open>Dispatcher_Invariant\<close>: every operation returns and keeps it; \<^verbatim>\<open>Dispatcher_Properties\<close>: the
    dispatcher as a transition system; \<^verbatim>\<open>Dispatcher_Effects\<close>, \<^verbatim>\<open>Dispatcher_Theorems\<close>: who is woken.
  \<^item> Time.  \<^verbatim>\<open>Time_Fields\<close> models \<^verbatim>\<open>rtl/time.c\<close>, with the reciprocal multiplications and tables of the
    code; \<^verbatim>\<open>Time_Facts\<close>, \<^verbatim>\<open>Time_Calendar\<close> and \<^verbatim>\<open>Time_Conversion\<close> relate it to the civil calendar, defined
    as the date after a date.
  \<^item> Integers and text.  \<^verbatim>\<open>Integer_Text\<close> models \<^verbatim>\<open>rtl/cnvint.c\<close>; the facts and theorems give the round
    trip, the bounds of reads and writes, and the calls that leave them.
  \<^item> Names.  \<^verbatim>\<open>Name_Match\<close> models \<^verbatim>\<open>fsrtl/name.c\<close>: the two-array simulation of an expression with wild
    cards, whose states are 16-bit words.  Its specification is the language that the comment in the
    file describes, from which the code departs in one case, stated with it.
  \<^item> Rundown protection.  \<^verbatim>\<open>Rundown\<close> models \<^verbatim>\<open>ex/rundown.c\<close> and the inline routines of \<^verbatim>\<open>inc/ex.h\<close> as an
    inductive step relation: any number of threads acquire and release while one waits, and every
    interlocked operation is a step.  \<^verbatim>\<open>Rundown_Facts\<close> has the invariant that accounts for every
    reference.
  \<^item> Bitmaps.  \<^verbatim>\<open>Bitmap\<close> (memory, bits, ranges), \<^verbatim>\<open>Bitmap_Search\<close> (the four strategies of
    \<^verbatim>\<open>RtlpFindClearBitsRange\<close> and the allocation over it) and \<^verbatim>\<open>Bitmap_Scan\<close> (tests, counts, scans) model
    \<^verbatim>\<open>rtl/bitmap.c\<close> for the 64-bit build.  \<^verbatim>\<open>Bitmap_Facts\<close>: the range operations assign exactly the bits
    of the range (one locale, interpreted on setting and on clearing), bit scans, and the shift and
    mask loop; \<^verbatim>\<open>Bitmap_Runs\<close> and \<^verbatim>\<open>Bitmap_Short_Runs\<close>: each strategy returns, and returns the first run;
    \<^verbatim>\<open>Bitmap_Find\<close>: with the second pass and the aligned buffer this is first fit once round the map;
    \<^verbatim>\<open>Bitmap_Scan_Facts\<close>, \<^verbatim>\<open>Bitmap_Count\<close>, \<^verbatim>\<open>Bitmap_Forward\<close>: the tests of a range, the two forms of the
    bit scans, the parallel count of a chunk and the forward scan.
  \<^item> Mapped control blocks.  \<^verbatim>\<open>Mcb\<close> (the pairs, their macros, the binary search and the buffer),
    \<^verbatim>\<open>Mcb_Update\<close> (adding, removing, truncating, splitting) and \<^verbatim>\<open>Mcb_Lookup\<close> (the queries, the large
    control block with its mutex, the small one) model \<^verbatim>\<open>fsrtl/largemcb.c\<close>.  An operation gives the new
    structure with what it returned or the status an allocation raised, and \<^const>\<open>None\<close> if it left its
    buffer or did not return.  The specification is a partial map from virtual to logical sectors.
    \<^verbatim>\<open>Mcb_Runs\<close>: what a list of pairs means, and that a proper list is determined by its map;
    \<^verbatim>\<open>Mcb_Facts\<close>, \<^verbatim>\<open>Mcb_Find\<close>, \<^verbatim>\<open>Mcb_Buffer\<close>: the macros, the search and the buffer on such a list;
    \<^verbatim>\<open>Mcb_Insert\<close>, \<^verbatim>\<open>Mcb_Add\<close>, \<^verbatim>\<open>Mcb_Remove\<close>, \<^verbatim>\<open>Mcb_Split\<close>: each operation changes the map as it promises;
    \<^verbatim>\<open>Mcb_Raise\<close>: what is raised was raised by the allocator; \<^verbatim>\<open>Mcb_Refine\<close>, \<^verbatim>\<open>Mcb_Theorems\<close>: sequences of
    operations refine those of the map, and the queries read the map.

  \<^bold>\<open>How the parts meet.\<close>  The access check reads the tokens, SIDs and masks of \<^verbatim>\<open>Security_Ids\<close> and the
  trees of \<^verbatim>\<open>Type_List\<close>.  Rundown protection waits on an event: the part of the dispatcher it uses is
  one flag, set once and waited for once, as \<^verbatim>\<open>KeSetEvent\<close> on a synchronization event does in the
  dispatcher theories.  Allocation in a bitmap composes the search with the assignment of a range.

  \<^bold>\<open>Parameters.\<close>  Four things come from outside of the modelled files and are arguments: the upcase
  table loaded at boot time, the outcome of pool allocations, the allocators of mapping buffers
  (they raise a status, or give a buffer of the number of pairs asked for, with any contents), and
  the time zone bias.

  \<^bold>\<open>Loops and bounds.\<close>  Fuel occurs once: the search for a weekday in a month (\<^verbatim>\<open>Time_Fields\<close>) counts
  its weeks, at most five.  Loops with a decreasing count are functions with a
  termination proof; the others are partial functions into an option type, and that they return is
  proved with what they return (\<^verbatim>\<open>SepAccessCheck_returns\<close>, \<^verbatim>\<open>operations_return\<close>,
  \<^verbatim>\<open>RtlFindClearBits_first_fit\<close>, \<^verbatim>\<open>RtlNumberOfSetBits_counts\<close>).  Where a theorem bounds its input the
  bound comes from the width of a variable: names of fewer than 16384 characters (states are four
  times an offset, in 16 bits), bitmaps of fewer than \<open>2\<^sup>3\<^sup>1\<close> bits (a hint plus a length, in 32),
  control blocks of up to \<open>2\<^sup>3\<^sup>0\<close> pairs (the binary search adds two signed indices).

  \<^bold>\<open>Not modelled.\<close>  Memory management, the registry, I/O, the cache, objects, processes, ports, the
  scheduler, traps and interrupts: their state is shared with the hardware or with drivers that are
  not in the repository, and their code is mostly calls between each other.  Within the modelled
  files: the system calls that capture handles and user memory around the access check, the
  construction and inheritance of security descriptors, token creation; thread suspension,
  priorities, queues and timers of their own; the allocation of cache-aware rundown structures; the
  waiting for the mutex of a control block and the set-up of its lookaside lists; the
  collection of runs in an array by \<^verbatim>\<open>RtlFindClearRuns\<close>, and debugging output.  The assertions of
  debug builds are not statements of the model; where a theorem needs one it is a hypothesis.  What a theorem leaves out of a modelled routine is in the text before it:
  kernel mode and objects without a security descriptor in the access check, waits for all of a
  list that names an object twice, additions and splits of no sectors, the next cutover of a later
  year, and rundown counts of \<open>2\<^sup>3\<^sup>1\<close> and more.
\<close>

end
